(* ===== verification/Prelude.thy ===== *)
theory Prelude
  imports Main "HOL-Library.Char_ord" "HOL-Library.List_Lexorder"
    "HOL-Library.Product_Lexorder" "HOL-Library.Sublist" "HOL-Library.Multiset"
begin

text \<open>
  What every component shares: Rust's signed 64-bit integers, the ordered containers
  \<open>BTreeMap\<close> and \<open>BTreeSet\<close>, stable sorting by a key, and the contracts (locales) that the
  components rely on:
  \<^item> \<open>keyed_map\<close>: what a client may assume of any map; interpreted on \<open>index_map\<close> (\<open>IndexMap\<close>);
  \<^item> \<open>ordered_map\<close>, which extends it: what a client may assume of \<open>BTreeMap\<close>; interpreted on
    \<open>btree_map\<close>, an association list in strictly ascending key order;
  \<^item> \<open>ordered_set\<close>: the same for \<open>BTreeSet\<close>, interpreted on \<open>btree_set\<close>;
  \<^item> \<open>closure_loop\<close>: what a propagation loop promises (it returns the least set that holds the
    seeds and is closed under the edges), with the reachability facts that follow.
\<close>

named_theorems bt_simps "lookups and memberships in the ordered containers"
named_theorems bt_invar "the ordered containers stay strictly ascending"

lemma set_map_filter_iff: "set (List.map_filter f xs) = {y. \<exists>x \<in> set xs. f x = Some y}"
  by (induction xs) (auto simp: List.map_filter_simps split: option.splits)

lemma set_fold_Un:
  "(\<And>x u. x \<in> set xs \<Longrightarrow> set (f x u) = set u \<union> g x) \<Longrightarrow> set (fold f xs u) = set u \<union> (\<Union>x \<in> set xs. g x)"
  by (induction xs arbitrary: u) auto

lemma in_snd_image: "y \<in> snd ` S \<longleftrightarrow> (\<exists>x. (x, y) \<in> S)"
  by force

lemma map_of_rev: "distinct (map fst kvs) \<Longrightarrow> map_of (rev kvs) = map_of kvs"
  by (simp add: map_of_inject_set rev_map[symmetric])

lemma ex_list_Cons: "\<not> P [] \<Longrightarrow> (\<exists>xs. P xs) \<longleftrightarrow> (\<exists>x xs. P (x # xs))"
  by (metis list.exhaust)

text \<open>Pairs of positions \<open>i < j\<close> of a list with one more element in front.\<close>

lemma ex_pair_Suc:
  "(\<exists>i j. i < j \<and> j < Suc n \<and> Q i j) \<longleftrightarrow>
     (\<exists>j < n. Q 0 (Suc j)) \<or> (\<exists>i j. i < j \<and> j < n \<and> Q (Suc i) (Suc j))"
  (is "?l \<longleftrightarrow> ?r")
proof
  assume ?l
  then obtain i j where ij: "i < j" "j < Suc n" "Q i j" by blast
  then obtain j' where "j = Suc j'" by (cases j) auto
  with ij show ?r by (cases i) auto
next
  assume ?r
  then consider j where "j < n" "Q 0 (Suc j)" | i j where "i < j" "j < n" "Q (Suc i) (Suc j)" by blast
  then show ?l
  proof cases
    case (1 j)
    then show ?thesis by (intro exI[of _ 0] exI[of _ "Suc j"]) simp
  next
    case (2 i j)
    then show ?thesis by (intro exI[of _ "Suc i"] exI[of _ "Suc j"]) simp
  qed
qed

section \<open>Signed 64-bit integers\<close>

text \<open>
  An \<open>i64\<close> is an \<open>int\<close>; where the source adds or multiplies, the result is wrapped to 64 bits
  (a release build; a debug build panics exactly where \<open>wrap64\<close> changes the value), and where it
  says \<open>saturating_add\<close> or \<open>saturating_sub\<close>, the result is clamped.
\<close>

definition i64_min :: int where "i64_min = - 9223372036854775808"

definition i64_max :: int where "i64_max = 9223372036854775807"

definition is_i64 :: "int \<Rightarrow> bool" where
  "is_i64 x \<longleftrightarrow> i64_min \<le> x \<and> x \<le> i64_max"

definition wrap64 :: "int \<Rightarrow> int" where
  "wrap64 x = (x + 9223372036854775808) mod 18446744073709551616 - 9223372036854775808"

definition sat64 :: "int \<Rightarrow> int" where
  "sat64 x = max i64_min (min i64_max x)"

lemmas i64_defs = i64_min_def i64_max_def is_i64_def

lemma wrap64_id [simp]: "is_i64 x \<Longrightarrow> wrap64 x = x"
  by (simp add: wrap64_def i64_defs)

lemma is_i64_wrap64 [simp]: "is_i64 (wrap64 x)"
proof -
  have "0 \<le> (x + 9223372036854775808) mod 18446744073709551616"
    and "(x + 9223372036854775808) mod 18446744073709551616 < 18446744073709551616"
    by simp_all
  then show ?thesis unfolding wrap64_def i64_defs by linarith
qed

lemma is_i64_sat64 [simp]: "is_i64 (sat64 x)"
  by (simp add: sat64_def i64_defs)

lemma sat64_id [simp]: "is_i64 x \<Longrightarrow> sat64 x = x"
  by (simp add: sat64_def i64_defs)

section \<open>Ordered maps\<close>

text \<open>
  \<open>BTreeMap\<close>: the entries in ascending key order. \<open>bt_get\<close>, \<open>bt_insert\<close>, \<open>bt_remove\<close>,
  \<open>bt_retain\<close> and \<open>bt_or_insert\<close> are \<open>get\<close>, \<open>insert\<close>, \<open>remove\<close>, \<open>retain\<close> and
  \<open>entry(k).or_insert(v)\<close>; \<open>bt_collect\<close> is \<open>collect\<close> from an iterator of pairs, which inserts
  them one after the other, so that the last value of a key wins.
\<close>

type_synonym ('k, 'v) btree_map = "('k \<times> 'v) list"

definition bt_get :: "('k, 'v) btree_map \<Rightarrow> 'k \<Rightarrow> 'v option" where
  "bt_get m k = map_of m k"

fun bt_insert :: "'k::linorder \<Rightarrow> 'v \<Rightarrow> ('k, 'v) btree_map \<Rightarrow> ('k, 'v) btree_map" where
  "bt_insert k v [] = [(k, v)]"
| "bt_insert k v ((k', v') # m) =
     (if k < k' then (k, v) # (k', v') # m
      else if k = k' then (k, v) # m
      else (k', v') # bt_insert k v m)"

definition bt_remove :: "'k \<Rightarrow> ('k, 'v) btree_map \<Rightarrow> ('k, 'v) btree_map" where
  "bt_remove k m = filter (\<lambda>(k', _). k' \<noteq> k) m"

definition bt_retain :: "('k \<Rightarrow> bool) \<Rightarrow> ('k, 'v) btree_map \<Rightarrow> ('k, 'v) btree_map" where
  "bt_retain P m = filter (\<lambda>(k, _). P k) m"

definition bt_or_insert :: "'k::linorder \<Rightarrow> 'v \<Rightarrow> ('k, 'v) btree_map \<Rightarrow> ('k, 'v) btree_map" where
  "bt_or_insert k v m = (case bt_get m k of None \<Rightarrow> bt_insert k v m | Some _ \<Rightarrow> m)"

definition bt_collect :: "('k::linorder \<times> 'v) list \<Rightarrow> ('k, 'v) btree_map" where
  "bt_collect kvs = fold (\<lambda>(k, v). bt_insert k v) kvs []"

definition bt_keys :: "('k, 'v) btree_map \<Rightarrow> 'k list" where
  "bt_keys m = map fst m"

definition bt_has :: "('k, 'v) btree_map \<Rightarrow> 'k \<Rightarrow> bool" where
  "bt_has m k \<longleftrightarrow> bt_get m k \<noteq> None"

definition bt_ok :: "('k::linorder, 'v) btree_map \<Rightarrow> bool" where
  "bt_ok m \<longleftrightarrow> sorted_wrt (<) (map fst m)"

text \<open>
  The contract of a map, and what a client derives from it; an ordered map also lists its
  entries in ascending key order.
\<close>

locale keyed_map =
  fixes empty :: "'m"
    and get :: "'m \<Rightarrow> 'k \<Rightarrow> 'v option"
    and insert :: "'k \<Rightarrow> 'v \<Rightarrow> 'm \<Rightarrow> 'm"
    and invar :: "'m \<Rightarrow> bool"
  assumes get_empty: "get empty = Map.empty"
    and get_insert: "invar m \<Longrightarrow> get (insert k v m) = (get m)(k \<mapsto> v)"
    and invar_empty: "invar empty"
    and invar_insert: "invar m \<Longrightarrow> invar (insert k v m)"
begin

lemma invar_fold: "invar m \<Longrightarrow> invar (fold (\<lambda>(k, v). insert k v) kvs m)"
  by (induction kvs arbitrary: m) (auto simp: invar_insert)

text \<open>Collecting pairs: the last value of each key wins.\<close>

lemma get_fold: "invar m \<Longrightarrow> get (fold (\<lambda>(k, v). insert k v) kvs m) = get m ++ map_of (rev kvs)"
proof (induction kvs arbitrary: m)
  case Nil
  then show ?case by simp
next
  case (Cons kv kvs)
  obtain k v where kv: "kv = (k, v)" by (cases kv)
  have "get (fold (\<lambda>(k, v). insert k v) kvs (insert k v m)) = get (insert k v m) ++ map_of (rev kvs)"
    using Cons by (simp add: invar_insert)
  then show ?case using Cons.prems
    by (auto simp: kv get_insert map_add_def fun_eq_iff split: option.splits)
qed

end

locale ordered_map = keyed_map empty get insert invar
  for empty :: "'m" and get :: "'m \<Rightarrow> 'k::linorder \<Rightarrow> 'v option"
    and insert :: "'k \<Rightarrow> 'v \<Rightarrow> 'm \<Rightarrow> 'm" and invar :: "'m \<Rightarrow> bool" +
  fixes remove :: "'k \<Rightarrow> 'm \<Rightarrow> 'm"
    and entries :: "'m \<Rightarrow> ('k \<times> 'v) list"
  assumes get_remove: "invar m \<Longrightarrow> get (remove k m) = (get m)(k := None)"
    and invar_remove: "invar m \<Longrightarrow> invar (remove k m)"
    and entries_get: "invar m \<Longrightarrow> map_of (entries m) = get m"
    and entries_sorted: "invar m \<Longrightarrow> sorted_wrt (<) (map fst (entries m))"
begin

lemma entries_mem: "invar m \<Longrightarrow> (k, v) \<in> set (entries m) \<longleftrightarrow> get m k = Some v"
  using entries_get[of m] entries_sorted[of m] map_of_eq_Some_iff[of "entries m" k v]
  by (simp add: strict_sorted_iff)

lemma entries_keys: "invar m \<Longrightarrow> set (map fst (entries m)) = dom (get m)"
  using entries_get[of m] dom_map_of_conv_image_fst[of "entries m"] by simp

text \<open>Two maps with the same lookups list the same entries: iteration is canonical.\<close>

lemma entries_unique:
  assumes "invar m" "invar m'" "get m = get m'"
  shows "entries m = entries m'"
proof -
  have sorted: "sorted (map fst (entries x))" "distinct (map fst (entries x))" if "invar x" for x
    using entries_sorted[OF that] by (auto simp: strict_sorted_iff)
  have set: "set (entries m) = set (entries m')"
    using entries_mem assms by auto
  have "inj_on fst (set (entries m) \<union> set (entries m'))"
    using sorted(2)[OF assms(1)] set by (simp add: distinct_map)
  then show ?thesis
    using map_sorted_distinct_set_unique sorted assms set by blast
qed

end

lemma bt_ok_Nil [bt_invar, simp]: "bt_ok []"
  by (simp add: bt_ok_def)

lemma bt_insert_keys: "set (map fst (bt_insert k v m)) = insert k (set (map fst m))"
  by (induction k v m rule: bt_insert.induct) auto

lemma bt_insert_get_map_of: "bt_ok m \<Longrightarrow> map_of (bt_insert k v m) = (map_of m)(k \<mapsto> v)"
proof (induction k v m rule: bt_insert.induct)
  case (1 k v)
  then show ?case by auto
next
  case (2 k v k' v' m)
  then show ?case by (auto simp: bt_ok_def fun_eq_iff)
qed

lemma bt_ok_insert [bt_invar]: "bt_ok m \<Longrightarrow> bt_ok (bt_insert k v m)"
proof (induction k v m rule: bt_insert.induct)
  case (1 k v)
  then show ?case by (simp add: bt_ok_def)
next
  case (2 k v k' v' m)
  then show ?case
    using bt_insert_keys[of k v m] by (auto simp: bt_ok_def dest: less_trans)
qed

lemma bt_ok_filter: "bt_ok m \<Longrightarrow> bt_ok (filter P m)"
  by (induction m) (auto simp: bt_ok_def)

lemma bt_ok_remove [bt_invar]: "bt_ok m \<Longrightarrow> bt_ok (bt_remove k m)"
  by (simp add: bt_remove_def bt_ok_filter)

lemma bt_ok_retain [bt_invar]: "bt_ok m \<Longrightarrow> bt_ok (bt_retain P m)"
  by (simp add: bt_retain_def bt_ok_filter)

lemma bt_get_retain [bt_simps]: "bt_get (bt_retain P m) k = (if P k then bt_get m k else None)"
  by (induction m) (auto simp: bt_get_def bt_retain_def)

lemma bt_get_remove [bt_simps]: "bt_get (bt_remove k m) k' = (if k' = k then None else bt_get m k')"
  by (induction m) (auto simp: bt_get_def bt_remove_def)

lemma bt_get_Nil [bt_simps, simp]: "bt_get [] k = None"
  by (simp add: bt_get_def)

interpretation btm: ordered_map "[]" bt_get bt_insert bt_ok bt_remove "\<lambda>m. m"
  by unfold_locales
    (auto simp: bt_get_def bt_insert_get_map_of bt_ok_insert bt_ok_remove fun_eq_iff
      bt_get_remove[unfolded bt_get_def] simp flip: bt_ok_def)

lemma bt_get_insert [bt_simps]:
  "bt_ok m \<Longrightarrow> bt_get (bt_insert k v m) k' = (if k' = k then Some v else bt_get m k')"
  by (simp add: btm.get_insert)

lemma bt_ok_collect [bt_invar, simp]: "bt_ok (bt_collect kvs)"
  unfolding bt_collect_def by (rule btm.invar_fold) simp

lemma bt_get_collect: "bt_get (bt_collect kvs) = map_of (rev kvs)"
  unfolding bt_collect_def by (simp add: btm.get_fold btm.get_empty)

lemma bt_get_collect_distinct:
  "distinct (map fst kvs) \<Longrightarrow> bt_get (bt_collect kvs) k = Some v \<longleftrightarrow> (k, v) \<in> set kvs"
  by (simp add: bt_get_collect rev_map[symmetric])

text \<open>Collecting the same pairs in another order gives the same map when the keys are distinct.\<close>

lemma bt_collect_perm:
  assumes "set kvs = set kvs'" and "distinct (map fst kvs)" and "distinct (map fst kvs')"
  shows "bt_collect kvs = bt_collect kvs'"
proof (rule btm.entries_unique)
  show "bt_get (bt_collect kvs) = bt_get (bt_collect kvs')"
    using assms map_of_inject_set[of "rev kvs" "rev kvs'"]
    by (simp add: bt_get_collect rev_map[symmetric])
qed simp_all

lemma bt_collect_ok: "bt_ok m \<Longrightarrow> bt_collect m = m"
proof (rule btm.entries_unique)
  assume ok: "bt_ok m"
  then have "distinct (map fst m)" by (simp add: bt_ok_def strict_sorted_iff)
  then show "bt_get (bt_collect m) = bt_get m"
    unfolding bt_get_collect bt_get_def by (simp add: map_of_rev fun_eq_iff)
qed simp_all

lemma bt_has_collect [bt_simps]: "bt_has (bt_collect kvs) k \<longleftrightarrow> k \<in> fst ` set kvs"
  by (simp add: bt_has_def bt_get_collect map_of_eq_None_iff)

lemma bt_ok_or_insert [bt_invar]: "bt_ok m \<Longrightarrow> bt_ok (bt_or_insert k v m)"
  by (auto simp: bt_or_insert_def bt_ok_insert split: option.splits)

lemma bt_get_or_insert [bt_simps]:
  "bt_ok m \<Longrightarrow> bt_get (bt_or_insert k v m) k' =
     (if k' = k \<and> bt_get m k = None then Some v else bt_get m k')"
  by (auto simp: bt_or_insert_def bt_get_insert split: option.splits)

lemma bt_has_iff_key: "bt_has m k \<longleftrightarrow> k \<in> set (bt_keys m)"
  by (simp add: bt_has_def bt_get_def bt_keys_def map_of_eq_None_iff)

lemma bt_keys_sorted: "bt_ok m \<Longrightarrow> sorted_wrt (<) (bt_keys m)"
  by (simp add: bt_ok_def bt_keys_def)

section \<open>Insertion-ordered maps\<close>

text \<open>
  \<open>IndexMap\<close>: the entries in the order their keys were first inserted; inserting a key again
  replaces its value in place.
\<close>

type_synonym ('k, 'v) index_map = "('k \<times> 'v) list"

definition im_get :: "('k, 'v) index_map \<Rightarrow> 'k \<Rightarrow> 'v option" where
  "im_get m k = map_of m k"

fun im_insert :: "'k \<Rightarrow> 'v \<Rightarrow> ('k, 'v) index_map \<Rightarrow> ('k, 'v) index_map" where
  "im_insert k v [] = [(k, v)]"
| "im_insert k v ((k', v') # m) = (if k = k' then (k, v) # m else (k', v') # im_insert k v m)"

definition im_ok :: "('k, 'v) index_map \<Rightarrow> bool" where
  "im_ok m \<longleftrightarrow> distinct (map fst m)"

lemma map_fst_im_insert:
  "map fst (im_insert k v m) = (if k \<in> fst ` set m then map fst m else map fst m @ [k])"
  by (induction k v m rule: im_insert.induct) auto

lemma im_get_insert: "im_get (im_insert k v m) k' = (if k' = k then Some v else im_get m k')"
  by (induction k v m rule: im_insert.induct) (auto simp: im_get_def)

lemma im_ok_insert: "im_ok m \<Longrightarrow> im_ok (im_insert k v m)"
  by (simp add: im_ok_def map_fst_im_insert)

interpretation imap: keyed_map "[]" im_get im_insert im_ok
proof unfold_locales
  show "im_get [] = Map.empty" by (simp add: im_get_def fun_eq_iff)
  show "im_ok []" by (simp add: im_ok_def)
qed (simp_all add: im_get_insert im_ok_insert fun_eq_iff)

lemma im_entry_iff: "im_ok m \<Longrightarrow> (k, v) \<in> set m \<longleftrightarrow> im_get m k = Some v"
  by (simp add: im_ok_def im_get_def)

section \<open>Ordered sets\<close>

text \<open>
  \<open>BTreeSet\<close>: the elements in strictly ascending order. \<open>bs_collect\<close> is \<open>collect\<close> into a set:
  it sorts and drops duplicates.
\<close>

type_synonym 'a btree_set = "'a list"

fun bs_insert :: "'a::linorder \<Rightarrow> 'a btree_set \<Rightarrow> 'a btree_set" where
  "bs_insert x [] = [x]"
| "bs_insert x (y # s) =
     (if x < y then x # y # s else if x = y then y # s else y # bs_insert x s)"

definition bs_collect :: "'a::linorder list \<Rightarrow> 'a btree_set" where
  "bs_collect xs = fold bs_insert xs []"

definition bs_ok :: "'a::linorder btree_set \<Rightarrow> bool" where
  "bs_ok s \<longleftrightarrow> sorted_wrt (<) s"

locale ordered_set =
  fixes empty :: "'s"
    and insert :: "'a::linorder \<Rightarrow> 's \<Rightarrow> 's"
    and elems :: "'s \<Rightarrow> 'a list"
    and invar :: "'s \<Rightarrow> bool"
  assumes elems_empty: "elems empty = []"
    and elems_insert: "invar s \<Longrightarrow> set (elems (insert x s)) = Set.insert x (set (elems s))"
    and invar_empty: "invar empty"
    and invar_insert: "invar s \<Longrightarrow> invar (insert x s)"
    and elems_sorted: "invar s \<Longrightarrow> sorted_wrt (<) (elems s)"
begin

lemma invar_fold: "invar s \<Longrightarrow> invar (fold insert xs s)"
  by (induction xs arbitrary: s) (auto simp: invar_insert)

lemma elems_fold: "invar s \<Longrightarrow> set (elems (fold insert xs s)) = set xs \<union> set (elems s)"
  by (induction xs arbitrary: s) (auto simp: elems_insert invar_insert)

text \<open>The elements of a set determine the order in which it is iterated.\<close>

lemma elems_unique: "invar s \<Longrightarrow> elems s = sorted_list_of_set (set (elems s))"
  using elems_sorted[of s]
  by (metis sorted_list_of_set.idem_if_sorted_distinct strict_sorted_iff)

lemma elems_collect: "elems (fold insert xs empty) = sorted_list_of_set (set xs)"
  using elems_unique[OF invar_fold[OF invar_empty], of xs] elems_fold[OF invar_empty, of xs]
  by (simp add: elems_empty)

end

lemma set_bs_insert [simp]: "set (bs_insert x s) = insert x (set s)"
  by (induction x s rule: bs_insert.induct) auto

lemma set_fold_bs_insert [simp]: "set (fold bs_insert xs s) = set xs \<union> set s"
  by (induction xs arbitrary: s) auto

lemma bs_ok_insert [bt_invar]: "bs_ok s \<Longrightarrow> bs_ok (bs_insert x s)"
  by (induction x s rule: bs_insert.induct) (auto simp: bs_ok_def)

lemma bs_ok_Nil [bt_invar, simp]: "bs_ok []"
  by (simp add: bs_ok_def)

interpretation bts: ordered_set "[]" bs_insert "\<lambda>s. s" bs_ok
  by unfold_locales (auto simp: bs_ok_insert simp flip: bs_ok_def)

lemma set_bs_collect [simp]: "set (bs_collect xs) = set xs"
  unfolding bs_collect_def by (simp add: bts.elems_fold)

lemma bs_ok_collect [bt_invar, simp]: "bs_ok (bs_collect xs)"
  unfolding bs_collect_def by (rule bts.invar_fold) simp

lemma bs_collect_eq: "bs_collect xs = sorted_list_of_set (set xs)"
  unfolding bs_collect_def by (rule bts.elems_collect)

lemma bs_collect_cong: "set xs = set ys \<Longrightarrow> bs_collect xs = bs_collect ys"
  by (simp add: bs_collect_eq)

lemma distinct_bs_collect [simp]: "distinct (bs_collect xs)"
  by (simp add: bs_collect_eq)

lemma bs_collect_Nil_iff [simp]: "bs_collect xs = [] \<longleftrightarrow> xs = []"
  using set_bs_collect[of xs] by (metis set_empty2 set_empty)

section \<open>Sorting by a key\<close>

text \<open>
  \<open>sort_by_key\<close> is a stable sort; \<open>sort_key\<close> is one too. Where the key tells the elements apart
  the result does not depend on the order the elements come in.
\<close>

lemma sort_key_unique:
  assumes "mset xs = mset ys" and "inj_on f (set xs)"
  shows "sort_key f xs = sort_key f ys"
proof -
  have set: "set xs = set ys" using assms(1) by (metis set_mset_mset)
  show ?thesis
  proof (rule properties_for_sort_key)
    show "mset (sort_key f ys) = mset xs" using assms(1) by simp
    show "sorted (map f (sort_key f ys))" by simp
    fix k assume k: "k \<in> set (sort_key f ys)"
    have "filter (\<lambda>y. f k = f y) zs = replicate (count (mset xs) k) k" if zs: "mset zs = mset xs" for zs
    proof -
      have "set zs = set xs" using zs by (metis set_mset_mset)
      then have "filter (\<lambda>y. f k = f y) zs = filter (HOL.eq k) zs"
        using k set assms(2) by (intro filter_cong) (auto simp: inj_on_def)
      then show ?thesis using zs replicate_count_mset_eq_filter_eq[of zs k] by simp
    qed
    then show "filter (\<lambda>y. f k = f y) (sort_key f ys) = filter (\<lambda>y. f k = f y) xs"
      using assms(1) by simp
  qed
qed

section \<open>Propagation loops\<close>

text \<open>
  Several loops of the sources push a mark along edges until nothing changes. What such a loop
  promises: its result holds the seeds, is closed under the edges, and nothing else is in it. It
  is then exactly what the seeds reach. The index \<open>'i\<close> is the input of the loop, and \<open>valid\<close> the
  inputs the promise is made for.
\<close>

locale closure_loop =
  fixes valid :: "'i \<Rightarrow> bool"
    and edges :: "'i \<Rightarrow> ('a \<times> 'a) set"
    and seeds :: "'i \<Rightarrow> 'a set"
    and marked :: "'i \<Rightarrow> 'a set"
  assumes seeds_marked: "valid i \<Longrightarrow> seeds i \<subseteq> marked i"
    and closed: "valid i \<Longrightarrow> (x, y) \<in> edges i \<Longrightarrow> x \<in> marked i \<Longrightarrow> y \<in> marked i"
    and least: "valid i \<Longrightarrow> seeds i \<subseteq> C \<Longrightarrow>
      (\<And>x y. (x, y) \<in> edges i \<Longrightarrow> x \<in> C \<Longrightarrow> y \<in> C) \<Longrightarrow> marked i \<subseteq> C"
begin

lemma marked_eq: "valid i \<Longrightarrow> marked i = (edges i)\<^sup>* `` seeds i"
proof
  assume v: "valid i"
  show "marked i \<subseteq> (edges i)\<^sup>* `` seeds i"
    by (rule least[OF v]) (auto intro: rtrancl_into_rtrancl)
  have "y \<in> marked i" if "(x, y) \<in> (edges i)\<^sup>*" and "x \<in> seeds i" for x y
    using that by (induction rule: rtrancl_induct) (use seeds_marked[OF v] closed[OF v] in auto)
  then show "(edges i)\<^sup>* `` seeds i \<subseteq> marked i" by auto
qed

lemma marked_iff: "valid i \<Longrightarrow> y \<in> marked i \<longleftrightarrow> (\<exists>x \<in> seeds i. (x, y) \<in> (edges i)\<^sup>*)"
  by (auto simp: marked_eq)

lemma unmarked_if_no_seed: "valid i \<Longrightarrow> seeds i = {} \<Longrightarrow> marked i = {}"
  by (simp add: marked_eq)

text \<open>Whatever is marked without being a seed has a marked predecessor: every mark has a cause.\<close>

lemma marked_cause:
  "valid i \<Longrightarrow> y \<in> marked i \<Longrightarrow> y \<notin> seeds i \<Longrightarrow> \<exists>x \<in> marked i. (x, y) \<in> edges i"
  by (auto simp: marked_eq elim: rtranclE)

end

text \<open>A set closed under a relation holds everything the relation reaches from it.\<close>

lemma closed_rtrancl:
  "(x, y) \<in> r\<^sup>* \<Longrightarrow> x \<in> C \<Longrightarrow> (\<And>u v. (u, v) \<in> r \<Longrightarrow> u \<in> C \<Longrightarrow> v \<in> C) \<Longrightarrow> y \<in> C"
  by (induction rule: rtrancl_induct) auto

end
