(* ===== verification/Rust_Text.thy ===== *)
theory Rust_Text
  imports Prelude
begin

text \<open>
  The string operations of Rust's standard library that the sources use. A \<open>str\<close> is its UTF-8
  encoding, a list of bytes (\<open>char\<close>), so the order of \<open>String\<close> is the lexicographic order of
  bytes. A Unicode white-space character is one of the byte sequences of \<open>unicode_whitespace\<close>;
  UTF-8 is self-synchronising, so in well-formed text one of these sequences occurs as a sublist
  exactly where that character occurs.
\<close>

named_theorems text_simps "evaluation of the string operations"

section \<open>Searching and slicing\<close>

abbreviation starts_with :: "string \<Rightarrow> string \<Rightarrow> bool" where
  "starts_with s p \<equiv> prefix p s"

abbreviation ends_with :: "string \<Rightarrow> string \<Rightarrow> bool" where
  "ends_with s p \<equiv> suffix p s"

fun str_contains :: "string \<Rightarrow> string \<Rightarrow> bool" where
  "str_contains [] needle \<longleftrightarrow> needle = []"
| "str_contains (c # s) needle \<longleftrightarrow> prefix needle (c # s) \<or> str_contains s needle"

definition strip_prefix :: "string \<Rightarrow> string \<Rightarrow> string option" where
  "strip_prefix s p = (if prefix p s then Some (drop (length p) s) else None)"

definition strip_suffix :: "string \<Rightarrow> string \<Rightarrow> string option" where
  "strip_suffix s p = (if suffix p s then Some (take (length s - length p) s) else None)"

text \<open>\<open>split_once\<close> at an ASCII character: the text before and after its first occurrence.\<close>

fun split_once :: "char \<Rightarrow> string \<Rightarrow> (string \<times> string) option" where
  "split_once d [] = None"
| "split_once d (c # s) =
     (if c = d then Some ([], s)
      else map_option (\<lambda>(a, b). (c # a, b)) (split_once d s))"

fun str_join :: "string \<Rightarrow> string list \<Rightarrow> string" where
  "str_join sep [] = []"
| "str_join sep [x] = x"
| "str_join sep (x # y # xs) = x @ sep @ str_join sep (y # xs)"

text \<open>\<open>str::replace\<close>, left to right without overlap; every pattern of the sources is non-empty.\<close>

fun str_replace_from :: "nat \<Rightarrow> string \<Rightarrow> string \<Rightarrow> string \<Rightarrow> string" where
  "str_replace_from skip pat to [] = []"
| "str_replace_from skip pat to (c # s) =
     (if 0 < skip then str_replace_from (skip - 1) pat to s
      else if pat \<noteq> [] \<and> prefix pat (c # s) then to @ str_replace_from (length pat - 1) pat to s
      else c # str_replace_from 0 pat to s)"

definition str_replace :: "string \<Rightarrow> string \<Rightarrow> string \<Rightarrow> string" where
  "str_replace s pat to = str_replace_from 0 pat to s"

section \<open>ASCII classes and case\<close>

definition byte :: "char \<Rightarrow> nat" where
  "byte c = of_char c"

definition is_ascii_digit :: "char \<Rightarrow> bool" where
  "is_ascii_digit c \<longleftrightarrow> 48 \<le> byte c \<and> byte c \<le> 57"

definition is_ascii_upper :: "char \<Rightarrow> bool" where
  "is_ascii_upper c \<longleftrightarrow> 65 \<le> byte c \<and> byte c \<le> 90"

definition is_ascii_lower :: "char \<Rightarrow> bool" where
  "is_ascii_lower c \<longleftrightarrow> 97 \<le> byte c \<and> byte c \<le> 122"

definition is_ascii_alphabetic :: "char \<Rightarrow> bool" where
  "is_ascii_alphabetic c \<longleftrightarrow> is_ascii_upper c \<or> is_ascii_lower c"

definition is_ascii_alphanumeric :: "char \<Rightarrow> bool" where
  "is_ascii_alphanumeric c \<longleftrightarrow> is_ascii_alphabetic c \<or> is_ascii_digit c"

definition to_ascii_uppercase :: "string \<Rightarrow> string" where
  "to_ascii_uppercase = map (\<lambda>c. if is_ascii_lower c then char_of (byte c - 32) else c)"

definition to_ascii_lowercase :: "string \<Rightarrow> string" where
  "to_ascii_lowercase = map (\<lambda>c. if is_ascii_upper c then char_of (byte c + 32) else c)"

lemmas ascii_defs = byte_def is_ascii_digit_def is_ascii_upper_def is_ascii_lower_def
  is_ascii_alphabetic_def is_ascii_alphanumeric_def

section \<open>White space, trimming and splitting\<close>

text \<open>The UTF-8 encodings of the characters for which \<open>char::is_whitespace\<close> holds.\<close>

definition unicode_whitespace :: "string list" where
  "unicode_whitespace =
     [[CHR 0x09], [CHR 0x0A], [CHR 0x0B], [CHR 0x0C], [CHR 0x0D], [CHR 0x20],
      [CHR 0xC2, CHR 0x85], [CHR 0xC2, CHR 0xA0], [CHR 0xE1, CHR 0x9A, CHR 0x80]] @
     map (\<lambda>n. [CHR 0xE2, CHR 0x80, char_of (n :: nat)]) [0x80 ..< 0x8B] @
     [[CHR 0xE2, CHR 0x80, CHR 0xA8], [CHR 0xE2, CHR 0x80, CHR 0xA9],
      [CHR 0xE2, CHR 0x80, CHR 0xAF], [CHR 0xE2, CHR 0x81, CHR 0x9F],
      [CHR 0xE3, CHR 0x80, CHR 0x80]]"

definition first_match :: "string list \<Rightarrow> string \<Rightarrow> string option" where
  "first_match ws s = find (\<lambda>w. w \<noteq> [] \<and> prefix w s) ws"

text \<open>
  Removing the longest prefix of characters from a class (given by the encodings \<open>ws\<close>), and
  cutting a text at every character of a class. \<open>skip\<close> counts the bytes of a matched character
  that are still to be passed over.
\<close>

fun trim_start_from :: "nat \<Rightarrow> string list \<Rightarrow> string \<Rightarrow> string" where
  "trim_start_from skip ws [] = []"
| "trim_start_from skip ws (c # s) =
     (if 0 < skip then trim_start_from (skip - 1) ws s
      else case first_match ws (c # s) of
        Some w \<Rightarrow> trim_start_from (length w - 1) ws s
      | None \<Rightarrow> c # s)"

definition trim_start_of :: "string list \<Rightarrow> string \<Rightarrow> string" where
  "trim_start_of ws s = trim_start_from 0 ws s"

definition trim_of :: "string list \<Rightarrow> string \<Rightarrow> string" where
  "trim_of ws s = rev (trim_start_of (map rev ws) (rev (trim_start_of ws s)))"

fun split_from :: "nat \<Rightarrow> string list \<Rightarrow> string \<Rightarrow> string list" where
  "split_from skip ws [] = [[]]"
| "split_from skip ws (c # s) =
     (if 0 < skip then split_from (skip - 1) ws s
      else case first_match ws (c # s) of
        Some w \<Rightarrow> [] # split_from (length w - 1) ws s
      | None \<Rightarrow> (case split_from 0 ws s of
            [] \<Rightarrow> [[c]]
          | p # ps \<Rightarrow> (c # p) # ps))"

definition split_of :: "string list \<Rightarrow> string \<Rightarrow> string list" where
  "split_of ws s = split_from 0 ws s"

text \<open>
  \<open>str::lines\<close>: split at line feeds, without the empty piece after a final line feed; a line that
  ends with a line feed also loses one carriage return before it.
\<close>

definition drop_cr :: "string \<Rightarrow> string" where
  "drop_cr line = (case strip_suffix line [CHR 0x0D] of Some l \<Rightarrow> l | None \<Rightarrow> line)"

definition str_lines :: "string \<Rightarrow> string list" where
  "str_lines s =
     (let ps = split_of [[CHR 0x0A]] s
      in map drop_cr (butlast ps) @ (if last ps = [] then [] else [last ps]))"

definition any_of :: "string list \<Rightarrow> string \<Rightarrow> bool" where
  "any_of ws s \<longleftrightarrow> (\<exists>w \<in> set ws. w \<noteq> [] \<and> str_contains s w)"

text \<open>\<open>str::trim\<close> and \<open>str::split_whitespace\<close>.\<close>

definition str_trim :: "string \<Rightarrow> string" where
  "str_trim s = trim_of unicode_whitespace s"

definition split_whitespace :: "string \<Rightarrow> string list" where
  "split_whitespace s = filter (\<lambda>p. p \<noteq> []) (split_of unicode_whitespace s)"

text \<open>\<open>chars().take(n)\<close>: a byte \<open>0x80..0xBF\<close> continues the character before it.\<close>

definition is_continuation :: "char \<Rightarrow> bool" where
  "is_continuation c \<longleftrightarrow> 128 \<le> byte c \<and> byte c < 192"

fun take_chars :: "nat \<Rightarrow> string \<Rightarrow> string" where
  "take_chars n [] = []"
| "take_chars n (c # s) =
     (if is_continuation c then c # take_chars n s
      else case n of 0 \<Rightarrow> [] | Suc m \<Rightarrow> c # take_chars m s)"

section \<open>Decimal numbers\<close>

definition digit_char :: "nat \<Rightarrow> char" where
  "digit_char d = char_of (48 + d)"

fun dec_nat :: "nat \<Rightarrow> string" where
  "dec_nat n = (if n < 10 then [digit_char n] else dec_nat (n div 10) @ [digit_char (n mod 10)])"

declare dec_nat.simps [simp del]

definition dec_int :: "int \<Rightarrow> string" where
  "dec_int i = (if i < 0 then ''-'' @ dec_nat (nat (- i)) else dec_nat (nat i))"

definition digits_value :: "string \<Rightarrow> nat" where
  "digits_value s = foldl (\<lambda>v c. 10 * v + (byte c - 48)) 0 s"

definition parse_digits :: "string \<Rightarrow> nat option" where
  "parse_digits s = (if s \<noteq> [] \<and> list_all is_ascii_digit s then Some (digits_value s) else None)"

text \<open>\<open>str::parse::<i64>\<close>: an optional sign, at least one digit, and a value in range.\<close>

definition parse_i64 :: "string \<Rightarrow> int option" where
  "parse_i64 s =
     (let checked = (\<lambda>v. if is_i64 v then Some v else None)
      in case s of
        [] \<Rightarrow> None
      | c # r \<Rightarrow>
          if c = CHR ''+'' then Option.bind (parse_digits r) (\<lambda>v. checked (int v))
          else if c = CHR ''-'' then Option.bind (parse_digits r) (\<lambda>v. checked (- int v))
          else Option.bind (parse_digits s) (\<lambda>v. checked (int v)))"

section \<open>Facts\<close>

lemma str_contains_iff: "str_contains s needle \<longleftrightarrow> sublist needle s"
  by (induction s) (auto simp: sublist_Cons_right prefix_imp_sublist)

lemma strip_prefix_Some: "strip_prefix s p = Some r \<longleftrightarrow> s = p @ r"
  by (auto simp: strip_prefix_def prefix_def)

lemma strip_suffix_Some: "strip_suffix s p = Some r \<longleftrightarrow> s = r @ p"
  by (auto simp: strip_suffix_def suffix_def)

lemma strip_prefix_append [simp]: "strip_prefix (p @ r) p = Some r"
  by (simp add: strip_prefix_Some)

lemma strip_suffix_append [simp]: "strip_suffix (r @ p) p = Some r"
  by (simp add: strip_suffix_Some)

lemma split_once_Some: "split_once d s = Some (a, b) \<longleftrightarrow> s = a @ d # b \<and> d \<notin> set a"
proof (induction s arbitrary: a)
  case Nil
  then show ?case by simp
next
  case (Cons c s)
  show ?case
  proof (cases a)
    case Nil
    then show ?thesis using Cons by (cases "split_once d s") auto
  next
    case (Cons x xs)
    then show ?thesis using Cons.IH[of xs] by (cases "split_once d s") auto
  qed
qed

lemma split_once_None: "split_once d s = None \<longleftrightarrow> d \<notin> set s"
  by (induction s) auto

lemma digit_char_byte [simp]: "d < 10 \<Longrightarrow> byte (digit_char d) = 48 + d"
  by (simp add: digit_char_def byte_def)

lemma digit_char_digit [simp]: "d < 10 \<Longrightarrow> is_ascii_digit (digit_char d)"
  by (simp add: is_ascii_digit_def)

lemma dec_nat_digits: "list_all is_ascii_digit (dec_nat n)"
  by (induction n rule: dec_nat.induct) (subst dec_nat.simps, simp)

lemma dec_nat_not_Nil [simp]: "dec_nat n \<noteq> []"
  by (subst dec_nat.simps) simp

lemma digits_value_dec_nat [simp]: "digits_value (dec_nat n) = n"
proof (induction n rule: dec_nat.induct)
  case (1 n)
  show ?case
  proof (cases "n < 10")
    case True
    then show ?thesis by (subst dec_nat.simps) (simp add: digits_value_def)
  next
    case False
    then have "digits_value (dec_nat (n div 10)) = n div 10" using 1 by simp
    with False show ?thesis by (subst dec_nat.simps) (simp add: digits_value_def)
  qed
qed

lemma parse_digits_dec_nat [simp]: "parse_digits (dec_nat n) = Some n"
  by (simp add: parse_digits_def dec_nat_digits)

lemma not_digit_sign: "\<not> is_ascii_digit (CHR ''+'')" "\<not> is_ascii_digit (CHR ''-'')"
  by (simp_all add: is_ascii_digit_def byte_def)

text \<open>Printing an \<open>i64\<close> and parsing the text gives it back.\<close>

lemma parse_i64_dec_int: "is_i64 i \<Longrightarrow> parse_i64 (dec_int i) = Some i"
proof -
  assume i: "is_i64 i"
  show ?thesis
  proof (cases "i < 0")
    case True
    then show ?thesis using i by (simp add: parse_i64_def dec_int_def)
  next
    case False
    obtain c r where cr: "dec_nat (nat i) = c # r" by (cases "dec_nat (nat i)") simp_all
    have "is_ascii_digit c" using dec_nat_digits[of "nat i"] by (simp add: cr)
    then have "c \<noteq> CHR ''+''" "c \<noteq> CHR ''-''" using not_digit_sign by auto
    moreover have "parse_digits (c # r) = Some (nat i)"
      using parse_digits_dec_nat[of "nat i"] by (simp add: cr)
    ultimately show ?thesis using False i
      by (simp add: parse_i64_def dec_int_def cr)
  qed
qed

lemma dec_int_inject: "is_i64 i \<Longrightarrow> is_i64 j \<Longrightarrow> dec_int i = dec_int j \<longleftrightarrow> i = j"
  by (metis option.inject parse_i64_dec_int)

section \<open>Matching, splitting and trimming\<close>

lemma first_match_None: "first_match ws s = None \<longleftrightarrow> (\<forall>w \<in> set ws. w \<noteq> [] \<longrightarrow> \<not> prefix w s)"
  by (auto simp: first_match_def find_None_iff)

lemma any_of_Nil [simp]: "\<not> any_of ws []"
  by (auto simp: any_of_def)

lemma any_of_Cons: "any_of ws (c # s) \<longleftrightarrow> first_match ws (c # s) \<noteq> None \<or> any_of ws s"
  by (auto simp: any_of_def first_match_None)

lemma any_of_mono: "any_of ws s \<Longrightarrow> set ws \<subseteq> set ws' \<Longrightarrow> any_of ws' s"
  by (auto simp: any_of_def)

lemma prefix_avoiding:
  assumes "prefix w (s @ c # r)" and "c \<notin> set w"
  shows "prefix w s"
proof -
  have "\<not> prefix (s @ [c]) w" using assms(2) by (auto simp: prefix_def)
  moreover have "prefix (s @ [c]) (s @ c # r)" by simp
  ultimately have "prefix w (s @ [c])" using assms(1) prefix_same_cases by blast
  then show ?thesis using assms(2) by (auto simp: prefix_snoc)
qed

text \<open>A character outside the class never completes a match.\<close>

lemma any_of_append:
  assumes "\<And>w. w \<in> set ws \<Longrightarrow> c \<notin> set w"
  shows "any_of ws (s @ c # r) \<longleftrightarrow> any_of ws s \<or> any_of ws r"
proof (induction s)
  case Nil
  have "first_match ws (c # r) = None"
    using assms by (auto simp: first_match_None prefix_def) (metis append_Cons list.exhaust list.sel(1) list.set_intros(1))
  then show ?case by (simp add: any_of_Cons)
next
  case (Cons x s)
  have "first_match ws ((x # s) @ c # r) \<noteq> None \<longleftrightarrow> first_match ws (x # s) \<noteq> None"
    using assms prefix_avoiding[of _ "x # s" c r] unfolding first_match_None by (metis prefix_order.trans prefixI append_Cons)
  then show ?case using Cons by (simp add: any_of_Cons)
qed

lemma any_of_outside: "(\<And>c w. c \<in> set s \<Longrightarrow> w \<in> set ws \<Longrightarrow> c \<notin> set w) \<Longrightarrow> \<not> any_of ws s"
proof (induction s)
  case (Cons x s)
  then show ?case using any_of_append[of ws x "[]" s] by simp
qed simp

lemma trim_start_clean: "\<not> any_of ws s \<Longrightarrow> trim_start_of ws s = s"
  by (cases s) (auto simp: trim_start_of_def any_of_Cons)

lemma any_of_rev: "any_of (map rev ws) (rev s) \<longleftrightarrow> any_of ws s"
  by (auto simp: any_of_def str_contains_iff)

lemma trim_clean: "\<not> any_of ws s \<Longrightarrow> trim_of ws s = s"
  using any_of_rev[of ws s] by (simp add: trim_of_def trim_start_clean)

lemma split_clean: "\<not> any_of ws s \<Longrightarrow> split_of ws s = [s]"
  unfolding split_of_def by (induction s) (auto simp: any_of_Cons)

text \<open>Splitting at a break character that is in no other break.\<close>

lemma split_at_break:
  assumes "[c] \<in> set ws" and "\<And>w. w \<in> set ws \<Longrightarrow> c \<in> set w \<Longrightarrow> w = [c]" and "\<not> any_of ws s"
  shows "split_of ws (s @ c # r) = s # split_of ws r"
  using assms(3)
proof (induction s)
  case Nil
  have "first_match ws (c # r) = Some w \<Longrightarrow> w = [c]" for w
    using assms(2) by (auto simp: first_match_def find_Some_iff prefix_def) (metis list.set_intros(1) nth_mem append_Cons list.exhaust list.sel(1))
  moreover have "first_match ws (c # r) \<noteq> None"
    using assms(1) unfolding first_match_None by (auto intro!: bexI[of _ "[c]"])
  ultimately show ?case by (auto simp: split_of_def)
next
  case (Cons x s)
  have "first_match ws ((x # s) @ c # r) = None"
  proof -
    have "\<not> prefix w ((x # s) @ c # r)" if w: "w \<in> set ws" "w \<noteq> []" for w
    proof
      assume p: "prefix w ((x # s) @ c # r)"
      show False
      proof (cases "c \<in> set w")
        case True
        then have "w = [x]" using assms(2)[OF w(1)] p by auto
        then show ?thesis using w Cons.prems by (auto simp: any_of_Cons first_match_None)
      next
        case False
        then have "prefix w (x # s)" using p by (rule prefix_avoiding[rotated])
        then show ?thesis using w Cons.prems by (auto simp: any_of_Cons first_match_None)
      qed
    qed
    then show ?thesis by (simp add: first_match_None)
  qed
  moreover have "split_of ws (s @ c # r) = s # split_of ws r" using Cons by (simp add: any_of_Cons)
  ultimately show ?case by (simp add: split_of_def)
qed

lemma any_of_chars: "any_of (map (\<lambda>c. [c]) cs) s \<longleftrightarrow> set cs \<inter> set s \<noteq> {}"
proof -
  have "str_contains s [c] \<longleftrightarrow> c \<in> set s" for c by (induction s) auto
  then show ?thesis by (auto simp: any_of_def)
qed

lemma split_at_char: "c \<notin> set s \<Longrightarrow> split_of [[c]] (s @ c # r) = s # split_of [[c]] r"
  using any_of_chars[of "[c]" s] by (intro split_at_break) auto

lemma split_no_char: "c \<notin> set s \<Longrightarrow> split_of [[c]] s = [s]"
  using any_of_chars[of "[c]" s] by (intro split_clean) auto

lemma drop_cr_id: "s = [] \<or> last s \<noteq> CHR 0x0D \<Longrightarrow> drop_cr s = s"
  by (auto simp: drop_cr_def strip_suffix_Some split: option.splits)

lemma str_lines_written:
  assumes "\<And>l. l \<in> set ls \<Longrightarrow> CHR 0x0A \<notin> set l"
  shows "str_lines (concat (map (\<lambda>l. l @ [CHR 0x0A]) ls)) = map drop_cr ls"
proof -
  have "split_of [[CHR 0x0A]] (concat (map (\<lambda>l. l @ [CHR 0x0A]) ls)) = ls @ [[]]"
    using assms by (induction ls) (simp_all add: split_at_char split_no_char)
  then show ?thesis by (simp add: str_lines_def)
qed

text \<open>Trimming: what is left starts and ends outside the class.\<close>

lemma trim_start_from_stop:
  "suffix (trim_start_from skip ws s) s
   \<and> (trim_start_from skip ws s = [] \<or> first_match ws (trim_start_from skip ws s) = None)"
proof (induction skip ws s rule: trim_start_from.induct)
  case (2 skip ws c s)
  then show ?case
    by (cases "0 < skip"; cases "first_match ws (c # s)") (auto simp: suffix_ConsI)
qed simp

lemma trim_start_stop:
  "suffix (trim_start_of ws s) s" "trim_start_of ws s = [] \<or> first_match ws (trim_start_of ws s) = None"
  using trim_start_from_stop[of 0 ws s] by (auto simp: trim_start_of_def)

lemma trim_start_fixed: "s = [] \<or> first_match ws s = None \<Longrightarrow> trim_start_of ws s = s"
  by (cases s) (auto simp: trim_start_of_def)

lemma first_match_prefix: "first_match ws s = None \<Longrightarrow> prefix t s \<Longrightarrow> first_match ws t = None"
  by (auto simp: first_match_None dest: prefix_order.trans)

lemma trim_idem: "trim_of ws (trim_of ws s) = trim_of ws s"
proof -
  let ?u = "trim_start_of ws s"
  let ?v = "trim_start_of (map rev ws) (rev ?u)"
  have u: "?u = [] \<or> first_match ws ?u = None" by (rule trim_start_stop)
  have v: "suffix ?v (rev ?u)" "?v = [] \<or> first_match (map rev ws) ?v = None"
    by (rule trim_start_stop)+
  have "rev ?v = [] \<or> first_match ws (rev ?v) = None"
    using u v(1) first_match_prefix[of ws ?u "rev ?v"] by (auto simp: suffix_to_prefix)
  then have "trim_start_of ws (rev ?v) = rev ?v" by (rule trim_start_fixed)
  moreover have "trim_start_of (map rev ws) ?v = ?v" using v(2) by (rule trim_start_fixed)
  ultimately show ?thesis by (simp add: trim_of_def)
qed

lemma str_join_Cons: "str_join sep (x # xs) = x @ concat (map (\<lambda>y. sep @ y) xs)"
  by (induction xs arbitrary: x) auto

end
