(* ===== verification/Planner_Model.thy ===== *)
theory Planner_Model
  imports Rust_Text
begin

text \<open>
  The vocabulary of \<open>pr-landing-planner\<close> (\<open>model.rs\<close>): its enumerations with their
  machine-facing spellings and parsers, and its records. A field \<open>f\<close> of a struct is a record
  field with a prefix for the struct (\<open>PrNode::number\<close> is \<open>pn_number\<close>).
\<close>

section \<open>Enumerations\<close>

datatype ci_state = CiPassed | CiFailed | CiNoResult

fun ci_state_str :: "ci_state \<Rightarrow> string" where
  "ci_state_str CiPassed = ''passed''"
| "ci_state_str CiFailed = ''failed''"
| "ci_state_str CiNoResult = ''no-result''"

datatype red_class = RedReal | RedFlaky | RedStaleRequiredCheck | RedEvaluateOnceRace
  | RedRunnerOutage

fun red_class_str :: "red_class \<Rightarrow> string" where
  "red_class_str RedReal = ''real''"
| "red_class_str RedFlaky = ''flaky''"
| "red_class_str RedStaleRequiredCheck = ''stale-required-check''"
| "red_class_str RedEvaluateOnceRace = ''evaluate-once-race''"
| "red_class_str RedRunnerOutage = ''runner-outage''"

datatype pr_action = LandNow | RebaseThenLand | RefireStaleGate | EscalateRunnerOutage
  | EscalateGatePolicy | RefireCi | HoldFix | Wait

fun pr_action_str :: "pr_action \<Rightarrow> string" where
  "pr_action_str LandNow = ''land-now''"
| "pr_action_str RebaseThenLand = ''rebase-then-land''"
| "pr_action_str RefireStaleGate = ''refire-stale-gate''"
| "pr_action_str EscalateRunnerOutage = ''escalate-runner-outage''"
| "pr_action_str EscalateGatePolicy = ''escalate-gate-policy''"
| "pr_action_str RefireCi = ''refire-ci''"
| "pr_action_str HoldFix = ''hold-fix''"
| "pr_action_str Wait = ''wait''"

definition pr_action_all :: "pr_action list" where
  "pr_action_all = [LandNow, RebaseThenLand, RefireStaleGate, EscalateRunnerOutage,
     EscalateGatePolicy, RefireCi, HoldFix, Wait]"

datatype validation_evidence = EvidenceNone | AuthoritativeCi | LocallyValidated
  | CleanValidateRecord

fun validation_evidence_str :: "validation_evidence \<Rightarrow> string" where
  "validation_evidence_str EvidenceNone = ''none''"
| "validation_evidence_str AuthoritativeCi = ''authoritative-ci''"
| "validation_evidence_str LocallyValidated = ''locally-validated''"
| "validation_evidence_str CleanValidateRecord = ''clean-validate-record''"

definition validation_evidence_parse :: "string \<Rightarrow> validation_evidence option" where
  "validation_evidence_parse s =
     (if s = ''none'' then Some EvidenceNone
      else if s = ''authoritative-ci'' then Some AuthoritativeCi
      else if s = ''locally-validated'' then Some LocallyValidated
      else if s = ''clean-validate-record'' then Some CleanValidateRecord
      else None)"

datatype validation_authority = AuthorityNone | HardGreen | SoftGreen

fun validation_authority_str :: "validation_authority \<Rightarrow> string" where
  "validation_authority_str AuthorityNone = ''none''"
| "validation_authority_str HardGreen = ''hard-green''"
| "validation_authority_str SoftGreen = ''soft-green''"

definition validation_authority_parse :: "string \<Rightarrow> validation_authority option" where
  "validation_authority_parse s =
     (if s = ''none'' then Some AuthorityNone
      else if s = ''hard-green'' then Some HardGreen
      else if s = ''soft-green'' then Some SoftGreen
      else None)"

datatype review_binding_state = NotRequired | Missing | Unbound | Stale | ExactHead

fun review_binding_str :: "review_binding_state \<Rightarrow> string" where
  "review_binding_str NotRequired = ''not-required''"
| "review_binding_str Missing = ''missing''"
| "review_binding_str Unbound = ''unbound''"
| "review_binding_str Stale = ''stale''"
| "review_binding_str ExactHead = ''exact-head''"

datatype policy_class = Unclassified | CiHygiene | GatePolicy

fun policy_class_str :: "policy_class \<Rightarrow> string" where
  "policy_class_str Unclassified = ''unclassified''"
| "policy_class_str CiHygiene = ''ci-hygiene''"
| "policy_class_str GatePolicy = ''gate-policy''"

definition policy_class_parse :: "string \<Rightarrow> policy_class option" where
  "policy_class_parse s =
     (if s = ''unclassified'' then Some Unclassified
      else if s = ''ci-hygiene'' then Some CiHygiene
      else if s = ''gate-policy'' then Some GatePolicy
      else None)"

section \<open>Records\<close>

record check_run =
  cr_name :: string
  cr_status :: string
  cr_conclusion :: string
  cr_text :: string
  cr_workflow :: string
  cr_duration_secs :: "int option"

record ci_verdict =
  cv_raw_state :: ci_state
  cv_red_class :: "red_class option"
  cv_gate_present :: bool
  cv_gate_ok :: bool
  cv_gate_missing_run :: bool
  cv_detail :: string

definition ci_verdict_default :: ci_verdict where
  "ci_verdict_default = \<lparr>cv_raw_state = CiNoResult, cv_red_class = None, cv_gate_present = False,
     cv_gate_ok = False, cv_gate_missing_run = False, cv_detail = []\<rparr>"

record pr_node =
  pn_number :: int
  pn_head_ref :: string
  pn_base_ref :: string
  pn_head_sha :: string
  pn_base_sha :: string
  pn_title :: string
  pn_author :: string
  pn_is_draft :: bool
  pn_mergeable :: string
  pn_review_decision :: string
  pn_review_evidence_unavailable :: bool
  pn_created_at :: string
  pn_updated_at :: string
  pn_additions :: int
  pn_deletions :: int
  pn_labels :: "string list"
  pn_mechanism_symbols :: "string list"
  pn_files :: "string btree_set"
  pn_base_conflict_paths :: "string list"
  pn_commits_behind :: int
  pn_ci :: ci_verdict
  pn_priority :: int
  pn_assigned_agent :: string
  pn_validation_evidence :: validation_evidence
  pn_validation_authority :: validation_authority
  pn_review_pass_heads :: "(string, string) btree_map"
  pn_review_evidence_digest :: string
  pn_review_objections_resolved :: bool
  pn_policy_class :: policy_class

definition pr_node_default :: pr_node where
  "pr_node_default = \<lparr>pn_number = 0, pn_head_ref = [], pn_base_ref = [], pn_head_sha = [],
     pn_base_sha = [], pn_title = [], pn_author = [], pn_is_draft = False, pn_mergeable = [],
     pn_review_decision = [], pn_review_evidence_unavailable = False, pn_created_at = [],
     pn_updated_at = [], pn_additions = 0, pn_deletions = 0, pn_labels = [],
     pn_mechanism_symbols = [], pn_files = [], pn_base_conflict_paths = [], pn_commits_behind = 0,
     pn_ci = ci_verdict_default, pn_priority = 0, pn_assigned_agent = [],
     pn_validation_evidence = EvidenceNone, pn_validation_authority = AuthorityNone,
     pn_review_pass_heads = [], pn_review_evidence_digest = [],
     pn_review_objections_resolved = False, pn_policy_class = Unclassified\<rparr>"

definition pn_size :: "pr_node \<Rightarrow> int" where
  "pn_size n = wrap64 (pn_additions n + pn_deletions n)"

definition base_conflicting :: "pr_node \<Rightarrow> bool" where
  "base_conflicting n \<longleftrightarrow> pn_base_conflict_paths n \<noteq> [] \<or> pn_mergeable n = ''CONFLICTING''"

record conflict_edge =
  ce_a :: int
  ce_b :: int
  ce_paths :: "string list"

record overlap_edge =
  oe_a :: int
  oe_b :: int
  oe_paths :: "string list"

record mechanism_edge =
  me_a :: int
  me_b :: int
  me_mechanisms :: "string list"

record cluster =
  cl_members :: "int list"
  cl_conflict_paths :: "string list"

definition cluster_size :: "cluster \<Rightarrow> nat" where
  "cluster_size c = length (cl_members c)"

definition cluster_rebases_avoided :: "cluster \<Rightarrow> nat" where
  "cluster_rebases_avoided c = cluster_size c - 1"

record unclassified_mechanism =
  um_pr :: int
  um_candidates :: "string list"

record ordering_edge =
  or_before :: int
  or_after :: int
  or_reason :: string

record held_pr =
  hp_pr :: int
  hp_reasons :: "string list"

record collected_graph =
  cg_repository :: string
  cg_base :: string
  cg_nodes :: "pr_node list"
  cg_conflict_edges :: "conflict_edge list"
  cg_overlap_edges :: "overlap_edge list"
  cg_ordering_edges :: "ordering_edge list"
  cg_mechanism_edges :: "mechanism_edge list"
  cg_unclassified_mechanisms :: "unclassified_mechanism list"

record pr_action_decision =
  ad_pr :: int
  ad_action :: pr_action
  ad_why :: string
  ad_group :: "nat option"

record plan =
  pl_parallel_safe_groups :: "int list list"
  pl_land_now :: "int list"
  pl_order :: "int list"
  pl_per_pr_actions :: "pr_action_decision list"
  pl_batch :: "int list"

record diagnostics =
  dg_stale_gates :: "int list"
  dg_flaky_reds :: "int list"
  dg_real_reds :: "int list"
  dg_evaluate_once_race :: "int list"
  dg_outage_prs :: "int list"
  dg_outage_suspected :: bool

record plan_result =
  rs_graph :: collected_graph
  rs_stacks :: "int list list"
  rs_held :: "held_pr list"
  rs_plan :: plan
  rs_diagnostics :: diagnostics

definition edge_key :: "int \<Rightarrow> int \<Rightarrow> int \<times> int" where
  "edge_key a b = (if a \<le> b then (a, b) else (b, a))"

text \<open>\<open>dedupe_priority\<close>: the filter keeps a label when inserting it into \<open>seen\<close> succeeds.\<close>

fun dedupe_from :: "string btree_set \<Rightarrow> string list \<Rightarrow> string list" where
  "dedupe_from seen [] = []"
| "dedupe_from seen (l # ls) =
     (if l \<in> set seen then dedupe_from seen ls else l # dedupe_from (bs_insert l seen) ls)"

definition dedupe_priority :: "string list \<Rightarrow> string list" where
  "dedupe_priority labels = dedupe_from [] labels"

section \<open>Facts\<close>

lemma edge_key_commute: "edge_key a b = edge_key b a"
  by (simp add: edge_key_def)

lemma edge_key_inj: "edge_key a b = edge_key c d \<longleftrightarrow> {a, b} = {c, d}"
  by (auto simp: edge_key_def doubleton_eq_iff)

lemma dedupe_from_set: "set (dedupe_from seen ls) = set ls - set seen"
  by (induction seen ls rule: dedupe_from.induct) auto

lemma dedupe_from_distinct: "distinct (dedupe_from seen ls)"
  by (induction seen ls rule: dedupe_from.induct) (auto simp: dedupe_from_set)

lemma dedupe_from_subseq: "subseq (dedupe_from seen ls) ls"
  by (induction seen ls rule: dedupe_from.induct) auto

lemma is_i64_pn_size [simp]: "is_i64 (pn_size n)"
  by (simp add: pn_size_def)

lemmas enum_str_simps = ci_state_str.simps red_class_str.simps pr_action_str.simps
  validation_evidence_str.simps validation_authority_str.simps review_binding_str.simps
  policy_class_str.simps

text \<open>
  Every enumeration that has a parser reads its own spelling back, rejects every other text,
  and no spelling is shared.
\<close>

lemma validation_evidence_parse_iff:
  "validation_evidence_parse s = Some e \<longleftrightarrow> s = validation_evidence_str e"
  by (cases e) (auto simp: validation_evidence_parse_def)

lemma validation_authority_parse_iff:
  "validation_authority_parse s = Some v \<longleftrightarrow> s = validation_authority_str v"
  by (cases v) (auto simp: validation_authority_parse_def)

lemma policy_class_parse_iff: "policy_class_parse s = Some p \<longleftrightarrow> s = policy_class_str p"
  by (cases p) (auto simp: policy_class_parse_def)

lemma pr_action_str_inj: "pr_action_str a = pr_action_str b \<longleftrightarrow> a = b"
  by (cases a; cases b) simp_all

lemma pr_action_all_complete: "set pr_action_all = UNIV" "distinct pr_action_all"
proof -
  have "a \<in> set pr_action_all" for a by (cases a) (simp_all add: pr_action_all_def)
  then show "set pr_action_all = UNIV" by auto
  show "distinct pr_action_all" by (simp add: pr_action_all_def)
qed

section \<open>A pull request for the concrete examples\<close>

text \<open>An open pull request whose required gate and CI are green.\<close>

definition green_node :: "int \<Rightarrow> pr_node" where
  "green_node k = pr_node_default\<lparr>pn_number := k,
     pn_ci := \<lparr>cv_raw_state = CiPassed, cv_red_class = None, cv_gate_present = True, cv_gate_ok = True,
       cv_gate_missing_run = False, cv_detail = ''passed''\<rparr>\<rparr>"

definition depends :: "int \<Rightarrow> int \<Rightarrow> ordering_edge" where
  "depends a b = \<lparr>or_before = a, or_after = b, or_reason = ''base-ref''\<rparr>"

definition clash :: "int \<Rightarrow> int \<Rightarrow> conflict_edge" where
  "clash a b = \<lparr>ce_a = a, ce_b = b, ce_paths = [''lib.rs'']\<rparr>"

lemma green_node_number [simp]: "pn_number (green_node k) = k"
  by (simp add: green_node_def)

end
