(* ===== verification/Json.thy ===== *)
theory Json
  imports Rust_Text "HOL-Library.Countable"
begin

text \<open>
  JSON documents as \<open>serde_json::Value\<close> presents them. An object is its entries with distinct
  keys, in the order of the map: that of insertion in \<open>tick-hub\<close>, sorted by key in \<open>dagrun\<close>. An integer is a mathematical integer in the range of \<open>i64\<close> and \<open>u64\<close>. Of a
  floating-point number the sources observe three things, which are its components here: its
  text, whether it is zero, and its value as an \<open>i64\<close> (truncated and saturated).
\<close>

record json_float =
  jf_text :: string
  jf_zero :: bool
  jf_i64 :: int

datatype json = JNull | JBool bool | JInt int | JFloat json_float | JString string
  | JArray "json list" | JObject "(string \<times> json) list"

type_synonym json_object = "(string \<times> json) list"

fun as_object :: "json \<Rightarrow> json_object option" where
  "as_object (JObject obj) = Some obj"
| "as_object _ = None"

fun as_array :: "json \<Rightarrow> json list option" where
  "as_array (JArray xs) = Some xs"
| "as_array _ = None"

fun as_str :: "json \<Rightarrow> string option" where
  "as_str (JString s) = Some s"
| "as_str _ = None"

fun as_bool :: "json \<Rightarrow> bool option" where
  "as_bool (JBool b) = Some b"
| "as_bool _ = None"

fun as_i64 :: "json \<Rightarrow> int option" where
  "as_i64 (JInt n) = (if is_i64 n then Some n else None)"
| "as_i64 _ = None"

definition obj_get :: "json_object \<Rightarrow> string \<Rightarrow> json option" where
  "obj_get obj key = map_of obj key"

text \<open>\<open>Value::get\<close> and the index operator, which is \<open>Null\<close> where there is nothing; unsigned integers.\<close>

definition json_get :: "json \<Rightarrow> string \<Rightarrow> json option" where
  "json_get v key = (case as_object v of Some obj \<Rightarrow> obj_get obj key | None \<Rightarrow> None)"

definition json_at :: "json \<Rightarrow> string \<Rightarrow> json" where
  "json_at v key = (case json_get v key of Some w \<Rightarrow> w | None \<Rightarrow> JNull)"

fun as_u64 :: "json \<Rightarrow> nat option" where
  "as_u64 (JInt n) = (if 0 \<le> n \<and> n < 18446744073709551616 then Some (nat n) else None)"
| "as_u64 _ = None"

lemma as_object_iff: "as_object v = Some obj \<longleftrightarrow> v = JObject obj"
  by (cases v) auto

lemma as_bool_iff: "as_bool v = Some b \<longleftrightarrow> v = JBool b"
  by (cases v) auto

lemma as_str_iff: "as_str v = Some s \<longleftrightarrow> v = JString s"
  by (cases v) auto

lemma as_i64_iff: "as_i64 v = Some n \<longleftrightarrow> v = JInt n \<and> is_i64 n"
  by (cases v) auto

text \<open>Documents are countable, so every document has a text of its own in a codec that numbers them.\<close>

instance json_float_ext :: (countable) countable
proof (rule countable_classI[of "\<lambda>r. to_nat (jf_text r, jf_zero r, jf_i64 r, json_float.more r)"])
  fix x y :: "'a json_float_ext"
  assume "to_nat (jf_text x, jf_zero x, jf_i64 x, json_float.more x) = to_nat (jf_text y, jf_zero y, jf_i64 y, json_float.more y)"
  then show "x = y" by simp
qed

instance json :: countable
  by countable_datatype

definition unary_text :: "json \<Rightarrow> string" where
  "unary_text v = replicate (to_nat v) (CHR ''1'')"

definition unary_value :: "string \<Rightarrow> json" where
  "unary_value s = from_nat (length s)"

lemma unary_value_text [simp]: "unary_value (unary_text v) = v"
  by (simp add: unary_value_def unary_text_def)

end
