(* ===== verification/Planner_Classify.thy ===== *)
theory Planner_Classify
  imports Planner_Model Json
begin

text \<open>
  \<open>classify.rs\<close>: selection of the latest check per context from a host rollup, the three-state CI
  result, and the class of a red pull request. The \<open>regex\<close> crate is third-party. A case-insensitive
  expression is a parameter \<open>re\<close>: from the pattern, the build error or the match test; the capture of
  the run number in a URL is the parameter \<open>run_url\<close>.
\<close>

section \<open>Configuration\<close>

type_synonym regex_builder = "string \<Rightarrow> string + (string \<Rightarrow> bool)"

definition FAILED_CONCLUSIONS :: "string list" where
  "FAILED_CONCLUSIONS = [''FAILURE'', ''TIMED_OUT'', ''ERROR'', ''STARTUP_FAILURE'']"

definition PASSED_CONCLUSIONS :: "string list" where
  "PASSED_CONCLUSIONS = [''SUCCESS'']"

record flaky_signature =
  fs_name_regex :: string
  fs_text_regex :: string
  fs_note :: string

datatype classify_error = BadSignature string string string | EmptyGateName | NegativeOutageThreshold

definition pattern_error :: "regex_builder \<Rightarrow> string \<Rightarrow> string \<Rightarrow> classify_error option" where
  "pattern_error re field pattern =
     (if pattern = [] then None
      else case re pattern of Inl e \<Rightarrow> Some (BadSignature field pattern e) | Inr _ \<Rightarrow> None)"

definition signature_validate :: "regex_builder \<Rightarrow> flaky_signature \<Rightarrow> classify_error + unit" where
  "signature_validate re sig =
     (case pattern_error re ''name_regex'' (fs_name_regex sig) of
        Some e \<Rightarrow> Inl e
      | None \<Rightarrow> (case pattern_error re ''text_regex'' (fs_text_regex sig) of
          Some e \<Rightarrow> Inl e
        | None \<Rightarrow> Inr ()))"

definition pattern_matches :: "regex_builder \<Rightarrow> string \<Rightarrow> string \<Rightarrow> bool" where
  "pattern_matches re pattern value \<longleftrightarrow>
     pattern = [] \<or> (case re pattern of Inl _ \<Rightarrow> False | Inr is_match \<Rightarrow> is_match value)"

definition signature_matches :: "regex_builder \<Rightarrow> flaky_signature \<Rightarrow> check_run \<Rightarrow> bool" where
  "signature_matches re sig check \<longleftrightarrow>
     \<not> (fs_name_regex sig = [] \<and> fs_text_regex sig = [])
     \<and> pattern_matches re (fs_name_regex sig) (cr_name check)
     \<and> pattern_matches re (fs_text_regex sig) (cr_text check)"

record classify_config =
  cc_gate_check :: string
  cc_flaky_signatures :: "flaky_signature list"
  cc_evaluate_once_markers :: "string list"
  cc_outage_markers :: "string list"
  cc_outage_max_duration_secs :: int
  cc_outage_min_prs :: nat

definition classify_config_default :: classify_config where
  "classify_config_default =
     \<lparr>cc_gate_check = ''merge-gate'', cc_flaky_signatures = [],
      cc_evaluate_once_markers = [''full ci still queued'', ''rerun after ci completes'', ''still queued''],
      cc_outage_markers = [''blobnotfound'', ''no runner'', ''runner not found''],
      cc_outage_max_duration_secs = 5, cc_outage_min_prs = 2\<rparr>"

fun validate_signatures :: "regex_builder \<Rightarrow> flaky_signature list \<Rightarrow> classify_error + unit" where
  "validate_signatures re [] = Inr ()"
| "validate_signatures re (sig # sigs) =
     (case signature_validate re sig of Inl e \<Rightarrow> Inl e | Inr _ \<Rightarrow> validate_signatures re sigs)"

definition classify_config_validate :: "regex_builder \<Rightarrow> classify_config \<Rightarrow> classify_error + unit" where
  "classify_config_validate re cfg =
     (if str_trim (cc_gate_check cfg) = [] then Inl EmptyGateName
      else if cc_outage_max_duration_secs cfg < 0 then Inl NegativeOutageThreshold
      else validate_signatures re (cc_flaky_signatures cfg))"

section \<open>One check\<close>

definition classify_check :: "string \<Rightarrow> string \<Rightarrow> ci_state" where
  "classify_check raw_status raw_conclusion =
     (let status = to_ascii_uppercase (str_trim raw_status);
          conclusion = to_ascii_uppercase (str_trim raw_conclusion)
      in if status \<noteq> [] \<and> status \<noteq> ''COMPLETED'' then CiNoResult
         else if conclusion \<in> set FAILED_CONCLUSIONS then CiFailed
         else if conclusion \<in> set PASSED_CONCLUSIONS then CiPassed
         else CiNoResult)"

fun number_string :: "json \<Rightarrow> string" where
  "number_string (JInt n) = dec_int n"
| "number_string (JFloat x) = jf_text x"
| "number_string _ = []"

fun scalar_string :: "json option \<Rightarrow> string" where
  "scalar_string (Some (JString s)) = s"
| "scalar_string (Some (JInt n)) = number_string (JInt n)"
| "scalar_string (Some (JFloat x)) = number_string (JFloat x)"
| "scalar_string (Some (JBool b)) = (if b then ''True'' else ''False'')"
| "scalar_string _ = []"

definition first_of :: "(json option \<Rightarrow> string) \<Rightarrow> (string \<Rightarrow> bool) \<Rightarrow> json_object \<Rightarrow> string list \<Rightarrow> string" where
  "first_of f P obj keys =
     (case find P (map (\<lambda>key. f (obj_get obj key)) keys) of Some s \<Rightarrow> s | None \<Rightarrow> [])"

abbreviation nonempty :: "string \<Rightarrow> bool" where "nonempty s \<equiv> s \<noteq> []"

definition first_string :: "json_object \<Rightarrow> string list \<Rightarrow> string" where
  "first_string obj keys = first_of scalar_string nonempty obj keys"

fun int_field :: "json_object \<Rightarrow> string list \<Rightarrow> int option" where
  "int_field obj [] = None"
| "int_field obj (key # keys) =
     (case Option.bind (obj_get obj key) as_i64 of Some n \<Rightarrow> Some n | None \<Rightarrow> int_field obj keys)"

fun selection_text :: "json option \<Rightarrow> string" where
  "selection_text (Some (JString s)) = str_trim s"
| "selection_text (Some (JInt n)) = (if n = 0 then [] else str_trim (number_string (JInt n)))"
| "selection_text (Some (JFloat x)) = (if jf_zero x then [] else str_trim (number_string (JFloat x)))"
| "selection_text (Some (JBool b)) = (if b then ''True'' else [])"
| "selection_text _ = []"

section \<open>Selection of the latest check of each context\<close>

definition head_matches :: "json_object \<Rightarrow> string \<Rightarrow> bool" where
  "head_matches obj requested \<longleftrightarrow>
     requested = [] \<or>
     (let observed = first_of selection_text nonempty obj [''headSha'', ''head_sha'', ''headRefOid'']
      in observed = [] \<or> observed = requested)"

definition check_context :: "json_object \<Rightarrow> string" where
  "check_context obj = first_of selection_text nonempty obj [''name'', ''context'']"

text \<open>\<open>as i64\<close> of an integer beyond \<open>i64\<close> goes through \<open>f64\<close> and saturates.\<close>

fun run_id_value :: "json \<Rightarrow> int option" where
  "run_id_value (JString s) = parse_i64 s"
| "run_id_value (JInt n) = Some (if is_i64 n then n else i64_max)"
| "run_id_value (JFloat x) = Some (jf_i64 x)"
| "run_id_value (JBool b) = Some (if b then 1 else 0)"
| "run_id_value _ = None"

fun run_id_fields :: "json_object \<Rightarrow> string list \<Rightarrow> int option" where
  "run_id_fields obj [] = None"
| "run_id_fields obj (key # keys) =
     (case obj_get obj key of
        None \<Rightarrow> run_id_fields obj keys
      | Some value \<Rightarrow>
          if selection_text (Some value) = [] then run_id_fields obj keys
          else case run_id_value value of Some n \<Rightarrow> Some n | None \<Rightarrow> run_id_fields obj keys)"

type_synonym url_capture = "string \<Rightarrow> string option"

definition run_id :: "url_capture \<Rightarrow> json_object \<Rightarrow> int" where
  "run_id run_url obj =
     (case run_id_fields obj [''runId'', ''run_id''] of
        Some n \<Rightarrow> n
      | None \<Rightarrow>
          let url = first_of selection_text nonempty obj [''detailsUrl'', ''details_url'', ''url'', ''html_url'']
          in case Option.bind (run_url url) parse_i64 of Some n \<Rightarrow> n | None \<Rightarrow> 0)"

definition timestamp :: "json_object \<Rightarrow> string" where
  "timestamp obj =
     first_of selection_text (\<lambda>s. s \<noteq> [] \<and> \<not> starts_with s ''0001-01-01'') obj
       [''createdAt'', ''created_at'', ''startedAt'', ''started_at'', ''completedAt'']"

definition recency_key :: "url_capture \<Rightarrow> json_object \<Rightarrow> int \<times> string" where
  "recency_key run_url obj = (run_id run_url obj, timestamp obj)"

definition outcome_identity :: "json_object \<Rightarrow> string \<times> string" where
  "outcome_identity obj =
     (selection_text (obj_get obj ''status''),
      let conclusion = selection_text (obj_get obj ''conclusion'')
      in if conclusion = [] then selection_text (obj_get obj ''state'') else conclusion)"

record selected_check =
  sc_recency :: "int \<times> string"
  sc_index :: nat
  sc_check :: json_object

definition ambiguous_check :: "string \<Rightarrow> json_object" where
  "ambiguous_check ctx =
     [(''name'', JString ctx), (''status'', JString ''AMBIGUOUS''), (''conclusion'', JString []),
      (''_selectionError'',
       JString ''duplicate check context has equal ordering identity and contrary verdicts'')]"

definition context_key :: "nat \<Rightarrow> json_object \<Rightarrow> string" where
  "context_key index obj =
     (let ctx = check_context obj in if ctx = [] then [CHR 0x00] @ ''unnamed-'' @ dec_nat index else ctx)"

text \<open>What the map holds for a key after an entry.\<close>

definition choose_check :: "url_capture \<Rightarrow> nat \<Rightarrow> json_object \<Rightarrow> selected_check option \<Rightarrow> selected_check" where
  "choose_check run_url index obj previous_opt =
     (let candidate = \<lparr>sc_recency = recency_key run_url obj, sc_index = index, sc_check = obj\<rparr>
      in case previous_opt of
        None \<Rightarrow> candidate
      | Some previous \<Rightarrow>
          if sc_recency previous < recency_key run_url obj then candidate
          else if sc_recency previous = recency_key run_url obj
          then if outcome_identity (sc_check previous) \<noteq> outcome_identity obj
               then \<lparr>sc_recency = recency_key run_url obj, sc_index = max (sc_index previous) index,
                     sc_check = ambiguous_check (check_context obj)\<rparr>
               else if sc_index previous < index then candidate
               else previous
          else previous)"

type_synonym selection = "(string, selected_check) btree_map \<times> string list"

definition select_step :: "url_capture \<Rightarrow> string \<Rightarrow> nat \<times> json \<Rightarrow> selection \<Rightarrow> selection" where
  "select_step run_url head_sha ie sel =
     (case ie of (index, entry) \<Rightarrow> case sel of (latest, order) \<Rightarrow>
       case as_object entry of
         None \<Rightarrow> (latest, order)
       | Some obj \<Rightarrow>
           if \<not> head_matches obj head_sha then (latest, order)
           else let key = context_key index obj
                in (bt_insert key (choose_check run_url index obj (bt_get latest key)) latest,
                    if bt_has latest key then order else order @ [key]))"

definition rollup_entries :: "json \<Rightarrow> json list option" where
  "rollup_entries raw =
     (case as_array raw of
        Some entries \<Rightarrow> Some entries
      | None \<Rightarrow> Option.bind (as_object raw) (\<lambda>obj.
          Option.bind
            (case obj_get obj ''statusCheckRollup'' of Some v \<Rightarrow> Some v | None \<Rightarrow> obj_get obj ''check_runs'')
            as_array))"

fun take_selected :: "string list \<Rightarrow> (string, selected_check) btree_map \<Rightarrow> json_object list" where
  "take_selected [] latest = []"
| "take_selected (key # keys) latest =
     (case bt_get latest key of
        None \<Rightarrow> take_selected keys latest
      | Some selected \<Rightarrow> sc_check selected # take_selected keys (bt_remove key latest))"

definition select_latest_checks :: "url_capture \<Rightarrow> json \<Rightarrow> string \<Rightarrow> json list" where
  "select_latest_checks run_url raw head_sha =
     (case rollup_entries raw of
        None \<Rightarrow> []
      | Some entries \<Rightarrow>
          let (latest, order) = fold (select_step run_url head_sha) (enumerate 0 entries) ([], [])
          in map JObject (take_selected order latest))"

definition check_of :: "json_object \<Rightarrow> check_run" where
  "check_of obj =
     (let conclusion = to_ascii_uppercase (first_string obj [''conclusion''])
      in \<lparr>cr_name = first_string obj [''name'', ''context'', ''workflowName''],
          cr_status = to_ascii_uppercase (first_string obj [''status'']),
          cr_conclusion = (if conclusion = [] then to_ascii_uppercase (first_string obj [''state'']) else conclusion),
          cr_text = first_string obj [''text'', ''title'', ''description'', ''summary''],
          cr_workflow = first_string obj [''workflowName'', ''workflow''],
          cr_duration_secs = int_field obj [''duration_secs'', ''durationSecs'']\<rparr>)"

definition parse_rollup :: "url_capture \<Rightarrow> json \<Rightarrow> string \<Rightarrow> check_run list" where
  "parse_rollup run_url raw head_sha =
     List.map_filter (\<lambda>entry. map_option check_of (as_object entry)) (select_latest_checks run_url raw head_sha)"

section \<open>Classification\<close>

fun classify_state_loop :: "check_run list \<Rightarrow> bool \<Rightarrow> ci_state" where
  "classify_state_loop [] saw_no_result = (if saw_no_result then CiNoResult else CiPassed)"
| "classify_state_loop (check # checks) saw_no_result =
     (case classify_check (cr_status check) (cr_conclusion check) of
        CiFailed \<Rightarrow> CiFailed
      | CiNoResult \<Rightarrow> classify_state_loop checks True
      | CiPassed \<Rightarrow> classify_state_loop checks saw_no_result)"

definition classify_state :: "check_run list \<Rightarrow> ci_state" where
  "classify_state checks = (if checks = [] then CiNoResult else classify_state_loop checks False)"

definition any_marker :: "string list \<Rightarrow> check_run \<Rightarrow> bool" where
  "any_marker markers check \<longleftrightarrow>
     list_ex (\<lambda>marker. str_contains (to_ascii_lowercase (cr_text check)) (to_ascii_lowercase marker)) markers"

definition looks_like_missing_run :: "check_run \<Rightarrow> classify_config \<Rightarrow> bool" where
  "looks_like_missing_run check cfg \<longleftrightarrow>
     any_marker (cc_outage_markers cfg) check
     \<or> cr_conclusion check = ''STARTUP_FAILURE''
     \<or> (case cr_duration_secs check of None \<Rightarrow> False | Some d \<Rightarrow> d \<le> cc_outage_max_duration_secs cfg)
       \<and> cr_conclusion check \<in> set FAILED_CONCLUSIONS"

abbreviation state_of :: "check_run \<Rightarrow> ci_state" where
  "state_of check \<equiv> classify_check (cr_status check) (cr_conclusion check)"

definition is_flaky :: "regex_builder \<Rightarrow> classify_config \<Rightarrow> check_run \<Rightarrow> bool" where
  "is_flaky re cfg check \<longleftrightarrow> list_ex (\<lambda>sig. signature_matches re sig check) (cc_flaky_signatures cfg)"

definition classify_pr :: "regex_builder \<Rightarrow> check_run list \<Rightarrow> classify_config \<Rightarrow> ci_verdict" where
  "classify_pr re checks cfg =
     (let raw_state = classify_state checks;
          gate = find (\<lambda>check. cr_name check = cc_gate_check cfg) checks;
          gate_present = (gate \<noteq> None);
          gate_ok = (case gate of None \<Rightarrow> False | Some check \<Rightarrow> state_of check = CiPassed);
          gate_missing_run = (case gate of None \<Rightarrow> False | Some check \<Rightarrow> looks_like_missing_run check cfg)
      in if raw_state \<noteq> CiFailed
         then \<lparr>cv_raw_state = raw_state, cv_red_class = None, cv_gate_present = gate_present,
               cv_gate_ok = gate_ok, cv_gate_missing_run = gate_missing_run, cv_detail = ci_state_str raw_state\<rparr>
         else
           let red_checks = filter (\<lambda>check. state_of check = CiFailed) checks;
               non_gate = filter (\<lambda>check. cr_name check \<noteq> cc_gate_check cfg) checks;
               non_gate_state = classify_state non_gate;
               verdict = (\<lambda>red detail missing. \<lparr>cv_raw_state = raw_state, cv_red_class = Some red,
                  cv_gate_present = gate_present, cv_gate_ok = gate_ok, cv_gate_missing_run = missing,
                  cv_detail = detail\<rparr>);
               gate_is_red = (case gate of None \<Rightarrow> False | Some check \<Rightarrow> state_of check = CiFailed);
               non_gate_reds = list_ex (\<lambda>check. cr_name check \<noteq> cc_gate_check cfg) red_checks
           in if gate_missing_run
              then verdict RedRunnerOutage
                (''gate check '' @ [CHR 0x27] @ cc_gate_check cfg @ [CHR 0x27] @ '' never ran (runner outage signature)'') True
              else if red_checks \<noteq> [] \<and> list_all (\<lambda>check. cr_name check = cc_gate_check cfg
                  \<and> any_marker (cc_evaluate_once_markers cfg) check) red_checks
              then verdict RedEvaluateOnceRace
                ''gate evaluated once while full CI was still queued (benign; treat as pending)'' False
              else if gate_is_red \<and> \<not> non_gate_reds \<and> non_gate_state = CiPassed
              then verdict RedStaleRequiredCheck
                (''CI green on head; required gate '' @ [CHR 0x27] @ cc_gate_check cfg @ [CHR 0x27] @ '' is stale'') False
              else if red_checks \<noteq> [] \<and> list_all (is_flaky re cfg) red_checks
              then verdict RedFlaky ''all red checks match a known flaky signature; refire CI'' False
              else
                let names = bs_collect (map cr_name (filter (\<lambda>check. \<not> is_flaky re cfg check) red_checks))
                in verdict RedReal
                  (if names = [] then ''real red'' else ''real red on: '' @ str_join '', '' names) False)"

definition str_field :: "json_object \<Rightarrow> string \<Rightarrow> string" where
  "str_field obj key = (case Option.bind (obj_get obj key) as_str of Some s \<Rightarrow> s | None \<Rightarrow> [])"

definition signature_of :: "json \<Rightarrow> flaky_signature option" where
  "signature_of entry =
     Option.bind (as_object entry) (\<lambda>obj.
       let sig = \<lparr>fs_name_regex = str_field obj ''name_regex'', fs_text_regex = str_field obj ''text_regex'',
             fs_note = str_field obj ''note''\<rparr>
       in if fs_name_regex sig \<noteq> [] \<or> fs_text_regex sig \<noteq> [] then Some sig else None)"

definition flaky_signatures_from_value :: "json \<Rightarrow> flaky_signature list" where
  "flaky_signatures_from_value raw =
     (let entries = (case as_array raw of
            Some xs \<Rightarrow> Some xs
          | None \<Rightarrow> Option.bind (Option.bind (as_object raw) (\<lambda>obj. obj_get obj ''signatures'')) as_array)
      in List.map_filter signature_of (case entries of Some xs \<Rightarrow> xs | None \<Rightarrow> []))"

end
