(* ===== verification/Planner_Mechanism.thy ===== *)
theory Planner_Mechanism
  imports Planner_Model
begin

text \<open>
  \<open>mechanism.rs\<close>: recognising operational mechanisms in label slugs and symbols, and the part of
  \<open>graph.rs\<close> that links pull requests sharing a mechanism. The regular expressions of
  \<open>derive_symbols_from_diff\<close> belong to the \<open>regex\<close> crate; its result, the mechanism symbols of a
  node, is a field of the node here.
\<close>

section \<open>The mechanisms\<close>

datatype mechanism = CancelInProgress | PrAutoTrigger | DagSchedulerWidth
  | LocallyValidatedLabel | ValidateLedgerPath | MergeGateRequiredChecks

text \<open>\<open>derive(Ord)\<close> orders an enumeration by declaration; \<open>BTreeSet<Mechanism>\<close> relies on it.\<close>

fun mechanism_index :: "mechanism \<Rightarrow> nat" where
  "mechanism_index CancelInProgress = 0"
| "mechanism_index PrAutoTrigger = 1"
| "mechanism_index DagSchedulerWidth = 2"
| "mechanism_index LocallyValidatedLabel = 3"
| "mechanism_index ValidateLedgerPath = 4"
| "mechanism_index MergeGateRequiredChecks = 5"

lemma mechanism_index_inj: "mechanism_index a = mechanism_index b \<Longrightarrow> a = b"
  by (cases a; cases b) simp_all

instantiation mechanism :: linorder
begin

definition less_eq_mechanism :: "mechanism \<Rightarrow> mechanism \<Rightarrow> bool" where
  "less_eq_mechanism a b \<longleftrightarrow> mechanism_index a \<le> mechanism_index b"

definition less_mechanism :: "mechanism \<Rightarrow> mechanism \<Rightarrow> bool" where
  "less_mechanism a b \<longleftrightarrow> mechanism_index a < mechanism_index b"

instance
  by standard (auto simp: less_eq_mechanism_def less_mechanism_def intro: mechanism_index_inj)

end

definition mechanism_all :: "mechanism list" where
  "mechanism_all = [CancelInProgress, PrAutoTrigger, DagSchedulerWidth, LocallyValidatedLabel,
     ValidateLedgerPath, MergeGateRequiredChecks]"

fun mechanism_str :: "mechanism \<Rightarrow> string" where
  "mechanism_str CancelInProgress = ''cancel-in-progress''"
| "mechanism_str PrAutoTrigger = ''pr-auto-trigger''"
| "mechanism_str DagSchedulerWidth = ''dag-scheduler-width''"
| "mechanism_str LocallyValidatedLabel = ''locally-validated-label''"
| "mechanism_str ValidateLedgerPath = ''validate-ledger-path''"
| "mechanism_str MergeGateRequiredChecks = ''merge-gate-required-checks''"

fun mechanism_aliases :: "mechanism \<Rightarrow> string list" where
  "mechanism_aliases CancelInProgress = [''cancel-in-progress'']"
| "mechanism_aliases PrAutoTrigger =
     [''pr-auto-trigger'', ''on-pull-request'', ''pull-request-trigger'', ''pr-trigger'',
      ''pr-triggers'']"
| "mechanism_aliases DagSchedulerWidth =
     [''dag-scheduler-width'', ''ci-dag-jobs'', ''dag-jobs'', ''dag-width'']"
| "mechanism_aliases LocallyValidatedLabel =
     [''locally-validated-label'', ''locally-validated'', ''validated-locally'']"
| "mechanism_aliases ValidateLedgerPath =
     [''validate-ledger-path'', ''ledger-path'', ''validate-ledger'']"
| "mechanism_aliases MergeGateRequiredChecks =
     [''merge-gate-required-checks'', ''merge-gate'', ''required-checks'']"

section \<open>Normalising and classifying\<close>

text \<open>
  The loop of \<open>normalize\<close>: \<open>out\<close> is what has been pushed and \<open>sep\<close> whether a separator was seen
  since. Every byte of a multi-byte character is a separator, as the character itself is.
\<close>

fun normalize_loop :: "string \<Rightarrow> bool \<Rightarrow> string \<Rightarrow> string" where
  "normalize_loop out sep [] = out"
| "normalize_loop out sep (c # s) =
     (if is_ascii_alphanumeric c
      then normalize_loop ((if sep \<and> out \<noteq> [] then out @ ''-'' else out) @ [c]) False s
      else normalize_loop out True s)"

definition trim_dashes :: "string \<Rightarrow> string" where
  "trim_dashes s = rev (dropWhile (\<lambda>c. c = CHR ''-'') (rev (dropWhile (\<lambda>c. c = CHR ''-'') s)))"

definition normalize :: "string \<Rightarrow> string" where
  "normalize raw = trim_dashes (normalize_loop [] False (to_ascii_lowercase raw))"

definition alias_matches :: "string \<Rightarrow> string \<Rightarrow> bool" where
  "alias_matches normalized alias \<longleftrightarrow>
     normalized = alias
     \<or> starts_with normalized (alias @ ''-'')
     \<or> ends_with normalized (''-'' @ alias)
     \<or> str_contains normalized (''-'' @ alias @ ''-'')"

definition classify_mechanism :: "string \<Rightarrow> mechanism option" where
  "classify_mechanism raw =
     (let normalized = normalize raw
      in find (\<lambda>m. list_ex (alias_matches normalized) (mechanism_aliases m)) mechanism_all)"

section \<open>Mechanisms of a pull request\<close>

definition MECHANISM_LABEL_PREFIX :: string where
  "MECHANISM_LABEL_PREFIX = ''mechanism:''"

definition mechanism_slugs :: "string list \<Rightarrow> string list" where
  "mechanism_slugs labels =
     bs_collect (filter (\<lambda>slug. slug \<noteq> [])
       (List.map_filter (\<lambda>l. strip_prefix l MECHANISM_LABEL_PREFIX) labels))"

definition mechanism_candidates :: "pr_node \<Rightarrow> string list" where
  "mechanism_candidates node =
     bs_collect (mechanism_slugs (pn_labels node) @ pn_mechanism_symbols node)"

fun classify_candidates ::
  "mechanism btree_set \<Rightarrow> string list \<Rightarrow> string list \<Rightarrow> mechanism btree_set \<times> string list" where
  "classify_candidates recognised unknown [] = (recognised, unknown)"
| "classify_candidates recognised unknown (c # cs) =
     (case classify_mechanism c of
        Some m \<Rightarrow> classify_candidates (bs_insert m recognised) unknown cs
      | None \<Rightarrow> classify_candidates recognised (unknown @ [c]) cs)"

definition classify_node_mechanisms :: "pr_node \<Rightarrow> mechanism btree_set \<times> string list" where
  "classify_node_mechanisms node = classify_candidates [] [] (mechanism_candidates node)"

fun mechanism_edges_from :: "pr_node \<Rightarrow> pr_node list \<Rightarrow> mechanism_edge list" where
  "mechanism_edges_from a [] = []"
| "mechanism_edges_from a (b # bs) =
     (let shared = map mechanism_str
            (filter (\<lambda>m. m \<in> set (fst (classify_node_mechanisms b)))
              (fst (classify_node_mechanisms a)))
      in (if shared \<noteq> [] then [\<lparr>me_a = pn_number a, me_b = pn_number b, me_mechanisms = shared\<rparr>]
          else []) @ mechanism_edges_from a bs)"

fun build_mechanism_edges :: "pr_node list \<Rightarrow> mechanism_edge list" where
  "build_mechanism_edges [] = []"
| "build_mechanism_edges (a # nodes) =
     (if fst (classify_node_mechanisms a) = [] then [] else mechanism_edges_from a nodes)
     @ build_mechanism_edges nodes"

definition build_unclassified_mechanisms :: "pr_node list \<Rightarrow> unclassified_mechanism list" where
  "build_unclassified_mechanisms nodes =
     List.map_filter (\<lambda>node.
       let candidates = snd (classify_node_mechanisms node)
       in if candidates \<noteq> []
          then Some \<lparr>um_pr = pn_number node, um_candidates = candidates\<rparr> else None) nodes"

section \<open>Facts\<close>

text \<open>A normalised text: alphanumeric groups with one dash between two groups.\<close>

fun dashed :: "string \<Rightarrow> bool" where
  "dashed [] \<longleftrightarrow> True"
| "dashed [c] \<longleftrightarrow> is_ascii_alphanumeric c"
| "dashed (c # d # s) \<longleftrightarrow>
     is_ascii_alphanumeric c
     \<and> (if d = CHR ''-'' then s \<noteq> [] \<and> dashed s else dashed (d # s))"

lemma not_alnum_dash [simp]: "\<not> is_ascii_alphanumeric (CHR ''-'')"
  by (simp add: ascii_defs)

lemma dashed_snoc: "dashed s \<Longrightarrow> is_ascii_alphanumeric c \<Longrightarrow> dashed (s @ [c])"
  by (induction s rule: dashed.induct) (auto split: if_splits)

lemma dashed_snoc_dash: "dashed s \<Longrightarrow> s \<noteq> [] \<Longrightarrow> is_ascii_alphanumeric c \<Longrightarrow> dashed (s @ [CHR ''-'', c])"
  by (induction s rule: dashed.induct) (auto split: if_splits)

lemma normalize_loop_dashed: "dashed out \<Longrightarrow> dashed (normalize_loop out sep s)"
  by (induction out sep s rule: normalize_loop.induct) (auto simp: dashed_snoc dashed_snoc_dash)

lemma dashed_hd: "dashed (c # s) \<Longrightarrow> is_ascii_alphanumeric c"
  by (cases s) auto

lemma dashed_last: "dashed s \<Longrightarrow> s \<noteq> [] \<Longrightarrow> is_ascii_alphanumeric (last s)"
  by (induction s rule: dashed.induct) (auto split: if_splits)

lemma trim_dashes_dashed: "dashed s \<Longrightarrow> trim_dashes s = s"
proof (cases "s = []")
  case False
  assume d: "dashed s"
  have "dropWhile (\<lambda>c. c = CHR ''-'') s = s"
    using d False by (cases s) (auto dest: dashed_hd)
  moreover have "dropWhile (\<lambda>c. c = CHR ''-'') (rev s) = rev s"
    using dashed_last[OF d False] False by (cases s rule: rev_cases) auto
  ultimately show ?thesis by (simp add: trim_dashes_def)
qed (simp add: trim_dashes_def)

lemma normalize_dashed: "dashed (normalize raw)"
  by (simp add: normalize_def normalize_loop_dashed trim_dashes_dashed)

text \<open>Replaying the loop on a dashed text copies it.\<close>

lemma normalize_loop_copy:
  "dashed s \<Longrightarrow> s \<noteq> [] \<Longrightarrow> normalize_loop out sep s = (if sep \<and> out \<noteq> [] then out @ ''-'' else out) @ s"
proof (induction s arbitrary: out sep rule: dashed.induct)
  case (3 c d s)
  let ?pre = "(if sep \<and> out \<noteq> [] then out @ ''-'' else out) @ [c]"
  have c: "is_ascii_alphanumeric c" using "3.prems" by simp
  then have step: "normalize_loop out sep (c # d # s) = normalize_loop ?pre False (d # s)" by simp
  show ?case
  proof (cases "d = CHR ''-''")
    case True
    then have "normalize_loop ?pre False (d # s) = normalize_loop ?pre True s" by simp
    also have "\<dots> = (?pre @ ''-'') @ s" using "3.IH"(1)[OF True, of ?pre True] "3.prems" True by simp
    finally show ?thesis using step True by simp
  next
    case False
    then have "normalize_loop ?pre False (d # s) = ?pre @ d # s"
      using "3.IH"(2)[OF False, of ?pre False] "3.prems" by simp
    then show ?thesis using step by simp
  qed
qed auto

lemma lowercase_alnum:
  "to_ascii_lowercase (to_ascii_lowercase s) = to_ascii_lowercase s"
proof -
  have "\<not> is_ascii_upper (char_of (byte c + 32))" if "is_ascii_upper c" for c
    using that by (simp add: ascii_defs)
  then show ?thesis by (auto simp: to_ascii_lowercase_def)
qed

lemma normalize_loop_set: "set (normalize_loop out sep s) \<subseteq> set out \<union> set s \<union> {CHR ''-''}"
  by (induction out sep s rule: normalize_loop.induct) auto

lemma to_lower_id: "(\<And>c. c \<in> set s \<Longrightarrow> \<not> is_ascii_upper c) \<Longrightarrow> to_ascii_lowercase s = s"
  by (simp add: to_ascii_lowercase_def map_idI)

lemma to_lower_no_upper: "c \<in> set (to_ascii_lowercase s) \<Longrightarrow> \<not> is_ascii_upper c"
  by (auto simp: to_ascii_lowercase_def ascii_defs)

lemma normalize_no_upper: "c \<in> set (normalize raw) \<Longrightarrow> \<not> is_ascii_upper c"
proof -
  assume "c \<in> set (normalize raw)"
  then have "c \<in> set (normalize_loop [] False (to_ascii_lowercase raw))"
    by (simp add: normalize_def trim_dashes_dashed normalize_loop_dashed)
  then have "c \<in> set (to_ascii_lowercase raw) \<or> c = CHR ''-''"
    using normalize_loop_set[of "[]" False "to_ascii_lowercase raw"] by auto
  then show ?thesis using to_lower_no_upper by (auto simp: ascii_defs)
qed

lemma normalize_fixed: "dashed s \<Longrightarrow> (\<And>c. c \<in> set s \<Longrightarrow> \<not> is_ascii_upper c) \<Longrightarrow> normalize s = s"
proof (cases "s = []")
  case True
  then show ?thesis by (simp add: normalize_def trim_dashes_def to_ascii_lowercase_def)
next
  case False
  assume "dashed s" and "\<And>c. c \<in> set s \<Longrightarrow> \<not> is_ascii_upper c"
  then show ?thesis
    using False by (simp add: normalize_def to_lower_id normalize_loop_copy trim_dashes_dashed)
qed

lemma normalize_idem: "normalize (normalize raw) = normalize raw"
  by (rule normalize_fixed) (use normalize_dashed normalize_no_upper in auto)

lemma classify_candidates_eq:
  "classify_candidates r u cs =
     (fold bs_insert (List.map_filter classify_mechanism cs) r,
      u @ filter (\<lambda>c. classify_mechanism c = None) cs)"
  by (induction r u cs rule: classify_candidates.induct)
    (auto simp: List.map_filter_simps split: option.splits)

lemma classify_node_recognised:
  "set (fst (classify_node_mechanisms node)) =
     {m. \<exists>c \<in> set (mechanism_candidates node). classify_mechanism c = Some m}"
  by (auto simp: classify_node_mechanisms_def classify_candidates_eq bts.elems_fold
      set_map_filter_iff)

lemma set_mechanism_edges_from:
  "e \<in> set (mechanism_edges_from a bs) \<longleftrightarrow>
     (\<exists>b \<in> set bs. me_a e = pn_number a \<and> me_b e = pn_number b
        \<and> me_mechanisms e = map mechanism_str
            (filter (\<lambda>m. m \<in> set (fst (classify_node_mechanisms b)))
              (fst (classify_node_mechanisms a)))
        \<and> me_mechanisms e \<noteq> [])"
  by (induction a bs rule: mechanism_edges_from.induct) (auto simp: Let_def)

section \<open>What the mechanisms promise\<close>

lemma mechanism_all_complete: "m \<in> set mechanism_all"
  by (cases m) (simp_all add: mechanism_all_def)

lemma aliases_normal:
  "list_all (\<lambda>m. list_all (\<lambda>alias. normalize alias = alias) (mechanism_aliases m)) mechanism_all"
  by code_simp

lemma aliases_matched:
  "list_all (\<lambda>alias. find (\<lambda>m'. list_ex (alias_matches alias) (mechanism_aliases m')) mechanism_all = Some m)
     (mechanism_aliases m)"
  by (cases m) (simp_all add: mechanism_all_def alias_matches_def suffix_def)

lemma alias_recognised: "alias \<in> set (mechanism_aliases m) \<Longrightarrow> classify_mechanism alias = Some m"
  using aliases_normal aliases_matched[of m] mechanism_all_complete[of m]
  by (auto simp: list_all_iff classify_mechanism_def)

lemma mechanism_str_alias: "mechanism_str m \<in> set (mechanism_aliases m)"
  by (cases m) simp_all

text \<open>
  Normalisation is idempotent and does not change the classification, and every mechanism is
  recognised by its own slug and by each of its aliases.
\<close>

theorem classify_mechanism_roundtrip:
  "normalize (normalize raw) = normalize raw
   \<and> classify_mechanism (normalize raw) = classify_mechanism raw
   \<and> classify_mechanism (mechanism_str m) = Some m
   \<and> list_all (\<lambda>alias. classify_mechanism alias = Some m) (mechanism_aliases m)"
proof (intro conjI)
  show "normalize (normalize raw) = normalize raw" by (rule normalize_idem)
  show "classify_mechanism (normalize raw) = classify_mechanism raw"
    by (simp add: classify_mechanism_def normalize_idem)
qed (simp_all add: alias_recognised mechanism_str_alias list_all_iff)

end
