(* ===== verification/Planner_Graph.thy ===== *)
theory Planner_Graph
  imports Planner_Mechanism
begin

text \<open>
  The edges of the landing graph and their reduction (first half of \<open>graph.rs\<close>): file overlaps,
  base-branch dependencies, the search \<open>has_path\<close>, the transitive reduction and the root-to-leaf
  stacks. A \<open>Vec\<close> that the code uses as a stack is a list with its top first.
\<close>

section \<open>Overlap and ordering edges\<close>

fun overlap_edges_from :: "pr_node \<Rightarrow> pr_node list \<Rightarrow> overlap_edge list" where
  "overlap_edges_from a [] = []"
| "overlap_edges_from a (b # bs) =
     (let paths = filter (\<lambda>p. p \<in> set (pn_files b)) (pn_files a)
      in (if paths \<noteq> [] then [\<lparr>oe_a = pn_number a, oe_b = pn_number b, oe_paths = paths\<rparr>] else [])
         @ overlap_edges_from a bs)"

fun build_overlap_edges :: "pr_node list \<Rightarrow> overlap_edge list" where
  "build_overlap_edges [] = []"
| "build_overlap_edges (a # nodes) = overlap_edges_from a nodes @ build_overlap_edges nodes"

definition build_conflict_edges_file_overlap :: "pr_node list \<Rightarrow> conflict_edge list" where
  "build_conflict_edges_file_overlap nodes =
     map (\<lambda>e. \<lparr>ce_a = oe_a e, ce_b = oe_b e, ce_paths = oe_paths e\<rparr>) (build_overlap_edges nodes)"

definition build_ordering_edges_base_ref :: "pr_node list \<Rightarrow> ordering_edge list" where
  "build_ordering_edges_base_ref nodes =
     (let by_head = bt_collect (map (\<lambda>n. (pn_head_ref n, pn_number n)) nodes)
      in List.map_filter (\<lambda>n.
           case bt_get by_head (pn_base_ref n) of
             None \<Rightarrow> None
           | Some before \<Rightarrow>
               if before \<noteq> pn_number n
               then Some \<lparr>or_before = before, or_after = pn_number n, or_reason = ''base-ref''\<rparr>
               else None) nodes)"

definition dedupe_ordering :: "ordering_edge list \<Rightarrow> ordering_edge list" where
  "dedupe_ordering edges =
     map snd (fold (\<lambda>e. bt_or_insert (or_before e, or_after e) e) edges [])"

section \<open>Adjacency maps\<close>

type_synonym adjacency = "(int, int btree_set) btree_map"

text \<open>\<open>adjacency.get(&n)\<close> read as a set, and \<open>entry(a).or_default().insert(b)\<close>.\<close>

definition adj_children :: "adjacency \<Rightarrow> int \<Rightarrow> int list" where
  "adj_children adj n = (case bt_get adj n of None \<Rightarrow> [] | Some s \<Rightarrow> s)"

definition adj_add :: "int \<times> int \<Rightarrow> adjacency \<Rightarrow> adjacency" where
  "adj_add ab adj = bt_insert (fst ab) (bs_insert (snd ab) (adj_children adj (fst ab))) adj"

definition ordering_pair :: "ordering_edge \<Rightarrow> int \<times> int" where
  "ordering_pair e = (or_before e, or_after e)"

definition ordering_adjacency :: "ordering_edge list \<Rightarrow> adjacency" where
  "ordering_adjacency edges = fold adj_add (map ordering_pair edges) []"

section \<open>Path search and transitive reduction\<close>

function has_path_loop ::
  "adjacency \<Rightarrow> int \<Rightarrow> int \<times> int \<Rightarrow> int list \<Rightarrow> int btree_set \<Rightarrow> bool" where
  "has_path_loop adj target skip [] seen = False"
| "has_path_loop adj target skip (current # pending) seen =
     (if current \<in> set seen then has_path_loop adj target skip pending seen
      else let kids = filter (\<lambda>child. (current, child) \<noteq> skip) (adj_children adj current)
           in if target \<in> set kids then True
              else has_path_loop adj target skip (rev kids @ pending) (bs_insert current seen))"
  by pat_completeness auto
termination
proof (relation "measures [\<lambda>(adj, target, skip, pending, seen). card (set (bt_keys adj) - set seen),
    \<lambda>(adj, target, skip, pending, seen). length pending]", goal_cases)
  case 1
  then show ?case by simp
next
  case (2 adj target skip current pending seen)
  then show ?case by simp
next
  case (3 adj target skip current pending seen kids)
  show ?case
  proof (cases "current \<in> set (bt_keys adj)")
    case True
    then have "set (bt_keys adj) - set (bs_insert current seen) \<subset> set (bt_keys adj) - set seen"
      using 3 by auto
    then have "card (set (bt_keys adj) - set (bs_insert current seen)) < card (set (bt_keys adj) - set seen)"
      by (intro psubset_card_mono) auto
    then show ?thesis by simp
  next
    case False
    then have "kids = []"
      using 3 bt_has_iff_key[of adj current] by (simp add: bt_has_def adj_children_def)
    moreover have "set (bt_keys adj) - set (bs_insert current seen) = set (bt_keys adj) - set seen"
      using False by auto
    ultimately show ?thesis by simp
  qed
qed

definition has_path :: "adjacency \<Rightarrow> int \<Rightarrow> int \<Rightarrow> int \<times> int \<Rightarrow> bool" where
  "has_path adj start target skip = has_path_loop adj target skip [start] []"

definition transitive_reduce :: "ordering_edge list \<Rightarrow> ordering_edge list" where
  "transitive_reduce edges =
     (let adj = ordering_adjacency edges
      in filter (\<lambda>e. \<not> has_path adj (or_before e) (or_after e) (or_before e, or_after e)) edges)"

section \<open>Stacks\<close>

text \<open>
  \<open>visit\<close> of \<open>build_stacks\<close>: the path the code pushes and pops is passed down, and the stacks it
  pushes are returned in order.
\<close>

function stack_visit :: "adjacency \<Rightarrow> int list \<Rightarrow> int \<Rightarrow> int list list" where
  "stack_visit children path node =
     (let next = adj_children children node
      in if next = [] then (if 1 < length path then [path] else [])
         else concat (map (\<lambda>child.
                if child \<in> set path then [] else stack_visit children (path @ [child]) child) next))"
  by pat_completeness auto
termination
proof (relation "measure (\<lambda>(children, path, node).
    card ((\<Union>s \<in> set (map snd children). set s) - set path))", goal_cases)
  case 1
  then show ?case by simp
next
  case (2 children path node kids child)
  let ?U = "\<Union>s \<in> set (map snd children). set s"
  have "child \<in> ?U"
    using 2 by (auto simp: adj_children_def bt_get_def split: option.splits dest!: map_of_SomeD)
      (metis snd_conv)
  then have "?U - set (path @ [child]) \<subset> ?U - set path" using 2 by auto
  then have "card (?U - set (path @ [child])) < card (?U - set path)"
    by (intro psubset_card_mono) auto
  then show ?case by simp
qed

declare stack_visit.simps [simp del]

definition build_stacks :: "ordering_edge list \<Rightarrow> int list list" where
  "build_stacks edges =
     (let pairs = map ordering_pair (transitive_reduce edges);
          children = fold adj_add pairs [];
          parents = fold adj_add (map prod.swap pairs) [];
          involved = bs_collect (concat (map (\<lambda>(a, b). [a, b]) pairs))
      in concat (map (\<lambda>root. stack_visit children [root] root)
           (filter (\<lambda>n. adj_children parents n = []) involved)))"

section \<open>Relations of adjacency maps\<close>

text \<open>The edges an adjacency map and a list of ordering edges stand for.\<close>

definition adj_rel :: "adjacency \<Rightarrow> (int \<times> int) set" where
  "adj_rel adj = {(a, b). b \<in> set (adj_children adj a)}"

definition ordering_rel :: "ordering_edge list \<Rightarrow> (int \<times> int) set" where
  "ordering_rel edges = ordering_pair ` set edges"

definition adj_ok :: "adjacency \<Rightarrow> bool" where
  "adj_ok adj \<longleftrightarrow> bt_ok adj \<and> (\<forall>n. bs_ok (adj_children adj n))"

lemma adj_ok_Nil [simp]: "adj_ok []"
  by (simp add: adj_ok_def adj_children_def)

lemma adj_children_add:
  "bt_ok adj \<Longrightarrow> adj_children (adj_add (a, b) adj) n =
     (if n = a then bs_insert b (adj_children adj a) else adj_children adj n)"
  by (simp add: adj_add_def adj_children_def bt_get_insert)

lemma adj_ok_add: "adj_ok adj \<Longrightarrow> adj_ok (adj_add ab adj)"
proof (cases ab)
  case (Pair a b)
  assume ok: "adj_ok adj"
  then have "adj_children (adj_add (a, b) adj) n =
      (if n = a then bs_insert b (adj_children adj a) else adj_children adj n)" for n
    by (intro adj_children_add) (simp add: adj_ok_def)
  with ok show ?thesis
    by (auto simp: adj_ok_def Pair bs_ok_insert adj_add_def[of "(a, b)"] bt_ok_insert)
qed

lemma adj_rel_add: "adj_ok adj \<Longrightarrow> adj_rel (adj_add ab adj) = insert ab (adj_rel adj)"
  by (cases ab) (auto simp: adj_rel_def adj_children_add adj_ok_def split: if_splits)

lemma adj_ok_fold: "adj_ok adj \<Longrightarrow> adj_ok (fold adj_add ps adj)"
  by (induction ps arbitrary: adj) (auto simp: adj_ok_add)

lemma adj_rel_fold: "adj_ok adj \<Longrightarrow> adj_rel (fold adj_add ps adj) = set ps \<union> adj_rel adj"
  by (induction ps arbitrary: adj) (auto simp: adj_ok_add adj_rel_add)

lemma adj_rel_Nil [simp]: "adj_rel [] = {}"
  by (simp add: adj_rel_def adj_children_def)

lemma adj_children_iff: "b \<in> set (adj_children adj a) \<longleftrightarrow> (a, b) \<in> adj_rel adj"
  by (simp add: adj_rel_def)

lemma adj_rel_ordering_adjacency [simp]: "adj_rel (ordering_adjacency edges) = ordering_rel edges"
  by (simp add: ordering_adjacency_def adj_rel_fold ordering_rel_def)

lemma finite_ordering_rel [simp]: "finite (ordering_rel edges)"
  by (simp add: ordering_rel_def)

section \<open>The path search decides reachability\<close>

lemma has_path_loop_sound:
  "has_path_loop adj target skip pending seen \<Longrightarrow>
     \<exists>p \<in> set pending. (p, target) \<in> (adj_rel adj - {skip})\<^sup>+"
proof (induction adj target skip pending seen rule: has_path_loop.induct)
  case (1 adj target skip seen)
  then show ?case by simp
next
  case (2 adj target skip current pending seen)
  let ?E = "adj_rel adj - {skip}"
  let ?kids = "filter (\<lambda>child. (current, child) \<noteq> skip) (adj_children adj current)"
  have kids: "(current, k) \<in> ?E" if "k \<in> set ?kids" for k
    using that by (auto simp: adj_children_iff)
  consider "current \<in> set seen" | "current \<notin> set seen" "target \<in> set ?kids"
    | "current \<notin> set seen" "target \<notin> set ?kids" by blast
  then show ?case
  proof cases
    case 1
    then show ?thesis using "2.IH"(1) "2.prems" by auto
  next
    case 2
    then show ?thesis using kids by (auto intro!: bexI[of _ current] r_into_trancl)
  next
    case 3
    then obtain p where "p \<in> set (rev ?kids @ pending)" and p: "(p, target) \<in> ?E\<^sup>+"
      using "2.IH"(2) "2.prems" by (auto simp: Let_def)
    then consider "p \<in> set ?kids" | "p \<in> set pending" by auto
    then show ?thesis
      using p kids by cases (auto intro: trancl_into_trancl2)
  qed
qed

lemma has_path_loop_complete:
  assumes "\<not> has_path_loop adj target skip pending seen"
    and "\<And>x y. x \<in> set seen \<Longrightarrow> (x, y) \<in> adj_rel adj - {skip} \<Longrightarrow> y \<in> set seen \<union> set pending \<and> y \<noteq> target"
  shows "\<exists>C. set seen \<union> set pending \<subseteq> C \<and>
    (\<forall>x y. x \<in> C \<longrightarrow> (x, y) \<in> adj_rel adj - {skip} \<longrightarrow> y \<in> C \<and> y \<noteq> target)"
  using assms
proof (induction adj target skip pending seen rule: has_path_loop.induct)
  case (1 adj target skip seen)
  then show ?case by (intro exI[of _ "set seen"]) auto
next
  case (2 adj target skip current pending seen)
  let ?kids = "filter (\<lambda>child. (current, child) \<noteq> skip) (adj_children adj current)"
  have kids: "y \<in> set ?kids" if "(current, y) \<in> adj_rel adj - {skip}" for y
    using that by (auto simp: adj_children_iff)
  show ?case
  proof (cases "current \<in> set seen")
    case True
    then have "\<not> has_path_loop adj target skip pending seen" using "2.prems"(1) by simp
    with "2.IH"(1)[OF True] "2.prems"(2) True show ?thesis by (auto simp: insert_absorb)
  next
    case False
    then have t: "target \<notin> set ?kids"
      and no: "\<not> has_path_loop adj target skip (rev ?kids @ pending) (bs_insert current seen)"
      using "2.prems"(1) by (auto simp: Let_def split: if_splits)
    have "\<exists>C. set (bs_insert current seen) \<union> set (rev ?kids @ pending) \<subseteq> C \<and>
      (\<forall>x y. x \<in> C \<longrightarrow> (x, y) \<in> adj_rel adj - {skip} \<longrightarrow> y \<in> C \<and> y \<noteq> target)"
    proof (rule "2.IH"(2)[OF False refl t no])
      fix x y
      assume "x \<in> set (bs_insert current seen)" and xy: "(x, y) \<in> adj_rel adj - {skip}"
      then consider "x = current" | "x \<in> set seen" by auto
      then show "y \<in> set (bs_insert current seen) \<union> set (rev ?kids @ pending) \<and> y \<noteq> target"
      proof cases
        case 1
        then show ?thesis using kids xy t by auto
      next
        case 2
        then show ?thesis using "2.prems"(2)[OF _ xy] by auto
      qed
    qed
    then show ?thesis by auto
  qed
qed

lemma has_path_iff: "has_path adj start target skip \<longleftrightarrow> (start, target) \<in> (adj_rel adj - {skip})\<^sup>+"
proof
  assume "has_path adj start target skip"
  from has_path_loop_sound[OF this[unfolded has_path_def]]
  show "(start, target) \<in> (adj_rel adj - {skip})\<^sup>+" by simp
next
  let ?E = "adj_rel adj - {skip}"
  assume path: "(start, target) \<in> ?E\<^sup>+"
  show "has_path adj start target skip"
  proof (rule ccontr)
    assume "\<not> has_path adj start target skip"
    then obtain C where C: "start \<in> C" "\<And>x y. x \<in> C \<Longrightarrow> (x, y) \<in> ?E \<Longrightarrow> y \<in> C \<and> y \<noteq> target"
      unfolding has_path_def using has_path_loop_complete[of adj target skip "[start]" "[]"] by auto
    obtain z where "(start, z) \<in> ?E\<^sup>*" "(z, target) \<in> ?E"
      using path by (meson tranclD2)
    moreover have "z \<in> C" using closed_rtrancl[OF \<open>(start, z) \<in> ?E\<^sup>*\<close> C(1)] C(2) by blast
    ultimately show False using C(2) by blast
  qed
qed

lemma ordering_rel_transitive_reduce:
  "ordering_rel (transitive_reduce edges) =
     {e \<in> ordering_rel edges. e \<notin> (ordering_rel edges - {e})\<^sup>+}"
  by (auto simp: transitive_reduce_def ordering_rel_def has_path_iff ordering_pair_def
      adj_rel_ordering_adjacency[unfolded ordering_rel_def ordering_pair_def] Let_def)

text \<open>
  The edges of a finite acyclic relation that no longer path implies: they generate the relation.
\<close>

lemma reduction_generates:
  fixes R :: "('a \<times> 'a) set"
  assumes fin: "finite R" and acy: "acyclic R"
  defines "red \<equiv> {e \<in> R. e \<notin> (R - {e})\<^sup>+}"
  shows "(a, b) \<in> R\<^sup>+ \<Longrightarrow> (a, b) \<in> red\<^sup>+"
proof (induction "card {c. (a, c) \<in> R\<^sup>+ \<and> (c, b) \<in> R\<^sup>+}" arbitrary: a b rule: less_induct)
  case less
  let ?I = "\<lambda>a b. {c. (a, c) \<in> R\<^sup>+ \<and> (c, b) \<in> R\<^sup>+}"
  have fin_I: "finite (?I x y)" for x y
  proof -
    have "?I x y \<subseteq> Range (R\<^sup>+)" by blast
    then show ?thesis using fin by (metis finite_Range finite_subset trancl_range)
  qed
  have irr: "(x, x) \<notin> R\<^sup>+" for x using acy by (simp add: acyclic_def)
  show ?case
  proof (cases "?I a b = {}")
    case True
    have mid: "(a, b) \<in> S" if S: "S \<subseteq> R" and ab: "(a, b) \<in> S\<^sup>+" for S
    proof (rule ccontr)
      assume "(a, b) \<notin> S"
      then obtain c where "(a, c) \<in> S\<^sup>+" "(c, b) \<in> S" using ab by (meson tranclE)
      then show False using True S by (auto dest: trancl_mono)
    qed
    have "(a, b) \<in> R" using mid[OF subset_refl less.prems] .
    moreover have "(a, b) \<notin> (R - {(a, b)})\<^sup>+" using mid[of "R - {(a, b)}"] by blast
    ultimately show ?thesis by (auto simp: red_def)
  next
    case False
    then obtain c where c: "(a, c) \<in> R\<^sup>+" "(c, b) \<in> R\<^sup>+" by auto
    have "?I a c \<subset> ?I a b" using c irr[of c] by (auto intro: trancl_trans)
    then have "(a, c) \<in> red\<^sup>+" using less.hyps[of a c] c psubset_card_mono[OF fin_I] by blast
    moreover have "?I c b \<subset> ?I a b" using c irr[of c] by (auto intro: trancl_trans)
    then have "(c, b) \<in> red\<^sup>+" using less.hyps[of c b] c psubset_card_mono[OF fin_I] by blast
    ultimately show ?thesis by (rule trancl_trans)
  qed
qed

section \<open>Stacks are the root-to-leaf chains\<close>

text \<open>A chain of an adjacency map: consecutive members are edges.\<close>

abbreviation chain :: "adjacency \<Rightarrow> int list \<Rightarrow> bool" where
  "chain adj \<equiv> successively (\<lambda>a b. (a, b) \<in> adj_rel adj)"

lemma stack_visit_iff:
  "distinct path \<Longrightarrow> path \<noteq> [] \<Longrightarrow> last path = node \<Longrightarrow>
   xs \<in> set (stack_visit children path node) \<longleftrightarrow>
     (\<exists>ext. xs = path @ ext \<and> chain children (node # ext) \<and> distinct xs
        \<and> adj_children children (last (node # ext)) = [] \<and> 1 < length xs)"
proof (induction children path node arbitrary: xs rule: stack_visit.induct)
  case (1 children path node)
  let ?next = "adj_children children node"
  let ?good = "\<lambda>p n xs ext. xs = p @ ext \<and> chain children (n # ext) \<and> distinct xs
        \<and> adj_children children (last (n # ext)) = [] \<and> 1 < length xs"
  show ?case
  proof (cases "?next = []")
    case True
    then have "?good path node xs ext \<longleftrightarrow> ext = [] \<and> xs = path \<and> 1 < length path" for ext
      using 1 by (cases ext) (auto simp: adj_rel_def)
    with True show ?thesis by (auto simp: stack_visit.simps[of children path node])
  next
    case False
    have step: "xs \<in> set (stack_visit children (path @ [child]) child) \<longleftrightarrow>
        (\<exists>ext. ?good (path @ [child]) child xs ext)"
      if "child \<in> set ?next" "child \<notin> set path" for child
      using "1.IH"[OF refl False that] "1.prems" that by simp
    have "xs \<in> set (stack_visit children path node) \<longleftrightarrow>
        (\<exists>child \<in> set ?next. child \<notin> set path \<and> (\<exists>ext. ?good (path @ [child]) child xs ext))"
      using False step by (auto simp: stack_visit.simps[of children path node] Let_def)
    also have "\<dots> \<longleftrightarrow> (\<exists>child ext. ?good path node xs (child # ext))"
    proof -
      have "child \<in> set ?next \<and> child \<notin> set path \<and> ?good (path @ [child]) child xs ext \<longleftrightarrow>
          ?good path node xs (child # ext)" for child ext
        by (auto simp: adj_children_iff)
      then show ?thesis by blast
    qed
    also have "\<dots> \<longleftrightarrow> (\<exists>ext. ?good path node xs ext)"
      by (rule ex_list_Cons[symmetric]) (use False in simp)
    finally show ?thesis .
  qed
qed

lemma build_stacks_iff:
  "xs \<in> set (build_stacks edges) \<longleftrightarrow>
     (let R = ordering_rel (transitive_reduce edges)
      in 2 \<le> length xs \<and> distinct xs \<and> successively (\<lambda>a b. (a, b) \<in> R) xs
         \<and> hd xs \<notin> Range R \<and> last xs \<notin> Domain R)"
proof -
  define pairs where "pairs = map ordering_pair (transitive_reduce edges)"
  define children parents where "children = fold adj_add pairs []"
    and "parents = fold adj_add (map prod.swap pairs) []"
  define R where "R = ordering_rel (transitive_reduce edges)"
  have R: "R = set pairs" by (simp add: R_def pairs_def ordering_rel_def)
  have rel: "adj_rel children = R" "adj_rel parents = R\<inverse>"
    by (auto simp: children_def parents_def adj_rel_fold R)
  have leaf: "adj_children children n = [] \<longleftrightarrow> n \<notin> Domain R" for n
    using adj_children_iff[of _ children n] rel by (auto simp: Domain_iff) (metis list.set_intros(1) neq_Nil_conv)
  have root: "adj_children parents n = [] \<longleftrightarrow> n \<notin> Range R" for n
    using adj_children_iff[of _ parents n] rel by (auto simp: Range_iff) (metis list.set_intros(1) neq_Nil_conv)
  have inv: "set (bs_collect (concat (map (\<lambda>(a, b). [a, b]) pairs))) = Domain R \<union> Range R"
    by (auto simp: R Domain_iff Range_iff)
  have "xs \<in> set (build_stacks edges) \<longleftrightarrow>
      (\<exists>root. root \<in> Domain R \<union> Range R \<and> root \<notin> Range R \<and> xs \<in> set (stack_visit children [root] root))"
    unfolding build_stacks_def Let_def pairs_def[symmetric] children_def[symmetric] parents_def[symmetric]
    using inv by (auto simp: root)
  also have "\<dots> \<longleftrightarrow> (\<exists>root ext. root \<in> Domain R \<and> root \<notin> Range R \<and> xs = root # ext
        \<and> chain children (root # ext) \<and> distinct xs \<and> last (root # ext) \<notin> Domain R \<and> 1 < length xs)"
    by (auto simp: stack_visit_iff leaf)
  also have "\<dots> \<longleftrightarrow> 2 \<le> length xs \<and> distinct xs \<and> successively (\<lambda>a b. (a, b) \<in> R) xs
         \<and> hd xs \<notin> Range R \<and> last xs \<notin> Domain R"
    by (cases xs; cases "tl xs") (auto simp: rel)
  finally show ?thesis by (simp add: R_def Let_def)
qed

section \<open>Deduplicated and derived edges\<close>

lemma dedupe_fold:
  assumes "bt_ok m"
  shows "bt_ok (fold (\<lambda>e. bt_or_insert (ordering_pair e) e) es m)"
    and "bt_get (fold (\<lambda>e. bt_or_insert (ordering_pair e) e) es m) k =
      (case bt_get m k of Some v \<Rightarrow> Some v | None \<Rightarrow> find (\<lambda>e. ordering_pair e = k) es)"
  using assms
  by (induction es arbitrary: m)
    (auto simp: bt_ok_or_insert bt_get_or_insert split: option.splits)

lemma dedupe_ordering_eq:
  "dedupe_ordering edges = map snd (fold (\<lambda>e. bt_or_insert (ordering_pair e) e) edges [])"
  by (simp add: dedupe_ordering_def ordering_pair_def)

lemma set_dedupe_ordering:
  "e \<in> set (dedupe_ordering edges) \<longleftrightarrow> find (\<lambda>e'. ordering_pair e' = ordering_pair e) edges = Some e"
proof -
  let ?m = "fold (\<lambda>e. bt_or_insert (ordering_pair e) e) edges []"
  have entry: "(k, v) \<in> set ?m \<longleftrightarrow> find (\<lambda>e. ordering_pair e = k) edges = Some v" for k v
    using dedupe_fold[of "[]" edges] by (simp add: btm.entries_mem)
  have key: "k = ordering_pair v" if "(k, v) \<in> set ?m" for k v
    using entry[THEN iffD1, OF that] by (auto simp: find_Some_iff)
  have "e \<in> set (dedupe_ordering edges) \<longleftrightarrow> (\<exists>k. (k, e) \<in> set ?m)"
    unfolding dedupe_ordering_eq set_map by (rule in_snd_image)
  also have "\<dots> \<longleftrightarrow> (ordering_pair e, e) \<in> set ?m" using key by blast
  finally show ?thesis unfolding entry .
qed

lemma dedupe_ordering_sorted: "sorted_wrt (<) (map ordering_pair (dedupe_ordering edges))"
proof -
  let ?m = "fold (\<lambda>e. bt_or_insert (ordering_pair e) e) edges []"
  have ok: "bt_ok ?m" by (rule dedupe_fold) simp
  have "ordering_pair (snd kv) = fst kv" if "kv \<in> set ?m" for kv
  proof -
    obtain k v where kv: "kv = (k, v)" by (cases kv)
    then have "bt_get ?m k = Some v" using that btm.entries_mem[OF ok] by blast
    then have "find (\<lambda>e. ordering_pair e = k) edges = Some v"
      using dedupe_fold(2)[of "[]" edges k] by simp
    then show ?thesis by (auto simp: find_Some_iff kv)
  qed
  then have "map ordering_pair (map snd ?m) = map fst ?m" by simp
  then show ?thesis using ok unfolding dedupe_ordering_eq bt_ok_def by (simp only:)
qed

definition overlap_between :: "pr_node \<Rightarrow> pr_node \<Rightarrow> overlap_edge" where
  "overlap_between a b = \<lparr>oe_a = pn_number a, oe_b = pn_number b,
     oe_paths = filter (\<lambda>p. p \<in> set (pn_files b)) (pn_files a)\<rparr>"

lemma set_overlap_edges_from:
  "e \<in> set (overlap_edges_from a bs) \<longleftrightarrow>
     (\<exists>b \<in> set bs. e = overlap_between a b \<and> set (pn_files a) \<inter> set (pn_files b) \<noteq> {})"
proof (induction a bs rule: overlap_edges_from.induct)
  case (2 a b bs)
  have "filter (\<lambda>p. p \<in> set (pn_files b)) (pn_files a) = [] \<longleftrightarrow> set (pn_files a) \<inter> set (pn_files b) = {}"
    by (auto simp: filter_empty_conv)
  then show ?case using 2 by (auto simp: Let_def overlap_between_def)
qed simp

lemma set_build_overlap_edges:
  "e \<in> set (build_overlap_edges nodes) \<longleftrightarrow>
     (\<exists>i j. i < j \<and> j < length nodes \<and> e = overlap_between (nodes ! i) (nodes ! j)
        \<and> set (pn_files (nodes ! i)) \<inter> set (pn_files (nodes ! j)) \<noteq> {})"
proof (induction nodes)
  case Nil
  then show ?case by simp
next
  case (Cons a nodes)
  have "e \<in> set (overlap_edges_from a nodes) \<longleftrightarrow>
      (\<exists>j < length nodes. e = overlap_between a (nodes ! j) \<and> set (pn_files a) \<inter> set (pn_files (nodes ! j)) \<noteq> {})"
    unfolding set_overlap_edges_from by (metis in_set_conv_nth)
  then show ?case
    by (simp only: build_overlap_edges.simps length_Cons ex_pair_Suc set_append Un_iff Cons.IH
        nth_Cons_0 nth_Cons_Suc)
qed

section \<open>What the graph promises\<close>

lemma trancl_subset_mono: "(a, b) \<in> R\<^sup>+ \<Longrightarrow> R \<subseteq> S \<Longrightarrow> (a, b) \<in> S\<^sup>+"
  by (metis trancl_mono)

text \<open>
  C37: Where the ordering edges have no cycle, \<open>transitive_reduce\<close> keeps exactly the same
  dependencies (direct and indirect), and no edge it keeps is implied by the other edges it keeps.
\<close>

theorem transitive_reduce_correct:
  assumes "acyclic (ordering_rel edges)"
  shows "(ordering_rel (transitive_reduce edges))\<^sup>+ = (ordering_rel edges)\<^sup>+
    \<and> (\<forall>e \<in> ordering_rel (transitive_reduce edges). e \<notin> (ordering_rel (transitive_reduce edges) - {e})\<^sup>+)"
proof -
  let ?R = "ordering_rel edges" and ?r = "ordering_rel (transitive_reduce edges)"
  have sub: "?r \<subseteq> ?R" by (auto simp: ordering_rel_transitive_reduce)
  have "(a, b) \<in> ?r\<^sup>+" if "(a, b) \<in> ?R\<^sup>+" for a b
    using reduction_generates[OF finite_ordering_rel assms that]
    by (simp only: ordering_rel_transitive_reduce)
  moreover have "(a, b) \<notin> (?r - {(a, b)})\<^sup>+" if "(a, b) \<in> ?r" for a b
  proof
    assume "(a, b) \<in> (?r - {(a, b)})\<^sup>+"
    then have "(a, b) \<in> (?R - {(a, b)})\<^sup>+" by (rule trancl_subset_mono) (use sub in auto)
    then show False using that unfolding ordering_rel_transitive_reduce by blast
  qed
  ultimately show ?thesis using trancl_subset_mono[OF _ sub] by (metis subrelI subset_antisym surj_pair)
qed

theorem transitive_reduce_correct_witness:
  "(1, 3) \<in> (ordering_rel (transitive_reduce [depends 1 2, depends 2 3, depends 1 3]))\<^sup>+
   \<and> (1, 3) \<notin> ordering_rel (transitive_reduce [depends 1 2, depends 2 3, depends 1 3])"
proof -
  let ?es = "[depends 1 2, depends 2 3, depends 1 3]"
  have R: "ordering_rel ?es = {(1, 2), (2, 3), (1, 3)}"
    by (auto simp: ordering_rel_def ordering_pair_def depends_def)
  have acy: "acyclic (ordering_rel ?es)"
    unfolding R by (rule acyclicI_order[of _ uminus]) auto
  have "ordering_rel (transitive_reduce ?es) = {(1, 2), (2, 3)}"
  proof -
    have "transitive_reduce ?es = [depends 1 2, depends 2 3]" by code_simp
    then show ?thesis by (auto simp: ordering_rel_def ordering_pair_def depends_def)
  qed
  moreover have "(1, 3) \<in> (ordering_rel ?es)\<^sup>+" by (auto simp: R)
  ultimately show ?thesis using transitive_reduce_correct[OF acy] by simp
qed

text \<open>
  \<open>build_stacks\<close> returns exactly the root-to-leaf chains of the reduced dependencies: the
  repetition-free paths of at least two pull requests along reduced edges that start where nothing
  leads in and end where nothing leads out.
\<close>

theorem build_stacks_exact:
  fixes edges
  defines "R \<equiv> ordering_rel (transitive_reduce edges)"
  shows "set (build_stacks edges) =
    {xs. 2 \<le> length xs \<and> distinct xs \<and> successively (\<lambda>a b. (a, b) \<in> R) xs
       \<and> hd xs \<notin> Range R \<and> last xs \<notin> Domain R}"
  using build_stacks_iff[of _ edges] unfolding R_def Let_def by blast

text \<open>
  \<open>dedupe_ordering\<close> keeps one edge per ordered pair, the first one in the input, in ascending
  order of the pairs, and loses no pair.
\<close>

lemma dedupe_ordering_exact:
  "sorted_wrt (<) (map ordering_pair (dedupe_ordering edges))
   \<and> ordering_rel (dedupe_ordering edges) = ordering_rel edges
   \<and> (e \<in> set (dedupe_ordering edges) \<longleftrightarrow>
        find (\<lambda>e'. ordering_pair e' = ordering_pair e) edges = Some e)"
proof (intro conjI dedupe_ordering_sorted set_dedupe_ordering)
  show "ordering_rel (dedupe_ordering edges) = ordering_rel edges"
  proof
    show "ordering_rel (dedupe_ordering edges) \<subseteq> ordering_rel edges"
      by (auto simp: ordering_rel_def set_dedupe_ordering find_Some_iff intro!: imageI)
    show "ordering_rel edges \<subseteq> ordering_rel (dedupe_ordering edges)"
    proof
      fix p assume "p \<in> ordering_rel edges"
      then obtain e where "find (\<lambda>e'. ordering_pair e' = p) edges = Some e"
        by (metis (mono_tags, lifting) find_None_iff imageE not_None_eq ordering_rel_def)
      then have "ordering_pair e = p" "e \<in> set (dedupe_ordering edges)"
        by (auto simp: set_dedupe_ordering find_Some_iff)
      then show "p \<in> ordering_rel (dedupe_ordering edges)" by (auto simp: ordering_rel_def)
    qed
  qed
qed

text \<open>
  Where no two pull requests share a head branch, \<open>build_ordering_edges_base_ref\<close> relates
  exactly the pairs in which the second pull request is based on the head branch of the first.
\<close>

lemma base_ref_edges_exact:
  assumes "distinct (map pn_head_ref nodes)" and "distinct (map pn_number nodes)"
  shows "(a, b) \<in> ordering_rel (build_ordering_edges_base_ref nodes) \<longleftrightarrow>
    (\<exists>m \<in> set nodes. \<exists>n \<in> set nodes. pn_number m = a \<and> pn_number n = b \<and> m \<noteq> n
       \<and> pn_base_ref n = pn_head_ref m)"
proof -
  have get: "bt_get (bt_collect (map (\<lambda>n. (pn_head_ref n, pn_number n)) nodes)) h = Some k \<longleftrightarrow>
      (\<exists>m \<in> set nodes. pn_head_ref m = h \<and> pn_number m = k)" for h k
    using assms(1) by (subst bt_get_collect_distinct) (auto simp: comp_def image_iff)
  have inj: "pn_number m = pn_number n \<longleftrightarrow> m = n" if "m \<in> set nodes" "n \<in> set nodes" for m n
    using assms(2) that by (auto simp: distinct_map inj_on_def)
  let ?get = "bt_get (bt_collect (map (\<lambda>n. (pn_head_ref n, pn_number n)) nodes))"
  have mem: "e \<in> set (build_ordering_edges_base_ref nodes) \<longleftrightarrow>
      (\<exists>n \<in> set nodes. \<exists>k. ?get (pn_base_ref n) = Some k \<and> k \<noteq> pn_number n
         \<and> e = \<lparr>or_before = k, or_after = pn_number n, or_reason = ''base-ref''\<rparr>)" for e
  proof -
    have "(case ?get (pn_base_ref n) of None \<Rightarrow> None
           | Some k \<Rightarrow> if k \<noteq> pn_number n
               then Some \<lparr>or_before = k, or_after = pn_number n, or_reason = ''base-ref''\<rparr> else None) = Some e
        \<longleftrightarrow> (\<exists>k. ?get (pn_base_ref n) = Some k \<and> k \<noteq> pn_number n
              \<and> e = \<lparr>or_before = k, or_after = pn_number n, or_reason = ''base-ref''\<rparr>)" for n
      by (cases "?get (pn_base_ref n)") auto
    then show ?thesis
      unfolding build_ordering_edges_base_ref_def Let_def set_map_filter_iff mem_Collect_eq
      by (intro bex_cong[OF refl])
  qed
  have "(a, b) \<in> ordering_rel (build_ordering_edges_base_ref nodes) \<longleftrightarrow>
      (\<exists>n \<in> set nodes. ?get (pn_base_ref n) = Some a \<and> a \<noteq> pn_number n \<and> b = pn_number n)"
    (is "_ \<longleftrightarrow> ?direct")
  proof
    assume "(a, b) \<in> ordering_rel (build_ordering_edges_base_ref nodes)"
    then obtain e where "e \<in> set (build_ordering_edges_base_ref nodes)" "or_before e = a" "or_after e = b"
      by (auto simp: ordering_rel_def ordering_pair_def)
    then show ?direct unfolding mem by auto
  next
    assume ?direct
    then have "\<lparr>or_before = a, or_after = b, or_reason = ''base-ref''\<rparr> \<in> set (build_ordering_edges_base_ref nodes)"
      unfolding mem by auto
    then show "(a, b) \<in> ordering_rel (build_ordering_edges_base_ref nodes)"
      unfolding ordering_rel_def by (rule image_eqI[rotated]) (simp add: ordering_pair_def)
  qed
  moreover have "?direct \<longleftrightarrow> (\<exists>m \<in> set nodes. \<exists>n \<in> set nodes. pn_number m = a \<and> pn_number n = b \<and> m \<noteq> n
       \<and> pn_base_ref n = pn_head_ref m)"
    unfolding get by (metis inj)
  ultimately show ?thesis by (rule trans)
qed

lemma base_ref_edges_exact_witness:
  "(1, 2) \<in> ordering_rel (build_ordering_edges_base_ref
     [(green_node 1)\<lparr>pn_head_ref := ''a'', pn_base_ref := ''main''\<rparr>,
      (green_node 2)\<lparr>pn_head_ref := ''b'', pn_base_ref := ''a''\<rparr>])"
  by (subst base_ref_edges_exact) (simp_all add: green_node_def pr_node_default_def)

text \<open>
  The overlap edges are exactly the pairs of pull requests, in collection order, that touch a
  common file, each with the common files.
\<close>

lemma overlap_edges_exact:
  "set (build_overlap_edges nodes) =
     {overlap_between (nodes ! i) (nodes ! j) | i j.
        i < j \<and> j < length nodes \<and> set (pn_files (nodes ! i)) \<inter> set (pn_files (nodes ! j)) \<noteq> {}}"
proof (intro set_eqI)
  fix e
  show "e \<in> set (build_overlap_edges nodes) \<longleftrightarrow> e \<in> {overlap_between (nodes ! i) (nodes ! j) | i j.
        i < j \<and> j < length nodes \<and> set (pn_files (nodes ! i)) \<inter> set (pn_files (nodes ! j)) \<noteq> {}}"
    unfolding set_build_overlap_edges by blast
qed

end
