(* ===== verification/Planner_Hold.thy ===== *)
theory Planner_Hold
  imports Planner_Graph
begin

text \<open>
  Why a pull request is held (\<open>review_binding\<close> and \<open>held_reasons\<close> of \<open>graph.rs\<close>): drafts, missing
  review evidence, review decisions, review receipts that do not name the current head, base
  conflicts, ordering cycles, and everything that depends on a held pull request.
\<close>

section \<open>Review receipts\<close>

definition REQUIRED_REVIEW_LANES :: "string list" where
  "REQUIRED_REVIEW_LANES = [''codex'', ''claude'']"

definition protocol_active :: "pr_node \<Rightarrow> bool" where
  "protocol_active node \<longleftrightarrow>
     pn_review_pass_heads node \<noteq> []
     \<or> list_ex (\<lambda>label. label = ''post-facto-human-review''
          \<or> starts_with label ''passed-review-''
          \<or> starts_with label ''adversarial-review-'') (pn_labels node)"

definition lane_reasons :: "pr_node \<Rightarrow> string \<Rightarrow> string list" where
  "lane_reasons node lane =
     (if ''passed-review-'' @ lane \<notin> set (pn_labels node)
      then [''review-pass-missing:'' @ lane]
      else case bt_get (pn_review_pass_heads node) lane of
        None \<Rightarrow> [''review-pass-unbound:'' @ lane]
      | Some reviewed \<Rightarrow>
          if reviewed \<noteq> pn_head_sha node
          then [''review-pass-stale:'' @ lane @ '':reviewed='' @ reviewed @ '':current=''
                @ pn_head_sha node]
          else [])"

definition review_binding :: "pr_node \<Rightarrow> review_binding_state \<times> string list" where
  "review_binding node =
     (if \<not> protocol_active node then (NotRequired, [])
      else let reasons = concat (map (lane_reasons node) REQUIRED_REVIEW_LANES)
           in (if reasons = [] then ExactHead
               else if list_ex (\<lambda>r. starts_with r ''review-pass-stale:'') reasons then Stale
               else if list_ex (\<lambda>r. starts_with r ''review-pass-unbound:'') reasons then Unbound
               else Missing, reasons))"

section \<open>Ordering cycles\<close>

text \<open>The search for a way back to \<open>start\<close>; \<open>pending\<close> is the stack of the code, top first.\<close>

function cycle_loop :: "adjacency \<Rightarrow> int \<Rightarrow> int list \<Rightarrow> int btree_set \<Rightarrow> bool" where
  "cycle_loop adj start [] seen = False"
| "cycle_loop adj start (current # pending) seen =
     (if current = start then True
      else if current \<in> set seen then cycle_loop adj start pending seen
      else cycle_loop adj start (rev (adj_children adj current) @ pending) (bs_insert current seen))"
  by pat_completeness auto
termination
proof (relation "measures [\<lambda>(adj, start, pending, seen). card (set (bt_keys adj) - set seen),
    \<lambda>(adj, start, pending, seen). length pending]", goal_cases)
  case 1
  then show ?case by simp
next
  case (2 adj start current pending seen)
  then show ?case by simp
next
  case (3 adj start current pending seen)
  show ?case
  proof (cases "current \<in> set (bt_keys adj)")
    case True
    then have "set (bt_keys adj) - set (bs_insert current seen) \<subset> set (bt_keys adj) - set seen"
      using 3 by auto
    then show ?thesis by (auto intro!: psubset_card_mono)
  next
    case False
    then have "adj_children adj current = []"
      using bt_has_iff_key[of adj current] by (simp add: bt_has_def adj_children_def)
    moreover have "set (bt_keys adj) - set (bs_insert current seen) = set (bt_keys adj) - set seen"
      using False by auto
    ultimately show ?thesis by simp
  qed
qed

definition cycle_nodes :: "ordering_edge list \<Rightarrow> int btree_set" where
  "cycle_nodes edges =
     (let adj = ordering_adjacency edges
      in bs_collect (filter (\<lambda>start. cycle_loop adj start (rev (adj_children adj start)) [])
           (bt_keys adj)))"

section \<open>Hold reasons\<close>

definition review_decision_reasons :: "pr_node \<Rightarrow> string list" where
  "review_decision_reasons node =
     (let review = to_ascii_uppercase (str_trim (pn_review_decision node))
      in if review = ''REVIEW_REQUIRED'' then [''review-required'']
         else if review = ''CHANGES_REQUESTED''
         then (if \<not> pn_review_objections_resolved node then [''changes-requested''] else [])
         else if review = [] \<or> review = ''APPROVED'' then []
         else [''review-decision-unknown:'' @ review])"

definition node_reasons :: "int btree_set \<Rightarrow> pr_node \<Rightarrow> string list" where
  "node_reasons cycles node =
     (if pn_is_draft node then [''draft''] else [])
     @ (if pn_review_evidence_unavailable node then [''review-evidence-unavailable''] else [])
     @ review_decision_reasons node
     @ snd (review_binding node)
     @ (if pn_base_conflict_paths node \<noteq> [] then [''local-base-conflict''] else [])
     @ (if pn_mergeable node = ''CONFLICTING'' then [''github-base-conflicting''] else [])
     @ (if pn_number node \<in> set cycles then [''ordering-cycle''] else [])"

type_synonym reason_map = "(int, string list) btree_map"

definition direct_step :: "int btree_set \<Rightarrow> pr_node \<Rightarrow> reason_map \<Rightarrow> reason_map" where
  "direct_step cycles node reasons =
     (let why = node_reasons cycles node
      in if why \<noteq> [] then bt_insert (pn_number node) why reasons else reasons)"

definition direct_reasons :: "int btree_set \<Rightarrow> pr_node list \<Rightarrow> reason_map" where
  "direct_reasons cycles nodes = fold (direct_step cycles) nodes []"

text \<open>One round of the loop that holds what depends on a held pull request.\<close>

definition hold_additions :: "ordering_edge list \<Rightarrow> reason_map \<Rightarrow> (int \<times> string list) list" where
  "hold_additions edges reasons =
     map (\<lambda>e. (or_after e, [''depends-on-held:#'' @ dec_int (or_before e)]))
       (filter (\<lambda>e. bt_has reasons (or_before e) \<and> \<not> bt_has reasons (or_after e)) edges)"

definition add_holds :: "(int \<times> string list) list \<Rightarrow> reason_map \<Rightarrow> reason_map" where
  "add_holds additions reasons = fold (\<lambda>(n, why). bt_or_insert n why) additions reasons"

lemma bt_has_or_insert: "bt_has (bt_or_insert k v m) k' \<longleftrightarrow> k' = k \<or> bt_has m k'"
  by (auto simp: bt_or_insert_def bt_has_iff_key bt_keys_def bt_insert_keys[simplified]
      bt_get_def map_of_eq_None_iff split: option.splits dest!: map_of_SomeD intro: rev_image_eqI)

lemma bt_has_add_holds: "bt_has (add_holds additions m) k \<longleftrightarrow> k \<in> fst ` set additions \<or> bt_has m k"
  unfolding add_holds_def by (induction additions arbitrary: m) (auto simp: bt_has_or_insert)

lemma hold_additions_keys:
  "fst ` set (hold_additions edges reasons) =
     {or_after e | e. e \<in> set edges \<and> bt_has reasons (or_before e) \<and> \<not> bt_has reasons (or_after e)}"
  by (auto simp: hold_additions_def image_iff)

function hold_loop :: "ordering_edge list \<Rightarrow> reason_map \<Rightarrow> reason_map" where
  "hold_loop edges reasons =
     (let additions = hold_additions edges reasons
      in if additions = [] then reasons else hold_loop edges (add_holds additions reasons))"
  by pat_completeness auto
termination
proof (relation "measure (\<lambda>(edges, reasons).
    card {a \<in> or_after ` set edges. \<not> bt_has reasons a})", goal_cases)
  case 1
  then show ?case by simp
next
  case (2 edges reasons additions)
  let ?open = "\<lambda>r. {a \<in> or_after ` set edges. \<not> bt_has r a}"
  have "fst ` set additions \<noteq> {}" using 2 by simp
  then obtain e where e: "e \<in> set edges" "\<not> bt_has reasons (or_after e)"
      "or_after e \<in> fst ` set additions"
    using 2 hold_additions_keys[of edges reasons] by auto
  have "?open (add_holds additions reasons) \<subset> ?open reasons"
    using e by (auto simp: bt_has_add_holds)
  then have "card (?open (add_holds additions reasons)) < card (?open reasons)"
    by (intro psubset_card_mono) auto
  then show ?case by simp
qed

declare hold_loop.simps [simp del]

definition held_reasons :: "pr_node list \<Rightarrow> ordering_edge list \<Rightarrow> held_pr list" where
  "held_reasons nodes edges =
     map (\<lambda>(pr, reasons). \<lparr>hp_pr = pr, hp_reasons = reasons\<rparr>)
       (hold_loop edges (direct_reasons (cycle_nodes edges) nodes))"

section \<open>Cycles found are the cycles\<close>

lemma cycle_loop_sound:
  "cycle_loop adj start pending seen \<Longrightarrow> \<exists>p \<in> set pending. (p, start) \<in> (adj_rel adj)\<^sup>*"
proof (induction adj start pending seen rule: cycle_loop.induct)
  case (2 adj start current pending seen)
  consider "current = start" | "current \<noteq> start" "current \<in> set seen"
    | "current \<noteq> start" "current \<notin> set seen" by blast
  then show ?case
  proof cases
    case 3
    then obtain p where "p \<in> set (rev (adj_children adj current) @ pending)" "(p, start) \<in> (adj_rel adj)\<^sup>*"
      using 2 by auto
    then show ?thesis by (auto simp: adj_children_iff intro: converse_rtrancl_into_rtrancl)
  qed (use 2 in auto)
qed simp

lemma cycle_loop_complete:
  assumes "\<not> cycle_loop adj start pending seen"
    and "\<And>x y. x \<in> set seen \<Longrightarrow> (x, y) \<in> adj_rel adj \<Longrightarrow> y \<in> set seen \<union> set pending"
    and "start \<notin> set seen"
  shows "\<exists>C. set seen \<union> set pending \<subseteq> C \<and> start \<notin> C \<and>
    (\<forall>x y. x \<in> C \<longrightarrow> (x, y) \<in> adj_rel adj \<longrightarrow> y \<in> C)"
  using assms
proof (induction adj start pending seen rule: cycle_loop.induct)
  case (1 adj start seen)
  then show ?case by (intro exI[of _ "set seen"]) auto
next
  case (2 adj start current pending seen)
  have ne: "current \<noteq> start" using "2.prems"(1) by auto
  show ?case
  proof (cases "current \<in> set seen")
    case True
    then show ?thesis using "2.IH"(1)[OF ne True] "2.prems" ne by (auto simp: insert_absorb)
  next
    case False
    let ?pending = "rev (adj_children adj current) @ pending"
    have "\<exists>C. set (bs_insert current seen) \<union> set ?pending \<subseteq> C \<and> start \<notin> C \<and>
      (\<forall>x y. x \<in> C \<longrightarrow> (x, y) \<in> adj_rel adj \<longrightarrow> y \<in> C)"
    proof (rule "2.IH"(2)[OF ne False])
      show "\<not> cycle_loop adj start ?pending (bs_insert current seen)"
        using "2.prems"(1) ne False by simp
      show "start \<notin> set (bs_insert current seen)" using "2.prems"(3) ne by simp
      fix x y
      assume "x \<in> set (bs_insert current seen)" and xy: "(x, y) \<in> adj_rel adj"
      then consider "x = current" | "x \<in> set seen" by auto
      then show "y \<in> set (bs_insert current seen) \<union> set ?pending"
        using xy "2.prems"(2)[OF _ xy] by cases (auto simp: adj_children_iff)
    qed
    then show ?thesis by auto
  qed
qed

lemma cycle_loop_iff:
  "cycle_loop adj start (rev (adj_children adj start)) [] \<longleftrightarrow> (start, start) \<in> (adj_rel adj)\<^sup>+"
proof
  assume "cycle_loop adj start (rev (adj_children adj start)) []"
  from cycle_loop_sound[OF this] show "(start, start) \<in> (adj_rel adj)\<^sup>+"
    by (auto simp: adj_children_iff intro: rtrancl_into_trancl2)
next
  assume cyc: "(start, start) \<in> (adj_rel adj)\<^sup>+"
  show "cycle_loop adj start (rev (adj_children adj start)) []"
  proof (rule ccontr)
    assume "\<not> ?thesis"
    then obtain C where C: "set (adj_children adj start) \<subseteq> C" "start \<notin> C"
        "\<And>x y. x \<in> C \<Longrightarrow> (x, y) \<in> adj_rel adj \<Longrightarrow> y \<in> C"
      using cycle_loop_complete[of adj start "rev (adj_children adj start)" "[]"] by auto
    obtain y where "(start, y) \<in> adj_rel adj" "(y, start) \<in> (adj_rel adj)\<^sup>*"
      using cyc by (meson tranclD)
    then show False using closed_rtrancl[of y start "adj_rel adj" C] C by (auto simp: adj_children_iff)
  qed
qed

lemma set_cycle_nodes: "set (cycle_nodes edges) = {n. (n, n) \<in> (ordering_rel edges)\<^sup>+}"
proof -
  let ?adj = "ordering_adjacency edges"
  have "n \<in> set (bt_keys ?adj)" if "(n, n) \<in> (ordering_rel edges)\<^sup>+" for n
  proof -
    obtain y where "(n, y) \<in> adj_rel ?adj" using \<open>(n, n) \<in> _\<close> by (auto dest: tranclD)
    then show ?thesis
      using bt_has_iff_key[of ?adj n] by (auto simp: adj_rel_def adj_children_def bt_has_def split: option.splits)
  qed
  then show ?thesis by (auto simp: cycle_nodes_def Let_def cycle_loop_iff)
qed

section \<open>The hold loop closes the direct holds under dependencies\<close>

lemma bt_ok_add_holds: "bt_ok m \<Longrightarrow> bt_ok (add_holds additions m)"
  unfolding add_holds_def by (induction additions arbitrary: m) (auto simp: bt_ok_or_insert)

lemma bt_get_add_holds:
  "bt_ok m \<Longrightarrow> bt_get (add_holds additions m) k =
     (case bt_get m k of Some v \<Rightarrow> Some v | None \<Rightarrow> map_of additions k)"
  unfolding add_holds_def
  by (induction additions arbitrary: m)
    (auto simp: bt_ok_or_insert bt_get_or_insert split: option.splits)

lemma bt_ok_hold_loop: "bt_ok m \<Longrightarrow> bt_ok (hold_loop edges m)"
proof (induction edges m rule: hold_loop.induct)
  case (1 edges reasons)
  then show ?case
    by (subst hold_loop.simps) (auto simp: Let_def bt_ok_add_holds)
qed

lemma hold_loop_keeps: "bt_has m k \<Longrightarrow> bt_has (hold_loop edges m) k"
proof (induction edges m rule: hold_loop.induct)
  case (1 edges reasons)
  then show ?case
    by (subst hold_loop.simps) (auto simp: Let_def bt_has_add_holds)
qed

lemma hold_loop_closed:
  "(x, y) \<in> ordering_rel edges \<Longrightarrow> bt_has (hold_loop edges m) x \<Longrightarrow> bt_has (hold_loop edges m) y"
proof (induction edges m rule: hold_loop.induct)
  case (1 edges reasons)
  show ?case
  proof (cases "hold_additions edges reasons = []")
    case True
    then have "hold_loop edges reasons = reasons" by (subst hold_loop.simps) simp
    moreover have "bt_has reasons y" if "bt_has reasons x"
      using True that 1(2) hold_additions_keys[of edges reasons]
      by (auto simp: ordering_rel_def ordering_pair_def)
    ultimately show ?thesis using 1(3) by simp
  next
    case False
    then have "hold_loop edges reasons = hold_loop edges (add_holds (hold_additions edges reasons) reasons)"
      by (subst hold_loop.simps) simp
    then show ?thesis using 1(1)[OF refl False 1(2)] 1(3) by simp
  qed
qed

lemma hold_loop_least:
  assumes "\<And>k. bt_has m k \<Longrightarrow> k \<in> C" and "\<And>x y. (x, y) \<in> ordering_rel edges \<Longrightarrow> x \<in> C \<Longrightarrow> y \<in> C"
  shows "bt_has (hold_loop edges m) k \<Longrightarrow> k \<in> C"
  using assms
proof (induction edges m arbitrary: k rule: hold_loop.induct)
  case (1 edges reasons)
  show ?case
  proof (cases "hold_additions edges reasons = []")
    case True
    then show ?thesis using 1 by (subst (asm) (2) hold_loop.simps) simp
  next
    case False
    then have "bt_has (hold_loop edges (add_holds (hold_additions edges reasons) reasons)) k"
      using "1.prems"(1) by (subst (asm) hold_loop.simps) simp
    moreover have "k \<in> C" if "bt_has (add_holds (hold_additions edges reasons) reasons) k" for k
    proof -
      consider "bt_has reasons k" | e where "e \<in> set edges" "bt_has reasons (or_before e)" "k = or_after e"
        using \<open>bt_has (add_holds _ _) k\<close> by (auto simp: bt_has_add_holds hold_additions_keys)
      then show ?thesis
      proof cases
        case (2 e)
        then show ?thesis
          using "1.prems"(2)[of "or_before e"] "1.prems"(3)[of "or_before e" k]
          by (auto simp: ordering_rel_def ordering_pair_def)
      qed (use "1.prems"(2) in auto)
    qed
    ultimately show ?thesis using "1.IH"[OF refl False] "1.prems"(3) by blast
  qed
qed

text \<open>A pull request that has a hold reason of its own.\<close>

definition directly_held :: "pr_node list \<Rightarrow> ordering_edge list \<Rightarrow> int set" where
  "directly_held nodes edges =
     {pn_number n | n. n \<in> set nodes \<and> node_reasons (cycle_nodes edges) n \<noteq> []}"

definition held_numbers :: "pr_node list \<Rightarrow> ordering_edge list \<Rightarrow> int set" where
  "held_numbers nodes edges = hp_pr ` set (held_reasons nodes edges)"

lemma bt_ok_direct_step: "bt_ok m \<Longrightarrow> bt_ok (direct_step cs node m)"
  by (simp add: direct_step_def Let_def bt_ok_insert)

lemma bt_get_direct_step:
  "bt_ok m \<Longrightarrow> bt_get (direct_step cs node m) k =
     (if k = pn_number node \<and> node_reasons cs node \<noteq> [] then Some (node_reasons cs node)
      else bt_get m k)"
  by (simp add: direct_step_def Let_def bt_get_insert)

lemma bt_ok_direct_fold: "bt_ok m \<Longrightarrow> bt_ok (fold (direct_step cs) nodes m)"
  by (induction nodes arbitrary: m) (auto simp: bt_ok_direct_step)

lemma bt_ok_direct_reasons [simp]: "bt_ok (direct_reasons cs nodes)"
  unfolding direct_reasons_def by (rule bt_ok_direct_fold) simp

lemma bt_has_direct_fold:
  "bt_ok m \<Longrightarrow> bt_has (fold (direct_step cs) nodes m) k \<longleftrightarrow>
     bt_has m k \<or> (\<exists>n \<in> set nodes. pn_number n = k \<and> node_reasons cs n \<noteq> [])"
  by (induction nodes arbitrary: m) (auto simp: bt_ok_direct_step bt_get_direct_step bt_has_def)

lemma bt_has_direct_reasons:
  "bt_has (direct_reasons (cycle_nodes edges) nodes) k \<longleftrightarrow> k \<in> directly_held nodes edges"
  unfolding direct_reasons_def bt_has_direct_fold[OF bt_ok_Nil]
  by (auto simp: bt_has_def directly_held_def)

lemma held_numbers_iff:
  "k \<in> held_numbers nodes edges \<longleftrightarrow>
     bt_has (hold_loop edges (direct_reasons (cycle_nodes edges) nodes)) k"
  by (force simp: held_numbers_def held_reasons_def bt_has_iff_key bt_keys_def)

interpretation holds: closure_loop "\<lambda>_. True" "\<lambda>(nodes, edges). ordering_rel edges"
    "\<lambda>(nodes, edges). directly_held nodes edges" "\<lambda>(nodes, edges). held_numbers nodes edges"
proof (unfold_locales, goal_cases)
  case (1 i)
  then show ?case
    by (cases i) (auto simp: held_numbers_iff bt_has_direct_reasons[symmetric] intro: hold_loop_keeps)
next
  case (2 i x y)
  then show ?case by (cases i) (auto simp: held_numbers_iff intro: hold_loop_closed)
next
  case (3 i C)
  obtain nodes edges where i: "i = (nodes, edges)" by (cases i)
  have "k \<in> C" if "bt_has (direct_reasons (cycle_nodes edges) nodes) k" for k
    using that 3(2) by (auto simp: i bt_has_direct_reasons)
  moreover have "y \<in> C" if "(x, y) \<in> ordering_rel edges" "x \<in> C" for x y
    using 3(3)[of x y] that by (simp add: i)
  ultimately show ?case
    using hold_loop_least[of "direct_reasons (cycle_nodes edges) nodes" C edges]
    by (auto simp: i held_numbers_iff)
qed

section \<open>What the reasons say\<close>

lemma hold_loop_get:
  "bt_ok m \<Longrightarrow> bt_get m k = Some why \<Longrightarrow> bt_get (hold_loop edges m) k = Some why"
proof (induction edges m rule: hold_loop.induct)
  case (1 edges reasons)
  then show ?case
    by (subst hold_loop.simps) (auto simp: Let_def bt_ok_add_holds bt_get_add_holds)
qed

text \<open>A reason the loop adds names a held predecessor.\<close>

lemma hold_loop_added:
  "bt_ok m \<Longrightarrow> bt_get (hold_loop edges m) k = Some why \<Longrightarrow> bt_get m k = None \<Longrightarrow>
     \<exists>b. (b, k) \<in> ordering_rel edges \<and> bt_has (hold_loop edges m) b
       \<and> why = [''depends-on-held:#'' @ dec_int b]"
proof (induction edges m rule: hold_loop.induct)
  case (1 edges reasons)
  let ?add = "hold_additions edges reasons"
  let ?m = "add_holds ?add reasons"
  show ?case
  proof (cases "?add = []")
    case True
    then have "hold_loop edges reasons = reasons" by (subst hold_loop.simps) simp
    with "1.prems" show ?thesis by simp
  next
    case False
    then have loop: "hold_loop edges reasons = hold_loop edges ?m" by (subst hold_loop.simps) simp
    have ok: "bt_ok ?m" using "1.prems"(1) by (rule bt_ok_add_holds)
    show ?thesis
    proof (cases "bt_get ?m k")
      case None
      then show ?thesis using "1.IH"[OF refl False ok] "1.prems"(2) by (simp add: loop)
    next
      case (Some why')
      then have "map_of ?add k = Some why'"
        using "1.prems" by (simp add: bt_get_add_holds)
      moreover have "why' = why" using hold_loop_get[OF ok Some] "1.prems"(2) loop by simp
      ultimately obtain e where "e \<in> set edges" "bt_has reasons (or_before e)" "k = or_after e"
          "why = [''depends-on-held:#'' @ dec_int (or_before e)]"
        by (auto simp: hold_additions_def dest!: map_of_SomeD)
      then show ?thesis
        by (intro exI[of _ "or_before e"])
          (auto simp: ordering_rel_def ordering_pair_def intro: hold_loop_keeps)
    qed
  qed
qed

lemma direct_fold_other:
  "bt_ok m \<Longrightarrow> k \<notin> pn_number ` set nodes \<Longrightarrow> bt_get (fold (direct_step cs) nodes m) k = bt_get m k"
  by (induction nodes arbitrary: m) (auto simp: bt_ok_direct_step bt_get_direct_step)

lemma direct_fold_get:
  "bt_ok m \<Longrightarrow> distinct (map pn_number nodes) \<Longrightarrow> n \<in> set nodes \<Longrightarrow> node_reasons cs n \<noteq> [] \<Longrightarrow>
   bt_get (fold (direct_step cs) nodes m) (pn_number n) = Some (node_reasons cs n)"
  by (induction nodes arbitrary: m)
    (auto simp: bt_ok_direct_step bt_get_direct_step direct_fold_other)

lemma direct_fold_nonempty:
  "bt_ok m \<Longrightarrow> (\<And>k v. bt_get m k = Some v \<Longrightarrow> v \<noteq> []) \<Longrightarrow>
   bt_get (fold (direct_step cs) nodes m) k = Some v \<Longrightarrow> v \<noteq> []"
proof (induction nodes arbitrary: m)
  case (Cons a nodes)
  have "v' \<noteq> []" if "bt_get (direct_step cs a m) k' = Some v'" for k' v'
    using that Cons.prems(1,2) by (auto simp: bt_get_direct_step split: if_splits)
  then show ?case
    using Cons.IH[of "direct_step cs a m"] Cons.prems(1,3) by (simp add: bt_ok_direct_step)
qed simp

lemma held_reasons_mem:
  "\<lparr>hp_pr = k, hp_reasons = why\<rparr> \<in> set (held_reasons nodes edges) \<longleftrightarrow>
     bt_get (hold_loop edges (direct_reasons (cycle_nodes edges) nodes)) k = Some why"
proof -
  have "bt_ok (hold_loop edges (direct_reasons (cycle_nodes edges) nodes))"
    by (simp add: bt_ok_hold_loop)
  from btm.entries_mem[OF this, of k why] show ?thesis
    unfolding held_reasons_def set_map by force
qed

lemma held_reasons_cases:
  assumes dist: "distinct (map pn_number nodes)"
    and h: "h \<in> set (held_reasons nodes edges)"
  shows "(\<exists>n \<in> set nodes. pn_number n = hp_pr h \<and> hp_reasons h = node_reasons (cycle_nodes edges) n
             \<and> hp_reasons h \<noteq> [])
       \<or> (\<exists>b \<in> held_numbers nodes edges. (b, hp_pr h) \<in> ordering_rel edges
             \<and> hp_reasons h = [''depends-on-held:#'' @ dec_int b])"
proof -
  let ?d = "direct_reasons (cycle_nodes edges) nodes"
  obtain k why where hk: "h = \<lparr>hp_pr = k, hp_reasons = why\<rparr>"
    using h by (auto simp: held_reasons_def)
  then have get: "bt_get (hold_loop edges ?d) k = Some why" using h held_reasons_mem by blast
  show ?thesis
  proof (cases "bt_get ?d k")
    case None
    then show ?thesis
      using hold_loop_added[OF bt_ok_direct_reasons get] by (auto simp: hk held_numbers_iff)
  next
    case (Some why')
    then have "why' = why" using hold_loop_get[OF bt_ok_direct_reasons Some] get by simp
    obtain n where n: "n \<in> set nodes" "pn_number n = k" "node_reasons (cycle_nodes edges) n \<noteq> []"
      using Some bt_has_direct_reasons[of edges nodes k] by (auto simp: bt_has_def directly_held_def)
    then have "bt_get ?d k = Some (node_reasons (cycle_nodes edges) n)"
      using direct_fold_get[OF bt_ok_Nil dist n(1) n(3)] by (simp add: direct_reasons_def)
    then show ?thesis using n Some \<open>why' = why\<close> by (auto simp: hk)
  qed
qed

lemma held_reasons_sorted: "sorted_wrt (<) (map hp_pr (held_reasons nodes edges))"
proof -
  have "map hp_pr (held_reasons nodes edges) =
      map fst (hold_loop edges (direct_reasons (cycle_nodes edges) nodes))"
    by (simp add: held_reasons_def case_prod_unfold)
  then show ?thesis
    using bt_ok_hold_loop[OF bt_ok_direct_reasons] by (simp add: bt_ok_def)
qed

lemma held_reasons_nonempty: "h \<in> set (held_reasons nodes edges) \<Longrightarrow> hp_reasons h \<noteq> []"
proof -
  assume h: "h \<in> set (held_reasons nodes edges)"
  let ?d = "direct_reasons (cycle_nodes edges) nodes"
  obtain k why where hk: "h = \<lparr>hp_pr = k, hp_reasons = why\<rparr>"
    using h by (auto simp: held_reasons_def)
  then have get: "bt_get (hold_loop edges ?d) k = Some why" using h held_reasons_mem by blast
  show ?thesis
  proof (cases "bt_get ?d k")
    case None
    then show ?thesis using hold_loop_added[OF bt_ok_direct_reasons get] by (auto simp: hk)
  next
    case (Some why')
    then show ?thesis
      using hold_loop_get[OF bt_ok_direct_reasons Some] get
        direct_fold_nonempty[OF bt_ok_Nil, of "cycle_nodes edges" nodes k why']
      by (auto simp: hk direct_reasons_def)
  qed
qed

text \<open>A pull request without a reason of its own satisfies every landing precondition.\<close>

definition review_clear :: "pr_node \<Rightarrow> bool" where
  "review_clear n \<longleftrightarrow>
     (let review = to_ascii_uppercase (str_trim (pn_review_decision n))
      in review = [] \<or> review = ''APPROVED''
         \<or> (review = ''CHANGES_REQUESTED'' \<and> pn_review_objections_resolved n))"

definition receipts_exact :: "pr_node \<Rightarrow> bool" where
  "receipts_exact n \<longleftrightarrow>
     (\<forall>lane \<in> set REQUIRED_REVIEW_LANES. ''passed-review-'' @ lane \<in> set (pn_labels n)
        \<and> bt_get (pn_review_pass_heads n) lane = Some (pn_head_sha n))"

lemma lane_reasons_Nil:
  "lane_reasons n lane = [] \<longleftrightarrow> ''passed-review-'' @ lane \<in> set (pn_labels n)
     \<and> bt_get (pn_review_pass_heads n) lane = Some (pn_head_sha n)"
  by (auto simp: lane_reasons_def split: option.splits)

lemma review_binding_Nil: "snd (review_binding n) = [] \<longleftrightarrow> \<not> protocol_active n \<or> receipts_exact n"
  by (auto simp: review_binding_def Let_def receipts_exact_def lane_reasons_Nil)

lemma review_decision_Nil: "review_decision_reasons n = [] \<longleftrightarrow> review_clear n"
  by (auto simp: review_decision_reasons_def review_clear_def Let_def)

lemma node_reasons_Nil:
  "node_reasons cs n = [] \<longleftrightarrow> \<not> pn_is_draft n \<and> \<not> pn_review_evidence_unavailable n \<and> review_clear n
     \<and> (protocol_active n \<longrightarrow> receipts_exact n) \<and> \<not> base_conflicting n \<and> pn_number n \<notin> set cs"
  by (auto simp: node_reasons_def review_binding_Nil review_decision_Nil base_conflicting_def)

section \<open>What the holds promise\<close>

text \<open>
  C6: A pull request is held if and only if it has a hold reason of its own or depends, directly
  or through others, on one that has.
\<close>

theorem held_exact:
  "held_numbers nodes edges = (ordering_rel edges)\<^sup>* `` directly_held nodes edges"
  using holds.marked_eq[of "(nodes, edges)"] by simp

text \<open>
  The hold report lists every held pull request once, in ascending order, with at least one
  reason: the reasons are the pull request's own, or the single one that names a held pull request
  it depends on.
\<close>

theorem held_reasons_grounded:
  assumes "distinct (map pn_number nodes)"
  shows "sorted_wrt (<) (map hp_pr (held_reasons nodes edges))
    \<and> (\<forall>h \<in> set (held_reasons nodes edges). hp_reasons h \<noteq> [] \<and>
        ((\<exists>n \<in> set nodes. pn_number n = hp_pr h \<and> hp_reasons h = node_reasons (cycle_nodes edges) n)
         \<or> (\<exists>b \<in> held_numbers nodes edges. (b, hp_pr h) \<in> ordering_rel edges
              \<and> hp_reasons h = [''depends-on-held:#'' @ dec_int b])))"
  using held_reasons_cases[OF assms] held_reasons_nonempty held_reasons_sorted by blast

theorem held_reasons_grounded_witness:
  "distinct (map pn_number [(green_node 1)\<lparr>pn_is_draft := True\<rparr>, green_node 2])
   \<and> held_reasons [(green_node 1)\<lparr>pn_is_draft := True\<rparr>, green_node 2] [depends 1 2] =
       [\<lparr>hp_pr = 1, hp_reasons = [''draft'']\<rparr>, \<lparr>hp_pr = 2, hp_reasons = [''depends-on-held:#1'']\<rparr>]
   \<and> sorted_wrt (<) (map hp_pr (held_reasons [(green_node 1)\<lparr>pn_is_draft := True\<rparr>, green_node 2] [depends 1 2]))"
proof -
  let ?ns = "[(green_node 1)\<lparr>pn_is_draft := True\<rparr>, green_node 2]"
  have "distinct (map pn_number ?ns)" by (simp add: green_node_def)
  moreover have "held_reasons ?ns [depends 1 2] =
      [\<lparr>hp_pr = 1, hp_reasons = [''draft'']\<rparr>, \<lparr>hp_pr = 2, hp_reasons = [''depends-on-held:#1'']\<rparr>]"
    by code_simp
  ultimately show ?thesis using held_reasons_grounded[of ?ns "[depends 1 2]"] by blast
qed

text \<open>
  The review binding is \<open>ExactHead\<close> exactly when receipts are in use and every required lane
  has a pass label and a receipt for the current head; it gives a reason exactly when receipts are
  in use and some lane lacks one.
\<close>

theorem review_binding_exact:
  "(fst (review_binding n) = ExactHead \<longleftrightarrow> protocol_active n \<and> receipts_exact n)
   \<and> (fst (review_binding n) = NotRequired \<longleftrightarrow> \<not> protocol_active n)
   \<and> (snd (review_binding n) \<noteq> [] \<longleftrightarrow> protocol_active n \<and> \<not> receipts_exact n)"
  using review_binding_Nil[of n] by (auto simp: review_binding_def Let_def split: if_splits)

end
