(* ===== verification/Planner_Schedule.thy ===== *)
theory Planner_Schedule
  imports Planner_Hold
begin

text \<open>
  Layering and clustering (second half of \<open>graph.rs\<close>): \<open>partition_parallel_safe\<close>,
  \<open>connected_components\<close>, \<open>stack_order\<close> and \<open>cluster_by_conflict\<close>. Indexing a map with a number
  that is not a key panics. \<open>stack_order\<close> gets its map as an argument, so a number that it would index in
  vain is the result \<open>None\<close>; the other maps are built from the numbers they are indexed with, and
  \<open>partition_reads_keys\<close> shows that nothing else is read.
\<close>

section \<open>Ranking\<close>

type_synonym rank_key = "int \<times> int \<times> string \<times> int"

definition rank :: "pr_node \<Rightarrow> rank_key" where
  "rank node = (pn_priority node, pn_size node, pn_created_at node, pn_number node)"

type_synonym node_map = "(int, pr_node) btree_map"

definition node_at :: "node_map \<Rightarrow> int \<Rightarrow> pr_node" where
  "node_at by_number n = (case bt_get by_number n of Some node \<Rightarrow> node | None \<Rightarrow> pr_node_default)"

definition rank_at :: "node_map \<Rightarrow> int \<Rightarrow> rank_key" where
  "rank_at by_number n = rank (node_at by_number n)"

text \<open>
  Sorting by the rank of the indexed nodes. A key is computed only to compare two elements, so a
  list of one number is returned as it is; otherwise a number that is not in the map is a panic.
\<close>

definition sort_ranked :: "node_map \<Rightarrow> int list \<Rightarrow> int list option" where
  "sort_ranked by_number numbers =
     (if length numbers < 2 then Some numbers
      else if list_all (bt_has by_number) numbers then Some (sort_key (rank_at by_number) numbers)
      else None)"

section \<open>Conflict- and ordering-safe groups\<close>

definition empty_adjacency :: "int btree_set \<Rightarrow> adjacency" where
  "empty_adjacency numbers = bt_collect (map (\<lambda>n. (n, [])) numbers)"

definition conflict_adjacency :: "int btree_set \<Rightarrow> conflict_edge list \<Rightarrow> adjacency" where
  "conflict_adjacency numbers edges =
     fold (\<lambda>e adj. if ce_a e \<in> set numbers \<and> ce_b e \<in> set numbers
        then adj_add (ce_b e, ce_a e) (adj_add (ce_a e, ce_b e) adj) else adj)
       edges (empty_adjacency numbers)"

definition predecessor_adjacency :: "int btree_set \<Rightarrow> ordering_edge list \<Rightarrow> adjacency" where
  "predecessor_adjacency numbers edges =
     fold (\<lambda>e adj. if or_before e \<in> set numbers \<and> or_after e \<in> set numbers
        then adj_add (or_after e, or_before e) adj else adj)
       edges (empty_adjacency numbers)"

fun greedy_group :: "adjacency \<Rightarrow> int list \<Rightarrow> int list \<Rightarrow> int list" where
  "greedy_group conflicts grp [] = grp"
| "greedy_group conflicts grp (n # ready) =
     greedy_group conflicts
       (if list_all (\<lambda>peer. peer \<notin> set (adj_children conflicts n)) grp then grp @ [n] else grp)
       ready"

lemma greedy_group_prefix: "\<exists>ns. greedy_group conflicts grp ready = grp @ ns"
  by (induction conflicts grp ready rule: greedy_group.induct) force+

lemma greedy_group_set:
  "set grp \<subseteq> set (greedy_group conflicts grp ready)"
  "set (greedy_group conflicts grp ready) \<subseteq> set grp \<union> set ready"
proof -
  show "set grp \<subseteq> set (greedy_group conflicts grp ready)"
    using greedy_group_prefix[of conflicts grp ready] by auto
  show "set (greedy_group conflicts grp ready) \<subseteq> set grp \<union> set ready"
    by (induction conflicts grp ready rule: greedy_group.induct) (auto split: if_splits)
qed

lemma greedy_group_shrinks:
  assumes "ready \<noteq> []" and "set ready \<subseteq> set remaining"
  shows "length (filter (\<lambda>n. n \<notin> set (greedy_group conflicts [] ready)) remaining) < length remaining"
proof -
  obtain n rest where ready: "ready = n # rest" using assms(1) by (cases ready) auto
  have "n \<in> set (greedy_group conflicts [] ready)"
    using greedy_group_set(1)[of "[n]" conflicts rest] ready by simp
  then show ?thesis
    using length_filter_less[of n remaining "\<lambda>n. n \<notin> set (greedy_group conflicts [] ready)"] assms(2) ready
    by simp
qed

function partition_loop ::
  "adjacency \<Rightarrow> adjacency \<Rightarrow> (int \<Rightarrow> rank_key) \<Rightarrow> int btree_set \<Rightarrow> int btree_set \<Rightarrow> int list list" where
  "partition_loop conflicts predecessors key remaining placed =
     (if remaining = [] then []
      else let ready = sort_key key (filter (\<lambda>n. set (adj_children predecessors n) \<subseteq> set placed) remaining)
           in if ready = [] then map (\<lambda>n. [n]) (sort_key key remaining)
              else let grp = greedy_group conflicts [] ready
                   in grp # partition_loop conflicts predecessors key
                        (filter (\<lambda>n. n \<notin> set grp) remaining) (fold bs_insert grp placed))"
  by pat_completeness auto
termination
proof (relation "measure (\<lambda>(conflicts, predecessors, key, remaining, placed). length remaining)", goal_cases)
  case 1
  then show ?case by simp
next
  case (2 conflicts predecessors key remaining placed ready grp)
  then have "ready \<noteq> []" "set ready \<subseteq> set remaining" by auto
  from greedy_group_shrinks[OF this] show ?case using 2(4) by simp
qed

declare partition_loop.simps [simp del]

definition partition_parallel_safe ::
  "pr_node list \<Rightarrow> conflict_edge list \<Rightarrow> ordering_edge list \<Rightarrow> int btree_set \<Rightarrow> int list list" where
  "partition_parallel_safe nodes conflict_edges ordering_edges exclude =
     (let by_number = bt_collect (map (\<lambda>n. (pn_number n, n))
            (filter (\<lambda>n. pn_number n \<notin> set exclude) nodes));
          numbers = bt_keys by_number
      in partition_loop (conflict_adjacency numbers conflict_edges)
           (predecessor_adjacency numbers ordering_edges) (rank_at by_number) numbers [])"

section \<open>Connected components\<close>

function component_loop :: "adjacency \<Rightarrow> int list \<Rightarrow> int btree_set \<Rightarrow> int btree_set" where
  "component_loop adj [] component = component"
| "component_loop adj (n # pending) component =
     (if n \<in> set component then component_loop adj pending component
      else component_loop adj (rev (adj_children adj n) @ pending) (bs_insert n component))"
  by pat_completeness auto
termination
proof (relation "measures [\<lambda>(adj, pending, component). card (set (bt_keys adj) - set component),
    \<lambda>(adj, pending, component). length pending]", goal_cases)
  case 1
  then show ?case by simp
next
  case (2 adj n pending component)
  then show ?case by simp
next
  case (3 adj n pending component)
  show ?case
  proof (cases "n \<in> set (bt_keys adj)")
    case True
    then have "set (bt_keys adj) - set (bs_insert n component) \<subset> set (bt_keys adj) - set component"
      using 3 by auto
    then show ?thesis by (auto intro!: psubset_card_mono)
  next
    case False
    then have "adj_children adj n = []"
      using bt_has_iff_key[of adj n] by (simp add: bt_has_def adj_children_def)
    moreover have "set (bt_keys adj) - set (bs_insert n component) = set (bt_keys adj) - set component"
      using False by auto
    ultimately show ?thesis by simp
  qed
qed

lemma component_loop_mono: "set component \<union> set pending \<subseteq> set (component_loop adj pending component)"
  by (induction adj pending component rule: component_loop.induct) auto

function components_loop :: "adjacency \<Rightarrow> int btree_set \<Rightarrow> int list list" where
  "components_loop adj [] = []"
| "components_loop adj (start # remaining) =
     (let component = component_loop adj [start] []
      in component # components_loop adj (filter (\<lambda>n. n \<notin> set component) (start # remaining)))"
  by pat_completeness auto
termination
proof (relation "measure (\<lambda>(adj, remaining). length remaining)", goal_cases)
  case 1
  then show ?case by simp
next
  case (2 adj start remaining component)
  then have "start \<in> set component" using component_loop_mono[of "[]" "[start]" adj] by auto
  then show ?case by (simp add: le_imp_less_Suc)
qed

definition connected_components :: "int list \<Rightarrow> conflict_edge list \<Rightarrow> int list list" where
  "connected_components numbers edges =
     (let known = bs_collect numbers
      in sort_key (\<lambda>component. (- int (length component), hd component))
           (components_loop (conflict_adjacency known edges) known))"

section \<open>Stack order inside a cluster\<close>

text \<open>
  The successor sets and in-degrees: the in-degree of \<open>after\<close> grows when \<open>after\<close> is new among
  the successors of \<open>before\<close>.
\<close>

definition stack_edge ::
  "int btree_set \<Rightarrow> ordering_edge \<Rightarrow> adjacency \<times> (int, nat) btree_map \<Rightarrow> adjacency \<times> (int, nat) btree_map"
where
  "stack_edge members e st =
     (case st of (successors, indegree) \<Rightarrow>
       if or_before e \<in> set members \<and> or_after e \<in> set members
          \<and> or_after e \<notin> set (adj_children successors (or_before e))
       then (adj_add (or_before e, or_after e) successors,
             bt_insert (or_after e)
               (Suc (case bt_get indegree (or_after e) of Some d \<Rightarrow> d | None \<Rightarrow> 0)) indegree)
       else (successors, indegree))"

definition degree_at :: "(int, nat) btree_map \<Rightarrow> int \<Rightarrow> nat" where
  "degree_at indegree n = (case bt_get indegree n of Some d \<Rightarrow> d | None \<Rightarrow> 0)"

text \<open>
  One child of the number just placed: its in-degree goes down by one and it becomes ready at
  zero. Decrementing zero would be the \<open>usize\<close> underflow of the source, \<open>stuck\<close> here.
\<close>

fun release_children ::
  "int list \<Rightarrow> (int, nat) btree_map \<Rightarrow> int list \<Rightarrow> ((int, nat) btree_map \<times> int list) option" where
  "release_children [] indegree ready = Some (indegree, ready)"
| "release_children (c # cs) indegree ready =
     (case degree_at indegree c of
        0 \<Rightarrow> None
      | Suc d \<Rightarrow> release_children cs (bt_insert c d indegree) (if d = 0 then ready @ [c] else ready))"

text \<open>
  The main loop. Every round places one number; the fuel bounds the rounds, and
  \<open>stack_order_total\<close> below shows that one unit per member is enough.
\<close>

fun stack_loop ::
  "nat \<Rightarrow> node_map \<Rightarrow> adjacency \<Rightarrow> (int, nat) btree_map \<Rightarrow> int list \<Rightarrow> int list \<Rightarrow> int list option"
where
  "stack_loop fuel by_number successors indegree [] ordered = Some ordered"
| "stack_loop 0 by_number successors indegree (n # ready) ordered = None"
| "stack_loop (Suc fuel) by_number successors indegree (n # ready) ordered =
     (case release_children (adj_children successors n) indegree ready of
        None \<Rightarrow> None
      | Some (indegree', ready') \<Rightarrow>
          Option.bind (sort_ranked by_number ready')
            (\<lambda>ready''. stack_loop fuel by_number successors indegree' ready'' (ordered @ [n])))"

definition stack_order :: "int list \<Rightarrow> node_map \<Rightarrow> ordering_edge list \<Rightarrow> int list option" where
  "stack_order members by_number edges =
     (let member_set = bs_collect members;
          (successors, indegree) = fold (stack_edge member_set) edges
             (empty_adjacency member_set, bt_collect (map (\<lambda>n. (n, 0)) member_set))
      in Option.bind (sort_ranked by_number (filter (\<lambda>n. degree_at indegree n = 0) member_set)) (\<lambda>ready.
         Option.bind (stack_loop (length member_set) by_number successors indegree ready []) (\<lambda>ordered.
           if length ordered < length member_set
           then map_option (\<lambda>rest. ordered @ rest) (sort_ranked by_number (filter (\<lambda>n. n \<notin> set ordered) member_set))
           else Some ordered)))"

definition cluster_by_conflict ::
  "pr_node list \<Rightarrow> conflict_edge list \<Rightarrow> ordering_edge list \<Rightarrow> cluster list option" where
  "cluster_by_conflict nodes conflict_edges ordering_edges =
     (let by_number = bt_collect (map (\<lambda>n. (pn_number n, n)) nodes)
      in those (map (\<lambda>component.
           map_option (\<lambda>members. \<lparr>cl_members = members,
               cl_conflict_paths = bs_collect (concat (map ce_paths
                  (filter (\<lambda>e. ce_a e \<in> set component \<and> ce_b e \<in> set component) conflict_edges)))\<rparr>)
             (stack_order component by_number ordering_edges))
           (connected_components (map pn_number nodes) conflict_edges)))"

definition rebases_avoided :: "cluster list \<Rightarrow> nat" where
  "rebases_avoided clusters = sum_list (map cluster_rebases_avoided clusters)"

section \<open>Facts about the adjacency maps\<close>

lemma adj_ok_empty: "adj_ok (empty_adjacency numbers)"
  and adj_rel_empty: "adj_rel (empty_adjacency numbers) = {}"
proof -
  have "adj_children (empty_adjacency numbers) n = []" for n
  proof -
    have "v = []" if "bt_get (empty_adjacency numbers) n = Some v" for v
      using that by (auto simp: empty_adjacency_def bt_get_collect dest!: map_of_SomeD)
    then show ?thesis by (auto simp: adj_children_def split: option.splits)
  qed
  then show "adj_ok (empty_adjacency numbers)" "adj_rel (empty_adjacency numbers) = {}"
    by (simp_all add: adj_ok_def adj_rel_def empty_adjacency_def)
qed

text \<open>The conflicts between known numbers, in both directions.\<close>

definition conflict_rel :: "int set \<Rightarrow> conflict_edge list \<Rightarrow> (int \<times> int) set" where
  "conflict_rel known edges =
     {(a, b). a \<in> known \<and> b \<in> known
        \<and> (\<exists>e \<in> set edges. (a = ce_a e \<and> b = ce_b e) \<or> (a = ce_b e \<and> b = ce_a e))}"

lemma conflict_rel_sym: "(a, b) \<in> conflict_rel known edges \<Longrightarrow> (b, a) \<in> conflict_rel known edges"
  by (auto simp: conflict_rel_def)

lemma adj_rel_conflict: "adj_rel (conflict_adjacency numbers edges) = conflict_rel (set numbers) edges"
  and adj_ok_conflict: "adj_ok (conflict_adjacency numbers edges)"
proof -
  let ?f = "\<lambda>e adj. if ce_a e \<in> set numbers \<and> ce_b e \<in> set numbers
        then adj_add (ce_b e, ce_a e) (adj_add (ce_a e, ce_b e) adj) else adj"
  have "adj_ok adj \<Longrightarrow> adj_ok (fold ?f es adj) \<and>
      adj_rel (fold ?f es adj) = conflict_rel (set numbers) es \<union> adj_rel adj" for es adj
    by (induction es arbitrary: adj) (auto simp: conflict_rel_def adj_ok_add adj_rel_add)
  from this[of "empty_adjacency numbers" edges, OF adj_ok_empty]
  show "adj_rel (conflict_adjacency numbers edges) = conflict_rel (set numbers) edges"
    "adj_ok (conflict_adjacency numbers edges)"
    by (simp_all add: conflict_adjacency_def adj_rel_empty)
qed

lemma adj_rel_predecessor:
  "adj_rel (predecessor_adjacency numbers edges) =
     (ordering_rel edges \<inter> set numbers \<times> set numbers)\<inverse>"
proof -
  let ?f = "\<lambda>e adj. if or_before e \<in> set numbers \<and> or_after e \<in> set numbers
        then adj_add (or_after e, or_before e) adj else adj"
  have "adj_ok adj \<Longrightarrow> adj_ok (fold ?f es adj) \<and>
      adj_rel (fold ?f es adj) = (ordering_rel es \<inter> set numbers \<times> set numbers)\<inverse> \<union> adj_rel adj" for es adj
    by (induction es arbitrary: adj)
      (auto simp: ordering_rel_def ordering_pair_def adj_ok_add adj_rel_add)
  from this[of "empty_adjacency numbers" edges, OF adj_ok_empty] show ?thesis
    by (simp add: predecessor_adjacency_def adj_rel_empty)
qed

section \<open>The groups partition the numbers and avoid conflicts\<close>

lemma greedy_group_distinct:
  "distinct (grp @ ready) \<Longrightarrow> distinct (greedy_group conflicts grp ready)"
  by (induction conflicts grp ready rule: greedy_group.induct) auto

lemma greedy_group_independent:
  assumes "\<And>a b. b \<in> set (adj_children conflicts a) \<Longrightarrow> a \<in> set (adj_children conflicts b)"
    and "pairwise (\<lambda>a b. b \<notin> set (adj_children conflicts a)) (set grp)"
  shows "pairwise (\<lambda>a b. b \<notin> set (adj_children conflicts a)) (set (greedy_group conflicts grp ready))"
  using assms
proof (induction conflicts grp ready rule: greedy_group.induct)
  case (2 conflicts grp n ready)
  have "pairwise (\<lambda>a b. b \<notin> set (adj_children conflicts a)) (set (grp @ [n]))"
    if "list_all (\<lambda>peer. peer \<notin> set (adj_children conflicts n)) grp"
    using that 2(2,3) by (auto simp: pairwise_insert list_all_iff)
  with 2 show ?case by auto
qed simp

text \<open>What is ready and not chosen conflicts with a chosen one: the group is maximal.\<close>

lemma greedy_group_maximal:
  "n \<in> set ready \<Longrightarrow> n \<notin> set (greedy_group conflicts grp ready) \<Longrightarrow>
     \<exists>peer \<in> set (greedy_group conflicts grp ready). peer \<in> set (adj_children conflicts n)"
proof (induction conflicts grp ready rule: greedy_group.induct)
  case (2 conflicts grp m ready)
  let ?grp = "if list_all (\<lambda>peer. peer \<notin> set (adj_children conflicts m)) grp then grp @ [m] else grp"
  show ?case
  proof (cases "n = m")
    case True
    then have "\<not> list_all (\<lambda>peer. peer \<notin> set (adj_children conflicts m)) grp"
      using 2(3) greedy_group_set(1)[of "grp @ [m]" conflicts ready] by (auto split: if_splits)
    then show ?thesis
      using True greedy_group_set(1)[of grp conflicts ready] by (auto simp: list_all_iff)
  next
    case False
    then show ?thesis using 2 by auto
  qed
qed simp

definition ready_of :: "adjacency \<Rightarrow> (int \<Rightarrow> rank_key) \<Rightarrow> int list \<Rightarrow> int list \<Rightarrow> int list" where
  "ready_of predecessors key remaining placed =
     sort_key key (filter (\<lambda>n. set (adj_children predecessors n) \<subseteq> set placed) remaining)"

lemma set_ready_of:
  "set (ready_of ps key remaining placed) = {n \<in> set remaining. set (adj_children ps n) \<subseteq> set placed}"
  by (simp add: ready_of_def)

lemma partition_loop_unfold:
  "partition_loop cs ps key remaining placed =
     (if remaining = [] then []
      else if ready_of ps key remaining placed = [] then map (\<lambda>n. [n]) (sort_key key remaining)
      else let grp = greedy_group cs [] (ready_of ps key remaining placed)
           in grp # partition_loop cs ps key (filter (\<lambda>n. n \<notin> set grp) remaining) (fold bs_insert grp placed))"
  by (subst partition_loop.simps) (simp add: ready_of_def Let_def)

lemma partition_induct [case_names empty stuck layer]:
  assumes "\<And>placed. P [] placed"
    and "\<And>remaining placed. remaining \<noteq> [] \<Longrightarrow> ready_of ps key remaining placed = [] \<Longrightarrow> P remaining placed"
    and "\<And>remaining placed grp. remaining \<noteq> [] \<Longrightarrow> ready_of ps key remaining placed \<noteq> [] \<Longrightarrow>
        grp = greedy_group cs [] (ready_of ps key remaining placed) \<Longrightarrow>
        P (filter (\<lambda>n. n \<notin> set grp) remaining) (fold bs_insert grp placed) \<Longrightarrow> P remaining placed"
  shows "P remaining placed"
proof (induction "length remaining" arbitrary: remaining placed rule: less_induct)
  case (less remaining placed)
  let ?ready = "ready_of ps key remaining placed"
  consider "remaining = []" | "remaining \<noteq> []" "?ready = []" | "remaining \<noteq> []" "?ready \<noteq> []" by blast
  then show ?case
  proof cases
    case 3
    then show ?thesis
      using assms(3)[OF 3 refl] less greedy_group_shrinks[of ?ready remaining cs]
      by (auto simp: set_ready_of)
  qed (use assms(1,2) in auto)
qed

lemma partition_loop_set: "set (concat (partition_loop cs ps key remaining placed)) = set remaining"
proof (induction remaining placed rule: partition_induct[where cs = cs and ps = ps and key = key])
  case (layer remaining placed grp)
  have "set grp \<subseteq> set remaining"
    using greedy_group_set(2)[of cs "[]" "ready_of ps key remaining placed"] layer(3)
    by (auto simp: set_ready_of)
  then show ?case
    using layer by (subst partition_loop_unfold) (auto simp: Let_def)
qed (simp_all add: partition_loop_unfold)

text \<open>Only the keys of the remaining numbers are read.\<close>

lemma sort_key_cong_on: "(\<And>x. x \<in> set xs \<Longrightarrow> f x = g x) \<Longrightarrow> sort_key f xs = sort_key g xs"
proof (induction xs)
  case (Cons x xs)
  have "insort_key f x ys = insort_key g x ys" if "set ys \<subseteq> set xs" for ys
    using that Cons.prems by (induction ys) auto
  then show ?case using Cons by simp
qed simp

lemma partition_reads_keys:
  "(\<And>n. n \<in> set remaining \<Longrightarrow> key n = key' n) \<Longrightarrow> partition_loop cs ps key remaining placed = partition_loop cs ps key' remaining placed"
proof (induction cs ps key remaining placed rule: partition_loop.induct)
  case (1 cs ps key remaining placed)
  have sorts: "sort_key key (filter P remaining) = sort_key key' (filter P remaining)" "sort_key key remaining = sort_key key' remaining" for P
    using 1(2) by (intro sort_key_cong_on; simp)+
  have rest: "partition_loop cs ps key (filter Q remaining) placed' = partition_loop cs ps key' (filter Q remaining) placed'"
    if "remaining \<noteq> []" "sort_key key (filter (\<lambda>n. set (adj_children ps n) \<subseteq> set placed) remaining) \<noteq> []"
      "Q = (\<lambda>n. n \<notin> set (greedy_group cs [] (sort_key key (filter (\<lambda>n. set (adj_children ps n) \<subseteq> set placed) remaining))))"
      "placed' = fold bs_insert (greedy_group cs [] (sort_key key (filter (\<lambda>n. set (adj_children ps n) \<subseteq> set placed) remaining))) placed"
    for Q placed'
    unfolding that(3,4) by (rule 1(1)[OF that(1) refl that(2) refl]) (use 1(2) in simp)
  show ?case
    by (subst partition_loop.simps[of cs ps key], subst partition_loop.simps[of cs ps key'])
      (simp add: Let_def sorts[symmetric] rest)
qed

lemma partition_loop_distinct:
  "distinct remaining \<Longrightarrow> distinct (concat (partition_loop cs ps key remaining placed))"
proof (induction remaining placed rule: partition_induct[where cs = cs and ps = ps and key = key])
  case (stuck remaining placed)
  then show ?case by (subst partition_loop_unfold) (simp add: concat_map_singleton)
next
  case (layer remaining placed grp)
  let ?rest = "filter (\<lambda>n. n \<notin> set grp) remaining"
  have "distinct (ready_of ps key remaining placed)" using layer(5) by (simp add: ready_of_def)
  then have "distinct grp" using greedy_group_distinct[of "[]"] layer(3) by simp
  moreover have "distinct (concat (partition_loop cs ps key ?rest (fold bs_insert grp placed)))"
    using layer by simp
  moreover have "set grp \<inter> set (concat (partition_loop cs ps key ?rest (fold bs_insert grp placed))) = {}"
    unfolding partition_loop_set by auto
  ultimately show ?case
    using layer by (subst partition_loop_unfold) (simp add: Let_def)
qed (simp add: partition_loop_unfold)

lemma partition_loop_independent:
  assumes "\<And>a b. b \<in> set (adj_children cs a) \<Longrightarrow> a \<in> set (adj_children cs b)"
  shows "grp \<in> set (partition_loop cs ps key remaining placed) \<Longrightarrow>
    pairwise (\<lambda>a b. b \<notin> set (adj_children cs a)) (set grp)"
proof (induction remaining placed rule: partition_induct[where cs = cs and ps = ps and key = key])
  case (layer remaining placed g)
  have "pairwise (\<lambda>a b. b \<notin> set (adj_children cs a)) (set g)"
    using greedy_group_independent[of cs "[]", OF assms] layer(3) by simp
  then show ?case
    using layer by (subst (asm) (2) partition_loop_unfold) (auto simp: Let_def)
qed (auto simp: partition_loop_unfold split: if_splits)

text \<open>With acyclic predecessors the loop is never stuck, and a predecessor is in an earlier group.\<close>

lemma ready_exists:
  assumes "finite P" "acyclic P" and "remaining \<noteq> []"
    and preds: "\<And>a b. b \<in> set (adj_children ps a) \<longleftrightarrow> (b, a) \<in> P"
    and inside: "\<And>a b. (b, a) \<in> P \<Longrightarrow> b \<in> set remaining \<union> set placed"
  shows "ready_of ps key remaining placed \<noteq> []"
proof -
  have "wf P" using assms(1,2) by (rule finite_acyclic_wf)
  then obtain n where n: "n \<in> set remaining" "\<And>b. (b, n) \<in> P \<Longrightarrow> b \<notin> set remaining"
    using assms(3) by (metis (no_types, lifting) list.set_sel(1) wfE_min)
  then have "set (adj_children ps n) \<subseteq> set placed" using preds inside by blast
  then have "n \<in> set (ready_of ps key remaining placed)" using n by (simp add: set_ready_of)
  then show ?thesis by auto
qed

lemma partition_loop_ordered:
  assumes P: "finite P" "acyclic P" "\<And>a b. b \<in> set (adj_children ps a) \<longleftrightarrow> (b, a) \<in> P"
  shows "(\<And>a b. (b, a) \<in> P \<Longrightarrow> b \<in> set remaining \<union> set placed) \<Longrightarrow>
     set remaining \<inter> set placed = {} \<Longrightarrow> (b, a) \<in> P \<Longrightarrow>
     i < length (partition_loop cs ps key remaining placed) \<Longrightarrow>
     j < length (partition_loop cs ps key remaining placed) \<Longrightarrow>
     b \<in> set (partition_loop cs ps key remaining placed ! i) \<Longrightarrow>
     a \<in> set (partition_loop cs ps key remaining placed ! j) \<Longrightarrow> i < j"
proof (induction remaining placed arbitrary: i j rule: partition_induct[where cs = cs and ps = ps and key = key])
  case (empty placed)
  then show ?case by (simp add: partition_loop_unfold)
next
  case (stuck remaining placed)
  then show ?case using ready_exists[OF P(1,2) stuck(1) P(3)] by blast
next
  case (layer remaining placed grp)
  let ?rest = "filter (\<lambda>n. n \<notin> set grp) remaining"
  let ?placed = "fold bs_insert grp placed"
  let ?tail = "partition_loop cs ps key ?rest ?placed"
  have loop: "partition_loop cs ps key remaining placed = grp # ?tail"
    using layer(1-3) by (subst partition_loop_unfold) (simp add: Let_def)
  have grp: "set grp \<subseteq> set (ready_of ps key remaining placed)"
    using greedy_group_set(2)[of cs "[]" "ready_of ps key remaining placed"] layer(3) by simp
  have placed: "set ?placed = set grp \<union> set placed" by simp
  have "b \<in> set (concat (partition_loop cs ps key remaining placed))"
    using layer(10) nth_mem[OF layer(8)] by (auto simp only: set_concat)
  then have b: "b \<in> set remaining" by (simp only: partition_loop_set)
  have "a \<notin> set grp"
  proof
    assume "a \<in> set grp"
    then have "b \<in> set placed" using grp P(3) layer(7) by (auto simp: set_ready_of)
    then show False using b layer(6) by auto
  qed
  then obtain j' where j: "j = Suc j'" "a \<in> set (?tail ! j')" "j' < length ?tail"
    using layer(9-) loop by (cases j) auto
  show ?case
  proof (cases i)
    case 0
    then show ?thesis using j by simp
  next
    case (Suc i')
    then have "i' < length ?tail" "b \<in> set (?tail ! i')" using layer(8-) loop by auto
    moreover have "y \<in> set ?rest \<union> set ?placed" if "(y, x) \<in> P" for x y
      using layer(5)[OF that] by (auto simp: placed)
    moreover have "set ?rest \<inter> set ?placed = {}" using layer(6) by (auto simp: placed)
    ultimately have "i' < j'" using layer(4) j layer(7) by blast
    then show ?thesis using Suc j by simp
  qed
qed

section \<open>Components are the classes of the conflict graph\<close>

lemma component_loop_closed:
  "(\<And>x y. x \<in> set component \<Longrightarrow> (x, y) \<in> adj_rel adj \<Longrightarrow> y \<in> set component \<union> set pending) \<Longrightarrow>
   x \<in> set (component_loop adj pending component) \<Longrightarrow> (x, y) \<in> adj_rel adj \<Longrightarrow>
   y \<in> set (component_loop adj pending component)"
proof (induction adj pending component arbitrary: x y rule: component_loop.induct)
  case (2 adj n pending component)
  show ?case
  proof (cases "n \<in> set component")
    case True
    have "v \<in> set component \<union> set pending" if "u \<in> set component" "(u, v) \<in> adj_rel adj" for u v
      using "2.prems"(1)[OF that] True by auto
    then show ?thesis using "2.IH"(1)[OF True] "2.prems"(2,3) True by simp
  next
    case False
    let ?pending = "rev (adj_children adj n) @ pending"
    have "v \<in> set (bs_insert n component) \<union> set ?pending"
      if "u \<in> set (bs_insert n component)" "(u, v) \<in> adj_rel adj" for u v
      using that "2.prems"(1)[of u v] by (auto simp: adj_children_iff)
    then show ?thesis using "2.IH"(2)[OF False] "2.prems"(2,3) False by simp
  qed
qed simp

lemma component_loop_least:
  "set component \<union> set pending \<subseteq> C \<Longrightarrow> (\<And>x y. (x, y) \<in> adj_rel adj \<Longrightarrow> x \<in> C \<Longrightarrow> y \<in> C) \<Longrightarrow>
   set (component_loop adj pending component) \<subseteq> C"
proof (induction adj pending component rule: component_loop.induct)
  case (2 adj n pending component)
  show ?case
  proof (cases "n \<in> set component")
    case False
    have "set (adj_children adj n) \<subseteq> C" using 2(3,4) by (auto simp: adj_children_iff)
    then show ?thesis using 2 False by auto
  qed (use 2 in auto)
qed simp

interpretation component: closure_loop "\<lambda>_. True" "\<lambda>(adj, start). adj_rel adj" "\<lambda>(adj, start). {start}"
    "\<lambda>(adj, start). set (component_loop adj [start] [])"
proof (unfold_locales, goal_cases)
  case (1 i)
  obtain adj start where i: "i = (adj, start)" by (cases i)
  show ?case using component_loop_mono[of "[]" "[start]" adj] by (simp add: i del: component_loop.simps)
next
  case (2 i x y)
  obtain adj start where i: "i = (adj, start)" by (cases i)
  show ?case
    using 2 component_loop_closed[of "[]" adj "[start]" x y] by (simp add: i del: component_loop.simps)
next
  case (3 i C)
  obtain adj start where i: "i = (adj, start)" by (cases i)
  show ?case
    using 3 component_loop_least[of "[]" "[start]" C adj] by (simp add: i del: component_loop.simps)
qed

lemma set_component: "set (component_loop adj [start] []) = (adj_rel adj)\<^sup>* `` {start}"
  using component.marked_eq[of "(adj, start)"] by simp

lemma component_loop_ok: "bs_ok component \<Longrightarrow> bs_ok (component_loop adj pending component)"
  by (induction adj pending component rule: component_loop.induct) (auto simp: bs_ok_insert)

lemma components_loop_facts:
  assumes sym: "\<And>x y. (x, y) \<in> adj_rel adj \<Longrightarrow> (y, x) \<in> adj_rel adj"
  shows "(\<And>x y. x \<in> set remaining \<Longrightarrow> (x, y) \<in> adj_rel adj \<Longrightarrow> y \<in> set remaining) \<Longrightarrow>
    set (concat (components_loop adj remaining)) = set remaining
    \<and> distinct (concat (components_loop adj remaining))
    \<and> (\<forall>c \<in> set (components_loop adj remaining). c \<noteq> [] \<and> bs_ok c
         \<and> (\<forall>x \<in> set c. set c = (adj_rel adj)\<^sup>* `` {x}))"
proof (induction "length remaining" arbitrary: remaining rule: less_induct)
  case less
  show ?case
  proof (cases remaining)
    case Nil
    then show ?thesis by simp
  next
    case (Cons start rest)
    let ?E = "adj_rel adj"
    let ?c = "component_loop adj [start] []"
    let ?left = "filter (\<lambda>n. n \<notin> set ?c) remaining"
    have c: "set ?c = ?E\<^sup>* `` {start}" by (rule set_component)
    have symE: "sym (?E\<^sup>*)" using sym by (intro sym_rtrancl) (auto simp: sym_def)
    have cls: "set ?c = ?E\<^sup>* `` {x}" if "x \<in> set ?c" for x
      using that symE c by (auto simp: sym_def intro: rtrancl_trans)
    have sub: "set ?c \<subseteq> set remaining"
      using component_loop_least[of "[]" "[start]" "set remaining" adj] less.prems Cons by auto
    have "start \<in> set ?c" using c by auto
    then have shorter: "length ?left < length remaining"
      using length_filter_less[of start remaining] Cons by simp
    have closed: "y \<in> set ?left" if "x \<in> set ?left" "(x, y) \<in> ?E" for x y
      using that less.prems[of x y] c sym[of x y] by (auto intro: rtrancl_into_rtrancl)
    have loop: "components_loop adj remaining = ?c # components_loop adj ?left"
      by (simp add: Cons Let_def)
    show ?thesis
      using less.hyps[OF shorter closed] cls sub \<open>start \<in> set ?c\<close> component_loop_ok[OF bs_ok_Nil, of adj "[start]"]
      unfolding loop by (auto simp: bs_ok_def strict_sorted_iff)
  qed
qed

section \<open>Stack order is total and topological\<close>

definition member_rel :: "int set \<Rightarrow> ordering_edge list \<Rightarrow> (int \<times> int) set" where
  "member_rel M edges = ordering_rel edges \<inter> M \<times> M"

lemma degree_at_insert:
  "bt_ok ind \<Longrightarrow> degree_at (bt_insert c d ind) n = (if n = c then d else degree_at ind n)"
  by (simp add: degree_at_def bt_get_insert)

lemma stack_edge_fold:
  assumes "adj_ok suc" "bt_ok ind" "finite (adj_rel suc)"
    and "\<And>n. degree_at ind n = card {p. (p, n) \<in> adj_rel suc}"
    and "fold (stack_edge M) edges (suc, ind) = (suc', ind')"
  shows "adj_ok suc' \<and> bt_ok ind' \<and> adj_rel suc' = member_rel (set M) edges \<union> adj_rel suc
    \<and> (\<forall>n. degree_at ind' n = card {p. (p, n) \<in> adj_rel suc'})"
  using assms
proof (induction edges arbitrary: suc ind)
  case Nil
  then show ?case by (simp add: member_rel_def ordering_rel_def)
next
  case (Cons e edges)
  let ?b = "or_before e" and ?a = "or_after e"
  have rel: "member_rel (set M) (e # edges) = member_rel (set M) edges \<union>
      (if ?b \<in> set M \<and> ?a \<in> set M then {(?b, ?a)} else {})"
    by (auto simp: member_rel_def ordering_rel_def ordering_pair_def)
  show ?case
  proof (cases "?b \<in> set M \<and> ?a \<in> set M \<and> ?a \<notin> set (adj_children suc ?b)")
    case True
    let ?suc = "adj_add (?b, ?a) suc" and ?ind = "bt_insert ?a (Suc (degree_at ind ?a)) ind"
    have new: "adj_rel ?suc = insert (?b, ?a) (adj_rel suc)" using Cons.prems(1) by (rule adj_rel_add)
    have deg: "degree_at ?ind n = card {p. (p, n) \<in> adj_rel ?suc}" for n
    proof (cases "n = ?a")
      case True': True
      have "{p. (p, ?a) \<in> adj_rel ?suc} = insert ?b {p. (p, ?a) \<in> adj_rel suc}" by (auto simp: new)
      moreover have "?b \<notin> {p. (p, ?a) \<in> adj_rel suc}" using True by (simp add: adj_children_iff)
      moreover have "finite {p. (p, ?a) \<in> adj_rel suc}"
        using Cons.prems(3) finite_subset[of "{p. (p, ?a) \<in> adj_rel suc}" "Domain (adj_rel suc)"]
        by (auto simp: finite_Domain)
      ultimately show ?thesis using Cons.prems(2,4) by (simp add: degree_at_insert True')
    qed (use Cons.prems(2,4) new in \<open>simp add: degree_at_insert\<close>)
    have "stack_edge M e (suc, ind) = (?suc, ?ind)" using True by (simp add: stack_edge_def degree_at_def)
    then have "fold (stack_edge M) edges (?suc, ?ind) = (suc', ind')" using Cons.prems(5) by simp
    from Cons.IH[OF adj_ok_add[OF Cons.prems(1)] bt_ok_insert[OF Cons.prems(2)] _ deg this]
    show ?thesis using True Cons.prems(3) by (simp add: new rel)
  next
    case False
    then have "stack_edge M e (suc, ind) = (suc, ind)" by (auto simp: stack_edge_def)
    then have "fold (stack_edge M) edges (suc, ind) = (suc', ind')" using Cons.prems(5) by simp
    from Cons.IH[OF Cons.prems(1-4) this] show ?thesis
      using False by (auto simp: rel adj_children_iff)
  qed
qed

lemma release_children_Some:
  "distinct cs \<Longrightarrow> bt_ok ind \<Longrightarrow> (\<And>c. c \<in> set cs \<Longrightarrow> 0 < degree_at ind c) \<Longrightarrow>
   \<exists>ind'. release_children cs ind ready = Some (ind', ready @ filter (\<lambda>c. degree_at ind c = 1) cs)
     \<and> bt_ok ind' \<and> (\<forall>n. degree_at ind' n = (if n \<in> set cs then degree_at ind n - 1 else degree_at ind n))"
proof (induction cs arbitrary: ind ready)
  case (Cons c cs)
  obtain d where d: "degree_at ind c = Suc d" using Cons.prems(3)[of c] by (auto simp: gr0_conv_Suc)
  let ?ind = "bt_insert c d ind"
  have ok: "bt_ok ?ind" using Cons.prems(2) by (rule bt_ok_insert)
  have deg: "degree_at ?ind n = (if n = c then d else degree_at ind n)" for n
    using Cons.prems(2) by (rule degree_at_insert)
  have pos: "0 < degree_at ?ind x" if "x \<in> set cs" for x
    using that Cons.prems(1,3) by (auto simp: deg)
  have eq: "filter (\<lambda>c. degree_at ?ind c = 1) cs = filter (\<lambda>c. degree_at ind c = 1) cs"
    using Cons.prems(1) by (intro filter_cong) (auto simp: deg)
  let ?ready = "if d = 0 then ready @ [c] else ready"
  from Cons.IH[OF _ ok pos, of ?ready] Cons.prems(1) obtain ind'
    where rel: "release_children cs ?ind ?ready = Some (ind', ?ready @ filter (\<lambda>c. degree_at ind c = 1) cs)"
      and ok': "bt_ok ind'"
      and deg': "\<And>n. degree_at ind' n = (if n \<in> set cs then degree_at ?ind n - 1 else degree_at ?ind n)"
    unfolding eq by auto
  have "release_children (c # cs) ind ready = Some (ind', ready @ filter (\<lambda>c. degree_at ind c = 1) (c # cs))"
    using rel by (simp add: d)
  moreover have "degree_at ind' n = (if n \<in> set (c # cs) then degree_at ind n - 1 else degree_at ind n)" for n
    using Cons.prems(1) d by (simp add: deg' deg)
  ultimately show ?case using ok' by blast
qed auto

text \<open>The invariant of the main loop.\<close>

definition topological :: "(int \<times> int) set \<Rightarrow> int list \<Rightarrow> bool" where
  "topological S xs \<longleftrightarrow> (\<forall>i < length xs. \<forall>p. (p, xs ! i) \<in> S \<longrightarrow> p \<in> set (take i xs))"

lemma topological_Nil [simp]: "topological S []"
  by (simp add: topological_def)

lemma topological_snoc:
  "topological S (xs @ [n]) \<longleftrightarrow> topological S xs \<and> (\<forall>p. (p, n) \<in> S \<longrightarrow> p \<in> set xs)"
  unfolding topological_def by (auto simp: less_Suc_eq nth_append)

lemma topological_pred: "topological S xs \<Longrightarrow> m \<in> set xs \<Longrightarrow> (p, m) \<in> S \<Longrightarrow> p \<in> set xs"
  unfolding topological_def by (metis in_set_conv_nth in_set_takeD)

definition stack_inv ::
  "int set \<Rightarrow> (int \<times> int) set \<Rightarrow> (int, nat) btree_map \<Rightarrow> int list \<Rightarrow> int list \<Rightarrow> bool" where
  "stack_inv M S ind ready ordered \<longleftrightarrow>
     bt_ok ind \<and> distinct (ordered @ ready) \<and> set ordered \<union> set ready \<subseteq> M
     \<and> (\<forall>m. degree_at ind m = card {p. (p, m) \<in> S \<and> p \<notin> set ordered})
     \<and> (\<forall>m \<in> M. m \<notin> set ordered \<longrightarrow> (m \<in> set ready \<longleftrightarrow> degree_at ind m = 0))
     \<and> topological S ordered"

lemma stack_inv_perm: "mset ready = mset ready' \<Longrightarrow> stack_inv M S ind ready ordered \<Longrightarrow> stack_inv M S ind ready' ordered"
  using mset_eq_setD[of ready ready'] mset_eq_imp_distinct_iff[of ready ready']
  unfolding stack_inv_def by auto

lemma stack_inv_step:
  assumes inv: "stack_inv M S ind (n # ready) ordered" and fin: "finite S" and S: "S \<subseteq> M \<times> M"
    and kids: "set kids = {m. (n, m) \<in> S}" "distinct kids"
  shows "\<exists>ind' ready'. release_children kids ind ready = Some (ind', ready')
    \<and> stack_inv M S ind' ready' (ordered @ [n])"
proof -
  let ?open = "\<lambda>ord m. {p. (p, m) \<in> S \<and> p \<notin> set ord}"
  have ok: "bt_ok ind" and dist: "distinct (ordered @ n # ready)" and sub: "set ordered \<union> set (n # ready) \<subseteq> M"
    and deg: "\<And>m. degree_at ind m = card (?open ordered m)"
    and rdy: "\<And>m. m \<in> M \<Longrightarrow> m \<notin> set ordered \<Longrightarrow> m \<in> set (n # ready) \<longleftrightarrow> degree_at ind m = 0"
    and top: "topological S ordered"
    using inv by (auto simp: stack_inv_def)
  have fin_open: "finite (?open ord m)" for ord m
    using fin finite_subset[of "?open ord m" "Domain S"] by (auto simp: finite_Domain)
  have n_open: "?open ordered n = {}"
    using rdy[of n] sub dist deg[of n] fin_open[of n ordered] by auto
  have kid: "0 < degree_at ind c" "c \<notin> set ordered" "c \<in> M" if "c \<in> set kids" for c
  proof -
    have nc: "(n, c) \<in> S" using that kids by auto
    then have "n \<in> ?open ordered c" using dist by auto
    then show "0 < degree_at ind c" using deg fin_open[of c ordered] by (auto simp: card_gt_0_iff)
    show "c \<notin> set ordered" using topological_pred[OF top _ nc] dist by auto
    show "c \<in> M" using nc S by auto
  qed
  obtain ind' where rel: "release_children kids ind ready = Some (ind', ready @ filter (\<lambda>c. degree_at ind c = 1) kids)"
    and ok': "bt_ok ind'"
    and deg': "\<And>m. degree_at ind' m = (if m \<in> set kids then degree_at ind m - 1 else degree_at ind m)"
    using release_children_Some[OF kids(2) ok kid(1), of ready] by auto
  have deg2: "degree_at ind' m = card (?open (ordered @ [n]) m)" for m
  proof (cases "m \<in> set kids")
    case True
    then have "?open ordered m = insert n (?open (ordered @ [n]) m)" using kids(1) dist by auto
    then show ?thesis using True deg[of m] deg'[of m] fin_open[of m "ordered @ [n]"] by simp
  next
    case False
    then have "?open (ordered @ [n]) m = ?open ordered m" using kids(1) by auto
    then show ?thesis using False deg deg' by simp
  qed
  let ?ready = "ready @ filter (\<lambda>c. degree_at ind c = 1) kids"
  have "distinct ((ordered @ [n]) @ ?ready)"
  proof -
    have "c \<notin> set ready \<and> c \<noteq> n" if "c \<in> set kids" for c
      using kid[OF that] rdy[of c] by auto
    then show ?thesis using dist kids(2) kid(2) by auto
  qed
  moreover have "set (ordered @ [n]) \<union> set ?ready \<subseteq> M" using sub kid(3) by auto
  moreover have "m \<in> set ?ready \<longleftrightarrow> degree_at ind' m = 0" if "m \<in> M" "m \<notin> set (ordered @ [n])" for m
    using that rdy[of m] deg'[of m] kid(1)[of m] by auto
  moreover have "topological S (ordered @ [n])" using top n_open by (auto simp: topological_snoc)
  ultimately have "stack_inv M S ind' ?ready (ordered @ [n])"
    unfolding stack_inv_def using ok' deg2 by blast
  then show ?thesis using rel by blast
qed

lemma sort_ranked_known: "set numbers \<subseteq> set (bt_keys by_number) \<Longrightarrow> sort_ranked by_number numbers = Some (sort_key (rank_at by_number) numbers)"
proof -
  assume known: "set numbers \<subseteq> set (bt_keys by_number)"
  have "sort_key (rank_at by_number) numbers = numbers" if "length numbers < 2"
    using that by (cases numbers; cases "tl numbers") auto
  then show ?thesis using known by (auto simp: sort_ranked_def list_all_iff bt_has_iff_key)
qed

lemma stack_loop_total:
  assumes fin: "finite S" "finite M" and S: "S \<subseteq> M \<times> M" and succ: "adj_ok successors" "adj_rel successors = S"
    and known: "M \<subseteq> set (bt_keys by_number)"
  shows "stack_inv M S ind ready ordered \<Longrightarrow> card M \<le> length ordered + fuel \<Longrightarrow>
    \<exists>res ind'. stack_loop fuel by_number successors ind ready ordered = Some res \<and> stack_inv M S ind' [] res"
proof (induction fuel arbitrary: ind ready ordered)
  case 0
  show ?case
  proof (cases ready)
    case (Cons n rest)
    have "card (set (ordered @ ready)) \<le> card M"
      using 0(1) fin by (intro card_mono) (auto simp: stack_inv_def)
    then show ?thesis using 0 Cons by (simp add: stack_inv_def distinct_card del: set_append)
  qed (use 0 in auto)
next
  case (Suc fuel)
  show ?case
  proof (cases ready)
    case (Cons n rest)
    have kids: "set (adj_children successors n) = {m. (n, m) \<in> S}" "distinct (adj_children successors n)"
      using succ by (auto simp: adj_children_iff adj_ok_def bs_ok_def strict_sorted_iff)
    obtain ind' ready' where step: "release_children (adj_children successors n) ind rest = Some (ind', ready')"
        "stack_inv M S ind' ready' (ordered @ [n])"
      using stack_inv_step[OF _ fin(1) S kids] Suc.prems(1) Cons by blast
    then have "stack_inv M S ind' (sort_key (rank_at by_number) ready') (ordered @ [n])"
      by (auto intro: stack_inv_perm[rotated])
    moreover have "sort_ranked by_number ready' = Some (sort_key (rank_at by_number) ready')"
      using step(2) known by (intro sort_ranked_known) (auto simp: stack_inv_def)
    ultimately show ?thesis using Suc.IH Suc.prems(2) step(1) Cons by auto
  qed (use Suc in auto)
qed

section \<open>What the schedule promises\<close>

lemma set_bt_keys_collect: "set (bt_keys (bt_collect kvs)) = fst ` set kvs"
  using bt_has_collect[of kvs] by (auto simp: bt_has_iff_key)

lemma numbers_of_nodes:
  "set (bt_keys (bt_collect (map (\<lambda>n. (pn_number n, n)) (filter (\<lambda>n. pn_number n \<notin> set ex) nodes)))) =
     pn_number ` set nodes - set ex"
  by (auto simp: set_bt_keys_collect image_iff)

lemma distinct_bt_keys: "bt_ok m \<Longrightarrow> distinct (bt_keys m)"
  using bt_keys_sorted[of m] by (simp add: strict_sorted_iff)

lemma set_partition:
  "set (concat (partition_parallel_safe nodes conflict_edges ordering_edges exclude))
     = pn_number ` set nodes - set exclude"
  unfolding partition_parallel_safe_def Let_def by (simp only: partition_loop_set numbers_of_nodes)

lemma distinct_partition:
  "distinct (concat (partition_parallel_safe nodes conflict_edges ordering_edges exclude))"
  unfolding partition_parallel_safe_def Let_def
  by (intro partition_loop_distinct distinct_bt_keys bt_ok_collect)

text \<open>
  \<open>partition_parallel_safe\<close> places every pull request that is not excluded in exactly one group
  and never places an excluded one.
\<close>

lemma partition_covers:
  "distinct (concat (partition_parallel_safe nodes conflict_edges ordering_edges exclude))
   \<and> set (concat (partition_parallel_safe nodes conflict_edges ordering_edges exclude))
       = pn_number ` set nodes - set exclude"
  by (intro conjI distinct_partition set_partition)

text \<open>
  No group of \<open>partition_parallel_safe\<close> holds two pull requests joined by a conflict edge, in
  either direction.
\<close>

theorem partition_conflict_free:
  assumes g: "grp \<in> set (partition_parallel_safe nodes conflict_edges ordering_edges exclude)"
    and ab: "a \<in> set grp" "b \<in> set grp" "a \<noteq> b"
  shows "\<not> (\<exists>e \<in> set conflict_edges. (ce_a e = a \<and> ce_b e = b) \<or> (ce_a e = b \<and> ce_b e = a))"
proof -
  define by_number where "by_number = bt_collect (map (\<lambda>n. (pn_number n, n))
            (filter (\<lambda>n. pn_number n \<notin> set exclude) nodes))"
  define cs where "cs = conflict_adjacency (bt_keys by_number) conflict_edges"
  have loop: "grp \<in> set (partition_loop cs (predecessor_adjacency (bt_keys by_number) ordering_edges)
      (rank_at by_number) (bt_keys by_number) [])"
    using g by (simp add: partition_parallel_safe_def Let_def by_number_def cs_def)
  have cs: "y \<in> set (adj_children cs x) \<longleftrightarrow> (x, y) \<in> conflict_rel (set (bt_keys by_number)) conflict_edges" for x y
    by (simp add: adj_children_iff cs_def adj_rel_conflict)
  have "pairwise (\<lambda>a b. b \<notin> set (adj_children cs a)) (set grp)"
    by (rule partition_loop_independent[OF _ loop]) (auto simp: cs conflict_rel_sym)
  then have "(a, b) \<notin> conflict_rel (set (bt_keys by_number)) conflict_edges"
    using ab by (auto simp: cs pairwise_def)
  moreover have "{a, b} \<subseteq> set (bt_keys by_number)"
    using ab loop partition_loop_set by fastforce
  ultimately show ?thesis by (auto simp: conflict_rel_def)
qed

theorem partition_conflict_free_witness:
  "partition_parallel_safe (map green_node [1, 2, 3]) [clash 1 2] [] [] = [[1, 3], [2]]
   \<and> \<not> (\<exists>e \<in> set [clash 1 2]. (ce_a e = 1 \<and> ce_b e = 3) \<or> (ce_a e = 3 \<and> ce_b e = 1))"
proof -
  have p: "partition_parallel_safe (map green_node [1, 2, 3]) [clash 1 2] [] [] = [[1, 3], [2]]" by code_simp
  then have "[1, 3] \<in> set (partition_parallel_safe (map green_node [1, 2, 3]) [clash 1 2] [] [])" by simp
  from partition_conflict_free[OF this, of 1 3] p show ?thesis by simp
qed

text \<open>
  The groups do not depend on the order in which the pull requests were collected: permuting
  the nodes leaves \<open>partition_parallel_safe\<close> unchanged.
\<close>

theorem partition_deterministic:
  assumes "mset nodes = mset nodes'" and "distinct (map pn_number nodes)"
  shows "partition_parallel_safe nodes conflict_edges ordering_edges exclude =
    partition_parallel_safe nodes' conflict_edges ordering_edges exclude"
proof -
  let ?kv = "\<lambda>ns. map (\<lambda>n. (pn_number n, n)) (filter (\<lambda>n. pn_number n \<notin> set exclude) ns)"
  have eq: "set nodes = set nodes'" using assms(1) by (rule mset_eq_setD)
  have "distinct (map pn_number nodes')"
    using assms by (metis mset_eq_imp_distinct_iff mset_map)
  then have "bt_collect (?kv nodes) = bt_collect (?kv nodes')"
    using assms(2) eq by (intro bt_collect_perm) (auto simp: comp_def distinct_map_filter)
  then show ?thesis by (simp add: partition_parallel_safe_def Let_def)
qed

theorem partition_deterministic_witness:
  "partition_parallel_safe (map green_node [1, 2, 3]) [clash 1 2] [depends 3 1] [] =
   partition_parallel_safe (map green_node [3, 1, 2]) [clash 1 2] [depends 3 1] []"
  by (rule partition_deterministic) simp_all

text \<open>
  Where the ordering edges between placed numbers have no cycle, a predecessor is in an earlier
  group than its dependent.
\<close>

lemma partition_respects_order:
  assumes "acyclic (ordering_rel ordering_edges \<inter> (pn_number ` set nodes - set exclude) \<times> (pn_number ` set nodes - set exclude))"
    and "(b, a) \<in> ordering_rel ordering_edges"
    and "i < length groups" "j < length groups" "b \<in> set (groups ! i)" "a \<in> set (groups ! j)"
    and groups: "groups = partition_parallel_safe nodes conflict_edges ordering_edges exclude"
  shows "i < j"
proof -
  define by_number where "by_number = bt_collect (map (\<lambda>n. (pn_number n, n))
            (filter (\<lambda>n. pn_number n \<notin> set exclude) nodes))"
  define N where "N = set (bt_keys by_number)"
  define P where "P = ordering_rel ordering_edges \<inter> N \<times> N"
  have N: "N = pn_number ` set nodes - set exclude"
    by (simp add: N_def by_number_def numbers_of_nodes)
  have "set (concat groups) = N"
    using set_partition[of nodes conflict_edges ordering_edges exclude] by (simp add: groups N)
  then have "{a, b} \<subseteq> N" using assms(3-6) nth_mem by fastforce
  then have ba: "(b, a) \<in> P" using assms(2) by (simp add: P_def)
  show ?thesis
  proof (rule partition_loop_ordered[of P "predecessor_adjacency (bt_keys by_number) ordering_edges"
        "bt_keys by_number" "[]" b a i _ "rank_at by_number" j])
    show "finite P" by (simp add: P_def)
    show "acyclic P" using assms(1) by (simp add: P_def N)
    show "y \<in> set (adj_children (predecessor_adjacency (bt_keys by_number) ordering_edges) x) \<longleftrightarrow> (y, x) \<in> P" for x y
      by (auto simp: adj_children_iff adj_rel_predecessor P_def N_def)
    show "y \<in> set (bt_keys by_number) \<union> set []" if "(y, x) \<in> P" for x y
      using that by (simp add: P_def N_def)
  qed (use assms(3-6) ba in \<open>simp_all add: groups partition_parallel_safe_def Let_def by_number_def\<close>)
qed

lemma mset_concat_cong: "mset xss = mset yss \<Longrightarrow> mset (concat xss) = mset (concat yss)"
  unfolding mset_concat sum_mset_sum_list[symmetric] mset_map by simp

lemma connected_components_facts:
  fixes numbers :: "int list" and edges :: "conflict_edge list"
  defines "comps \<equiv> connected_components numbers edges"
    and "conflicts \<equiv> conflict_rel (set numbers) edges"
  shows "set (concat comps) = set numbers \<and> distinct (concat comps)
    \<and> sorted (map (\<lambda>c. (- int (length c), hd c)) comps)
    \<and> (\<forall>c \<in> set comps. c \<noteq> [] \<and> sorted_wrt (<) c \<and> (\<forall>x \<in> set c. set c = conflicts\<^sup>* `` {x}))"
proof -
  let ?adj = "conflict_adjacency (bs_collect numbers) edges"
  let ?loop = "components_loop ?adj (bs_collect numbers)"
  have rel: "adj_rel ?adj = conflicts" by (simp add: adj_rel_conflict conflicts_def)
  have closed: "y \<in> set (bs_collect numbers)" if "(x, y) \<in> adj_rel ?adj" for x y
    using that by (auto simp: rel conflicts_def conflict_rel_def)
  have symm: "(y, x) \<in> adj_rel ?adj" if "(x, y) \<in> adj_rel ?adj" for x y
    using that conflict_rel_sym unfolding rel conflicts_def by blast
  have facts: "set (concat ?loop) = set numbers" "distinct (concat ?loop)"
    "\<forall>c \<in> set ?loop. c \<noteq> [] \<and> bs_ok c \<and> (\<forall>x \<in> set c. set c = conflicts\<^sup>* `` {x})"
    using components_loop_facts[OF symm, of "bs_collect numbers"] closed
    unfolding rel set_bs_collect by blast+
  have perm: "mset comps = mset ?loop" by (simp add: comps_def connected_components_def Let_def)
  have "mset (concat comps) = mset (concat ?loop)"
    by (rule mset_concat_cong[OF perm])
  from mset_eq_imp_distinct_iff[OF this] mset_eq_setD[OF this]
  have "distinct (concat comps) \<longleftrightarrow> distinct (concat ?loop)" "set (concat comps) = set (concat ?loop)"
    by this+
  moreover have "set comps = set ?loop" using perm by (rule mset_eq_setD)
  moreover have "sorted (map (\<lambda>c. (- int (length c), hd c)) comps)"
    by (simp add: comps_def connected_components_def Let_def)
  ultimately show ?thesis using facts unfolding bs_ok_def by blast
qed

text \<open>
  \<open>connected_components\<close> returns exactly the connected components of the conflict graph: they
  partition the numbers, each is strictly ascending, two numbers are in the same component if and
  only if conflicts connect them, and larger components come first.
\<close>

theorem connected_components_exact:
  fixes numbers :: "int list" and edges :: "conflict_edge list"
  defines "comps \<equiv> connected_components numbers edges"
    and "conflicts \<equiv> conflict_rel (set numbers) edges"
  shows "set (concat comps) = set numbers \<and> distinct (concat comps)
    \<and> sorted (map (\<lambda>c. (- int (length c), hd c)) comps)
    \<and> (\<forall>c \<in> set comps. c \<noteq> [] \<and> sorted_wrt (<) c \<and> (\<forall>x \<in> set c. set c = conflicts\<^sup>* `` {x}))"
  unfolding comps_def conflicts_def by (rule connected_components_facts)

theorem connected_components_exact_witness:
  "connected_components [4, 3, 2, 1] [clash 1 3] = [[1, 3], [2], [4]]
   \<and> set [1, 3] = (conflict_rel (set [4, 3, 2, 1]) [clash 1 3])\<^sup>* `` {1}"
proof -
  have c: "connected_components [4, 3, 2, 1] [clash 1 3] = [[1, 3], [2], [4]]" by code_simp
  then have "[1, 3] \<in> set (connected_components [4, 3, 2, 1] [clash 1 3])" by simp
  with connected_components_exact[of "[4, 3, 2, 1]" "[clash 1 3]"]
  have "\<forall>x \<in> set [1, 3]. set [1, 3] = (conflict_rel (set [4, 3, 2, 1]) [clash 1 3])\<^sup>* `` {x}" by blast
  with c show ?thesis by simp
qed

lemma stack_order_facts:
  assumes known: "set members \<subseteq> set (bt_keys by_number)"
  shows "\<exists>order. stack_order members by_number edges = Some order \<and> distinct order \<and> set order = set members
    \<and> (acyclic (member_rel (set members) edges) \<longrightarrow> topological (member_rel (set members) edges) order)"
proof -
  let ?M = "bs_collect members"
  define S where "S = member_rel (set members) edges"
  define suc ind where "suc = fst (fold (stack_edge ?M) edges (empty_adjacency ?M, bt_collect (map (\<lambda>n. (n, 0)) ?M)))"
    and "ind = snd (fold (stack_edge ?M) edges (empty_adjacency ?M, bt_collect (map (\<lambda>n. (n, 0)) ?M)))"
  define ready where "ready = sort_key (rank_at by_number) (filter (\<lambda>n. degree_at ind n = 0) ?M)"
  have zero: "degree_at (bt_collect (map (\<lambda>n. (n, 0)) ?M)) n = 0" for n
    by (auto simp: degree_at_def bt_get_collect split: option.splits dest!: map_of_SomeD)
  have fold: "fold (stack_edge ?M) edges (empty_adjacency ?M, bt_collect (map (\<lambda>n. (n, 0)) ?M)) = (suc, ind)"
    by (simp add: suc_def ind_def)
  have suc: "adj_ok suc" "adj_rel suc = S" and ind: "bt_ok ind" "\<And>n. degree_at ind n = card {p. (p, n) \<in> S}"
    using stack_edge_fold[OF adj_ok_empty bt_ok_collect _ _ fold] by (simp_all add: adj_rel_empty zero S_def)
  have S: "finite S" "S \<subseteq> set members \<times> set members" by (auto simp: S_def member_rel_def)
  have inv: "stack_inv (set members) S ind ready []"
    using ind by (auto simp: stack_inv_def ready_def)
  obtain res ind' where res: "stack_loop (length ?M) by_number suc ind ready [] = Some res"
      "stack_inv (set members) S ind' [] res"
    using stack_loop_total[OF S(1) _ S(2) suc known inv, of "length ?M"]
      distinct_card[OF distinct_bs_collect, of members] by auto
  define order where "order = (if length res < length ?M
      then res @ sort_key (rank_at by_number) (filter (\<lambda>n. n \<notin> set res) ?M) else res)"
  have sorted: "sort_ranked by_number (filter P ?M) = Some (sort_key (rank_at by_number) (filter P ?M))" for P
    using known by (intro sort_ranked_known) auto
  have "stack_order members by_number edges = Some order"
    using res(1) by (simp add: stack_order_def Let_def fold sorted ready_def order_def)
  moreover have sub: "set res \<subseteq> set members" "distinct res" "topological S res"
    using res(2) by (auto simp: stack_inv_def)
  moreover have full: "set res = set members" if "\<not> length res < length ?M"
    using that sub distinct_card[OF sub(2)] distinct_card[OF distinct_bs_collect, of members]
    by (intro card_seteq) auto
  moreover have "set res = set members" if acy: "acyclic S"
  proof (rule ccontr)
    assume "set res \<noteq> set members"
    then obtain m where m: "m \<in> set members - set res" using sub(1) by auto
    obtain z where z: "z \<in> set members - set res" "\<And>p. (p, z) \<in> S \<Longrightarrow> p \<notin> set members - set res"
      using wfE_min[OF finite_acyclic_wf[OF S(1) acy] m] by auto
    then have none: "{p. (p, z) \<in> S \<and> p \<notin> set res} = {}" using S(2) by auto
    have "degree_at ind' z = card {p. (p, z) \<in> S \<and> p \<notin> set res}"
      using res(2) unfolding stack_inv_def by blast
    then have "degree_at ind' z = 0" unfolding none by simp
    then show False using res(2) z(1) unfolding stack_inv_def by auto
  qed
  ultimately have "distinct order \<and> set order = set members \<and> (acyclic S \<longrightarrow> topological S order)"
    by (auto simp: order_def)
  then show ?thesis using \<open>stack_order members by_number edges = Some order\<close> by (auto simp: S_def)
qed

lemma those_Some: "(\<And>x. x \<in> set xs \<Longrightarrow> x \<noteq> None) \<Longrightarrow> \<exists>ys. those xs = Some ys"
  by (induction xs) (auto split: option.splits)

lemma cluster_by_conflict_total: "\<exists>clusters. cluster_by_conflict nodes conflict_edges ordering_edges = Some clusters"
proof -
  let ?map = "bt_collect (map (\<lambda>n. (pn_number n, n)) nodes)"
  have "stack_order component ?map ordering_edges \<noteq> None"
    if "component \<in> set (connected_components (map pn_number nodes) conflict_edges)" for component
  proof -
    have "set component \<subseteq> set (map pn_number nodes)"
      using connected_components_facts[of "map pn_number nodes" conflict_edges] that by auto
    then have "set component \<subseteq> set (bt_keys ?map)" by (simp add: set_bt_keys_collect image_image)
    then show ?thesis using stack_order_facts[of component ?map ordering_edges] by auto
  qed
  then show ?thesis unfolding cluster_by_conflict_def Let_def by (intro those_Some) auto
qed

text \<open>
  C36: When every member of a cluster is in the map of nodes, \<open>stack_order\<close> returns, without indexing in vain
  and without a counter underflow, a list of exactly the members; where the ordering edges between
  members have no cycle, every member comes after all its predecessors. (\<open>cluster_by_conflict_total\<close> shows
  that this is so for the clusters of \<open>cluster_by_conflict\<close>.)
\<close>

theorem stack_order_total:
  assumes known: "set members \<subseteq> set (bt_keys by_number)"
  shows "\<exists>order. stack_order members by_number edges = Some order \<and> distinct order \<and> set order = set members
    \<and> (acyclic (member_rel (set members) edges) \<longrightarrow> topological (member_rel (set members) edges) order)"
  by (rule stack_order_facts[OF known])

definition demo_stack :: node_map where
  "demo_stack = bt_collect (map (\<lambda>n. (pn_number n, n)) [green_node 1, green_node 2])"

theorem stack_order_total_witness:
  "\<exists>order. stack_order [1, 2] demo_stack [depends 2 1] = Some order
     \<and> topological (member_rel (set [1, 2]) [depends 2 1]) order"
proof -
  have acyclic: "acyclic (member_rel (set [1, 2]) [depends 2 1])"
    by (rule acyclicI_order[of _ id]) (auto simp: member_rel_def ordering_rel_def ordering_pair_def depends_def)
  have "bt_keys demo_stack = [1, 2]" by code_simp
  then have "set [1, 2] \<subseteq> set (bt_keys demo_stack)" by simp
  then show ?thesis using acyclic stack_order_total[of "[1, 2]" demo_stack "[depends 2 1]"] by blast
qed

end
