(* ===== verification/Planner_Plan.thy ===== *)
theory Planner_Plan
  imports Planner_Schedule
begin

text \<open>
  The plan (\<open>plan.rs\<close>): one action per pull request from its hold reasons or its CI evidence, the
  loop that makes a pull request wait for a dependency that does not land, the landing order and
  the batch, and \<open>assemble_result\<close>, which runs the whole pipeline on a collected graph.
\<close>

section \<open>Actions\<close>

definition DEFAULT_FRESHNESS_MAX_BEHIND :: "int option" where
  "DEFAULT_FRESHNESS_MAX_BEHIND = None"

definition em_dash :: string where
  "em_dash = [CHR 0xE2, CHR 0x80, CHR 0x94]"

definition held_action :: "string list \<Rightarrow> pr_action \<times> string" where
  "held_action reasons =
     (if list_ex (\<lambda>r. r = ''review-evidence-unavailable'') reasons
      then (Wait, ''held: '' @ str_join '', '' reasons)
      else if list_ex (\<lambda>r. r = ''ordering-cycle'') reasons
      then (Wait, ''held: ordering-cycle (resolve dependency cycle and rerun)'')
      else if list_ex (\<lambda>r. r = ''review-required'' \<or> r = ''changes-requested''
             \<or> starts_with r ''review-decision-unknown:'' \<or> starts_with r ''review-pass-'') reasons
      then (Wait, ''held: '' @ str_join '', '' reasons)
      else if list_ex (\<lambda>r. starts_with r ''depends-on-held'') reasons
      then (Wait, ''held: '' @ str_join '', '' reasons)
      else if list_ex (\<lambda>r. r = ''draft'') reasons
      then (Wait, ''held: draft (mark ready to land)'')
      else if list_ex (\<lambda>r. r = ''local-base-conflict'' \<or> r = ''github-base-conflicting'') reasons
      then (RebaseThenLand, ''held: '' @ str_join '', '' reasons @ '' '' @ em_dash
        @ '' rebase onto base before landing; validation landability remains delegated to the consuming workspace'')
      else (Wait, ''held: '' @ str_join '', '' reasons))"

definition too_far_behind :: "int option \<Rightarrow> pr_node \<Rightarrow> bool" where
  "too_far_behind freshness_max_behind node \<longleftrightarrow>
     (case freshness_max_behind of None \<Rightarrow> False | Some limit \<Rightarrow> limit < pn_commits_behind node)"

fun red_action :: "red_class \<Rightarrow> pr_action" where
  "red_action RedRunnerOutage = EscalateRunnerOutage"
| "red_action RedEvaluateOnceRace = Wait"
| "red_action RedStaleRequiredCheck = RefireStaleGate"
| "red_action RedFlaky = RefireCi"
| "red_action RedReal = HoldFix"

definition ci_action :: "pr_node \<Rightarrow> int option \<Rightarrow> pr_action \<times> string" where
  "ci_action node freshness_max_behind =
     (if pn_policy_class node = GatePolicy
      then (EscalateGatePolicy,
        ''gate-policy change requires coordinator decision; validation evidence is not approval'')
      else if pn_validation_evidence node = CleanValidateRecord
      then
        if pn_validation_authority node = AuthorityNone
        then (Wait, ''clean-validate-record has no consuming-workspace hard/soft-green authority'')
        else if too_far_behind freshness_max_behind node
        then (RebaseThenLand,
          validation_evidence_str (pn_validation_evidence node) @ '' at exact head with ''
          @ validation_authority_str (pn_validation_authority node) @ '' authority; rebase ''
          @ dec_int (pn_commits_behind node)
          @ '' commit(s), then land without pre-landing revalidation; post-facto validation remains due'')
        else (LandNow,
          validation_evidence_str (pn_validation_evidence node) @ '' at exact head with ''
          @ validation_authority_str (pn_validation_authority node)
          @ '' authority; no merge-gate wait'')
      else case cv_red_class (pn_ci node) of
        Some red \<Rightarrow> (red_action red, cv_detail (pn_ci node))
      | None \<Rightarrow>
          if \<not> cv_gate_present (pn_ci node)
          then (RefireCi, ''required gate has NO_RESULT (absent); re-dispatch'')
          else if \<not> cv_gate_ok (pn_ci node)
          then (RefireCi, ''required gate has NO_RESULT; re-dispatch'')
          else if cv_raw_state (pn_ci node) = CiNoResult
          then (Wait, ''required gate passed; another CI check has NO_RESULT'')
          else if too_far_behind freshness_max_behind node
          then (RebaseThenLand, ''authoritative CI green, gate ok, but ''
            @ dec_int (pn_commits_behind node) @ '' commit(s) behind base; rebase before landing'')
          else (LandNow, ''authoritative CI green, gate ok''))"

text \<open>
  The batch takes the candidates by rank and keeps each one that conflicts with none kept before:
  the same greedy pass that forms a parallel-safe group.
\<close>

definition greedy_conflict_free :: "int list \<Rightarrow> adjacency \<Rightarrow> node_map \<Rightarrow> int list" where
  "greedy_conflict_free numbers conflicts by_number =
     greedy_group conflicts [] (sort_key (rank_at by_number) numbers)"

section \<open>The dependency loop\<close>

type_synonym action_map = "(int, pr_action) btree_map"

definition find_blocker :: "ordering_edge list \<Rightarrow> action_map \<Rightarrow> int \<Rightarrow> int option" where
  "find_blocker blockers by_action pr =
     map_option or_before
       (find (\<lambda>e. or_after e = pr \<and> bt_get by_action (or_before e) \<noteq> Some LandNow) blockers)"

definition landing_action :: "pr_action \<Rightarrow> bool" where
  "landing_action a \<longleftrightarrow> a = LandNow \<or> a = RebaseThenLand"

definition blocked_decision :: "action_map \<Rightarrow> int \<Rightarrow> pr_action_decision \<Rightarrow> pr_action_decision" where
  "blocked_decision by_action blocker d =
     d\<lparr>ad_action := Wait,
       ad_why := ''dependency #'' @ dec_int blocker @ '' requires ''
         @ pr_action_str (case bt_get by_action blocker of Some a \<Rightarrow> a | None \<Rightarrow> Wait)
         @ ''; wait and rerun''\<rparr>"

text \<open>One pass over the decisions, with \<open>by_action\<close> and \<open>changed\<close> threaded through.\<close>

fun block_pass ::
  "ordering_edge list \<Rightarrow> pr_action_decision list \<Rightarrow> action_map \<Rightarrow> bool
   \<Rightarrow> pr_action_decision list \<times> action_map \<times> bool" where
  "block_pass blockers [] by_action changed = ([], by_action, changed)"
| "block_pass blockers (d # ds) by_action changed =
     (case find_blocker blockers by_action (ad_pr d) of
        Some blocker \<Rightarrow>
          if landing_action (ad_action d)
          then let changed' = (changed \<or> bt_get by_action (ad_pr d) \<noteq> Some Wait);
                   (ds', by_action', changed'') =
                     block_pass blockers ds (bt_insert (ad_pr d) Wait by_action) changed'
               in (blocked_decision by_action blocker d # ds', by_action', changed'')
          else let (ds', rest) = block_pass blockers ds by_action changed in (d # ds', rest)
      | None \<Rightarrow> let (ds', rest) = block_pass blockers ds by_action changed in (d # ds', rest))"

definition landing_count :: "pr_action_decision list \<Rightarrow> nat" where
  "landing_count ds = length (filter (\<lambda>d. landing_action (ad_action d)) ds)"

lemma blocked_decision_simps [simp]:
  "ad_pr (blocked_decision by_action b d) = ad_pr d"
  "ad_group (blocked_decision by_action b d) = ad_group d"
  "ad_action (blocked_decision by_action b d) = Wait"
  by (simp_all add: blocked_decision_def)

lemma block_pass_count:
  "block_pass blockers ds by_action changed = (ds', by_action', changed') \<Longrightarrow>
   landing_count ds' \<le> landing_count ds
   \<and> (changed' \<longrightarrow> changed \<or> landing_count ds' < landing_count ds)"
proof (induction ds arbitrary: by_action changed ds' by_action' changed')
  case Nil
  then show ?case by simp
next
  case (Cons d ds)
  obtain es ba ch where rest: "block_pass blockers ds (bt_insert (ad_pr d) Wait by_action)
      (changed \<or> bt_get by_action (ad_pr d) \<noteq> Some Wait) = (es, ba, ch)"
    by (metis surj_pair)
  obtain es' ba' ch' where rest': "block_pass blockers ds by_action changed = (es', ba', ch')"
    by (metis surj_pair)
  show ?case
    using Cons.IH[OF rest] Cons.IH[OF rest'] Cons.prems
    by (cases "find_blocker blockers by_action (ad_pr d)")
      (auto simp: Let_def rest rest' landing_count_def landing_action_def split: if_splits)
qed

function block_loop ::
  "ordering_edge list \<Rightarrow> pr_action_decision list \<Rightarrow> action_map \<Rightarrow> pr_action_decision list" where
  "block_loop blockers ds by_action =
     (let (ds', by_action', changed) = block_pass blockers ds by_action False
      in if changed then block_loop blockers ds' by_action' else ds')"
  by pat_completeness auto
termination
proof (relation "measure (\<lambda>(blockers, ds, by_action). landing_count ds)", goal_cases)
  case 1
  then show ?case by simp
next
  case (2 blockers ds by_action x ds' y by_action' changed)
  then show ?case using block_pass_count[of blockers ds by_action False ds' by_action' changed] by simp
qed

declare block_loop.simps [simp del]

section \<open>The plan\<close>

definition initial_decision ::
  "(int, held_pr) btree_map \<Rightarrow> (int, nat) btree_map \<Rightarrow> int option \<Rightarrow> pr_node \<Rightarrow> pr_action_decision" where
  "initial_decision held_by_number group_of freshness_max_behind node =
     (let (action, why) =
        (if pn_policy_class node = GatePolicy then ci_action node freshness_max_behind
         else case bt_get held_by_number (pn_number node) of
           Some held \<Rightarrow> held_action (hp_reasons held)
         | None \<Rightarrow> ci_action node freshness_max_behind)
      in \<lparr>ad_pr = pn_number node, ad_action = action, ad_why = why,
          ad_group = bt_get group_of (pn_number node)\<rparr>)"

definition group_index :: "int list list \<Rightarrow> (int, nat) btree_map" where
  "group_index groups =
     bt_collect (concat (map (\<lambda>(i, numbers). map (\<lambda>n. (n, i)) numbers) (enumerate 0 groups)))"

definition batch_conflicts :: "conflict_edge list \<Rightarrow> adjacency" where
  "batch_conflicts edges =
     fold (\<lambda>e adj. adj_add (ce_b e, ce_a e) (adj_add (ce_a e, ce_b e) adj)) edges []"

definition batch_of ::
  "pr_node list \<Rightarrow> conflict_edge list \<Rightarrow> ordering_edge list \<Rightarrow> int list \<Rightarrow> int list" where
  "batch_of nodes conflict_edges ordering_edges land_now =
     greedy_conflict_free
       (filter (\<lambda>n. n \<notin> set (bs_collect (map or_after ordering_edges))) land_now)
       (batch_conflicts conflict_edges)
       (bt_collect (map (\<lambda>n. (pn_number n, n)) nodes))"

definition red_numbers :: "pr_node list \<Rightarrow> red_class \<Rightarrow> int list" where
  "red_numbers nodes cls = map pn_number (filter (\<lambda>n. cv_red_class (pn_ci n) = Some cls) nodes)"

definition compute_diagnostics :: "pr_node list \<Rightarrow> nat \<Rightarrow> diagnostics" where
  "compute_diagnostics nodes outage_min_prs =
     (let outage_prs = red_numbers nodes RedRunnerOutage
      in \<lparr>dg_stale_gates = red_numbers nodes RedStaleRequiredCheck,
          dg_flaky_reds = red_numbers nodes RedFlaky,
          dg_real_reds = red_numbers nodes RedReal,
          dg_evaluate_once_race = red_numbers nodes RedEvaluateOnceRace,
          dg_outage_prs = outage_prs,
          dg_outage_suspected = (outage_min_prs \<le> length outage_prs)\<rparr>)"

definition initial_decisions ::
  "pr_node list \<Rightarrow> held_pr list \<Rightarrow> int list list \<Rightarrow> int option \<Rightarrow> pr_action_decision list" where
  "initial_decisions nodes held groups freshness_max_behind =
     map (initial_decision (bt_collect (map (\<lambda>h. (hp_pr h, h)) held)) (group_index groups)
            freshness_max_behind)
       (sort_key pn_number nodes)"

definition final_decisions ::
  "ordering_edge list \<Rightarrow> pr_action_decision list \<Rightarrow> pr_action_decision list" where
  "final_decisions ordering_edges decisions =
     block_loop (sort_key (\<lambda>e. (or_after e, or_before e)) ordering_edges) decisions
       (bt_collect (map (\<lambda>d. (ad_pr d, ad_action d)) decisions))"

definition compute_plan ::
  "pr_node list \<Rightarrow> conflict_edge list \<Rightarrow> ordering_edge list \<Rightarrow> held_pr list \<Rightarrow> int option \<Rightarrow> nat \<Rightarrow> bool
   \<Rightarrow> plan \<times> diagnostics" where
  "compute_plan nodes conflict_edges ordering_edges held freshness_max_behind outage_min_prs batch =
     (let held_set = bt_keys (bt_collect (map (\<lambda>h. (hp_pr h, h)) held));
          groups = partition_parallel_safe nodes conflict_edges ordering_edges held_set;
          decisions = final_decisions ordering_edges
            (initial_decisions nodes held groups freshness_max_behind);
          land_now = map ad_pr (filter (\<lambda>d. ad_action d = LandNow) decisions)
      in (\<lparr>pl_parallel_safe_groups = groups,
           pl_land_now = land_now,
           pl_order = concat groups,
           pl_per_pr_actions = decisions,
           pl_batch = (if batch \<and> land_now \<noteq> []
             then batch_of nodes conflict_edges ordering_edges land_now else [])\<rparr>,
          compute_diagnostics nodes outage_min_prs))"

definition assemble_result :: "collected_graph \<Rightarrow> int option \<Rightarrow> nat \<Rightarrow> bool \<Rightarrow> plan_result" where
  "assemble_result graph freshness_max_behind outage_min_prs batch =
     (let stacks = build_stacks (cg_ordering_edges graph);
          held = held_reasons (cg_nodes graph) (cg_ordering_edges graph);
          (plan, diagnostics) = compute_plan (cg_nodes graph) (cg_conflict_edges graph)
            (cg_ordering_edges graph) held freshness_max_behind outage_min_prs batch
      in \<lparr>rs_graph = graph, rs_stacks = stacks, rs_held = held, rs_plan = plan,
          rs_diagnostics = diagnostics\<rparr>)"

section \<open>What the dependency loop does\<close>

lemma find_blocker_None:
  "find_blocker blockers by_action p = None \<longleftrightarrow>
     (\<forall>b. (b, p) \<in> ordering_rel blockers \<longrightarrow> bt_get by_action b = Some LandNow)"
  by (auto simp: find_blocker_def find_None_iff ordering_rel_def ordering_pair_def)

lemma find_blocker_Some:
  "find_blocker blockers by_action p = Some b \<Longrightarrow>
     (b, p) \<in> ordering_rel blockers \<and> bt_get by_action b \<noteq> Some LandNow"
  by (auto simp: find_blocker_def find_Some_iff ordering_rel_def ordering_pair_def)

text \<open>
  \<open>action_of\<close> reads an action off a list of decisions; a map \<open>tracks\<close> the decisions when it gives
  the same answers. A decision is \<open>demoted\<close> when the loop left it alone or made it wait for a
  dependency that does not land.
\<close>

definition action_of :: "pr_action_decision list \<Rightarrow> int \<Rightarrow> pr_action option" where
  "action_of ds p = map_of (map (\<lambda>d. (ad_pr d, ad_action d)) ds) p"

definition tracks :: "action_map \<Rightarrow> pr_action_decision list \<Rightarrow> bool" where
  "tracks m ds \<longleftrightarrow> bt_ok m \<and> distinct (map ad_pr ds) \<and> (\<forall>p. bt_get m p = action_of ds p)"

definition demoted ::
  "(int \<times> int) set \<Rightarrow> (int \<Rightarrow> pr_action option) \<Rightarrow> pr_action_decision \<Rightarrow> pr_action_decision \<Rightarrow> bool" where
  "demoted R act d d' \<longleftrightarrow> ad_pr d' = ad_pr d \<and> ad_group d' = ad_group d
     \<and> (d' = d \<or> landing_action (ad_action d) \<and> ad_action d' = Wait
          \<and> (\<exists>b. (b, ad_pr d) \<in> R \<and> act b \<noteq> Some LandNow))"

lemma demoted_weaken:
  "demoted R act d d' \<Longrightarrow> (\<And>p. act p \<noteq> Some LandNow \<Longrightarrow> act' p \<noteq> Some LandNow) \<Longrightarrow> demoted R act' d d'"
  unfolding demoted_def by blast

lemma demoted_trans: "demoted R act d d' \<Longrightarrow> demoted R act d' d'' \<Longrightarrow> demoted R act d d''"
  by (auto simp: demoted_def landing_action_def)

lemma block_pass_spec:
  assumes "block_pass blockers ds m ch = (ds', m', ch')" and "bt_ok m" and "distinct (map ad_pr ds)"
    and "\<And>d. d \<in> set ds \<Longrightarrow> bt_get m (ad_pr d) = Some (ad_action d)"
  shows "bt_ok m' \<and> (\<forall>p. p \<notin> ad_pr ` set ds \<longrightarrow> bt_get m' p = bt_get m p)
    \<and> (\<forall>d \<in> set ds'. bt_get m' (ad_pr d) = Some (ad_action d))
    \<and> (\<forall>p. bt_get m p \<noteq> Some LandNow \<longrightarrow> bt_get m' p \<noteq> Some LandNow)
    \<and> list_all2 (demoted (ordering_rel blockers) (bt_get m')) ds ds'
    \<and> (\<not> ch' \<longrightarrow> \<not> ch \<and> m' = m \<and> ds' = ds
         \<and> (\<forall>d \<in> set ds. landing_action (ad_action d) \<longrightarrow> find_blocker blockers m (ad_pr d) = None))"
  using assms
proof (induction ds arbitrary: m ch ds' m' ch')
  case Nil
  then show ?case by simp
next
  case (Cons d ds)
  have new: "ad_pr d \<notin> ad_pr ` set ds" and dist: "distinct (map ad_pr ds)" using Cons.prems(3) by auto
  show ?case
  proof (cases "find_blocker blockers m (ad_pr d) \<noteq> None \<and> landing_action (ad_action d)")
    case True
    then obtain b where b: "find_blocker blockers m (ad_pr d) = Some b" by auto
    let ?m = "bt_insert (ad_pr d) Wait m"
    obtain es ch1 where rest: "block_pass blockers ds ?m (ch \<or> bt_get m (ad_pr d) \<noteq> Some Wait) = (es, m', ch')"
      and ds': "ds' = blocked_decision m b d # es"
      using Cons.prems(1) b True by (auto simp: Let_def split: prod.splits)
    have get: "bt_get ?m p = (if p = ad_pr d then Some Wait else bt_get m p)" for p
      using Cons.prems(2) by (rule bt_get_insert)
    have agree: "bt_get ?m (ad_pr x) = Some (ad_action x)" if "x \<in> set ds" for x
    proof -
      have "ad_pr x \<noteq> ad_pr d" using that new by (metis image_eqI)
      then show ?thesis using that Cons.prems(4)[of x] by (simp add: get)
    qed
    note IH = Cons.IH[OF rest bt_ok_insert[OF Cons.prems(2)] dist agree]
    have waits: "bt_get m' (ad_pr d) = Some Wait" using IH new by (simp add: get)
    have "bt_get m (ad_pr d) \<noteq> Some Wait"
      using Cons.prems(4)[of d] True by (auto simp: landing_action_def)
    then have ch': "ch'" using IH by auto
    have mono: "bt_get m' p \<noteq> Some LandNow" if "bt_get m p \<noteq> Some LandNow" for p
      using IH that by (auto simp: get)
    have "demoted (ordering_rel blockers) (bt_get m') d (blocked_decision m b d)"
      using find_blocker_Some[OF b] mono True by (auto simp: demoted_def)
    then show ?thesis using IH waits ch' mono by (auto simp: ds' get)
  next
    case False
    obtain es where rest: "block_pass blockers ds m ch = (es, m', ch')" and ds': "ds' = d # es"
      using Cons.prems(1) False
      by (cases "find_blocker blockers m (ad_pr d)") (auto simp: Let_def split: prod.splits)
    note IH = Cons.IH[OF rest Cons.prems(2) dist Cons.prems(4)[OF list.set_intros(2)]]
    have "bt_get m' (ad_pr d) = Some (ad_action d)" using IH new Cons.prems(4)[of d] by simp
    moreover have "demoted (ordering_rel blockers) (bt_get m') d d" by (simp add: demoted_def)
    ultimately show ?thesis using IH False by (auto simp: ds')
  qed
qed

lemma demoted_prs: "list_all2 (demoted R act) ds ds' \<Longrightarrow> map ad_pr ds' = map ad_pr ds"
  by (induction rule: list_all2_induct) (simp_all add: demoted_def)

lemma action_of_mem:
  "distinct (map ad_pr ds) \<Longrightarrow> d \<in> set ds \<Longrightarrow> action_of ds (ad_pr d) = Some (ad_action d)"
  unfolding action_of_def by (rule map_of_is_SomeI) (auto simp: comp_def)

lemma action_of_None: "action_of ds p = None \<longleftrightarrow> p \<notin> ad_pr ` set ds"
  by (force simp: action_of_def map_of_eq_None_iff)

lemma action_of_SomeD: "action_of ds p = Some a \<Longrightarrow> \<exists>d \<in> set ds. ad_pr d = p \<and> ad_action d = a"
  unfolding action_of_def by (auto dest!: map_of_SomeD)

lemma block_pass_tracks:
  assumes pass: "block_pass blockers ds m False = (ds', m', ch')" and "tracks m ds"
  shows "tracks m' ds'"
proof -
  have spec: "bt_ok m'" "\<And>p. p \<notin> ad_pr ` set ds \<Longrightarrow> bt_get m' p = bt_get m p"
      "\<And>d. d \<in> set ds' \<Longrightarrow> bt_get m' (ad_pr d) = Some (ad_action d)"
      "list_all2 (demoted (ordering_rel blockers) (bt_get m')) ds ds'"
    using block_pass_spec[OF pass] assms(2) action_of_mem by (auto simp: tracks_def)
  have prs: "map ad_pr ds' = map ad_pr ds" using spec(4) by (rule demoted_prs)
  then have keys: "ad_pr ` set ds' = ad_pr ` set ds" by (metis list.set_map)
  have "bt_get m' p = action_of ds' p" for p
  proof (cases "action_of ds' p")
    case None
    then show ?thesis
      using spec(2) assms(2) keys action_of_None[of ds' p] action_of_None[of ds p] by (simp add: tracks_def)
  next
    case (Some a)
    then show ?thesis using spec(3) by (auto dest: action_of_SomeD)
  qed
  then show ?thesis using spec(1) prs assms(2) by (simp add: tracks_def)
qed

lemma block_loop_spec:
  assumes "tracks m ds"
  shows "\<exists>m'. tracks m' (block_loop blockers ds m)
    \<and> (\<forall>p. bt_get m p \<noteq> Some LandNow \<longrightarrow> bt_get m' p \<noteq> Some LandNow)
    \<and> list_all2 (demoted (ordering_rel blockers) (bt_get m')) ds (block_loop blockers ds m)
    \<and> (\<forall>d \<in> set (block_loop blockers ds m).
         landing_action (ad_action d) \<longrightarrow> find_blocker blockers m' (ad_pr d) = None)"
  using assms
proof (induction blockers ds m rule: block_loop.induct)
  case (1 blockers ds m)
  obtain ds' m' ch where pass: "block_pass blockers ds m False = (ds', m', ch)" by (metis surj_pair)
  note spec = block_pass_spec[OF pass]
  have tr: "bt_ok m" "distinct (map ad_pr ds)" "\<And>d. d \<in> set ds \<Longrightarrow> bt_get m (ad_pr d) = Some (ad_action d)"
    using "1.prems" action_of_mem by (auto simp: tracks_def)
  have tr': "tracks m' ds'" using block_pass_tracks[OF pass "1.prems"] .
  show ?case
  proof (cases ch)
    case True
    let ?res = "block_loop blockers ds' m'"
    have loop: "block_loop blockers ds m = ?res" by (subst block_loop.simps) (simp add: pass True)
    obtain m'' where m'': "tracks m'' ?res" "\<And>p. bt_get m' p \<noteq> Some LandNow \<Longrightarrow> bt_get m'' p \<noteq> Some LandNow"
        "list_all2 (demoted (ordering_rel blockers) (bt_get m'')) ds' ?res"
        "\<forall>d \<in> set ?res. landing_action (ad_action d) \<longrightarrow> find_blocker blockers m'' (ad_pr d) = None"
      using "1.IH"[OF pass[symmetric] refl refl True tr'] by blast
    have "list_all2 (demoted (ordering_rel blockers) (bt_get m'')) ds ds'"
    proof (rule list_all2_mono)
      show "list_all2 (demoted (ordering_rel blockers) (bt_get m')) ds ds'" using spec[OF tr] by blast
    qed (use m''(2) demoted_weaken in blast)
    then have "list_all2 (demoted (ordering_rel blockers) (bt_get m'')) ds ?res"
      using m''(3) by (rule list_all2_trans[rotated]) (rule demoted_trans)
    then show ?thesis using m'' spec[OF tr] by (auto simp: loop intro!: exI[of _ m''])
  next
    case False
    then have "block_loop blockers ds m = ds'" by (subst block_loop.simps) (simp add: pass)
    then show ?thesis using spec[OF tr] False tr' by (intro exI[of _ m']) auto
  qed
qed

lemma ordering_rel_sort [simp]: "ordering_rel (sort_key f edges) = ordering_rel edges"
  by (simp add: ordering_rel_def)

lemma tracks_initial:
  "distinct (map ad_pr ds) \<Longrightarrow> tracks (bt_collect (map (\<lambda>d. (ad_pr d, ad_action d)) ds)) ds"
  by (simp add: tracks_def bt_get_collect action_of_def map_of_rev comp_def)

lemma final_decisions_spec:
  assumes dist: "distinct (map ad_pr ds)"
  shows "list_all2 (demoted (ordering_rel edges) (action_of (final_decisions edges ds))) ds
      (final_decisions edges ds)"
    and "action_of ds p \<noteq> Some LandNow \<Longrightarrow> action_of (final_decisions edges ds) p \<noteq> Some LandNow"
    and "d \<in> set (final_decisions edges ds) \<Longrightarrow> landing_action (ad_action d) \<Longrightarrow>
      (b, ad_pr d) \<in> ordering_rel edges \<Longrightarrow> action_of (final_decisions edges ds) b = Some LandNow"
proof -
  let ?m = "bt_collect (map (\<lambda>d. (ad_pr d, ad_action d)) ds)"
  let ?bl = "sort_key (\<lambda>e. (or_after e, or_before e)) edges"
  have tr: "tracks ?m ds" using dist by (rule tracks_initial)
  obtain m' where m': "tracks m' (final_decisions edges ds)"
      "\<And>p. bt_get ?m p \<noteq> Some LandNow \<Longrightarrow> bt_get m' p \<noteq> Some LandNow"
      "list_all2 (demoted (ordering_rel ?bl) (bt_get m')) ds (final_decisions edges ds)"
      "\<forall>d \<in> set (final_decisions edges ds). landing_action (ad_action d) \<longrightarrow> find_blocker ?bl m' (ad_pr d) = None"
    using block_loop_spec[OF tr, of ?bl] unfolding final_decisions_def by blast
  have get: "bt_get m' = action_of (final_decisions edges ds)" "bt_get ?m = action_of ds"
    using m'(1) tr by (auto simp: tracks_def fun_eq_iff)
  show "list_all2 (demoted (ordering_rel edges) (action_of (final_decisions edges ds))) ds
      (final_decisions edges ds)"
    using m'(3) by (simp add: get)
  show "action_of ds p \<noteq> Some LandNow \<Longrightarrow> action_of (final_decisions edges ds) p \<noteq> Some LandNow"
    using m'(2)[of p] by (simp add: get)
  show "d \<in> set (final_decisions edges ds) \<Longrightarrow> landing_action (ad_action d) \<Longrightarrow>
      (b, ad_pr d) \<in> ordering_rel edges \<Longrightarrow> action_of (final_decisions edges ds) b = Some LandNow"
    using m'(4) by (simp add: get find_blocker_None)
qed

lemma block_pass_least:
  assumes "block_pass blockers ds m ch = (ds', m', ch')" and "bt_ok m"
    and "\<And>p. bt_get m p \<noteq> Some LandNow \<Longrightarrow> p \<in> C"
    and "\<And>x y. (x, y) \<in> ordering_rel blockers \<Longrightarrow> x \<in> C \<Longrightarrow> y \<in> C"
  shows "bt_get m' p \<noteq> Some LandNow \<Longrightarrow> p \<in> C"
  using assms(1-3)
proof (induction ds arbitrary: m ch ds')
  case (Cons d ds)
  show ?case
  proof (cases "find_blocker blockers m (ad_pr d) \<noteq> None \<and> landing_action (ad_action d)")
    case True
    then obtain b where b: "find_blocker blockers m (ad_pr d) = Some b" by auto
    let ?m = "bt_insert (ad_pr d) Wait m"
    obtain es where rest: "block_pass blockers ds ?m (ch \<or> bt_get m (ad_pr d) \<noteq> Some Wait) = (es, m', ch')"
      using Cons.prems(2) b True by (auto simp: Let_def split: prod.splits)
    have "ad_pr d \<in> C" using find_blocker_Some[OF b] Cons.prems(4) assms(4) by blast
    then have "q \<in> C" if "bt_get ?m q \<noteq> Some LandNow" for q
      using that Cons.prems(3,4) by (auto simp: bt_get_insert split: if_splits)
    from Cons.IH[OF Cons.prems(1) rest bt_ok_insert[OF Cons.prems(3)] this] show ?thesis .
  next
    case False
    obtain es where "block_pass blockers ds m ch = (es, m', ch')"
      using Cons.prems(2) False
      by (cases "find_blocker blockers m (ad_pr d)") (auto simp: Let_def split: prod.splits)
    from Cons.IH[OF Cons.prems(1) this Cons.prems(3,4)] show ?thesis .
  qed
qed simp

lemma block_loop_least:
  assumes "tracks m ds" and "\<And>p. action_of ds p \<noteq> Some LandNow \<Longrightarrow> p \<in> C"
    and "\<And>x y. (x, y) \<in> ordering_rel blockers \<Longrightarrow> x \<in> C \<Longrightarrow> y \<in> C"
  shows "action_of (block_loop blockers ds m) p \<noteq> Some LandNow \<Longrightarrow> p \<in> C"
  using assms
proof (induction blockers ds m rule: block_loop.induct)
  case (1 blockers ds m)
  obtain ds' m' ch where pass: "block_pass blockers ds m False = (ds', m', ch)" by (metis surj_pair)
  have tr': "tracks m' ds'" using block_pass_tracks[OF pass "1.prems"(2)] .
  have least: "q \<in> C" if "action_of ds' q \<noteq> Some LandNow" for q
    using block_pass_least[OF pass, of C q] that "1.prems"(2,3,4) tr' by (simp add: tracks_def)
  show ?case
  proof (cases ch)
    case True
    then have "block_loop blockers ds m = block_loop blockers ds' m'"
      by (subst block_loop.simps) (simp add: pass)
    then show ?thesis
      using "1.IH"[OF pass[symmetric] refl refl True _ tr' least "1.prems"(4)] "1.prems"(1) by simp
  next
    case False
    then have "block_loop blockers ds m = ds'" by (subst block_loop.simps) (simp add: pass)
    then show ?thesis using least "1.prems"(1) by simp
  qed
qed

lemma final_decisions_least:
  assumes "distinct (map ad_pr ds)" and "\<And>p. action_of ds p \<noteq> Some LandNow \<Longrightarrow> p \<in> C"
    and "\<And>x y. (x, y) \<in> ordering_rel edges \<Longrightarrow> x \<in> C \<Longrightarrow> y \<in> C"
  shows "action_of (final_decisions edges ds) p \<noteq> Some LandNow \<Longrightarrow> p \<in> C"
  unfolding final_decisions_def
  by (rule block_loop_least[OF tracks_initial[OF assms(1)]]) (use assms(2,3) in simp_all)

lemma final_decisions_prs: "distinct (map ad_pr ds) \<Longrightarrow> map ad_pr (final_decisions edges ds) = map ad_pr ds"
  using final_decisions_spec(1) demoted_prs by blast

text \<open>What the loop did to one decision.\<close>

lemma final_decision_demoted:
  assumes "distinct (map ad_pr ds)" and "d' \<in> set (final_decisions edges ds)"
  obtains d where "d \<in> set ds" "demoted (ordering_rel edges) (action_of (final_decisions edges ds)) d d'"
  using final_decisions_spec(1)[OF assms(1), of edges] assms(2)
  unfolding list_all2_conv_all_nth in_set_conv_nth by metis

interpretation landing: closure_loop "\<lambda>(ds, edges). distinct (map ad_pr ds)"
    "\<lambda>(ds, edges). ordering_rel edges" "\<lambda>(ds, edges). {p. action_of ds p \<noteq> Some LandNow}"
    "\<lambda>(ds, edges). {p. action_of (final_decisions edges ds) p \<noteq> Some LandNow}"
proof (unfold_locales, goal_cases)
  case (1 i)
  then show ?case by (cases i) (auto dest: final_decisions_spec(2))
next
  case (2 i x y)
  obtain ds edges where i: "i = (ds, edges)" by (cases i)
  have "action_of (final_decisions edges ds) y \<noteq> Some LandNow"
  proof
    assume "action_of (final_decisions edges ds) y = Some LandNow"
    then obtain d where "d \<in> set (final_decisions edges ds)" "ad_pr d = y" "ad_action d = LandNow"
      by (auto dest: action_of_SomeD)
    then show False
      using 2 final_decisions_spec(3)[of ds d edges x] by (simp add: i landing_action_def)
  qed
  then show ?case by (simp add: i)
next
  case (3 i C)
  obtain ds edges where i: "i = (ds, edges)" by (cases i)
  let ?fs = "final_decisions edges ds"
  have dist: "distinct (map ad_pr ds)" using 3(1) by (simp add: i)
  have "p \<in> C" if "action_of ?fs p \<noteq> Some LandNow" for p
  proof (rule final_decisions_least[OF dist])
    show "q \<in> C" if "action_of ds q \<noteq> Some LandNow" for q using 3(2) that by (auto simp: i)
    show "y \<in> C" if "(x, y) \<in> ordering_rel edges" "x \<in> C" for x y using 3(3) that by (simp add: i)
  qed fact
  then show ?case by (auto simp: i)
qed

section \<open>The parts of a plan\<close>

definition own_action :: "held_pr list \<Rightarrow> int option \<Rightarrow> pr_node \<Rightarrow> pr_action" where
  "own_action held freshness n =
     fst (if pn_policy_class n = GatePolicy then ci_action n freshness
          else case bt_get (bt_collect (map (\<lambda>h. (hp_pr h, h)) held)) (pn_number n) of
            Some h \<Rightarrow> held_action (hp_reasons h)
          | None \<Rightarrow> ci_action n freshness)"

definition plan_groups ::
  "pr_node list \<Rightarrow> conflict_edge list \<Rightarrow> ordering_edge list \<Rightarrow> held_pr list \<Rightarrow> int list list" where
  "plan_groups nodes ce oe held = partition_parallel_safe nodes ce oe (bt_keys (bt_collect (map (\<lambda>h. (hp_pr h, h)) held)))"

definition plan_decisions ::
  "pr_node list \<Rightarrow> conflict_edge list \<Rightarrow> ordering_edge list \<Rightarrow> held_pr list \<Rightarrow> int option \<Rightarrow> pr_action_decision list" where
  "plan_decisions nodes ce oe held freshness =
     final_decisions oe (initial_decisions nodes held (plan_groups nodes ce oe held) freshness)"

lemma initial_decision_simps [simp]:
  "ad_pr (initial_decision hb gs f n) = pn_number n"
  "ad_group (initial_decision hb gs f n) = bt_get gs (pn_number n)"
  "ad_action (initial_decision (bt_collect (map (\<lambda>h. (hp_pr h, h)) held)) gs f n) = own_action held f n"
  by (simp_all add: initial_decision_def own_action_def split: prod.splits option.splits)

lemma compute_plan_simps:
  fixes nodes ce oe held f k b
  defines "ds \<equiv> plan_decisions nodes ce oe held f"
  shows "pl_per_pr_actions (fst (compute_plan nodes ce oe held f k b)) = ds"
    and "pl_land_now (fst (compute_plan nodes ce oe held f k b)) =
      map ad_pr (filter (\<lambda>d. ad_action d = LandNow) ds)"
    and "pl_parallel_safe_groups (fst (compute_plan nodes ce oe held f k b)) = plan_groups nodes ce oe held"
    and "pl_order (fst (compute_plan nodes ce oe held f k b)) = concat (plan_groups nodes ce oe held)"
    and "pl_batch (fst (compute_plan nodes ce oe held f k b)) =
      (if b \<and> pl_land_now (fst (compute_plan nodes ce oe held f k b)) \<noteq> []
       then batch_of nodes ce oe (pl_land_now (fst (compute_plan nodes ce oe held f k b))) else [])"
    and "snd (compute_plan nodes ce oe held f k b) = compute_diagnostics nodes k"
  by (simp_all add: compute_plan_def plan_decisions_def plan_groups_def ds_def Let_def)

lemma initial_prs: "map ad_pr (initial_decisions nodes held gs f) = map pn_number (sort_key pn_number nodes)"
  by (simp add: initial_decisions_def comp_def)

lemma distinct_initial: "distinct (map pn_number nodes) \<Longrightarrow> distinct (map ad_pr (initial_decisions nodes held gs f))"
  using mset_eq_imp_distinct_iff[of "map pn_number (sort_key pn_number nodes)" "map pn_number nodes"]
  by (simp add: initial_prs del: distinct_map)

lemma initial_action:
  assumes "distinct (map pn_number nodes)"
  shows "action_of (initial_decisions nodes held gs f) p = Some a \<longleftrightarrow>
    (\<exists>n \<in> set nodes. pn_number n = p \<and> own_action held f n = a)"
proof
  assume "action_of (initial_decisions nodes held gs f) p = Some a"
  then show "\<exists>n \<in> set nodes. pn_number n = p \<and> own_action held f n = a"
    unfolding initial_decisions_def by (force dest!: action_of_SomeD)
next
  assume "\<exists>n \<in> set nodes. pn_number n = p \<and> own_action held f n = a"
  then obtain n where n: "n \<in> set nodes" "pn_number n = p" "own_action held f n = a" by blast
  let ?d = "initial_decision (bt_collect (map (\<lambda>h. (hp_pr h, h)) held)) (group_index gs) f n"
  have "?d \<in> set (initial_decisions nodes held gs f)" using n by (simp add: initial_decisions_def)
  from action_of_mem[OF distinct_initial[OF assms] this] show "action_of (initial_decisions nodes held gs f) p = Some a"
    using n by simp
qed

lemma plan_prs:
  "distinct (map pn_number nodes) \<Longrightarrow>
   map ad_pr (plan_decisions nodes ce oe held f) = map pn_number (sort_key pn_number nodes)"
  unfolding plan_decisions_def by (metis final_decisions_prs distinct_initial initial_prs)

lemma distinct_plan: "distinct (map pn_number nodes) \<Longrightarrow> distinct (map ad_pr (plan_decisions nodes ce oe held f))"
  by (metis distinct_initial initial_prs plan_prs)

lemma land_now_action_of:
  assumes "distinct (map pn_number nodes)"
  shows "p \<in> set (pl_land_now (fst (compute_plan nodes ce oe held f k b))) \<longleftrightarrow>
    action_of (plan_decisions nodes ce oe held f) p = Some LandNow"
  using action_of_mem[OF distinct_plan[OF assms], of _ ce oe held f]
  by (auto simp: compute_plan_simps dest!: action_of_SomeD)

lemma land_now_reach:
  assumes "distinct (map pn_number nodes)"
  shows "p \<in> set (pl_land_now (fst (compute_plan nodes ce oe held f k b))) \<longleftrightarrow>
    (\<forall>q. (q, p) \<in> (ordering_rel oe)\<^sup>* \<longrightarrow> (\<exists>n \<in> set nodes. pn_number n = q \<and> own_action held f n = LandNow))"
proof -
  let ?ds = "initial_decisions nodes held (plan_groups nodes ce oe held) f"
  have "{p. action_of (plan_decisions nodes ce oe held f) p \<noteq> Some LandNow} =
      (ordering_rel oe)\<^sup>* `` {q. action_of ?ds q \<noteq> Some LandNow}"
    using landing.marked_eq[of "(?ds, oe)"] distinct_initial[OF assms] by (simp add: plan_decisions_def)
  then have "action_of (plan_decisions nodes ce oe held f) p = Some LandNow \<longleftrightarrow>
      (\<forall>q. (q, p) \<in> (ordering_rel oe)\<^sup>* \<longrightarrow> action_of ?ds q = Some LandNow)" by blast
  then show ?thesis unfolding land_now_action_of[OF assms] initial_action[OF assms] .
qed

lemma land_now_node:
  assumes "distinct (map pn_number nodes)" and "p \<in> set (pl_land_now (fst (compute_plan nodes ce oe held f k b)))"
  obtains n where "n \<in> set nodes" "pn_number n = p" "own_action held f n = LandNow"
  using land_now_reach[OF assms(1)] assms(2) by blast

text \<open>An action of its own that lands rests on evidence; a held pull request never lands.\<close>

definition evidence_green :: "pr_node \<Rightarrow> bool" where
  "evidence_green n \<longleftrightarrow>
     (pn_validation_evidence n = CleanValidateRecord \<and> pn_validation_authority n \<noteq> AuthorityNone)
     \<or> (pn_validation_evidence n \<noteq> CleanValidateRecord \<and> cv_red_class (pn_ci n) = None
        \<and> cv_gate_present (pn_ci n) \<and> cv_gate_ok (pn_ci n) \<and> cv_raw_state (pn_ci n) \<noteq> CiNoResult)"

lemma held_action_not_land: "fst (held_action reasons) = Wait \<or> fst (held_action reasons) = RebaseThenLand"
  by (simp add: held_action_def)

lemma red_action_not_landing: "\<not> landing_action (red_action red)"
  by (cases red) (simp_all add: landing_action_def)

lemma ci_action_land:
  "fst (ci_action n f) = LandNow \<longleftrightarrow> pn_policy_class n \<noteq> GatePolicy \<and> evidence_green n \<and> \<not> too_far_behind f n"
  using red_action_not_landing
  by (auto simp: ci_action_def evidence_green_def landing_action_def split: option.splits)

lemma held_lookup:
  "bt_get (bt_collect (map (\<lambda>h. (hp_pr h, h)) held)) p = None \<longleftrightarrow> p \<notin> hp_pr ` set held"
  by (force simp: bt_get_collect map_of_eq_None_iff)

lemma own_action_land:
  "own_action held f n = LandNow \<longleftrightarrow>
     pn_policy_class n \<noteq> GatePolicy \<and> pn_number n \<notin> hp_pr ` set held \<and> evidence_green n \<and> \<not> too_far_behind f n"
proof (cases "bt_get (bt_collect (map (\<lambda>h. (hp_pr h, h)) held)) (pn_number n)")
  case None
  then show ?thesis using held_lookup[of held "pn_number n"]
    by (auto simp: own_action_def ci_action_land)
next
  case (Some h)
  then show ?thesis using held_lookup[of held "pn_number n"] held_action_not_land[of "hp_reasons h"]
    by (auto simp: own_action_def ci_action_def)
qed

section \<open>The landing order\<close>

lemma topological_append:
  "topological S xs \<Longrightarrow> (\<And>y p. y \<in> set ys \<Longrightarrow> (p, y) \<in> S \<Longrightarrow> p \<in> set xs) \<Longrightarrow> topological S (xs @ ys)"
  by (induction ys rule: rev_induct) (auto simp: topological_snoc simp flip: append_assoc)

lemma topological_concat:
  assumes "\<And>j a b. j < length gs \<Longrightarrow> a \<in> set (gs ! j) \<Longrightarrow> (b, a) \<in> S \<Longrightarrow> \<exists>i < j. b \<in> set (gs ! i)"
  shows "topological S (concat gs)"
  using assms
proof (induction gs rule: rev_induct)
  case (snoc g gs)
  have "\<exists>i < j. b \<in> set (gs ! i)" if "j < length gs" "a \<in> set (gs ! j)" "(b, a) \<in> S" for j a b
    using snoc.prems[of j a b] that by (auto simp: nth_append)
  then have "topological S (concat gs)" by (rule snoc.IH)
  moreover have "p \<in> set (concat gs)" if y: "y \<in> set g" "(p, y) \<in> S" for y p
  proof -
    obtain i where "i < length gs" "p \<in> set (gs ! i)"
      using snoc.prems[of "length gs" y p] y by (auto simp: nth_append)
    then show ?thesis by auto
  qed
  ultimately show ?case using topological_append[of S "concat gs" g] by simp
qed simp

lemma set_held_keys: "set (bt_keys (bt_collect (map (\<lambda>h. (hp_pr h, h)) held))) = hp_pr ` set held"
  by (force simp: set_bt_keys_collect)

text \<open>No cycle survives once the held numbers are gone, because every number on a cycle is held.\<close>

lemma unheld_acyclic:
  fixes nodes oe
  defines "A \<equiv> pn_number ` set nodes - held_numbers nodes oe"
  shows "acyclic (ordering_rel oe \<inter> A \<times> A)"
proof (unfold acyclic_def, intro allI notI)
  fix x assume x: "(x, x) \<in> (ordering_rel oe \<inter> A \<times> A)\<^sup>+"
  then have cyc: "(x, x) \<in> (ordering_rel oe)\<^sup>+" by (rule trancl_mono) auto
  have "x \<in> A" using x by (auto dest: tranclD)
  then obtain n where n: "n \<in> set nodes" "pn_number n = x" by (auto simp: A_def)
  then have "node_reasons (cycle_nodes oe) n \<noteq> []"
    using cyc set_cycle_nodes[of oe] by (simp add: node_reasons_Nil)
  then have "x \<in> directly_held nodes oe" using n by (auto simp: directly_held_def)
  then have "x \<in> held_numbers nodes oe" using holds.seeds_marked[of "(nodes, oe)"] by auto
  then show False using \<open>x \<in> A\<close> by (simp add: A_def)
qed

lemma assemble_result_simps:
  fixes g f k b
  defines "held \<equiv> held_reasons (cg_nodes g) (cg_ordering_edges g)"
  defines "p \<equiv> compute_plan (cg_nodes g) (cg_conflict_edges g) (cg_ordering_edges g) held f k b"
  shows "rs_plan (assemble_result g f k b) = fst p" "rs_diagnostics (assemble_result g f k b) = snd p"
    "rs_held (assemble_result g f k b) = held" "rs_graph (assemble_result g f k b) = g"
    "rs_stacks (assemble_result g f k b) = build_stacks (cg_ordering_edges g)"
  by (simp_all add: assemble_result_def held_def p_def Let_def case_prod_unfold)

section \<open>What a plan promises\<close>

text \<open>
  C1: A pull request is in \<open>land_now\<close> if and only if it and everything it depends on, directly or
  through other pull requests, is an open pull request that is not held, is not a gate-policy
  change, has green evidence and is fresh enough; so the set to land is closed under dependencies,
  and nothing that could land is left out.
\<close>

theorem land_now_exact:
  assumes "distinct (map pn_number nodes)"
  shows "p \<in> set (pl_land_now (fst (compute_plan nodes conflict_edges ordering_edges held freshness k batch))) \<longleftrightarrow>
    (\<forall>q. (q, p) \<in> (ordering_rel ordering_edges)\<^sup>* \<longrightarrow>
      (\<exists>n \<in> set nodes. pn_number n = q \<and> pn_policy_class n \<noteq> GatePolicy \<and> q \<notin> hp_pr ` set held
         \<and> evidence_green n \<and> \<not> too_far_behind freshness n))"
  unfolding land_now_reach[OF assms] own_action_land by blast

theorem land_now_exact_witness:
  "2 \<in> set (pl_land_now (fst (compute_plan [green_node 1, green_node 2] [] [depends 1 2] [] None 2 False)))
   \<and> (\<exists>n \<in> set [green_node 1, green_node 2]. pn_number n = 1 \<and> evidence_green n)"
proof -
  let ?ns = "[green_node 1, green_node 2]"
  have land: "2 \<in> set (pl_land_now (fst (compute_plan ?ns [] [depends 1 2] [] None 2 False)))" by code_simp
  have "(1, 2) \<in> (ordering_rel [depends 1 2])\<^sup>*"
    by (auto simp: ordering_rel_def ordering_pair_def depends_def)
  then show ?thesis
    using land land_now_exact[of ?ns 2 "[]" "[depends 1 2]" "[]" None 2 False] by auto
qed

text \<open>
  C2: Whatever the pipeline recommends to land satisfies every landing precondition: it is not a
  draft, its review is clear, its review receipts name its current head wherever receipts are in
  use, it has no base conflict, it lies on no dependency cycle, it is not a gate-policy change, its
  evidence is green and it is fresh enough.
\<close>

theorem land_now_safe:
  fixes graph freshness k batch
  defines "r \<equiv> assemble_result graph freshness k batch"
  assumes "distinct (map pn_number (cg_nodes graph))"
    and "p \<in> set (pl_land_now (rs_plan r))"
  shows "\<exists>n \<in> set (cg_nodes graph). pn_number n = p \<and> \<not> pn_is_draft n
    \<and> \<not> pn_review_evidence_unavailable n \<and> review_clear n
    \<and> (protocol_active n \<longrightarrow> receipts_exact n) \<and> \<not> base_conflicting n
    \<and> (p, p) \<notin> (ordering_rel (cg_ordering_edges graph))\<^sup>+
    \<and> pn_policy_class n \<noteq> GatePolicy \<and> evidence_green n \<and> \<not> too_far_behind freshness n"
proof -
  let ?nodes = "cg_nodes graph" and ?oe = "cg_ordering_edges graph"
  obtain n where n: "n \<in> set ?nodes" "pn_number n = p" "own_action (held_reasons ?nodes ?oe) freshness n = LandNow"
    using land_now_node[OF assms(2)] assms(3) unfolding r_def assemble_result_simps by blast
  then have "p \<notin> held_numbers ?nodes ?oe" by (auto simp: own_action_land held_numbers_def)
  then have "p \<notin> directly_held ?nodes ?oe" using holds.seeds_marked[of "(?nodes, ?oe)"] by auto
  then have "node_reasons (cycle_nodes ?oe) n = []" using n by (auto simp: directly_held_def)
  then show ?thesis
    using n by (intro bexI[of _ n]) (auto simp: own_action_land node_reasons_Nil set_cycle_nodes)
qed

theorem land_now_safe_witness:
  "pl_land_now (rs_plan (assemble_result \<lparr>cg_repository = ''r'', cg_base = ''main'',
       cg_nodes = [green_node 1, (green_node 2)\<lparr>pn_is_draft := True\<rparr>], cg_conflict_edges = [],
       cg_overlap_edges = [], cg_ordering_edges = [], cg_mechanism_edges = [],
       cg_unclassified_mechanisms = []\<rparr> None 2 False)) = [1]
   \<and> (\<exists>n \<in> set [green_node 1, (green_node 2)\<lparr>pn_is_draft := True\<rparr>]. pn_number n = 1 \<and> \<not> pn_is_draft n)"
proof -
  let ?g = "\<lparr>cg_repository = ''r'', cg_base = ''main'',
       cg_nodes = [green_node 1, (green_node 2)\<lparr>pn_is_draft := True\<rparr>], cg_conflict_edges = [],
       cg_overlap_edges = [], cg_ordering_edges = [], cg_mechanism_edges = [],
       cg_unclassified_mechanisms = []\<rparr>"
  have land: "pl_land_now (rs_plan (assemble_result ?g None 2 False)) = [1]" by code_simp
  have "distinct (map pn_number (cg_nodes ?g))" by (simp add: green_node_def)
  from land_now_safe[OF this, of 1 None 2 False] land show ?thesis by auto
qed

text \<open>
  C3: The landing order of the pipeline lists every pull request that is not held exactly once, and
  lists each one after every open pull request it depends on, whatever cycles the ordering edges
  have: a pull request on a cycle is held.
\<close>

theorem order_respects_dependencies:
  fixes graph freshness k batch
  defines "order \<equiv> pl_order (rs_plan (assemble_result graph freshness k batch))"
    and "numbers \<equiv> pn_number ` set (cg_nodes graph)"
  shows "distinct order \<and> set order = numbers - held_numbers (cg_nodes graph) (cg_ordering_edges graph)
    \<and> topological (ordering_rel (cg_ordering_edges graph) \<inter> numbers \<times> numbers) order"
proof -
  let ?nodes = "cg_nodes graph" and ?oe = "cg_ordering_edges graph"
  let ?held = "held_reasons ?nodes ?oe"
  define ex where "ex = bt_keys (bt_collect (map (\<lambda>h. (hp_pr h, h)) ?held))"
  define gs where "gs = partition_parallel_safe ?nodes (cg_conflict_edges graph) ?oe ex"
  have order: "order = concat gs"
    by (simp add: order_def assemble_result_simps compute_plan_simps plan_groups_def gs_def ex_def)
  have ex: "set ex = held_numbers ?nodes ?oe" by (simp add: ex_def set_held_keys held_numbers_def)
  have set: "set (concat gs) = numbers - set ex" unfolding gs_def numbers_def by (rule set_partition)
  have "\<exists>i < j. b \<in> set (gs ! i)"
    if j: "j < length gs" "a \<in> set (gs ! j)" and ba: "(b, a) \<in> ordering_rel ?oe \<inter> numbers \<times> numbers" for j a b
  proof -
    have "a \<notin> held_numbers ?nodes ?oe" using set j nth_mem ex by fastforce
    then have "b \<notin> held_numbers ?nodes ?oe" using ba holds.closed[of b a "(?nodes, ?oe)"] by auto
    then have "b \<in> set (concat gs)" using set ba ex by auto
    then obtain g where "g \<in> set gs" "b \<in> set g" by auto
    then obtain i where i: "i < length gs" "b \<in> set (gs ! i)" by (metis in_set_conv_nth)
    have "i < j"
      using partition_respects_order[of ?oe ?nodes ex b a i gs j "cg_conflict_edges graph"]
        unheld_acyclic[of ?oe ?nodes] i j ba ex by (simp add: gs_def)
    then show ?thesis using i by blast
  qed
  then have "topological (ordering_rel ?oe \<inter> numbers \<times> numbers) (concat gs)" by (rule topological_concat)
  then show ?thesis using set distinct_partition by (simp add: order ex gs_def)
qed

lemma map_fst_enumerated:
  "map fst (concat (map (\<lambda>(i, numbers). map (\<lambda>n. (n, i)) numbers) (enumerate k gs))) = concat gs"
  by (induction gs arbitrary: k) (simp_all add: comp_def)

lemma set_enumerated:
  "(p, i) \<in> set (concat (map (\<lambda>(i, numbers). map (\<lambda>n. (n, i)) numbers) (enumerate 0 gs))) \<longleftrightarrow>
     i < length gs \<and> p \<in> set (gs ! i)"
  by (force simp: in_set_enumerate_eq image_iff)

lemma group_index_get:
  "distinct (concat gs) \<Longrightarrow> bt_get (group_index gs) p = Some i \<longleftrightarrow> i < length gs \<and> p \<in> set (gs ! i)"
  unfolding group_index_def
  by (subst bt_get_collect_distinct) (simp_all only: map_fst_enumerated set_enumerated)

lemma final_action_eq:
  assumes dist: "distinct (map ad_pr ds)" and d: "d \<in> set ds" and d': "d' \<in> set (final_decisions edges ds)"
    and pr: "ad_pr d' = ad_pr d"
  shows "ad_group d' = ad_group d" and "ad_action d' =
    (if landing_action (ad_action d)
        \<and> (\<exists>q. (q, ad_pr d) \<in> ordering_rel edges \<and> action_of (final_decisions edges ds) q \<noteq> Some LandNow)
     then Wait else ad_action d)"
proof -
  obtain x where x: "x \<in> set ds" "demoted (ordering_rel edges) (action_of (final_decisions edges ds)) x d'"
    using final_decision_demoted[OF dist d'] .
  then have "x = d" using dist d pr by (auto simp: demoted_def distinct_map inj_on_def)
  then have dem: "demoted (ordering_rel edges) (action_of (final_decisions edges ds)) d d'" using x by simp
  then show "ad_group d' = ad_group d" by (simp add: demoted_def)
  show "ad_action d' = (if landing_action (ad_action d)
        \<and> (\<exists>q. (q, ad_pr d) \<in> ordering_rel edges \<and> action_of (final_decisions edges ds) q \<noteq> Some LandNow)
     then Wait else ad_action d)"
    using dem final_decisions_spec(3)[OF dist d'] by (auto simp: demoted_def)
qed

text \<open>
  The plan has exactly one decision per pull request, in ascending order of number. Its action
  is the one the pull request has on its own, except that a landing action (land now, or rebase
  and land) becomes \<open>Wait\<close> exactly when a direct dependency is not in \<open>land_now\<close>; its group is the
  index of the parallel-safe group that holds it.
\<close>

theorem decisions_exact:
  fixes nodes conflict_edges ordering_edges held freshness k batch
  defines "pl \<equiv> fst (compute_plan nodes conflict_edges ordering_edges held freshness k batch)"
  assumes dist: "distinct (map pn_number nodes)"
  shows "map ad_pr (pl_per_pr_actions pl) = sorted_list_of_set (pn_number ` set nodes)
    \<and> (\<forall>d \<in> set (pl_per_pr_actions pl). \<exists>n \<in> set nodes. pn_number n = ad_pr d
        \<and> ad_action d = (if landing_action (own_action held freshness n)
             \<and> (\<exists>q. (q, ad_pr d) \<in> ordering_rel ordering_edges \<and> q \<notin> set (pl_land_now pl))
           then Wait else own_action held freshness n)
        \<and> (\<forall>i. ad_group d = Some i \<longleftrightarrow> i < length (pl_parallel_safe_groups pl)
             \<and> ad_pr d \<in> set (pl_parallel_safe_groups pl ! i)))"
proof (intro conjI ballI)
  let ?gs = "plan_groups nodes conflict_edges ordering_edges held"
  let ?ini = "initial_decisions nodes held ?gs freshness"
  let ?fin = "plan_decisions nodes conflict_edges ordering_edges held freshness"
  have prs: "map ad_pr ?fin = map pn_number (sort_key pn_number nodes)" by (rule plan_prs[OF dist])
  have "sorted_list_of_set (set (map ad_pr ?fin)) = map ad_pr ?fin"
  proof (rule sorted_list_of_set.idem_if_sorted_distinct)
    show "sorted (map ad_pr ?fin)" unfolding prs by simp
    show "distinct (map ad_pr ?fin)" by (rule distinct_plan[OF dist])
  qed
  moreover have "set (map ad_pr ?fin) = pn_number ` set nodes" unfolding prs by simp
  ultimately show "map ad_pr (pl_per_pr_actions pl) = sorted_list_of_set (pn_number ` set nodes)"
    unfolding pl_def compute_plan_simps by (simp only:)
  fix d assume d: "d \<in> set (pl_per_pr_actions pl)"
  then have d_fin: "d \<in> set (final_decisions ordering_edges ?ini)"
    by (simp add: pl_def compute_plan_simps plan_decisions_def)
  have "ad_pr d \<in> set (map ad_pr ?ini)"
    using d_fin final_decisions_prs[OF distinct_initial[OF dist]] by (metis image_eqI list.set_map)
  then obtain n where n: "n \<in> set nodes" "pn_number n = ad_pr d" by (auto simp: initial_prs)
  define d0 where "d0 = initial_decision (bt_collect (map (\<lambda>h. (hp_pr h, h)) held)) (group_index ?gs) freshness n"
  have d0: "d0 \<in> set ?ini" "ad_pr d = ad_pr d0" "ad_action d0 = own_action held freshness n"
      "ad_group d0 = bt_get (group_index ?gs) (ad_pr d)"
    using n by (simp_all add: d0_def initial_decisions_def)
  note fin = final_action_eq[OF distinct_initial[OF dist] d0(1) d_fin d0(2)]
  have land: "q \<in> set (pl_land_now pl) \<longleftrightarrow> action_of (final_decisions ordering_edges ?ini) q = Some LandNow" for q
    using land_now_action_of[OF dist] by (simp add: pl_def plan_decisions_def)
  have "ad_group d = Some i \<longleftrightarrow> i < length ?gs \<and> ad_pr d \<in> set (?gs ! i)" for i
    unfolding fin(1) d0(4) by (rule group_index_get) (simp only: plan_groups_def distinct_partition)
  then show "\<exists>n \<in> set nodes. pn_number n = ad_pr d
        \<and> ad_action d = (if landing_action (own_action held freshness n)
             \<and> (\<exists>q. (q, ad_pr d) \<in> ordering_rel ordering_edges \<and> q \<notin> set (pl_land_now pl))
           then Wait else own_action held freshness n)
        \<and> (\<forall>i. ad_group d = Some i \<longleftrightarrow> i < length (pl_parallel_safe_groups pl)
             \<and> ad_pr d \<in> set (pl_parallel_safe_groups pl ! i))"
    using n fin(2) unfolding land d0 by (intro bexI[of _ n]) (simp_all add: pl_def compute_plan_simps)
qed

theorem decisions_exact_witness:
  "map ad_pr (pl_per_pr_actions (fst (compute_plan [green_node 2, green_node 1] [] [] [] None 2 False)))
     = sorted_list_of_set (pn_number ` set [green_node 2, green_node 1])"
  using decisions_exact[of "[green_node 2, green_node 1]" "[]" "[]" "[]" None 2 False] by simp

section \<open>The batch\<close>

lemma adj_rel_batch: "(a, b) \<in> adj_rel (batch_conflicts edges) \<longleftrightarrow>
    (\<exists>e \<in> set edges. (a = ce_a e \<and> b = ce_b e) \<or> (a = ce_b e \<and> b = ce_a e))"
proof -
  let ?f = "\<lambda>e adj. adj_add (ce_b e, ce_a e) (adj_add (ce_a e, ce_b e) adj)"
  have "adj_ok adj \<Longrightarrow> adj_rel (fold ?f es adj) =
      {(a, b). \<exists>e \<in> set es. (a = ce_a e \<and> b = ce_b e) \<or> (a = ce_b e \<and> b = ce_a e)} \<union> adj_rel adj" for es adj
    by (induction es arbitrary: adj) (auto simp: adj_ok_add adj_rel_add)
  from this[OF adj_ok_Nil, of edges] show ?thesis by (simp add: batch_conflicts_def)
qed

text \<open>
  A requested batch holds only pull requests of \<open>land_now\<close> that depend on no other pull
  request, no two of them conflict, and it is maximal: every other such pull request conflicts
  with a member.
\<close>

theorem batch_maximal_independent:
  fixes nodes conflict_edges ordering_edges held freshness k
  defines "pl \<equiv> fst (compute_plan nodes conflict_edges ordering_edges held freshness k True)"
    and "conflict \<equiv> \<lambda>a b. \<exists>e \<in> set conflict_edges. (a = ce_a e \<and> b = ce_b e) \<or> (a = ce_b e \<and> b = ce_a e)"
  defines "candidates \<equiv> set (pl_land_now pl) - Range (ordering_rel ordering_edges)"
  shows "set (pl_batch pl) \<subseteq> candidates \<and> pairwise (\<lambda>a b. \<not> conflict a b) (set (pl_batch pl))
    \<and> (\<forall>c \<in> candidates - set (pl_batch pl). \<exists>m \<in> set (pl_batch pl). conflict c m)"
proof (cases "pl_land_now pl = []")
  case True
  then show ?thesis by (simp add: pl_def candidates_def compute_plan_simps)
next
  case False
  let ?adj = "batch_conflicts conflict_edges"
  let ?cand = "filter (\<lambda>n. n \<notin> set (bs_collect (map or_after ordering_edges))) (pl_land_now pl)"
  let ?sorted = "sort_key (rank_at (bt_collect (map (\<lambda>n. (pn_number n, n)) nodes))) ?cand"
  have batch: "pl_batch pl = greedy_group ?adj [] ?sorted"
    using False by (simp add: pl_def compute_plan_simps(5) batch_of_def greedy_conflict_free_def)
  have cand: "set ?sorted = candidates"
    by (auto simp: candidates_def ordering_rel_def ordering_pair_def image_iff)
  have adj: "b \<in> set (adj_children ?adj a) \<longleftrightarrow> conflict a b" for a b
    by (simp add: adj_children_iff adj_rel_batch conflict_def)
  have "pairwise (\<lambda>a b. b \<notin> set (adj_children ?adj a)) (set (pl_batch pl))"
    unfolding batch by (rule greedy_group_independent) (auto simp: adj conflict_def)
  moreover have "set (pl_batch pl) \<subseteq> candidates"
    using greedy_group_set(2)[of ?adj "[]" ?sorted] unfolding batch cand by simp
  moreover have "\<exists>m \<in> set (pl_batch pl). conflict c m" if "c \<in> candidates - set (pl_batch pl)" for c
    using greedy_group_maximal[of c ?sorted ?adj "[]"] that unfolding batch cand adj by simp
  ultimately show ?thesis by (simp add: adj)
qed

theorem batch_maximal_independent_witness:
  "set (pl_batch (fst (compute_plan (map green_node [1, 2]) [clash 1 2] [] [] None 2 True)))
     \<subseteq> set (pl_land_now (fst (compute_plan (map green_node [1, 2]) [clash 1 2] [] [] None 2 True)))"
  using batch_maximal_independent[of "map green_node [1, 2]" "[clash 1 2]" "[]" "[]" None 2] by auto

text \<open>
  The diagnostics sort the red pull requests: each list holds the numbers of the pull requests
  with one red class, every red pull request is in one of the five, and an outage is suspected
  exactly when the runner-outage list has reached the threshold.
\<close>

lemma diagnostics_exact:
  fixes nodes conflict_edges ordering_edges held freshness k batch
  defines "dg \<equiv> snd (compute_plan nodes conflict_edges ordering_edges held freshness k batch)"
  shows "set (dg_stale_gates dg) \<union> set (dg_flaky_reds dg) \<union> set (dg_real_reds dg)
      \<union> set (dg_evaluate_once_race dg) \<union> set (dg_outage_prs dg)
      = pn_number ` {n \<in> set nodes. cv_red_class (pn_ci n) \<noteq> None}
    \<and> (dg_outage_suspected dg \<longleftrightarrow>
        k \<le> length (filter (\<lambda>n. cv_red_class (pn_ci n) = Some RedRunnerOutage) nodes))"
proof
  have red: "c \<noteq> None \<longleftrightarrow> c = Some RedStaleRequiredCheck \<or> c = Some RedFlaky \<or> c = Some RedReal
      \<or> c = Some RedEvaluateOnceRace \<or> c = Some RedRunnerOutage" for c
  proof (cases c)
    case (Some x)
    then show ?thesis by (cases x) simp_all
  qed simp
  show "set (dg_stale_gates dg) \<union> set (dg_flaky_reds dg) \<union> set (dg_real_reds dg)
      \<union> set (dg_evaluate_once_race dg) \<union> set (dg_outage_prs dg)
      = pn_number ` {n \<in> set nodes. cv_red_class (pn_ci n) \<noteq> None}"
    unfolding dg_def compute_plan_simps red
    by (auto simp: compute_diagnostics_def Let_def red_numbers_def)
qed (simp add: dg_def compute_plan_simps compute_diagnostics_def Let_def red_numbers_def)

end
