(* ===== verification/Planner_Classify_Spec.thy ===== *)
theory Planner_Classify_Spec
  imports Planner_Classify Planner_Plan
begin

text \<open>
  What the classification guarantees: the selected check of a context depends on its most recent
  attempts only, contrary attempts of equal recency are no result whatever their order, and the
  class of a red pull request is the first that applies of a fixed list.
\<close>

section \<open>The selected check of a context\<close>

text \<open>The attempts of a list that no attempt is more recent than.\<close>

definition most_recent :: "url_capture \<Rightarrow> json_object list \<Rightarrow> json_object list" where
  "most_recent run_url xs = filter (\<lambda>x. \<forall>y \<in> set xs. recency_key run_url y \<le> recency_key run_url x) xs"

definition agree :: "json_object list \<Rightarrow> bool" where
  "agree xs \<longleftrightarrow> (\<forall>x \<in> set xs. \<forall>y \<in> set xs. outcome_identity x = outcome_identity y)"

definition selected_of :: "url_capture \<Rightarrow> json_object list \<Rightarrow> json_object \<Rightarrow> bool" where
  "selected_of run_url xs chosen \<longleftrightarrow>
     (if agree (most_recent run_url xs) then chosen = last (most_recent run_url xs)
      else outcome_identity chosen = (''AMBIGUOUS'', []))"

fun choose_all :: "url_capture \<Rightarrow> (nat \<times> json_object) list \<Rightarrow> selected_check option \<Rightarrow> selected_check option" where
  "choose_all run_url [] s = s"
| "choose_all run_url ((i, x) # xs) s = choose_all run_url xs (Some (choose_check run_url i x s))"

lemma choose_all_append: "choose_all run_url (xs @ ys) s = choose_all run_url ys (choose_all run_url xs s)"
  by (induction run_url xs s rule: choose_all.induct) auto

lemma outcome_ambiguous: "outcome_identity (ambiguous_check ctx) = (''AMBIGUOUS'', [])"
proof -
  have "selection_text (Some (JString ''AMBIGUOUS'')) = ''AMBIGUOUS''" "selection_text (Some (JString [])) = []" by code_simp+
  then show ?thesis by (simp add: outcome_identity_def ambiguous_check_def obj_get_def)
qed

lemma agree_append: "agree (xs @ [x]) \<longleftrightarrow> agree xs \<and> (\<forall>y \<in> set xs. outcome_identity y = outcome_identity x)"
  by (auto simp: agree_def)

lemma most_recent_max:
  assumes "\<And>y. y \<in> set ys \<Longrightarrow> recency_key run_url y \<le> m" "\<exists>y \<in> set ys. recency_key run_url y = m"
  shows "most_recent run_url ys = filter (\<lambda>y. recency_key run_url y = m) ys"
  unfolding most_recent_def
proof (rule filter_cong[OF refl])
  fix x assume "x \<in> set ys"
  then show "(\<forall>y \<in> set ys. recency_key run_url y \<le> recency_key run_url x) \<longleftrightarrow> recency_key run_url x = m"
    using assms by (metis antisym)
qed

text \<open>What the selection knows after the attempts \<open>ys\<close> of a context.\<close>

definition chosen_inv :: "url_capture \<Rightarrow> json_object list \<Rightarrow> selected_check \<Rightarrow> bool" where
  "chosen_inv run_url ys s \<longleftrightarrow>
     (\<forall>y \<in> set ys. recency_key run_url y \<le> sc_recency s) \<and> (\<exists>y \<in> set ys. recency_key run_url y = sc_recency s)
     \<and> selected_of run_url ys (sc_check s)"

lemma chosen_inv_step:
  assumes inv: "chosen_inv run_url ys s" and idx: "sc_index s < i"
  shows "chosen_inv run_url (ys @ [x]) (choose_check run_url i x (Some s))"
    and "sc_index (choose_check run_url i x (Some s)) \<le> i"
proof -
  let ?rec = "recency_key run_url"
  have le: "\<And>y. y \<in> set ys \<Longrightarrow> ?rec y \<le> sc_recency s" and att: "\<exists>y \<in> set ys. ?rec y = sc_recency s"
    and sel: "selected_of run_url ys (sc_check s)" using inv by (auto simp: chosen_inv_def)
  have best: "most_recent run_url ys = filter (\<lambda>y. ?rec y = sc_recency s) ys" by (rule most_recent_max[OF le att])
  show "sc_index (choose_check run_url i x (Some s)) \<le> i"
    using idx by (simp add: choose_check_def Let_def)
  consider (newer) "sc_recency s < ?rec x" | (same) "sc_recency s = ?rec x" | (older) "?rec x < sc_recency s"
    by (rule linorder_cases)
  then show "chosen_inv run_url (ys @ [x]) (choose_check run_url i x (Some s))"
  proof cases
    case newer
    then have below: "?rec y < ?rec x" if "y \<in> set ys" for y using le[OF that] by simp
    have "most_recent run_url (ys @ [x]) = filter (\<lambda>y. ?rec y = ?rec x) (ys @ [x])"
      by (rule most_recent_max) (use below in \<open>auto simp: less_imp_le\<close>)
    also have "\<dots> = [x]" using below by (auto simp: filter_empty_conv dest!: below)
    finally show ?thesis
      using newer below by (auto simp: chosen_inv_def choose_check_def selected_of_def agree_def Let_def less_imp_le)
  next
    case older
    have "most_recent run_url (ys @ [x]) = filter (\<lambda>y. ?rec y = sc_recency s) (ys @ [x])"
      by (rule most_recent_max) (use le att older in \<open>auto simp: less_imp_le\<close>)
    also have "\<dots> = most_recent run_url ys" using older best by simp
    finally show ?thesis
      using older le att sel by (auto simp: chosen_inv_def choose_check_def selected_of_def Let_def less_imp_le)
  next
    case same
    have "most_recent run_url (ys @ [x]) = filter (\<lambda>y. ?rec y = sc_recency s) (ys @ [x])"
      by (rule most_recent_max) (use le att same in auto)
    also have "\<dots> = most_recent run_url ys @ [x]" using same best by simp
    finally have new_best: "most_recent run_url (ys @ [x]) = most_recent run_url ys @ [x]" .
    have nonempty: "most_recent run_url ys \<noteq> []" using att unfolding best by (auto simp: filter_empty_conv)
    let ?M = "most_recent run_url ys" and ?new = "choose_check run_url i x (Some s)"
    have prev: "agree (?M @ [x]) \<longleftrightarrow> outcome_identity (sc_check s) = outcome_identity x" if ag: "agree ?M"
    proof -
      have "sc_check s = last ?M" using sel ag by (simp add: selected_of_def)
      then have "\<forall>y \<in> set ?M. outcome_identity y = outcome_identity (sc_check s)"
        using ag nonempty last_in_set unfolding agree_def by metis
      then show ?thesis using ag nonempty unfolding agree_append by (metis last_in_set)
    qed
    have "selected_of run_url (ys @ [x]) (sc_check ?new)"
    proof (cases "outcome_identity (sc_check s) = outcome_identity x")
      case True
      then have "sc_check ?new = x" using same idx by (simp add: choose_check_def Let_def)
      moreover have "agree (?M @ [x])" if "agree ?M" using prev[OF that] True by simp
      moreover have "outcome_identity x = (''AMBIGUOUS'', [])" if "\<not> agree ?M"
        using sel that True by (simp add: selected_of_def)
      ultimately show ?thesis unfolding selected_of_def new_best using agree_append by auto
    next
      case False
      then have "sc_check ?new = ambiguous_check (check_context x)"
        using same by (simp add: choose_check_def Let_def)
      moreover have "\<not> agree (?M @ [x])" using prev False agree_append by blast
      ultimately show ?thesis by (simp add: selected_of_def new_best outcome_ambiguous)
    qed
    moreover have "sc_recency (choose_check run_url i x (Some s)) = ?rec x"
      using same by (auto simp: choose_check_def Let_def)
    ultimately show ?thesis using le same by (auto simp: chosen_inv_def)
  qed
qed

lemma choose_all_correct:
  assumes "xs \<noteq> []" "sorted_wrt (<) (map fst xs)"
  shows "\<exists>s. choose_all run_url xs None = Some s \<and> sc_index s \<le> fst (last xs) \<and> chosen_inv run_url (map snd xs) s"
  using assms
proof (induction xs rule: rev_induct)
  case (snoc ix xs)
  obtain i x where ix: "ix = (i, x)" by (cases ix)
  show ?case
  proof (cases "xs = []")
    case True
    then show ?thesis
      by (simp add: ix choose_check_def chosen_inv_def selected_of_def most_recent_def agree_def Let_def)
  next
    case False
    have sorted: "sorted_wrt (<) (map fst xs)" "\<forall>j \<in> fst ` set xs. j < i"
      using snoc.prems(2) by (auto simp: ix sorted_wrt_append)
    obtain s where s: "choose_all run_url xs None = Some s" "sc_index s \<le> fst (last xs)"
        "chosen_inv run_url (map snd xs) s"
      using snoc.IH[OF False sorted(1)] by auto
    have idx: "sc_index s < i" using s(2) sorted(2) False by (meson image_eqI last_in_set le_less_trans)
    show ?thesis
      using chosen_inv_step[OF s(3) idx, of x] by (simp add: choose_all_append ix s(1))
  qed
qed simp

section \<open>The selection of a rollup\<close>

text \<open>The entries that count, with their positions, and the attempts of a context among them.\<close>

definition considered :: "string \<Rightarrow> json list \<Rightarrow> (nat \<times> json_object) list" where
  "considered head_sha entries =
     List.map_filter (\<lambda>(i, entry). case as_object entry of
         Some obj \<Rightarrow> if head_matches obj head_sha then Some (i, obj) else None
       | None \<Rightarrow> None) (enumerate 0 entries)"

definition attempts :: "string \<Rightarrow> json list \<Rightarrow> string \<Rightarrow> json_object list" where
  "attempts head_sha entries key =
     map snd (filter (\<lambda>(i, obj). context_key i obj = key) (considered head_sha entries))"

lemma map_filter_append': "List.map_filter f (xs @ ys) = List.map_filter f xs @ List.map_filter f ys"
  by (simp add: List.map_filter_def)

lemma considered_append:
  "considered head_sha (entries @ [entry]) = considered head_sha entries @
     (case as_object entry of
        Some obj \<Rightarrow> if head_matches obj head_sha then [(length entries, obj)] else []
      | None \<Rightarrow> [])"
  by (auto simp: considered_def enumerate_append_eq map_filter_append' List.map_filter_simps split: option.splits)

lemma considered_sorted:
  "sorted_wrt (<) (map fst (considered head_sha entries)) \<and> (\<forall>i \<in> fst ` set (considered head_sha entries). i < length entries)"
proof (induction entries rule: rev_induct)
  case Nil
  then show ?case by (simp add: considered_def List.map_filter_simps)
next
  case (snoc entry entries)
  then show ?case by (auto simp: considered_append sorted_wrt_append less_Suc_eq split: option.splits)
qed

lemma select_fold:
  "\<exists>latest order. fold (select_step run_url head_sha) (enumerate 0 entries) ([], []) = (latest, order)
    \<and> bt_ok latest \<and> distinct order \<and> (\<forall>key. key \<in> set order \<longleftrightarrow> bt_has latest key)
    \<and> (\<forall>key. bt_get latest key =
         choose_all run_url (filter (\<lambda>(i, obj). context_key i obj = key) (considered head_sha entries)) None)"
proof (induction entries rule: rev_induct)
  case Nil
  then show ?case by (simp add: considered_def List.map_filter_simps bt_has_def)
next
  case (snoc entry entries)
  then obtain latest order where IH: "fold (select_step run_url head_sha) (enumerate 0 entries) ([], []) = (latest, order)"
      "bt_ok latest" "distinct order" "\<And>key. key \<in> set order \<longleftrightarrow> bt_has latest key"
      "\<And>key. bt_get latest key =
         choose_all run_url (filter (\<lambda>(i, obj). context_key i obj = key) (considered head_sha entries)) None"
    by blast
  have run: "fold (select_step run_url head_sha) (enumerate 0 (entries @ [entry])) ([], []) =
      select_step run_url head_sha (length entries, entry) (latest, order)"
    by (simp add: enumerate_append_eq IH(1))
  show ?case
  proof (cases "\<exists>obj. as_object entry = Some obj \<and> head_matches obj head_sha")
    case False
    then have "select_step run_url head_sha (length entries, entry) (latest, order) = (latest, order)"
        "considered head_sha (entries @ [entry]) = considered head_sha entries"
      by (auto simp: select_step_def considered_append split: option.splits)
    then show ?thesis unfolding run using IH(2-5) by auto
  next
    case True
    then obtain obj where obj: "as_object entry = Some obj" "head_matches obj head_sha" by blast
    define key where "key = context_key (length entries) obj"
    have step: "select_step run_url head_sha (length entries, entry) (latest, order) =
        (bt_insert key (choose_check run_url (length entries) obj (bt_get latest key)) latest,
         if bt_has latest key then order else order @ [key])"
      by (simp add: select_step_def obj key_def Let_def)
    have cons: "considered head_sha (entries @ [entry]) = considered head_sha entries @ [(length entries, obj)]"
      by (simp add: considered_append obj)
    have has: "bt_has (bt_insert k v latest) k' \<longleftrightarrow> k' = k \<or> bt_has latest k'" for k v k'
      using IH(2) by (simp add: bt_has_def bt_get_insert)
    show ?thesis
      unfolding run step cons
      using IH(2-5) has by (auto simp: bt_ok_insert bt_get_insert choose_all_append key_def)
  qed
qed

lemma take_selected_map:
  "distinct order \<Longrightarrow> \<forall>key \<in> set order. bt_has latest key \<Longrightarrow>
   take_selected order latest = map (\<lambda>key. sc_check (the (bt_get latest key))) order"
proof (induction order arbitrary: latest)
  case (Cons key order)
  then obtain s where s: "bt_get latest key = Some s" by (auto simp: bt_has_def)
  have "take_selected order (bt_remove key latest) = map (\<lambda>k. sc_check (the (bt_get (bt_remove key latest) k))) order"
    using Cons by (intro Cons.IH) (auto simp: bt_has_def bt_get_remove)
  also have "\<dots> = map (\<lambda>k. sc_check (the (bt_get latest k))) order"
    using Cons.prems by (auto simp: bt_get_remove)
  finally show ?case by (simp add: s)
qed simp

lemma select_latest_aux:
  assumes "rollup_entries raw = Some entries"
  obtains order pick where "select_latest_checks run_url raw head_sha = map (\<lambda>key. JObject (pick key)) order"
    "distinct order" "\<And>key. key \<in> set order \<longleftrightarrow> attempts head_sha entries key \<noteq> []"
    "\<And>key. key \<in> set order \<Longrightarrow> selected_of run_url (attempts head_sha entries key) (pick key)"
proof -
  obtain latest order where sel: "fold (select_step run_url head_sha) (enumerate 0 entries) ([], []) = (latest, order)"
      and dist: "distinct order" and keys: "\<And>key. key \<in> set order \<longleftrightarrow> bt_has latest key"
      and get: "\<And>key. bt_get latest key =
         choose_all run_url (filter (\<lambda>(i, obj). context_key i obj = key) (considered head_sha entries)) None"
    using select_fold[of run_url head_sha entries] by blast
  let ?of = "\<lambda>key. filter (\<lambda>(i, obj). context_key i obj = key) (considered head_sha entries)"
  have sorted: "sorted_wrt (<) (map fst (?of key))" for key
    using considered_sorted[of head_sha entries] by (simp add: sorted_wrt_map sorted_wrt_filter)
  have chosen: "\<exists>s. bt_get latest key = Some s \<and> chosen_inv run_url (attempts head_sha entries key) s"
    if "attempts head_sha entries key \<noteq> []" for key
    using choose_all_correct[OF _ sorted[of key], of run_url] that by (auto simp: get attempts_def)
  have none: "bt_get latest key = None" if "attempts head_sha entries key = []" for key
    using that by (simp add: get attempts_def)
  have iff: "key \<in> set order \<longleftrightarrow> attempts head_sha entries key \<noteq> []" for key
    using chosen[of key] none[of key] by (auto simp: keys bt_has_def)
  show ?thesis
  proof (rule that[of "\<lambda>key. sc_check (the (bt_get latest key))" order])
    show "select_latest_checks run_url raw head_sha = map (\<lambda>key. JObject (sc_check (the (bt_get latest key)))) order"
      using take_selected_map[OF dist, of latest] keys by (simp add: select_latest_checks_def assms sel)
    show "selected_of run_url (attempts head_sha entries key) (sc_check (the (bt_get latest key)))"
      if "key \<in> set order" for key
      using chosen[of key] that iff by (auto simp: chosen_inv_def)
  qed (use dist iff in auto)
qed

section \<open>Trimming and case\<close>

definition caseless :: "string \<Rightarrow> bool" where
  "caseless w \<longleftrightarrow> list_all (\<lambda>c. \<not> is_ascii_alphabetic c) w"

abbreviation up :: "char \<Rightarrow> char" where
  "up c \<equiv> (if is_ascii_lower c then char_of (byte c - 32) else c)"

lemma up_upper: "is_ascii_lower c \<Longrightarrow> is_ascii_upper (char_of (byte c - 32))"
  by (auto simp: ascii_defs)

lemma up_eq: "\<not> is_ascii_alphabetic d \<Longrightarrow> up c = d \<longleftrightarrow> c = d"
  using up_upper[of c] by (auto simp: is_ascii_alphabetic_def)

lemma prefix_up: "caseless w \<Longrightarrow> prefix w (map up s) \<longleftrightarrow> prefix w s"
proof (induction w arbitrary: s)
  case (Cons d w)
  then have d: "\<not> is_ascii_alphabetic d" by (simp add: caseless_def)
  show ?case
  proof (cases s)
    case s: (Cons c r)
    have "prefix w (map up r) \<longleftrightarrow> prefix w r" using Cons by (simp add: caseless_def)
    then show ?thesis using up_eq[OF d, of c] unfolding s by (auto simp del: if_split_asm)
  qed simp
qed simp

lemma first_match_up: "\<forall>w \<in> set ws. caseless w \<Longrightarrow> first_match ws (map up s) = first_match ws s"
  unfolding first_match_def by (rule find_cong) (auto simp: prefix_up)

lemma trim_start_up:
  "\<forall>w \<in> set ws. caseless w \<Longrightarrow> trim_start_from n ws (map up s) = map up (trim_start_from n ws s)"
proof (induction n ws s rule: trim_start_from.induct)
  case (2 skip ws c s)
  have "first_match ws (up c # map up s) = first_match ws (c # s)"
    using first_match_up[OF 2(3), of "c # s"] by simp
  then show ?case using 2 by (cases "first_match ws (c # s)") auto
qed simp

lemma str_trim_up: "str_trim (to_ascii_uppercase s) = to_ascii_uppercase (str_trim s)"
proof -
  have ws: "\<forall>w \<in> set unicode_whitespace. caseless w" by code_simp
  then have rws: "\<forall>w \<in> set (map rev unicode_whitespace). caseless w" by (auto simp: caseless_def)
  show ?thesis
    by (simp add: str_trim_def trim_of_def trim_start_of_def to_ascii_uppercase_def trim_start_up[OF ws]
        trim_start_up[OF rws] rev_map del: set_map)
qed

lemma selection_text_scalar:
  "selection_text v = w \<Longrightarrow> w \<noteq> [] \<Longrightarrow> str_trim (scalar_string v) = w"
proof -
  have "str_trim ''True'' = ''True''" by code_simp
  then show "selection_text v = w \<Longrightarrow> w \<noteq> [] \<Longrightarrow> ?thesis"
    by (cases v rule: selection_text.cases) (auto split: if_splits)
qed

lemma first_string_one: "first_string obj [key] = scalar_string (obj_get obj key)"
  by (simp add: first_string_def first_of_def)

lemma ambiguous_no_result:
  assumes "outcome_identity obj = (''AMBIGUOUS'', [])"
  shows "state_of (check_of obj) = CiNoResult"
proof -
  have "str_trim (scalar_string (obj_get obj ''status'')) = ''AMBIGUOUS''"
    using assms by (intro selection_text_scalar) (simp_all add: outcome_identity_def)
  moreover have "to_ascii_uppercase (to_ascii_uppercase ''AMBIGUOUS'') = ''AMBIGUOUS''" by code_simp
  ultimately have "to_ascii_uppercase (str_trim (cr_status (check_of obj))) = ''AMBIGUOUS''"
    by (simp add: check_of_def Let_def first_string_one str_trim_up)
  then show ?thesis by (simp add: classify_check_def)
qed

lemma selected_of_cases:
  assumes "selected_of run_url xs chosen"
  shows "if agree (most_recent run_url xs) then chosen = last (most_recent run_url xs)
    else outcome_identity chosen = (''AMBIGUOUS'', []) \<and> state_of (check_of chosen) = CiNoResult"
  using assms ambiguous_no_result[of chosen] unfolding selected_of_def
  by (cases "agree (most_recent run_url xs)") simp_all

section \<open>The three-state result and the class of a red\<close>

lemma classify_state_loop_exact:
  "classify_state_loop checks saw =
     (if \<exists>c \<in> set checks. state_of c = CiFailed then CiFailed
      else if saw \<or> (\<exists>c \<in> set checks. state_of c = CiNoResult) then CiNoResult else CiPassed)"
  by (induction checks arbitrary: saw) (auto split: ci_state.splits)

lemma classify_state_Failed: "classify_state checks = CiFailed \<longleftrightarrow> (\<exists>c \<in> set checks. state_of c = CiFailed)"
  by (auto simp: classify_state_def classify_state_loop_exact)

lemma classify_state_Passed:
  "classify_state checks = CiPassed \<longleftrightarrow> checks \<noteq> [] \<and> (\<forall>c \<in> set checks. state_of c = CiPassed)"
proof -
  have "(\<forall>c \<in> set checks. state_of c = CiPassed) \<longleftrightarrow>
      \<not> (\<exists>c \<in> set checks. state_of c = CiFailed) \<and> \<not> (\<exists>c \<in> set checks. state_of c = CiNoResult)"
  proof -
    have "state_of c = CiPassed \<longleftrightarrow> state_of c \<noteq> CiFailed \<and> state_of c \<noteq> CiNoResult" for c
      by (cases "state_of c") simp_all
    then show ?thesis by blast
  qed
  then show ?thesis by (simp add: classify_state_def classify_state_loop_exact)
qed

lemma classify_pr_raw: "cv_raw_state (classify_pr re checks cfg) = classify_state checks"
  by (simp add: classify_pr_def Let_def)

lemma classify_pr_red_None:
  "cv_red_class (classify_pr re checks cfg) = None \<longleftrightarrow> classify_state checks \<noteq> CiFailed"
  by (simp add: classify_pr_def Let_def)

lemma classify_pr_gate_ok:
  "cv_gate_ok (classify_pr re checks cfg) \<longleftrightarrow>
     (case find (\<lambda>check. cr_name check = cc_gate_check cfg) checks of
        None \<Rightarrow> False | Some check \<Rightarrow> state_of check = CiPassed)"
  by (simp add: classify_pr_def Let_def)

lemma classify_pr_gate:
  assumes "cv_gate_ok (classify_pr re checks cfg)"
  shows "\<exists>c \<in> set checks. cr_name c = cc_gate_check cfg \<and> state_of c = CiPassed"
proof -
  obtain c where c: "find (\<lambda>check. cr_name check = cc_gate_check cfg) checks = Some c" "state_of c = CiPassed"
    using assms unfolding classify_pr_gate_ok by (auto split: option.splits)
  then have "c \<in> set checks" "cr_name c = cc_gate_check cfg" by (auto simp: find_Some_iff)
  then show ?thesis using c(2) by blast
qed

lemma parse_rollup_map:
  "select_latest_checks run_url raw head_sha = map (\<lambda>key. JObject (pick key)) order \<Longrightarrow>
   parse_rollup run_url raw head_sha = map (\<lambda>key. check_of (pick key)) order"
  by (simp add: parse_rollup_def List.map_filter_def filter_map comp_def)

section \<open>Properties\<close>

definition gate_run :: "string \<Rightarrow> json_object" where
  "gate_run conclusion =
     [(''name'', JString ''merge-gate''), (''status'', JString ''COMPLETED''), (''conclusion'', JString conclusion)]"

definition contrary_rollup :: json where
  "contrary_rollup = JArray [JObject (gate_run ''SUCCESS''), JObject (gate_run ''FAILURE'')]"

definition green_rollup :: json where
  "green_rollup = JArray [JObject (gate_run ''SUCCESS'')]"

lemma contrary_attempts:
  "rollup_entries contrary_rollup = Some [JObject (gate_run ''SUCCESS''), JObject (gate_run ''FAILURE'')]"
  "attempts [] [JObject (gate_run ''SUCCESS''), JObject (gate_run ''FAILURE'')] ''merge-gate'' =
     [gate_run ''SUCCESS'', gate_run ''FAILURE'']"
  "recency_key (\<lambda>_. None) (gate_run ''SUCCESS'') = (0, [])" "recency_key (\<lambda>_. None) (gate_run ''FAILURE'') = (0, [])"
  "outcome_identity (gate_run ''SUCCESS'') \<noteq> outcome_identity (gate_run ''FAILURE'')"
  by code_simp+

text \<open>
  The selection of the latest checks is exact and does not depend on the order of equally recent
  attempts. It lists one check for each context that occurs at the requested head. When the most
  recent attempts of a context (by run number, then time) agree on their outcome, the check is the
  last of them; when two of them disagree, its outcome is \<open>AMBIGUOUS\<close>, which is classified as no
  result.
\<close>

theorem select_latest_exact:
  assumes "rollup_entries raw = Some entries"
  shows "\<exists>order pick. select_latest_checks run_url raw head_sha = map (\<lambda>key. JObject (pick key)) order
    \<and> distinct order
    \<and> (\<forall>key. key \<in> set order \<longleftrightarrow> attempts head_sha entries key \<noteq> [])
    \<and> (\<forall>key \<in> set order.
        if agree (most_recent run_url (attempts head_sha entries key))
        then pick key = last (most_recent run_url (attempts head_sha entries key))
        else outcome_identity (pick key) = (''AMBIGUOUS'', []) \<and> state_of (check_of (pick key)) = CiNoResult)"
proof -
  obtain order pick where sel: "select_latest_checks run_url raw head_sha = map (\<lambda>key. JObject (pick key)) order"
    "distinct order" "\<And>key. key \<in> set order \<longleftrightarrow> attempts head_sha entries key \<noteq> []"
    "\<And>key. key \<in> set order \<Longrightarrow> selected_of run_url (attempts head_sha entries key) (pick key)"
    by (rule select_latest_aux[OF assms, of run_url head_sha]) (rule that)
  have "if agree (most_recent run_url (attempts head_sha entries key))
        then pick key = last (most_recent run_url (attempts head_sha entries key))
        else outcome_identity (pick key) = (''AMBIGUOUS'', []) \<and> state_of (check_of (pick key)) = CiNoResult"
    if "key \<in> set order" for key
    using selected_of_cases[OF sel(4)[OF that]] .
  then show ?thesis using sel(1-3) by blast
qed

theorem select_latest_exact_witness:
  "\<exists>order pick. select_latest_checks (\<lambda>_. None) contrary_rollup [] = map (\<lambda>key. JObject (pick key)) order
    \<and> ''merge-gate'' \<in> set order \<and> state_of (check_of (pick ''merge-gate'')) = CiNoResult"
proof -
  let ?es = "[JObject (gate_run ''SUCCESS''), JObject (gate_run ''FAILURE'')]"
  obtain order pick where sel: "select_latest_checks (\<lambda>_. None) contrary_rollup [] = map (\<lambda>key. JObject (pick key)) order"
    "\<forall>key. key \<in> set order \<longleftrightarrow> attempts [] ?es key \<noteq> []"
    "\<forall>key \<in> set order.
        if agree (most_recent (\<lambda>_. None) (attempts [] ?es key))
        then pick key = last (most_recent (\<lambda>_. None) (attempts [] ?es key))
        else outcome_identity (pick key) = (''AMBIGUOUS'', []) \<and> state_of (check_of (pick key)) = CiNoResult"
    using select_latest_exact[OF contrary_attempts(1), of "\<lambda>_. None" "[]"] by blast
  have differ: "\<not> agree (most_recent (\<lambda>_. None) (attempts [] ?es ''merge-gate''))"
    using contrary_attempts(5) by (simp add: contrary_attempts(2-4) most_recent_def agree_def)
  have key: "''merge-gate'' \<in> set order" using sel(2) contrary_attempts(2) by simp
  have "state_of (check_of (pick ''merge-gate'')) = CiNoResult" using bspec[OF sel(3) key] differ by (simp only: if_False)
  then show ?thesis using key sel(1) by blast
qed

text \<open>
  C34: Without a clean validation record, nothing lands on contrary or incomplete CI evidence. When a pull
  request has no clean validation record, its verdict was computed from a rollup, and its action is
  \<open>LandNow\<close>, then the gate is among its checks and passed, and for every context that occurs at the
  head, the most recent attempts agree and the last of them passed. (A clean validation record of the
  exact head is evidence of its own and lands without CI.)
\<close>

theorem landed_rollup_green:
  assumes "rollup_entries raw = Some entries"
    and "pn_ci n = classify_pr re (parse_rollup run_url raw head_sha) cfg"
    and "pn_validation_evidence n \<noteq> CleanValidateRecord"
    and "fst (ci_action n freshness) = LandNow"
  shows "(\<exists>c \<in> set (parse_rollup run_url raw head_sha). cr_name c = cc_gate_check cfg \<and> state_of c = CiPassed)
    \<and> (\<forall>key. attempts head_sha entries key \<noteq> [] \<longrightarrow>
        agree (most_recent run_url (attempts head_sha entries key))
        \<and> state_of (check_of (last (most_recent run_url (attempts head_sha entries key)))) = CiPassed)"
proof -
  let ?checks = "parse_rollup run_url raw head_sha"
  have green: "cv_red_class (pn_ci n) = None" "cv_gate_ok (pn_ci n)" "cv_raw_state (pn_ci n) \<noteq> CiNoResult"
    using assms(3,4) by (auto simp: ci_action_land evidence_green_def)
  then have "classify_state ?checks = CiPassed"
    unfolding assms(2) classify_pr_red_None classify_pr_raw using ci_state.exhaust by blast
  then have passed: "\<And>c. c \<in> set ?checks \<Longrightarrow> state_of c = CiPassed" by (simp add: classify_state_Passed)
  obtain order pick where sel: "select_latest_checks run_url raw head_sha = map (\<lambda>key. JObject (pick key)) order"
    "distinct order" "\<And>key. key \<in> set order \<longleftrightarrow> attempts head_sha entries key \<noteq> []"
    "\<And>key. key \<in> set order \<Longrightarrow> selected_of run_url (attempts head_sha entries key) (pick key)"
    by (rule select_latest_aux[OF assms(1), of run_url head_sha]) (rule that)
  note checks = parse_rollup_map[OF sel(1)]
  have "agree (most_recent run_url (attempts head_sha entries key))
      \<and> state_of (check_of (last (most_recent run_url (attempts head_sha entries key)))) = CiPassed"
    if "attempts head_sha entries key \<noteq> []" for key
  proof -
    have key: "key \<in> set order" using that sel(3) by blast
    then have "state_of (check_of (pick key)) = CiPassed" using passed by (simp add: checks)
    then show ?thesis
      using selected_of_cases[OF sel(4)[OF key]]
      by (cases "agree (most_recent run_url (attempts head_sha entries key))") simp_all
  qed
  then show ?thesis using classify_pr_gate green(2) unfolding assms(2) by blast
qed

theorem landed_rollup_green_witness:
  "\<exists>c \<in> set (parse_rollup (\<lambda>_. None) green_rollup []). cr_name c = ''merge-gate'' \<and> state_of c = CiPassed"
proof -
  let ?re = "\<lambda>_. Inl ''unsupported'' :: string + (string \<Rightarrow> bool)"
  let ?n = "(green_node 1)\<lparr>pn_ci := classify_pr ?re (parse_rollup (\<lambda>_. None) green_rollup []) classify_config_default\<rparr>"
  have "rollup_entries green_rollup = Some [JObject (gate_run ''SUCCESS'')]" by code_simp
  moreover have "pn_validation_evidence ?n \<noteq> CleanValidateRecord" "fst (ci_action ?n None) = LandNow" by code_simp+
  moreover have "pn_ci ?n = classify_pr ?re (parse_rollup (\<lambda>_. None) green_rollup []) classify_config_default" by simp
  ultimately have "\<exists>c \<in> set (parse_rollup (\<lambda>_. None) green_rollup []).
      cr_name c = cc_gate_check classify_config_default \<and> state_of c = CiPassed"
    using landed_rollup_green[of green_rollup _ ?n ?re "\<lambda>_. None" "[]" classify_config_default None] by blast
  then show ?thesis by (simp add: classify_config_default_def)
qed

text \<open>
  C35: A real failure outside the gate is not excused. When some check other than the gate failed, no
  flaky signature matches it, and the gate does not look like a run that never happened, the pull
  request is \<open>RedReal\<close>, whatever else its rollup says; and its action is then to hold it for a fix, unless it
  has a clean validation record or changes the gate policy, which are decided before CI is looked at.
\<close>

theorem real_failure_held:
  assumes "c \<in> set checks" "state_of c = CiFailed" "cr_name c \<noteq> cc_gate_check cfg" "\<not> is_flaky re cfg c"
    and "\<And>g. find (\<lambda>check. cr_name check = cc_gate_check cfg) checks = Some g \<Longrightarrow> \<not> looks_like_missing_run g cfg"
  shows "cv_red_class (classify_pr re checks cfg) = Some RedReal
    \<and> (pn_ci n = classify_pr re checks cfg \<and> pn_validation_evidence n \<noteq> CleanValidateRecord
        \<and> pn_policy_class n \<noteq> GatePolicy \<longrightarrow> fst (ci_action n freshness) = HoldFix)"
proof -
  have failed: "classify_state checks = CiFailed" using assms(1,2) by (auto simp: classify_state_Failed)
  have missing: "\<not> (case find (\<lambda>check. cr_name check = cc_gate_check cfg) checks of
      None \<Rightarrow> False | Some check \<Rightarrow> looks_like_missing_run check cfg)"
    using assms(5) by (auto split: option.splits)
  let ?red = "filter (\<lambda>check. state_of check = CiFailed) checks"
  have c: "c \<in> set ?red" using assms(1,2) by simp
  have race: "\<not> list_all (\<lambda>check. cr_name check = cc_gate_check cfg \<and> P check) ?red" for P
    using c assms(3) by (auto simp: list_all_iff)
  have other: "list_ex (\<lambda>check. cr_name check \<noteq> cc_gate_check cfg) ?red" using c assms(3) by (auto simp: list_ex_iff)
  have flaky: "\<not> list_all (is_flaky re cfg) ?red" using c assms(4) unfolding list_all_iff by blast
  have "cv_red_class (classify_pr re checks cfg) = Some RedReal"
    unfolding classify_pr_def Let_def using failed missing race other flaky by simp
  then show ?thesis by (simp add: ci_action_def)
qed

theorem real_failure_held_witness:
  "cv_red_class (classify_pr (\<lambda>_. Inl ''unsupported'') [check_of [(''name'', JString ''build''), (''conclusion'', JString ''FAILURE'')]]
     classify_config_default) = Some RedReal"
proof -
  let ?c = "check_of [(''name'', JString ''build''), (''conclusion'', JString ''FAILURE'')]"
  let ?re = "\<lambda>_. Inl ''unsupported'' :: string + (string \<Rightarrow> bool)"
  have facts: "state_of ?c = CiFailed" "cr_name ?c \<noteq> cc_gate_check classify_config_default"
      "\<not> is_flaky ?re classify_config_default ?c"
    by code_simp+
  have "find (\<lambda>check. cr_name check = cc_gate_check classify_config_default) [?c] = None"
    using facts(2) by simp
  then show ?thesis
    using real_failure_held[of ?c "[?c]" classify_config_default ?re] facts by simp
qed

end
