(* ===== verification/Planner_Priority.thy ===== *)
theory Planner_Priority
  imports Planner_Model
begin

text \<open>
  \<open>priority.rs\<close>: where the landing priority of a pull request comes from. A compiled label expression
  is a parameter: the number of its groups and, for a label, where the match starts and what group
  one captured. A priority command is a parameter too: what its run came to.
\<close>

definition DEFAULT_PRIORITY :: int where "DEFAULT_PRIORITY = 100"

definition DEFAULT_LABEL_PATTERN :: string where
  "DEFAULT_LABEL_PATTERN = ''^(?:p|priority[:-])('' @ [CHR 0x5C] @ ''d+)$''"

record label_regex =
  lr_captures_len :: nat
  lr_captures :: "string \<Rightarrow> (nat \<times> string option) option"

datatype priority_error = PatternInvalid string | PatternWithoutGroup
  | MatchWithoutValue int | LabelNotInteger int
  | CommandNotStarted int | CommandTimedOut int | CommandExited int int | CommandSilent int | CommandNotInteger int
  | CommandEmpty | UnknownSource string

section \<open>Labels\<close>

record label_priority =
  lp_regex :: label_regex
  lp_default :: int
  lp_last_error :: "priority_error option"

definition label_priority_new :: "(string \<Rightarrow> string + label_regex) \<Rightarrow> string \<Rightarrow> priority_error + label_priority" where
  "label_priority_new compile pattern =
     (case compile pattern of
        Inl e \<Rightarrow> Inl (PatternInvalid e)
      | Inr regex \<Rightarrow>
          if lr_captures_len regex < 2 then Inl PatternWithoutGroup
          else Inr \<lparr>lp_regex = regex, lp_default = DEFAULT_PRIORITY, lp_last_error = None\<rparr>)"

text \<open>What a label contributes: nothing, an error, or a value.\<close>

datatype label_value = Skip | Bad priority_error | Value int

definition label_value_of :: "label_regex \<Rightarrow> int \<Rightarrow> string \<Rightarrow> label_value" where
  "label_value_of regex pr_number label =
     (case lr_captures regex label of
        None \<Rightarrow> Skip
      | Some (start, captured) \<Rightarrow>
          if start \<noteq> 0 then Skip
          else case captured of
            None \<Rightarrow> Bad (MatchWithoutValue pr_number)
          | Some text \<Rightarrow> (case parse_i64 text of
              None \<Rightarrow> Bad (LabelNotInteger pr_number)
            | Some n \<Rightarrow> Value n))"

fun label_loop :: "label_regex \<Rightarrow> int \<Rightarrow> string list \<Rightarrow> int option \<Rightarrow> priority_error option
    \<Rightarrow> int option \<times> priority_error option" where
  "label_loop regex pr_number [] best last_error = (best, last_error)"
| "label_loop regex pr_number (label # labels) best last_error =
     (case label_value_of regex pr_number label of
        Skip \<Rightarrow> label_loop regex pr_number labels best last_error
      | Bad e \<Rightarrow> label_loop regex pr_number labels best (Some e)
      | Value n \<Rightarrow> label_loop regex pr_number labels
          (Some (case best of None \<Rightarrow> n | Some current \<Rightarrow> min current n)) last_error)"

definition label_priority_of :: "label_priority \<Rightarrow> int \<Rightarrow> string list \<Rightarrow> int \<times> label_priority" where
  "label_priority_of source pr_number labels =
     (let (best, last_error) = label_loop (lp_regex source) pr_number labels None (lp_last_error source)
      in (case best of None \<Rightarrow> lp_default source | Some n \<Rightarrow> n, source\<lparr>lp_last_error := last_error\<rparr>))"

section \<open>Commands\<close>

record command_priority =
  cp_command :: string
  cp_wrapper :: "string list"
  cp_default :: int
  cp_timeout_secs :: nat
  cp_last_error :: "priority_error option"

definition command_priority_new :: "string \<Rightarrow> string list \<Rightarrow> command_priority" where
  "command_priority_new cmd wrapper =
     \<lparr>cp_command = cmd, cp_wrapper = wrapper, cp_default = DEFAULT_PRIORITY, cp_timeout_secs = 20,
      cp_last_error = None\<rparr>"

text \<open>
  How the run of a command ended: it could not be started, waiting for it failed, the time ran out,
  or it exited with a code (0 is success) and printed text.
\<close>

datatype command_end = NotStarted | WaitFailed | OutOfTime | Exited int string

definition command_argv :: "string list \<Rightarrow> string \<Rightarrow> string list" where
  "command_argv wrapper rendered = wrapper @ [''bash'', ''-c'', rendered]"

definition run_priority_command :: "(string list \<Rightarrow> nat \<Rightarrow> command_end) \<Rightarrow> string \<Rightarrow> int \<Rightarrow> command_priority
    \<Rightarrow> int \<times> command_priority" where
  "run_priority_command exec rendered pr_number source =
     (let failed = (\<lambda>e. (cp_default source, source\<lparr>cp_last_error := Some e\<rparr>))
      in case exec (command_argv (cp_wrapper source) rendered) (cp_timeout_secs source) of
        NotStarted \<Rightarrow> failed (CommandNotStarted pr_number)
      | WaitFailed \<Rightarrow> failed (CommandNotStarted pr_number)
      | OutOfTime \<Rightarrow>
          (cp_default source,
           if cp_last_error source = None then source\<lparr>cp_last_error := Some (CommandTimedOut pr_number)\<rparr> else source)
      | Exited code output \<Rightarrow>
          let stdout = str_trim output
          in if code \<noteq> 0 then failed (CommandExited pr_number code)
             else if stdout = [] then failed (CommandSilent pr_number)
             else case parse_i64 stdout of
               Some n \<Rightarrow> (n, source)
             | None \<Rightarrow> failed (CommandNotInteger pr_number))"

definition command_priority_of :: "(string list \<Rightarrow> nat \<Rightarrow> command_end) \<Rightarrow> command_priority \<Rightarrow> int
    \<Rightarrow> int \<times> command_priority" where
  "command_priority_of exec source pr_number =
     run_priority_command exec (str_replace (cp_command source) ''{pr}'' (dec_int pr_number)) pr_number source"

section \<open>Providers\<close>

datatype provider = NonePriority | LabelProvider label_priority | CommandProvider command_priority

definition make_priority_provider :: "(string \<Rightarrow> string + label_regex) \<Rightarrow> string \<Rightarrow> string \<Rightarrow> string \<Rightarrow> string list
    \<Rightarrow> priority_error + provider" where
  "make_priority_provider compile source label_pattern cmd wrapper =
     (if source = ''none'' then Inr NonePriority
      else if source = ''labels''
      then (case label_priority_new compile label_pattern of Inl e \<Rightarrow> Inl e | Inr p \<Rightarrow> Inr (LabelProvider p))
      else if source = ''command''
      then if str_trim cmd = [] then Inl CommandEmpty else Inr (CommandProvider (command_priority_new cmd wrapper))
      else Inl (UnknownSource source))"

fun provider_priority :: "(string list \<Rightarrow> nat \<Rightarrow> command_end) \<Rightarrow> provider \<Rightarrow> int \<Rightarrow> string list \<Rightarrow> int \<times> provider" where
  "provider_priority exec NonePriority pr_number labels = (0, NonePriority)"
| "provider_priority exec (LabelProvider p) pr_number labels =
     (let (n, p') = label_priority_of p pr_number labels in (n, LabelProvider p'))"
| "provider_priority exec (CommandProvider p) pr_number labels =
     (let (n, p') = command_priority_of exec p pr_number in (n, CommandProvider p'))"

fun provider_last_error :: "provider \<Rightarrow> priority_error option" where
  "provider_last_error NonePriority = None"
| "provider_last_error (LabelProvider p) = lp_last_error p"
| "provider_last_error (CommandProvider p) = cp_last_error p"

section \<open>Priorities are deterministic and recoverable\<close>

definition label_values :: "label_regex \<Rightarrow> int \<Rightarrow> string list \<Rightarrow> int set" where
  "label_values regex pr_number labels = {n. \<exists>label \<in> set labels. label_value_of regex pr_number label = Value n}"

lemma label_values_Cons:
  "label_values regex pr (label # labels) =
     (case label_value_of regex pr label of Value n \<Rightarrow> insert n (label_values regex pr labels)
      | _ \<Rightarrow> label_values regex pr labels)"
  by (auto simp: label_values_def split: label_value.splits)

lemma finite_label_values [simp]: "finite (label_values regex pr labels)"
  by (induction labels) (auto simp: label_values_Cons split: label_value.splits, simp add: label_values_def)

lemma label_loop_best:
  "fst (label_loop regex pr labels best err) =
     (if label_values regex pr labels = {} then best
      else Some (Min (label_values regex pr labels \<union> set_option best)))"
proof (induction labels arbitrary: best err)
  case Nil
  then show ?case by (simp add: label_values_def)
next
  case (Cons label labels)
  show ?case
  proof (cases "label_value_of regex pr label")
    case (Value n)
    then show ?thesis
      by (cases best) (auto simp: Cons label_values_Cons Min_insert2 insert_commute min.commute min.left_commute
          Un_commute Min_insert)
  qed (simp_all add: Cons label_values_Cons)
qed

text \<open>
  The label provider gives the least value that a label of the pull request carries, and the
  default when none does, whatever the order and the repetition of the labels and whatever errors
  other labels raise.
\<close>

lemma label_priority_least:
  "fst (label_priority_of source pr_number labels) =
    (if label_values (lp_regex source) pr_number labels = {} then lp_default source
     else Min (label_values (lp_regex source) pr_number labels))"
  using label_loop_best[of "lp_regex source" pr_number labels None "lp_last_error source"]
  by (auto simp: label_priority_of_def case_prod_unfold)

text \<open>
  A command that runs out of time does not replace an earlier error: \<open>last_error\<close> still speaks of
  the other pull request.
\<close>

theorem timeout_keeps_stale_error:
  fixes exec
  defines "exec \<equiv> \<lambda>argv t. if argv = [''bash'', ''-c'', ''prio 1''] then Exited 3 [] else OutOfTime"
    and "source \<equiv> command_priority_new ''prio {pr}'' []"
  shows "cp_last_error (snd (command_priority_of exec (snd (command_priority_of exec source 1)) 2)) =
    Some (CommandExited 1 3)"
  unfolding assms by code_simp

end
