(* ===== verification/Tick_Text.thy ===== *)
theory Tick_Text
  imports Rust_Text
begin

text \<open>
  The text contract of \<open>tick-hub\<close>: white space, trimming, line splitting and quoting of
  \<open>text.rs\<close>, and the line formats of \<open>emit.rs\<close>. A character class is the list of the UTF-8
  encodings of its characters; bytes that are not ASCII are written as such.
\<close>

section \<open>text.rs\<close>

definition tick_whitespace :: "string list" where
  "tick_whitespace = unicode_whitespace @ [[CHR 0x1C], [CHR 0x1D], [CHR 0x1E], [CHR 0x1F]]"

definition tick_trim :: "string \<Rightarrow> string" where
  "tick_trim value = trim_of tick_whitespace value"

definition line_breaks :: "string list" where
  "line_breaks = [[CHR 0x0A], [CHR 0x0D], [CHR 0x0B], [CHR 0x0C], [CHR 0x1C], [CHR 0x1D], [CHR 0x1E],
     [CHR 0xC2, CHR 0x85], [CHR 0xE2, CHR 0x80, CHR 0xA8], [CHR 0xE2, CHR 0x80, CHR 0xA9]]"

definition split_lines :: "string \<Rightarrow> string list" where
  "split_lines value = split_of line_breaks value"

abbreviation backslash :: char where "backslash \<equiv> CHR 0x5C"

abbreviation dquote :: char where "dquote \<equiv> CHR 0x22"

abbreviation squote :: char where "squote \<equiv> CHR 0x27"

definition hex_char :: "nat \<Rightarrow> char" where
  "hex_char d = (if d < 10 then char_of (48 + d) else char_of (87 + d))"

definition hex2 :: "nat \<Rightarrow> string" where
  "hex2 n = [hex_char (n div 16), hex_char (n mod 16)]"

definition hex4 :: "nat \<Rightarrow> string" where
  "hex4 n = hex2 (n div 256) @ hex2 (n mod 256)"

text \<open>
  The characters that \<open>string_repr\<close> writes as an escape with their code: control characters and
  white space other than the space. No white-space character lies beyond \<open>U+FFFF\<close>, so the
  eight-digit form never occurs.
\<close>

definition escapes :: "(string \<times> string) list" where
  "escapes =
     map (\<lambda>n. ([char_of n], [backslash, CHR ''x''] @ hex2 n)) ([0 ..< 32] @ [127]) @
     map (\<lambda>n. ([CHR 0xC2, char_of n], [backslash, CHR ''x''] @ hex2 n)) [0x80 ..< 0xA1] @
     [([CHR 0xE1, CHR 0x9A, CHR 0x80], [backslash, CHR ''u''] @ hex4 0x1680)] @
     map (\<lambda>n. ([CHR 0xE2, CHR 0x80, char_of (0x80 + n)], [backslash, CHR ''u''] @ hex4 (0x2000 + n)))
       ([0 ..< 11] @ [0x28, 0x29, 0x2F]) @
     [([CHR 0xE2, CHR 0x81, CHR 0x9F], [backslash, CHR ''u''] @ hex4 0x205F),
      ([CHR 0xE3, CHR 0x80, CHR 0x80], [backslash, CHR ''u''] @ hex4 0x3000)]"

fun repr_from :: "nat \<Rightarrow> char \<Rightarrow> string \<Rightarrow> string" where
  "repr_from skip q [] = []"
| "repr_from skip q (c # s) =
     (if 0 < skip then repr_from (skip - 1) q s
      else if c = backslash then [backslash, backslash] @ repr_from 0 q s
      else if c = CHR 0x0A then [backslash, CHR ''n''] @ repr_from 0 q s
      else if c = CHR 0x0D then [backslash, CHR ''r''] @ repr_from 0 q s
      else if c = CHR 0x09 then [backslash, CHR ''t''] @ repr_from 0 q s
      else if c = q then [backslash, c] @ repr_from 0 q s
      else case find (\<lambda>(w, e). prefix w (c # s)) escapes of
        Some (w, e) \<Rightarrow> e @ repr_from (length w - 1) q s
      | None \<Rightarrow> c # repr_from 0 q s)"

definition string_repr :: "string \<Rightarrow> string" where
  "string_repr value =
     (let q = (if squote \<in> set value \<and> dquote \<notin> set value then dquote else squote)
      in [q] @ repr_from 0 q value @ [q])"

section \<open>emit.rs\<close>

definition HEALTH_STATUS_OK :: string where "HEALTH_STATUS_OK = ''ok''"

definition HEALTH_STATUS_STALE :: string where "HEALTH_STATUS_STALE = ''stale''"

definition HEALTH_STATUS_MISSING :: string where "HEALTH_STATUS_MISSING = ''missing''"

definition escape_quotes :: "string \<Rightarrow> string" where
  "escape_quotes value =
     str_replace (str_replace value [backslash] [backslash, backslash]) [dquote] [backslash, dquote]"

definition quote :: "string \<Rightarrow> string" where
  "quote value = [dquote] @ escape_quotes value @ [dquote]"

definition needs_quote :: "string \<Rightarrow> bool" where
  "needs_quote value \<longleftrightarrow> value = [] \<or> any_of tick_whitespace value
     \<or> dquote \<in> set value \<or> backslash \<in> set value"

definition fmt_value :: "string \<Rightarrow> string" where
  "fmt_value value = (if needs_quote value then quote value else value)"

definition format_action :: "string \<Rightarrow> (string, string) index_map \<Rightarrow> string \<Rightarrow> string" where
  "format_action skill fields title =
     str_join '' '' ([''ACTION: '' @ skill]
       @ map (\<lambda>(key, value). key @ ''='' @ fmt_value value) fields
       @ (if title \<noteq> [] then [''title='' @ quote title] else []))"

definition format_tick_header :: "string \<Rightarrow> string \<Rightarrow> string" where
  "format_tick_header name schedule =
     ''[tick-hub: '' @ name @ [CHR 0x20, CHR 0xC2, CHR 0xB7, CHR 0x20] @ schedule @ '']''"

definition format_schedule :: "int \<Rightarrow> int option \<Rightarrow> string" where
  "format_schedule cadence_secs cadence_offset_secs =
     (if cadence_secs \<le> 0 then ''every tick''
      else case cadence_offset_secs of
        Some offset \<Rightarrow> ''every '' @ dec_int cadence_secs @ ''s at +'' @ dec_int offset @ ''s''
      | None \<Rightarrow> ''every '' @ dec_int cadence_secs @ ''s'')"

definition format_note :: "string \<Rightarrow> string" where
  "format_note text = ''NOTE: '' @ text"

definition format_error :: "string \<Rightarrow> string" where
  "format_error text = ''ERROR: '' @ text"

definition format_health :: "string \<Rightarrow> string \<Rightarrow> int option \<Rightarrow> int \<Rightarrow> string \<Rightarrow> string" where
  "format_health name status age_secs threshold_secs detail =
     ''HEALTH: '' @ name @ '' '' @ status @ '' age_secs=''
     @ (case age_secs of None \<Rightarrow> ''NA'' | Some value \<Rightarrow> dec_int value)
     @ '' threshold_secs='' @ dec_int threshold_secs
     @ '' detail='' @ [dquote] @ escape_quotes detail @ [dquote]"

definition format_no_result :: "string \<Rightarrow> string \<Rightarrow> string" where
  "format_no_result name raw =
     (let detail = str_trim raw
      in if detail = []
         then ''NO_RESULT: '' @ name @ '' could not determine its condition; this is not a pass''
         else ''NO_RESULT: '' @ name @ '' could not determine its condition; this is not a pass (''
              @ detail @ '')'')"

definition format_unevaluable :: "string \<Rightarrow> string list \<Rightarrow> string" where
  "format_unevaluable name dependencies =
     ''NO_RESULT: '' @ name @ '' is unevaluable because dependency '' @ str_join '','' dependencies
     @ '' could not determine its condition; this is not a pass''"

definition format_clean :: "string \<Rightarrow> string" where
  "format_clean name = ''CLEAN: '' @ name @ '' ran and found nothing to report''"

definition format_suppressed :: "string \<Rightarrow> string list \<Rightarrow> string" where
  "format_suppressed name missing_flags =
     ''SUPPRESSED: '' @ name @ '' did not run; required flag(s) not set: ''
     @ (if missing_flags = [] then ''(none recorded)'' else str_join '','' missing_flags)"

section \<open>Reading an action line back\<close>

lemma str_replace_char: "str_replace s [c] to = concat (map (\<lambda>x. if x = c then to else [x]) s)"
  unfolding str_replace_def by (induction s) (auto simp: prefix_def)

lemma escape_quotes_Nil [simp]: "escape_quotes [] = []"
  by (simp add: escape_quotes_def str_replace_char)

lemma escape_quotes_Cons:
  "escape_quotes (c # s) =
     (if c = backslash \<or> c = dquote then [backslash, c] else [c]) @ escape_quotes s"
  by (simp add: escape_quotes_def str_replace_char)

text \<open>A reader of the line protocol: the specification that the formats are checked against.\<close>

fun unescape_until :: "string \<Rightarrow> (string \<times> string) option" where
  "unescape_until [] = None"
| "unescape_until (c # s) =
     (if c = dquote then Some ([], s)
      else if c = backslash then
        (case s of [] \<Rightarrow> None | d # t \<Rightarrow> map_option (\<lambda>(a, b). (d # a, b)) (unescape_until t))
      else map_option (\<lambda>(a, b). (c # a, b)) (unescape_until s))"

definition read_value :: "string \<Rightarrow> (string \<times> string) option" where
  "read_value s =
     (case s of [] \<Rightarrow> None
      | c # t \<Rightarrow> if c = dquote then unescape_until t
          else Some (takeWhile (\<lambda>c. c \<noteq> CHR '' '') s, dropWhile (\<lambda>c. c \<noteq> CHR '' '') s))"

fun read_pairs :: "nat \<Rightarrow> string \<Rightarrow> (string \<times> string) list option" where
  "read_pairs fuel [] = Some []"
| "read_pairs 0 (c # s) = None"
| "read_pairs (Suc fuel) (c # s) =
     (if c \<noteq> CHR '' '' then None
      else case split_once (CHR ''='') s of
        None \<Rightarrow> None
      | Some (key, r) \<Rightarrow> (case read_value r of
          None \<Rightarrow> None
        | Some (value, r') \<Rightarrow> map_option ((#) (key, value)) (read_pairs fuel r')))"

definition read_action :: "string \<Rightarrow> (string \<times> (string \<times> string) list) option" where
  "read_action line =
     (case strip_prefix line ''ACTION: '' of
        None \<Rightarrow> None
      | Some rest \<Rightarrow> map_option (Pair (takeWhile (\<lambda>c. c \<noteq> CHR '' '') rest))
          (read_pairs (length rest) (dropWhile (\<lambda>c. c \<noteq> CHR '' '') rest)))"

lemma unescape_escape: "unescape_until (escape_quotes v @ dquote # r) = Some (v, r)"
  by (induction v) (simp_all add: escape_quotes_Cons)

lemma read_quote: "read_value (quote v @ r) = Some (v, r)"
  by (simp add: read_value_def quote_def unescape_escape)

lemma space_whitespace: "[CHR '' ''] \<in> set tick_whitespace"
  by (simp add: tick_whitespace_def unicode_whitespace_def)

lemma no_space: "\<not> any_of tick_whitespace v \<Longrightarrow> c \<in> set v \<Longrightarrow> c \<noteq> CHR '' ''"
proof
  assume clean: "\<not> any_of tick_whitespace v" and "c \<in> set v" and "c = CHR '' ''"
  then have "str_contains v '' ''"
    unfolding str_contains_iff sublist_def by (metis append_Cons append_Nil split_list)
  then show False using clean space_whitespace by (auto simp: any_of_def)
qed

lemma takeWhile_dropWhile_stop:
  assumes "\<And>c. c \<in> set v \<Longrightarrow> P c" and "r = [] \<or> \<not> P (hd r)"
  shows "takeWhile P (v @ r) = v" and "dropWhile P (v @ r) = r"
  using assms by (cases r; auto)+

lemma read_fmt_value:
  assumes "r = [] \<or> hd r = CHR '' ''"
  shows "read_value (fmt_value v @ r) = Some (v, r)"
proof (cases "needs_quote v")
  case True
  then show ?thesis by (simp add: fmt_value_def read_quote)
next
  case False
  then obtain c t where v: "v = c # t" "c \<noteq> dquote" by (cases v) (auto simp: needs_quote_def)
  have "takeWhile (\<lambda>c. c \<noteq> CHR '' '') (v @ r) = v" "dropWhile (\<lambda>c. c \<noteq> CHR '' '') (v @ r) = r"
    using takeWhile_dropWhile_stop[of v "\<lambda>c. c \<noteq> CHR '' ''" r] no_space[of v] False assms
    by (auto simp: needs_quote_def)
  then show ?thesis using False v by (simp add: fmt_value_def read_value_def)
qed

definition written_pairs :: "(string \<times> string) list \<Rightarrow> string \<Rightarrow> string" where
  "written_pairs fields title =
     concat (map (\<lambda>(k, v). CHR '' '' # k @ CHR ''='' # fmt_value v) fields)
     @ (if title \<noteq> [] then CHR '' '' # ''title='' @ quote title else [])"

lemma written_pairs_start: "written_pairs fields title = [] \<or> hd (written_pairs fields title) = CHR '' ''"
  by (cases fields) (auto simp: written_pairs_def)

lemma read_written_pairs:
  "(\<And>k v. (k, v) \<in> set fields \<Longrightarrow> CHR ''='' \<notin> set k) \<Longrightarrow> length fields < fuel \<Longrightarrow>
   read_pairs fuel (written_pairs fields title) =
     Some (fields @ (if title \<noteq> [] then [(''title'', title)] else []))"
proof (induction fields arbitrary: fuel)
  case Nil
  obtain n where "fuel = Suc n" using Nil.prems(2) by (cases fuel) auto
  then show ?case
    using read_quote[of title "[]"] by (simp add: written_pairs_def)
next
  case (Cons kv fields)
  obtain k v where kv: "kv = (k, v)" by (cases kv)
  obtain n where fuel: "fuel = Suc n" "length fields < n" using Cons.prems(2) by (cases fuel) auto
  have w: "written_pairs ((k, v) # fields) title =
      CHR '' '' # k @ CHR ''='' # fmt_value v @ written_pairs fields title"
    by (simp add: written_pairs_def)
  have "split_once (CHR ''='') (k @ CHR ''='' # fmt_value v @ written_pairs fields title) =
      Some (k, fmt_value v @ written_pairs fields title)"
    using Cons.prems(1)[of k v] by (simp add: split_once_Some kv)
  moreover have "read_pairs n (written_pairs fields title) =
      Some (fields @ (if title \<noteq> [] then [(''title'', title)] else []))"
    using Cons.prems(1) by (intro Cons.IH fuel(2)) auto
  ultimately show ?case
    using fuel(1) read_fmt_value[OF written_pairs_start, of v fields title] by (simp add: w kv)
qed

lemma format_action_written: "format_action skill fields title = ''ACTION: '' @ skill @ written_pairs fields title"
  by (simp add: format_action_def str_join_Cons written_pairs_def comp_def case_prod_unfold)

text \<open>
  An action line reads back: from the line alone, the skill, every field in order with its
  exact value, and the title are recovered, whatever white space, quotes or backslashes the values
  hold.
\<close>

theorem format_action_roundtrip:
  assumes "CHR '' '' \<notin> set skill" and "\<And>k v. (k, v) \<in> set fields \<Longrightarrow> CHR ''='' \<notin> set k"
  shows "read_action (format_action skill fields title) =
    Some (skill, fields @ (if title \<noteq> [] then [(''title'', title)] else []))"
proof -
  let ?w = "written_pairs fields title"
  have len: "length fields < length (skill @ ?w) \<or> fields = []"
  proof -
    have "length fields < length (concat (map (\<lambda>(k, v). CHR '' '' # k @ CHR ''='' # fmt_value v) fields)) \<or> fields = []"
      by (induction fields) auto
    then show ?thesis by (auto simp: written_pairs_def)
  qed
  have split: "takeWhile (\<lambda>c. c \<noteq> CHR '' '') (skill @ ?w) = skill" "dropWhile (\<lambda>c. c \<noteq> CHR '' '') (skill @ ?w) = ?w"
    using written_pairs_start[of fields title] assms(1)
    by (intro takeWhile_dropWhile_stop; auto)+
  have "read_pairs (length (skill @ ?w)) ?w = Some (fields @ (if title \<noteq> [] then [(''title'', title)] else []))"
  proof (cases "?w = []")
    case True
    then have "fields = []" "title = []"
      by (cases fields; auto simp: written_pairs_def split: if_splits)+
    then show ?thesis by (simp add: written_pairs_def)
  next
    case False
    then show ?thesis using len assms(2) by (intro read_written_pairs) auto
  qed
  then show ?thesis by (simp add: read_action_def format_action_written strip_prefix_def split)
qed

theorem format_action_roundtrip_witness:
  "read_action (format_action ''land'' [(''pr'', ''7''), (''note'', ''a b'' @ [dquote])] ''go now'') =
     Some (''land'', [(''pr'', ''7''), (''note'', ''a b'' @ [dquote]), (''title'', ''go now'')])"
  by (subst format_action_roundtrip) auto

end
