(* ===== verification/Tick_Model.thy ===== *)
theory Tick_Model
  imports Tick_Text
begin

text \<open>
  The declarative model of \<open>tick-hub\<close> (\<open>model.rs\<close>) and the values that cross its injected
  boundaries (\<open>protocols.rs\<close>): reminders with their gates and emissions, health checks, the
  configuration, and the result of a gate command. The traits \<open>GateRunner\<close> and \<open>FileAgeProbe\<close>
  are parameters of the definitions that use them.
\<close>

section \<open>model.rs\<close>

definition EVERY_TICK :: int where "EVERY_TICK = 0"

datatype emit_kind = EmitAction | EmitNote

fun emit_kind_str :: "emit_kind \<Rightarrow> string" where
  "emit_kind_str EmitAction = ''action''"
| "emit_kind_str EmitNote = ''note''"

definition emit_kind_from_value :: "string \<Rightarrow> emit_kind option" where
  "emit_kind_from_value value =
     (if value = ''action'' then Some EmitAction
      else if value = ''note'' then Some EmitNote
      else None)"

datatype gate_when = WhenSuccess | WhenFailure | WhenNonempty | WhenAlways

fun gate_when_str :: "gate_when \<Rightarrow> string" where
  "gate_when_str WhenSuccess = ''success''"
| "gate_when_str WhenFailure = ''failure''"
| "gate_when_str WhenNonempty = ''nonempty''"
| "gate_when_str WhenAlways = ''always''"

definition gate_when_from_value :: "string \<Rightarrow> gate_when option" where
  "gate_when_from_value value =
     (if value = ''success'' then Some WhenSuccess
      else if value = ''failure'' then Some WhenFailure
      else if value = ''nonempty'' then Some WhenNonempty
      else if value = ''always'' then Some WhenAlways
      else None)"

record gate =
  gt_cmd :: string
  gt_when :: gate_when
  gt_capture :: bool
  gt_parallel :: bool
  gt_timeout_secs :: "int option"

definition gate_new :: "string \<Rightarrow> gate" where
  "gate_new cmd = \<lparr>gt_cmd = cmd, gt_when = WhenSuccess, gt_capture = False, gt_parallel = False,
     gt_timeout_secs = None\<rparr>"

record emit =
  em_kind :: emit_kind
  em_title :: string
  em_skill :: string
  em_fields :: "(string, string) index_map"

definition emit_action :: "string \<Rightarrow> string \<Rightarrow> emit" where
  "emit_action skill title = \<lparr>em_kind = EmitAction, em_title = title, em_skill = skill, em_fields = []\<rparr>"

definition emit_note :: "string \<Rightarrow> emit" where
  "emit_note text = \<lparr>em_kind = EmitNote, em_title = text, em_skill = [], em_fields = []\<rparr>"

record reminder =
  rm_name :: string
  rm_emit :: emit
  rm_cadence_secs :: int
  rm_requires_flags :: "string list"
  rm_gate :: "gate option"
  rm_depends_on :: "string list"
  rm_cadence_offset_secs :: "int option"
  rm_cadence_window_secs :: "int option"

definition reminder_new :: "string \<Rightarrow> emit \<Rightarrow> reminder" where
  "reminder_new name em = \<lparr>rm_name = name, rm_emit = em, rm_cadence_secs = EVERY_TICK,
     rm_requires_flags = [], rm_gate = None, rm_depends_on = [], rm_cadence_offset_secs = None,
     rm_cadence_window_secs = None\<rparr>"

record health_check =
  hc_name :: string
  hc_glob :: string
  hc_threshold_secs :: int
  hc_detail :: string

definition health_check_new :: "string \<Rightarrow> string \<Rightarrow> int \<Rightarrow> health_check" where
  "health_check_new name glob threshold_secs =
     \<lparr>hc_name = name, hc_glob = glob, hc_threshold_secs = threshold_secs, hc_detail = []\<rparr>"

record tick_config =
  tc_reminders :: "reminder list"
  tc_health_checks :: "health_check list"
  tc_description :: string

definition by_name :: "tick_config \<Rightarrow> (string, reminder) index_map" where
  "by_name config = fold (\<lambda>r. im_insert (rm_name r) r) (tc_reminders config) []"

section \<open>protocols.rs\<close>

record gate_result =
  gr_returncode :: int
  gr_stdout :: string
  gr_ok :: bool
  gr_error :: "string option"

definition gate_result_completed :: "int \<Rightarrow> string \<Rightarrow> gate_result" where
  "gate_result_completed returncode stdout =
     \<lparr>gr_returncode = returncode, gr_stdout = stdout, gr_ok = True, gr_error = None\<rparr>"

definition gate_result_failed :: "string \<Rightarrow> gate_result" where
  "gate_result_failed error =
     \<lparr>gr_returncode = - 1, gr_stdout = [], gr_ok = False, gr_error = Some error\<rparr>"

section \<open>Facts\<close>

lemma emit_kind_from_value_iff: "emit_kind_from_value s = Some k \<longleftrightarrow> s = emit_kind_str k"
  by (cases k) (auto simp: emit_kind_from_value_def)

lemma gate_when_from_value_iff: "gate_when_from_value s = Some w \<longleftrightarrow> s = gate_when_str w"
  by (cases w) (auto simp: gate_when_from_value_def)

text \<open>\<open>by_name\<close> finds the last reminder of a name.\<close>

lemma im_get_by_name: "im_get (by_name config) name = map_of (rev (map (\<lambda>r. (rm_name r, r)) (tc_reminders config))) name"
proof -
  have "by_name config = fold (\<lambda>(k, v). im_insert k v) (map (\<lambda>r. (rm_name r, r)) (tc_reminders config)) []"
    by (simp add: by_name_def fold_map comp_def)
  then show ?thesis
    using imap.get_fold[OF imap.invar_empty, of "map (\<lambda>r. (rm_name r, r)) (tc_reminders config)"]
    by (simp only: imap.get_empty empty_map_add)
qed

end
