(* ===== verification/Tick_Cadence.thy ===== *)
theory Tick_Cadence
  imports Tick_Model
begin

text \<open>
  \<open>cadence.rs\<close>: when a reminder is due, and the store of the epochs at which reminders last fired.
  The store's file system is a map from paths to contents; \<open>persist_fired_state\<close> returns every
  state of the file system that a crash could leave behind.
\<close>

section \<open>Reserved state keys\<close>

definition INTERNAL_STATE_PREFIX :: string where
  "INTERNAL_STATE_PREFIX = ''__tick_hub_internal__.''"

definition UNRESOLVED_RENDER_STATE_PREFIX :: string where
  "UNRESOLVED_RENDER_STATE_PREFIX = ''__tick_hub_internal__.unresolved_render.''"

definition UNRESOLVED_RENDER_COUNT_SUFFIX :: string where
  "UNRESOLVED_RENDER_COUNT_SUFFIX = ''.count''"

definition UNRESOLVED_RENDER_FIRST_SUFFIX :: string where
  "UNRESOLVED_RENDER_FIRST_SUFFIX = ''.first_failure_epoch''"

definition unresolved_render_state_keys :: "string \<Rightarrow> string \<times> string" where
  "unresolved_render_state_keys name =
     (let base = UNRESOLVED_RENDER_STATE_PREFIX @ name
      in (base @ UNRESOLVED_RENDER_COUNT_SUFFIX, base @ UNRESOLVED_RENDER_FIRST_SUFFIX))"

section \<open>Cadence\<close>

type_synonym fired_state = "(string, int) btree_map"

text \<open>
  \<open>div_euclid\<close> by a positive number is the division of \<open>int\<close>; the only call has a positive
  cadence.
\<close>

definition scheduled_instant :: "int \<Rightarrow> int \<Rightarrow> int \<Rightarrow> int" where
  "scheduled_instant cadence_secs offset_secs now =
     wrap64 (wrap64 (sat64 (now - offset_secs) div cadence_secs * cadence_secs) + offset_secs)"

definition is_due ::
  "string \<Rightarrow> int \<Rightarrow> int \<Rightarrow> fired_state \<Rightarrow> int option \<Rightarrow> int option \<Rightarrow> bool" where
  "is_due name cadence_secs now last_fired offset_secs window_secs =
     (if cadence_secs \<le> EVERY_TICK then True
      else case bt_get last_fired name of
        None \<Rightarrow> True
      | Some last_epoch \<Rightarrow> (case offset_secs of
          None \<Rightarrow> cadence_secs \<le> sat64 (now - last_epoch)
        | Some offset \<Rightarrow>
            let instant = scheduled_instant cadence_secs offset now
            in if instant \<le> last_epoch then False
               else (case window_secs of
                 Some window \<Rightarrow> sat64 (now - instant) < window
               | None \<Rightarrow> True)))"

definition reminder_due :: "int \<Rightarrow> fired_state \<Rightarrow> reminder \<Rightarrow> bool" where
  "reminder_due now last_fired r =
     is_due (rm_name r) (rm_cadence_secs r) now last_fired (rm_cadence_offset_secs r)
       (rm_cadence_window_secs r)"

definition due_reminders :: "reminder list \<Rightarrow> int \<Rightarrow> fired_state \<Rightarrow> reminder list" where
  "due_reminders reminders now last_fired = filter (reminder_due now last_fired) reminders"

section \<open>The fired-state file\<close>

definition fired_line :: "string \<Rightarrow> (string \<times> int) option" where
  "fired_line raw_line =
     (let line = tick_trim raw_line
      in if line = [] \<or> starts_with line ''#'' then None
         else case split_once (CHR ''='') line of
           None \<Rightarrow> None
         | Some (key, value) \<Rightarrow>
             if key = [] \<or> any_of tick_whitespace key \<or> value = [] \<or> \<not> list_all is_ascii_digit value
             then None
             else map_option (Pair key) (parse_i64 value))"

text \<open>The argument is the text of the file, \<open>None\<close> when it cannot be read.\<close>

definition load_fired_state :: "string option \<Rightarrow> fired_state" where
  "load_fired_state file =
     (case file of
        None \<Rightarrow> []
      | Some text \<Rightarrow> bt_collect (List.map_filter fired_line (split_lines text)))"

definition valid_fired_entry :: "string \<times> int \<Rightarrow> bool" where
  "valid_fired_entry kv \<longleftrightarrow>
     \<not> (fst kv = [] \<or> CHR ''='' \<in> set (fst kv) \<or> any_of tick_whitespace (fst kv) \<or> snd kv < 0)"

abbreviation newline :: char where "newline \<equiv> CHR 0x0A"

definition fired_header :: "string list" where
  "fired_header =
     [''# tick-hub fired-state '' @ [CHR 0xE2, CHR 0x80, CHR 0x94]
        @ '' reminder=last_fired_epoch (managed by tick-hub)'',
      ''# '' @ INTERNAL_STATE_PREFIX @ ''* entries are reserved retry diagnostics'']"

definition fired_text :: "fired_state \<Rightarrow> string" where
  "fired_text state =
     concat (map (\<lambda>line. line @ [newline])
       (fired_header @ map (\<lambda>(key, value). key @ ''='' @ dec_int value) state))"

type_synonym file_system = "string \<Rightarrow> string option"

text \<open>
  What the operating system does to one call: creating the directory, the write (with the part of
  the text that reaches the temporary file when it fails), the rename, and the removal of the
  temporary file after a failed rename.
\<close>

record io_faults =
  fault_mkdir :: bool
  fault_write :: "string option"
  fault_rename :: bool
  fault_remove :: bool

datatype persist_error = InvalidEntry string int | IoFailure

definition tmp_path :: "string \<Rightarrow> string" where
  "tmp_path path = path @ ''.tmp''"

definition persist_fired_state ::
  "io_faults \<Rightarrow> string \<Rightarrow> fired_state \<Rightarrow> file_system \<Rightarrow> file_system list \<times> (persist_error + unit)" where
  "persist_fired_state faults path state fs =
     (case find (\<lambda>kv. \<not> valid_fired_entry kv) state of
        Some (key, value) \<Rightarrow> ([fs], Inl (InvalidEntry key value))
      | None \<Rightarrow>
          if fault_mkdir faults then ([fs], Inl IoFailure)
          else case fault_write faults of
            Some part \<Rightarrow> ([fs, fs(tmp_path path \<mapsto> part)], Inl IoFailure)
          | None \<Rightarrow>
              let written = fs(tmp_path path \<mapsto> fired_text state)
              in if fault_rename faults
                 then ([fs, written] @ (if fault_remove faults then [] else [written(tmp_path path := None)]),
                       Inl IoFailure)
                 else ([fs, written, written(path \<mapsto> fired_text state, tmp_path path := None)], Inr ()))"

section \<open>When a reminder is due\<close>

lemma scheduled_instant_eq:
  assumes c: "0 < c" "is_i64 c" and off: "0 \<le> off" "off < c" and now: "0 \<le> now" "is_i64 now"
  shows "scheduled_instant c off now = (now - off) div c * c + off"
proof -
  have sub: "sat64 (now - off) = now - off" using assms by (intro sat64_id) (auto simp: i64_defs)
  have eq: "(now - off) div c * c = (now - off) - (now - off) mod c" by (simp add: minus_mod_eq_div_mult)
  have m: "0 \<le> (now - off) mod c" "(now - off) mod c < c" using c by simp_all
  have "(- 1 * c) div c \<le> (now - off) div c" using assms by (intro zdiv_mono1) auto
  then have "- 1 \<le> (now - off) div c" using c by (subst (asm) nonzero_mult_div_cancel_right) auto
  then have "- 1 * c \<le> (now - off) div c * c" using c by (intro mult_right_mono) auto
  then have low: "- c \<le> (now - off) div c * c" by simp
  have p: "is_i64 ((now - off) div c * c)" using m low assms unfolding eq i64_defs by linarith
  have "is_i64 ((now - off) div c * c + off)" using m low assms unfolding eq i64_defs by linarith
  then show ?thesis using p by (simp add: scheduled_instant_def sub)
qed

lemma scheduled_instant_bounds:
  assumes "0 < c" "is_i64 c" "0 \<le> off" "off < c" "0 \<le> now" "is_i64 now"
  shows "scheduled_instant c off now \<le> now" "now < scheduled_instant c off now + c"
    "scheduled_instant c off now mod c = off"
proof -
  have eq: "scheduled_instant c off now = now - (now - off) mod c"
    using scheduled_instant_eq[OF assms] minus_mod_eq_div_mult[of "now - off" c] by simp
  have "0 \<le> (now - off) mod c" "(now - off) mod c < c" using assms(1) by simp_all
  then show "scheduled_instant c off now \<le> now" "now < scheduled_instant c off now + c"
    by (simp_all add: eq)
  show "scheduled_instant c off now mod c = off"
    using assms by (simp add: scheduled_instant_eq)
qed

text \<open>Instants are a whole number of cadences apart, so a period holds exactly one.\<close>

lemma scheduled_instant_unique:
  assumes c: "0 < c" "is_i64 c" and off: "0 \<le> off" "off < c" and now: "0 \<le> now" "is_i64 now"
    and t: "t \<le> now" "now < t + c" "t mod c = off"
  shows "scheduled_instant c off now = t"
proof -
  let ?t = "scheduled_instant c off now"
  note b = scheduled_instant_bounds[OF c off now]
  have "c dvd ?t - t" using b(3) t(3) by (simp add: mod_eq_dvd_iff[symmetric])
  then obtain k where k: "?t - t = c * k" by (rule dvdE)
  have less: "- c < c * k" "c * k < c" using b(1,2) t(1,2) k by linarith+
  have "\<not> 1 \<le> k" using less(2) mult_left_mono[of 1 k c] c(1) by auto
  moreover have "\<not> k \<le> - 1" using less(1) mult_left_mono[of k "- 1" c] c(1) by auto
  ultimately have "k = 0" by simp
  then show ?thesis using k by simp
qed

text \<open>
  \<open>scheduled_instant\<close> names, for every clock that is not negative, the one instant at or before
  now that is the offset past a multiple of the cadence and less than one cadence old; no step of
  its 64-bit arithmetic overflows.
\<close>

theorem scheduled_instant_exact:
  assumes "0 < c" "is_i64 c" "0 \<le> off" "off < c" "0 \<le> now" "is_i64 now"
  shows "scheduled_instant c off now = t \<longleftrightarrow> t \<le> now \<and> now < t + c \<and> t mod c = off"
  using scheduled_instant_bounds[OF assms] scheduled_instant_unique[OF assms] by blast

theorem scheduled_instant_exact_witness:
  "scheduled_instant 3600 600 10000 = 7800 \<longleftrightarrow> 7800 \<le> (10000::int) \<and> 10000 < 7800 + (3600::int) \<and> 7800 mod 3600 = (600::int)"
  by (rule scheduled_instant_exact) (simp_all add: i64_defs)

lemma phased_due_iff:
  assumes c: "0 < c" "is_i64 c" and off: "0 \<le> off" "off < c"
    and fired: "bt_get last_fired name = Some fired_at" "0 \<le> fired_at" "is_i64 fired_at"
    and now: "fired_at \<le> now" "is_i64 now"
  shows "is_due name c now last_fired (Some off) window \<longleftrightarrow>
    scheduled_instant c off fired_at + c \<le> now
    \<and> (case window of None \<Rightarrow> True | Some w \<Rightarrow> now - scheduled_instant c off now < w)"
proof -
  have now0: "0 \<le> now" using fired now by simp
  note b = scheduled_instant_bounds[OF c off now0 now(2)]
  note f = scheduled_instant_bounds[OF c off fired(2,3)]
  have age: "sat64 (now - scheduled_instant c off now) = now - scheduled_instant c off now"
    using b(1,2) c by (intro sat64_id) (auto simp: i64_defs)
  have "fired_at < scheduled_instant c off now \<longleftrightarrow> scheduled_instant c off fired_at + c \<le> now"
  proof
    assume "fired_at < scheduled_instant c off now"
    then show "scheduled_instant c off fired_at + c \<le> now"
      using scheduled_instant_unique[OF c off now0 now(2) _ _ f(3)] f(1) now(1) by fastforce
  next
    assume "scheduled_instant c off fired_at + c \<le> now"
    then show "fired_at < scheduled_instant c off now"
      using b f scheduled_instant_unique[OF c off fired(2,3) _ _ b(3)] by fastforce
  qed
  then show ?thesis using c(1) fired(1) age
    by (auto simp: is_due_def EVERY_TICK_def Let_def split: option.splits)
qed

text \<open>
  A phased reminder that fired is not due again before the next instant, and is due from that
  instant on (within its window, when it has one): it fires once per period.
\<close>

theorem phased_reminder_once_per_period:
  assumes c: "0 < c" "is_i64 c" and off: "0 \<le> off" "off < c"
    and fired: "bt_get last_fired name = Some fired_at" "0 \<le> fired_at" "is_i64 fired_at"
    and now: "fired_at \<le> now" "is_i64 now"
  shows "is_due name c now last_fired (Some off) window \<longleftrightarrow>
    scheduled_instant c off fired_at + c \<le> now
    \<and> (case window of None \<Rightarrow> True | Some w \<Rightarrow> now - scheduled_instant c off now < w)"
  using assms by (rule phased_due_iff)

theorem phased_reminder_once_per_period_witness:
  "\<not> is_due ''r'' 3600 10000 [(''r'', 9000)] (Some 600) None
   \<and> is_due ''r'' 3600 11400 [(''r'', 9000)] (Some 600) None"
proof -
  have s: "scheduled_instant 3600 600 9000 = 7800" by code_simp
  show ?thesis
    using phased_reminder_once_per_period[of 3600 600 "[(''r'', 9000)]" "''r''" 9000 10000 None]
      phased_reminder_once_per_period[of 3600 600 "[(''r'', 9000)]" "''r''" 9000 11400 None]
    by (simp add: s bt_get_def i64_defs)
qed

section \<open>The fired state survives the file\<close>

lemma breaks_are_whitespace: "set line_breaks \<subseteq> set tick_whitespace"
  by code_simp

lemma whitespace_bytes:
  "list_all (list_all (\<lambda>c. \<not> is_ascii_digit c \<and> c \<noteq> CHR ''='')) tick_whitespace"
  by code_simp

lemma newline_alone: "list_all (\<lambda>w. newline \<in> set w \<longrightarrow> w = [newline]) line_breaks"
  by code_simp

lemma header_lines: "list_all (\<lambda>h. \<not> any_of line_breaks h \<and> fired_line h = None) fired_header"
  by code_simp

lemma split_written_lines:
  "(\<And>l. l \<in> set ls \<Longrightarrow> \<not> any_of line_breaks l) \<Longrightarrow>
   split_lines (concat (map (\<lambda>l. l @ [newline]) ls)) = ls @ [[]]"
proof (induction ls)
  case Nil
  then show ?case by (simp add: split_lines_def split_of_def)
next
  case (Cons l ls)
  have nl: "[newline] \<in> set line_breaks" by (simp add: line_breaks_def)
  have "split_of line_breaks (l @ newline # r) = l # split_of line_breaks r" for r
    using Cons.prems[of l] newline_alone by (intro split_at_break[OF nl]) (auto simp: list_all_iff)
  then show ?case using Cons by (simp add: split_lines_def)
qed

lemma dec_int_nonneg: "0 \<le> v \<Longrightarrow> list_all is_ascii_digit (dec_int v) \<and> dec_int v \<noteq> []"
  by (simp add: dec_int_def dec_nat_digits)

lemma fired_entry_clean:
  assumes "valid_fired_entry (k, v)"
  shows "\<not> any_of tick_whitespace (k @ ''='' @ dec_int v)"
proof -
  have bytes: "\<not> is_ascii_digit c \<and> c \<noteq> CHR ''=''" if "w \<in> set tick_whitespace" "c \<in> set w" for w c
    using that whitespace_bytes by (simp add: list_all_iff)
  have digits: "is_ascii_digit c" if "c \<in> set (dec_int v)" for c
    using that dec_int_nonneg[of v] assms by (simp add: valid_fired_entry_def list_all_iff)
  have "\<not> any_of tick_whitespace (dec_int v)"
    using bytes digits by (intro any_of_outside) blast
  moreover have "\<not> any_of tick_whitespace k" using assms by (simp add: valid_fired_entry_def)
  moreover have "any_of tick_whitespace (k @ CHR ''='' # dec_int v) \<longleftrightarrow>
      any_of tick_whitespace k \<or> any_of tick_whitespace (dec_int v)"
    using bytes by (intro any_of_append) blast
  ultimately show ?thesis by simp
qed

lemma fired_line_entry:
  assumes "valid_fired_entry (k, v)" and "is_i64 v"
  shows "fired_line (k @ ''='' @ dec_int v) = (if starts_with k ''#'' then None else Some (k, v))"
proof -
  have trim: "tick_trim (k @ ''='' @ dec_int v) = k @ ''='' @ dec_int v"
    unfolding tick_trim_def by (rule trim_clean[OF fired_entry_clean[OF assms(1)]])
  have split: "split_once (CHR ''='') (k @ ''='' @ dec_int v) = Some (k, dec_int v)"
    using assms(1) by (simp add: split_once_Some valid_fired_entry_def)
  have "starts_with (k @ ''='' @ dec_int v) ''#'' \<longleftrightarrow> starts_with k ''#''"
    using assms(1) by (cases k) (auto simp: valid_fired_entry_def)
  then show ?thesis
    using assms dec_int_nonneg[of v] parse_i64_dec_int[OF assms(2)]
    by (simp add: fired_line_def Let_def trim[simplified] split[simplified] valid_fired_entry_def)
qed

lemma map_filter_written:
  "(\<And>kv. kv \<in> set state \<Longrightarrow> valid_fired_entry kv \<and> is_i64 (snd kv)) \<Longrightarrow>
   List.map_filter fired_line (map (\<lambda>(k, v). k @ ''='' @ dec_int v) state) =
     filter (\<lambda>kv. \<not> starts_with (fst kv) ''#'') state"
proof (induction state)
  case (Cons kv state)
  obtain k v where kv: "kv = (k, v)" by (cases kv)
  have "fired_line (k @ ''='' @ dec_int v) = (if starts_with k ''#'' then None else Some (k, v))"
    using Cons.prems[of kv] by (intro fired_line_entry) (auto simp: kv)
  then show ?case using Cons by (simp add: kv List.map_filter_simps)
qed (simp add: List.map_filter_simps)

lemma map_filter_append: "List.map_filter f (xs @ ys) = List.map_filter f xs @ List.map_filter f ys"
  by (simp add: List.map_filter_def)

lemma load_written:
  assumes "bt_ok state" and "\<And>kv. kv \<in> set state \<Longrightarrow> valid_fired_entry kv \<and> is_i64 (snd kv)"
  shows "load_fired_state (Some (fired_text state)) = filter (\<lambda>kv. \<not> starts_with (fst kv) ''#'') state"
proof -
  let ?es = "map (\<lambda>(k, v). k @ ''='' @ dec_int v) state"
  have "\<not> any_of line_breaks l" if mem: "l \<in> set (fired_header @ ?es)" for l
  proof (cases "l \<in> set fired_header")
    case True
    then show ?thesis using header_lines by (simp add: list_all_iff)
  next
    case False
    then obtain k v where kv: "(k, v) \<in> set state" "l = k @ ''='' @ dec_int v" using mem by auto
    then show ?thesis
      using fired_entry_clean[of k v] assms(2) any_of_mono[OF _ breaks_are_whitespace] by blast
  qed
  then have "split_lines (fired_text state) = (fired_header @ ?es) @ [[]]"
    unfolding fired_text_def by (rule split_written_lines)
  moreover have "List.map_filter fired_line fired_header = []"
    using header_lines by (simp add: List.map_filter_def list_all_iff)
  moreover have "List.map_filter fired_line [[]] = []"
    by (simp add: List.map_filter_simps fired_line_def tick_trim_def trim_of_def trim_start_of_def)
  ultimately have "List.map_filter fired_line (split_lines (fired_text state)) =
      filter (\<lambda>kv. \<not> starts_with (fst kv) ''#'') state"
    by (simp only: map_filter_append map_filter_written[OF assms(2)] append_Nil append_Nil2)
  then show ?thesis
    using bt_collect_ok[OF bt_ok_filter[OF assms(1)]] by (simp add: load_fired_state_def)
qed

lemma persisted:
  assumes "persist_fired_state faults path state fs = (states, Inr ())"
  shows "last states path = Some (fired_text state)" "kv \<in> set state \<Longrightarrow> valid_fired_entry kv"
  using assms
  by (cases kv; auto simp: persist_fired_state_def tmp_path_def Let_def find_None_iff split: option.splits if_splits prod.splits)+

text \<open>
  What \<open>persist_fired_state\<close> writes, \<open>load_fired_state\<close> reads back exactly, for every state it
  accepts in which no key starts with a number sign.
\<close>

theorem fired_state_roundtrip:
  assumes "bt_ok state"
    and "\<And>k v. (k, v) \<in> set state \<Longrightarrow> valid_fired_entry (k, v) \<and> is_i64 v \<and> \<not> starts_with k ''#''"
    and "persist_fired_state faults path state fs = (states, Inr ())"
  shows "load_fired_state (last states path) = state"
proof -
  have "last states path = Some (fired_text state)" by (rule persisted[OF assms(3)])
  moreover have "filter (\<lambda>kv. \<not> starts_with (fst kv) ''#'') state = state"
    using assms(2) by (auto simp: filter_id_conv)
  ultimately show ?thesis using load_written[OF assms(1)] assms(2) by (metis prod.collapse)
qed

theorem fired_state_roundtrip_witness:
  "load_fired_state (last (fst (persist_fired_state
      \<lparr>fault_mkdir = False, fault_write = None, fault_rename = False, fault_remove = False\<rparr>
      ''s'' [(''a'', 5), (''b'', 1700000000)] Map.empty)) ''s'') = [(''a'', 5), (''b'', 1700000000)]"
proof -
  let ?f = "\<lparr>fault_mkdir = False, fault_write = None, fault_rename = False, fault_remove = False\<rparr>"
  let ?st = "[(''a'', 5), (''b'', 1700000000)] :: fired_state"
  have ok: "bt_ok ?st" by code_simp
  have valid: "valid_fired_entry (''a'', 5)" "valid_fired_entry (''b'', 1700000000)" by code_simp+
  have "snd (persist_fired_state ?f ''s'' ?st Map.empty) = Inr ()"
    using valid by (simp add: persist_fired_state_def Let_def)
  then have run: "persist_fired_state ?f ''s'' ?st Map.empty =
      (fst (persist_fired_state ?f ''s'' ?st Map.empty), Inr ())" by (metis prod.collapse)
  show ?thesis by (rule fired_state_roundtrip[OF ok _ run]) (auto simp: valid i64_defs)
qed

text \<open>
  C38: What a process reads after a persist that succeeded is exactly what was persisted, less every entry
  whose key starts with a number sign: \<open>persist_fired_state\<close> accepts and writes such an entry, and
  \<open>load_fired_state\<close> takes its line for a comment, so a reminder whose name starts with a number sign
  never keeps its last-fired epoch, and every other one does.
\<close>

theorem fired_state_reload_exact:
  assumes "bt_ok state" "\<And>kv. kv \<in> set state \<Longrightarrow> is_i64 (snd kv)"
    and "persist_fired_state faults path state fs = (states, Inr ())"
  shows "load_fired_state (last states path) = filter (\<lambda>kv. \<not> starts_with (fst kv) ''#'') state"
  unfolding persisted(1)[OF assms(3)] using persisted(2)[OF assms(3)] assms(2) by (intro load_written[OF assms(1)]) blast

theorem fired_state_reload_exact_witness:
  "\<exists>states. persist_fired_state \<lparr>fault_mkdir = False, fault_write = None, fault_rename = False, fault_remove = False\<rparr>
      ''s'' [(''#nightly'', 5), (''a'', 7)] Map.empty = (states, Inr ())
    \<and> load_fired_state (last states ''s'') = [(''a'', 7)]"
proof -
  let ?f = "\<lparr>fault_mkdir = False, fault_write = None, fault_rename = False, fault_remove = False\<rparr>"
  let ?st = "[(''#nightly'', 5), (''a'', 7)]"
  have valid: "valid_fired_entry (''#nightly'', 5)" "valid_fired_entry (''a'', 7)" by code_simp+
  obtain states where run: "persist_fired_state ?f ''s'' ?st Map.empty = (states, Inr ())"
    using valid by (simp add: persist_fired_state_def Let_def)
  have ok: "bt_ok ?st" by (simp add: bt_ok_def)
  have "load_fired_state (last states ''s'') = filter (\<lambda>kv. \<not> starts_with (fst kv) ''#'') ?st"
    by (rule fired_state_reload_exact[OF ok _ run]) (auto simp: i64_defs)
  also have "\<dots> = [(''a'', 7)]" by code_simp
  finally show ?thesis using run by blast
qed

text \<open>
  C39: The store is replaced atomically: in every state of the file system that a crash or a fault
  can leave behind, the fired-state file holds either what it held before or the complete new
  text, and after an error it holds what it held before.
\<close>

theorem persist_atomic:
  assumes "persist_fired_state faults path state fs = (states, res)" and "crash \<in> set states"
  shows "(crash path = fs path \<or> crash path = Some (fired_text state))
    \<and> (res \<noteq> Inr () \<longrightarrow> crash path = fs path)
    \<and> (res = Inr () \<longrightarrow> last states path = Some (fired_text state) \<and> last states (tmp_path path) = None)"
  using assms
  by (auto simp: persist_fired_state_def tmp_path_def Let_def split: option.splits if_splits)

theorem persist_atomic_witness:
  "(fst (persist_fired_state \<lparr>fault_mkdir = False, fault_write = Some ''# ti'', fault_rename = False, fault_remove = False\<rparr>
      ''s'' [(''a'', 5)] [''s'' \<mapsto> ''old'']) ! 1) ''s'' = Some ''old''"
proof -
  let ?f = "\<lparr>fault_mkdir = False, fault_write = Some ''# ti'', fault_rename = False, fault_remove = False\<rparr>"
  have "valid_fired_entry (''a'', 5)" by code_simp
  then have run: "persist_fired_state ?f ''s'' [(''a'', 5)] [''s'' \<mapsto> ''old''] =
      ([[''s'' \<mapsto> ''old''], [''s'' \<mapsto> ''old'', ''s.tmp'' \<mapsto> ''# ti'']], Inl IoFailure)"
    by (simp add: persist_fired_state_def tmp_path_def)
  from persist_atomic[OF run, of "[''s'' \<mapsto> ''old'', ''s.tmp'' \<mapsto> ''# ti'']"] show ?thesis by (simp add: run)
qed

end
