(* ===== verification/Tick_Render.thy ===== *)
theory Tick_Render
  imports Tick_Cadence
begin

text \<open>
  The pure half of \<open>engine.rs\<close>: captured values, the reading of a gate's result, interpolation and
  the search for unresolved placeholders, the rendering of an emission, the self-report actions,
  and the accounting of consecutive render failures in the fired state.
\<close>

section \<open>Captured values and gate results\<close>

definition kv_line :: "string \<Rightarrow> (string \<times> string) option" where
  "kv_line raw_line =
     (let line = tick_trim raw_line
      in if line = [] \<or> starts_with line ''#'' then None
         else case split_once (CHR ''='') line of
           None \<Rightarrow> None
         | Some (raw_key, raw_value) \<Rightarrow>
             let key = tick_trim raw_key
             in if key \<noteq> [] then Some (key, tick_trim raw_value) else None)"

definition parse_kv_lines :: "string \<Rightarrow> (string, string) index_map" where
  "parse_kv_lines text =
     fold (\<lambda>(k, v). im_insert k v) (List.map_filter kv_line (split_lines text)) []"

text \<open>\<open>probe\<close> is \<open>FileAgeProbe::newest_age_secs\<close>.\<close>

definition evaluate_health :: "(string \<Rightarrow> int \<Rightarrow> int option) \<Rightarrow> int \<Rightarrow> health_check \<Rightarrow> string" where
  "evaluate_health probe now hc =
     (let age = probe (hc_glob hc) now;
          status = (case age of
              None \<Rightarrow> HEALTH_STATUS_MISSING
            | Some a \<Rightarrow> if a \<le> hc_threshold_secs hc then HEALTH_STATUS_OK else HEALTH_STATUS_STALE)
      in format_health (hc_name hc) status age (hc_threshold_secs hc) (hc_detail hc))"

definition NO_RESULT_EXIT :: int where "NO_RESULT_EXIT = 75"

definition REPEATED_RENDER_FAILURE_THRESHOLD :: int where "REPEATED_RENDER_FAILURE_THRESHOLD = 3"

datatype gate_outcome = Quiet | Fire | NoResult

fun gate_fires :: "gate_when \<Rightarrow> int \<Rightarrow> string \<Rightarrow> bool" where
  "gate_fires WhenSuccess returncode stdout \<longleftrightarrow> returncode = 0"
| "gate_fires WhenFailure returncode stdout \<longleftrightarrow> returncode \<noteq> 0"
| "gate_fires WhenNonempty returncode stdout \<longleftrightarrow> tick_trim stdout \<noteq> []"
| "gate_fires WhenAlways returncode stdout \<longleftrightarrow> True"

type_synonym captured = "(string, string) index_map"

type_synonym gate_eval = "string + gate_outcome \<times> captured"

definition interpret_gate_result :: "gate \<Rightarrow> gate_result \<Rightarrow> gate_eval" where
  "interpret_gate_result g result =
     (if \<not> gr_ok result
      then Inl (''gate command could not run ('' @ string_repr (gt_cmd g) @ ''): ''
             @ (case gr_error result of Some e \<Rightarrow> e | None \<Rightarrow> ''None''))
      else let captured = (if gt_capture g then parse_kv_lines (gr_stdout result) else [])
           in if gr_returncode result = NO_RESULT_EXIT then Inr (NoResult, captured)
              else Inr (if gate_fires (gt_when g) (gr_returncode result) (gr_stdout result)
                        then Fire else Quiet, captured))"

text \<open>
  \<open>run\<close> is \<open>GateRunner::run\<close>, with \<open>None\<close> for a call that panics.
\<close>

definition eval_gate :: "(string \<Rightarrow> nat option \<Rightarrow> gate_result option) \<Rightarrow> gate option \<Rightarrow> gate_eval option" where
  "eval_gate run gate_opt =
     (case gate_opt of
        None \<Rightarrow> Some (Inr (Fire, []))
      | Some g \<Rightarrow> map_option (interpret_gate_result g)
          (run (gt_cmd g)
            (Option.bind (gt_timeout_secs g) (\<lambda>secs. if 0 \<le> secs then Some (nat secs) else None))))"

section \<open>Self-report actions\<close>

definition placeholder_names :: "string list \<Rightarrow> string" where
  "placeholder_names placeholders =
     str_join '','' (map (\<lambda>p.
       case Option.bind (strip_prefix p ''{'') (\<lambda>v. strip_suffix v ''}'') of
         Some name \<Rightarrow> name | None \<Rightarrow> p) placeholders)"

definition action_skill :: "reminder \<Rightarrow> string" where
  "action_skill r = (if em_skill (rm_emit r) = [] then ''tick-hub-no-signal'' else em_skill (rm_emit r))"

definition no_signal_action :: "reminder \<Rightarrow> string \<Rightarrow> string \<Rightarrow> string list \<Rightarrow> string" where
  "no_signal_action r reason raw_detail missing_placeholders =
     (let detail = take_chars 240 (str_join '' '' (split_whitespace raw_detail));
          missing = placeholder_names missing_placeholders;
          fields = [(''component'', ''tick-hub-reporting''), (''outcome'', ''NO-SIGNAL''),
              (''gate'', rm_name r), (''reason'', reason)]
            @ (if detail \<noteq> [] then [(''detail'', detail)] else [])
            @ (if missing_placeholders \<noteq> [] then [(''missing_placeholders'', missing)] else []);
          title = ''NO-SIGNAL gate='' @ rm_name r @ '': '' @ reason
            @ (if missing_placeholders \<noteq> [] then ''; missing placeholder(s)='' @ missing else [])
      in format_action (action_skill r) fields title)"

definition repeated_render_failure_action :: "reminder \<Rightarrow> int \<Rightarrow> int \<Rightarrow> string list \<Rightarrow> string" where
  "repeated_render_failure_action r consecutive_failures first_failure_epoch missing_placeholders =
     (let missing = placeholder_names missing_placeholders
      in format_action (action_skill r)
           [(''component'', ''tick-hub-reporting''), (''outcome'', ''NO-SIGNAL''),
            (''gate'', rm_name r), (''reason'', ''unresolved-placeholder''),
            (''consecutive_failures'', dec_int consecutive_failures),
            (''first_failure_epoch'', dec_int first_failure_epoch),
            (''missing_placeholders'', missing)]
           (''NO-SIGNAL gate='' @ rm_name r @ '': unresolved-placeholder repeated for ''
            @ dec_int consecutive_failures @ '' consecutive render failures since first_failure_epoch=''
            @ dec_int first_failure_epoch @ ''; missing placeholder(s)='' @ missing))"

section \<open>Rendering\<close>

definition interpolate :: "string \<Rightarrow> (string, string) index_map \<Rightarrow> string" where
  "interpolate text values = fold (\<lambda>(key, v) t. str_replace t (''{'' @ key @ ''}'') v) values text"

definition placeholder_start :: "char \<Rightarrow> bool" where
  "placeholder_start c \<longleftrightarrow> is_ascii_alphabetic c \<or> c = CHR ''_''"

definition placeholder_char :: "char \<Rightarrow> bool" where
  "placeholder_char c \<longleftrightarrow> is_ascii_alphanumeric c \<or> c \<in> {CHR ''_'', CHR ''.'', CHR ''-''}"

text \<open>
  The scan of \<open>unresolved_placeholders\<close>; \<open>prev\<close> is the byte before the index, and the text is what
  remains from the index on.
\<close>

function placeholder_scan :: "char option \<Rightarrow> string \<Rightarrow> string list" where
  "placeholder_scan prev [] = []"
| "placeholder_scan prev (c # s) =
     (if c \<noteq> CHR ''{'' \<or> prev = Some (CHR ''{'') then placeholder_scan (Some c) s
      else case s of
        [] \<Rightarrow> placeholder_scan (Some c) s
      | f # r \<Rightarrow>
          if \<not> placeholder_start f then placeholder_scan (Some c) s
          else let name = takeWhile placeholder_char r; after = dropWhile placeholder_char r
               in if after \<noteq> [] \<and> hd after = CHR ''}'' \<and> (tl after = [] \<or> hd (tl after) \<noteq> CHR ''}'')
                  then (c # f # name @ ''}'') # placeholder_scan (Some (CHR ''}'')) (tl after)
                  else placeholder_scan (Some c) s)"
  by pat_completeness auto
termination
proof (relation "measure (\<lambda>(prev, s). length s)", goal_cases)
  case (5 prev c s f r name after)
  then have "length after \<le> length r" by (simp add: length_dropWhile_le)
  then show ?case using 5 by simp
qed auto

definition unresolved_placeholders :: "string \<Rightarrow> string btree_set" where
  "unresolved_placeholders text = bs_collect (placeholder_scan None text)"

text \<open>The fields after captured values have replaced and filled the configured ones.\<close>

definition merged_fields :: "emit \<Rightarrow> captured \<Rightarrow> (string, string) index_map" where
  "merged_fields em captured =
     fold (\<lambda>key merged.
         if im_get captured key \<noteq> None then merged
         else im_insert key
           (interpolate (case im_get merged key of Some v \<Rightarrow> v | None \<Rightarrow> []) merged) merged)
       (map fst (em_fields em))
       (fold (\<lambda>(k, v). im_insert k v) captured (em_fields em))"

text \<open>An error is the list of the unresolved placeholders.\<close>

definition render_emit :: "emit \<Rightarrow> captured \<Rightarrow> string list + string" where
  "render_emit em captured =
     (let merged = merged_fields em captured;
          title = interpolate (em_title em) merged;
          unresolved = fold (\<lambda>(_, v) found. fold bs_insert (unresolved_placeholders v) found) merged
            (unresolved_placeholders title)
      in if unresolved \<noteq> [] then Inl unresolved
         else Inr (case em_kind em of
             EmitNote \<Rightarrow> format_note title
           | EmitAction \<Rightarrow> format_action (em_skill em) merged title))"

definition unresolved_error_text :: "string list \<Rightarrow> string" where
  "unresolved_error_text placeholders =
     ''refusing emission with unresolved placeholder(s): '' @ str_join '', '' placeholders"

section \<open>Accounting of render failures\<close>

definition clear_render_failure_state :: "string \<Rightarrow> fired_state \<Rightarrow> fired_state" where
  "clear_render_failure_state name state =
     (let (count_key, first_key) = unresolved_render_state_keys name
      in bt_remove first_key (bt_remove count_key state))"

definition record_render_failure :: "string \<Rightarrow> int \<Rightarrow> fired_state \<Rightarrow> fired_state \<times> int \<times> int" where
  "record_render_failure name now state =
     (let (count_key, first_key) = unresolved_render_state_keys name;
          previous_count = max (case bt_get state count_key of Some n \<Rightarrow> n | None \<Rightarrow> 0) 0;
          consecutive = sat64 (previous_count + 1);
          first_failure_epoch =
            (if previous_count = 0 then max now 0
             else max (case bt_get state first_key of Some e \<Rightarrow> e | None \<Rightarrow> max now 0) 0)
      in (bt_insert first_key first_failure_epoch (bt_insert count_key consecutive state),
          consecutive, first_failure_epoch))"

definition keep_render_state :: "string list \<Rightarrow> string \<Rightarrow> bool" where
  "keep_render_state reminder_names key =
     (case strip_prefix key UNRESOLVED_RENDER_STATE_PREFIX of
        None \<Rightarrow> True
      | Some rest \<Rightarrow>
          (case (case strip_suffix rest UNRESOLVED_RENDER_COUNT_SUFFIX of
                   Some name \<Rightarrow> Some name
                 | None \<Rightarrow> strip_suffix rest UNRESOLVED_RENDER_FIRST_SUFFIX) of
             None \<Rightarrow> False
           | Some name \<Rightarrow> name \<noteq> [] \<and> name \<in> set reminder_names))"

definition prune_removed_render_failure_state :: "string list \<Rightarrow> fired_state \<Rightarrow> fired_state" where
  "prune_removed_render_failure_state reminder_names state =
     bt_retain (keep_render_state reminder_names) state"

section \<open>Placeholders\<close>

text \<open>
  An unresolved placeholder occurs in a text: a brace that no brace precedes, a name, and a closing
  brace that no brace follows. \<open>prev\<close> is the byte before the text.
\<close>

definition placeholder_at :: "char option \<Rightarrow> string \<Rightarrow> bool" where
  "placeholder_at prev s \<longleftrightarrow>
     (\<exists>f name b. s = CHR ''{'' # f # name @ CHR ''}'' # b \<and> prev \<noteq> Some (CHR ''{'')
        \<and> placeholder_start f \<and> list_all placeholder_char name \<and> (b = [] \<or> hd b \<noteq> CHR ''}''))"

fun has_placeholder :: "char option \<Rightarrow> string \<Rightarrow> bool" where
  "has_placeholder prev [] \<longleftrightarrow> False"
| "has_placeholder prev (c # s) \<longleftrightarrow> placeholder_at prev (c # s) \<or> has_placeholder (Some c) s"

lemma not_placeholder_char [simp]: "\<not> placeholder_char (CHR ''}'')" "\<not> placeholder_char (CHR ''{'')"
  by (simp_all add: placeholder_char_def ascii_defs)

lemma span_split:
  assumes "list_all P name" and "\<not> P d"
  shows "takeWhile P (name @ d # b) = name" "dropWhile P (name @ d # b) = d # b"
  using assms by (induction name) auto

text \<open>The scan stops at the first placeholder and looks at every position before it.\<close>

lemma placeholder_at_Cons:
  "placeholder_at prev (c # f # r) \<longleftrightarrow>
     c = CHR ''{'' \<and> prev \<noteq> Some (CHR ''{'') \<and> placeholder_start f
     \<and> (let after = dropWhile placeholder_char r
        in after \<noteq> [] \<and> hd after = CHR ''}'' \<and> (tl after = [] \<or> hd (tl after) \<noteq> CHR ''}''))"
  (is "?l \<longleftrightarrow> ?r")
proof
  assume ?l
  then show ?r by (auto simp: placeholder_at_def Let_def span_split)
next
  assume r: ?r
  then obtain b where b: "dropWhile placeholder_char r = CHR ''}'' # b" "b = [] \<or> hd b \<noteq> CHR ''}''"
    by (cases "dropWhile placeholder_char r") (auto simp: Let_def)
  have split: "r = takeWhile placeholder_char r @ CHR ''}'' # b"
    using takeWhile_dropWhile_id[of placeholder_char r] by (simp only: b(1))
  have "list_all placeholder_char (takeWhile placeholder_char r)"
    using set_takeWhileD by (fastforce simp: list_all_iff)
  then have "c # f # r = CHR ''{'' # f # takeWhile placeholder_char r @ CHR ''}'' # b
      \<and> prev \<noteq> Some (CHR ''{'') \<and> placeholder_start f
      \<and> list_all placeholder_char (takeWhile placeholder_char r) \<and> (b = [] \<or> hd b \<noteq> CHR ''}'')"
    using r b(2) split by simp
  then show ?l unfolding placeholder_at_def by blast
qed

lemma placeholder_at_single: "\<not> placeholder_at prev [c]"
  by (simp add: placeholder_at_def)

lemma placeholder_scan_Nil: "placeholder_scan prev s = [] \<longleftrightarrow> \<not> has_placeholder prev s"
proof (induction prev s rule: placeholder_scan.induct)
  case (2 prev c s)
  show ?case
  proof (cases "placeholder_at prev (c # s)")
    case True
    then obtain f r where s: "s = f # r" by (auto simp: placeholder_at_def)
    show ?thesis using True by (simp add: s placeholder_at_Cons Let_def)
  next
    case False
    have "placeholder_scan prev (c # s) = placeholder_scan (Some c) s"
      using False by (cases s) (auto simp: placeholder_at_Cons Let_def)
    moreover have "placeholder_scan (Some c) s = [] \<longleftrightarrow> \<not> has_placeholder (Some c) s"
    proof (cases "c \<noteq> CHR ''{'' \<or> prev = Some (CHR ''{'')")
      case True
      then show ?thesis by (rule "2.IH"(1))
    next
      case open_brace: False
      show ?thesis
      proof (cases s)
        case (Cons f r)
        show ?thesis
        proof (cases "placeholder_start f")
          case True
          then show ?thesis
            using "2.IH"(5)[OF open_brace Cons _ refl refl] False open_brace
            by (auto simp: Cons placeholder_at_Cons Let_def)
        next
          case False
          then show ?thesis using "2.IH"(3)[OF open_brace Cons] by (simp add: Cons)
        qed
      qed simp
    qed
    ultimately show ?thesis using False by simp
  qed
qed simp

lemma unresolved_Nil: "unresolved_placeholders s = [] \<longleftrightarrow> \<not> has_placeholder None s"
  by (simp add: unresolved_placeholders_def placeholder_scan_Nil)

lemma set_unresolved_fold:
  "set (fold (\<lambda>(_, v) found. fold bs_insert (unresolved_placeholders v) found) kvs found) =
     set found \<union> (\<Union>kv \<in> set kvs. set (unresolved_placeholders (snd kv)))"
  by (induction kvs arbitrary: found) auto

text \<open>
  \<open>render_emit\<close> refuses exactly the emissions whose interpolated title or some merged field value
  still holds a placeholder; what it renders is the formatted line of that title and those values.
\<close>

theorem render_emit_exact:
  fixes em captured
  defines "merged \<equiv> merged_fields em captured"
  defines "title \<equiv> interpolate (em_title em) merged"
  shows "render_emit em captured = Inr line \<longleftrightarrow>
      \<not> has_placeholder None title \<and> (\<forall>kv \<in> set merged. \<not> has_placeholder None (snd kv))
      \<and> line = (case em_kind em of EmitNote \<Rightarrow> format_note title
                 | EmitAction \<Rightarrow> format_action (em_skill em) merged title)"
proof -
  let ?u = "fold (\<lambda>(_, v) found. fold bs_insert (unresolved_placeholders v) found) merged (unresolved_placeholders title)"
  have "?u = [] \<longleftrightarrow> set ?u = {}" by simp
  also have "\<dots> \<longleftrightarrow> unresolved_placeholders title = [] \<and> (\<forall>kv \<in> set merged. unresolved_placeholders (snd kv) = [])"
    unfolding set_unresolved_fold by auto
  also have "\<dots> \<longleftrightarrow> \<not> has_placeholder None title \<and> (\<forall>kv \<in> set merged. \<not> has_placeholder None (snd kv))"
    by (simp add: unresolved_Nil)
  finally have none: "?u = [] \<longleftrightarrow> \<not> has_placeholder None title \<and> (\<forall>kv \<in> set merged. \<not> has_placeholder None (snd kv))" .
  have "render_emit em captured = (if ?u \<noteq> [] then Inl ?u else Inr (case em_kind em of
      EmitNote \<Rightarrow> format_note title | EmitAction \<Rightarrow> format_action (em_skill em) merged title))"
    by (simp only: render_emit_def Let_def merged_def title_def)
  then show ?thesis using none by (cases "?u = []") auto
qed

theorem render_emit_exact_witness:
  "render_emit \<lparr>em_kind = EmitNote, em_title = ''pr {n}'', em_skill = [], em_fields = []\<rparr> [(''n'', ''7'')] = Inr ''NOTE: pr 7''
   \<and> \<not> has_placeholder None ''pr 7''"
proof -
  let ?em = "\<lparr>em_kind = EmitNote, em_title = ''pr {n}'', em_skill = [], em_fields = []\<rparr>"
  have "render_emit ?em [(''n'', ''7'')] = Inr ''NOTE: pr 7''" by code_simp
  moreover have "interpolate (em_title ?em) (merged_fields ?em [(''n'', ''7'')]) = ''pr 7''" by code_simp
  ultimately show ?thesis using render_emit_exact[of ?em "[(''n'', ''7'')]" "''NOTE: pr 7''"] by simp
qed

section \<open>Consecutive failures\<close>

lemma state_keys_distinct:
  "fst (unresolved_render_state_keys a) \<noteq> snd (unresolved_render_state_keys b)"
proof
  assume "fst (unresolved_render_state_keys a) = snd (unresolved_render_state_keys b)"
  then have "last (fst (unresolved_render_state_keys a)) = last (snd (unresolved_render_state_keys b))" by simp
  then show False
    by (simp add: unresolved_render_state_keys_def Let_def UNRESOLVED_RENDER_COUNT_SUFFIX_def
        UNRESOLVED_RENDER_FIRST_SUFFIX_def)
qed

definition failure_count :: "fired_state \<Rightarrow> string \<Rightarrow> int option" where
  "failure_count state name = bt_get state (fst (unresolved_render_state_keys name))"

definition failure_first :: "fired_state \<Rightarrow> string \<Rightarrow> int option" where
  "failure_first state name = bt_get state (snd (unresolved_render_state_keys name))"

lemma clear_render_failure_get:
  "bt_get (clear_render_failure_state name state) k =
     (if k = fst (unresolved_render_state_keys name) \<or> k = snd (unresolved_render_state_keys name)
      then None else bt_get state k)"
  by (simp add: clear_render_failure_state_def bt_get_remove split: prod.splits)

lemma bt_ok_clear: "bt_ok state \<Longrightarrow> bt_ok (clear_render_failure_state name state)"
  by (simp add: clear_render_failure_state_def bt_ok_remove split: prod.splits)

lemma bt_ok_record_failure: "bt_ok state \<Longrightarrow> bt_ok (fst (record_render_failure name now state))"
  by (simp add: record_render_failure_def Let_def bt_ok_insert split: prod.splits)

lemma record_render_failure_get:
  assumes "bt_ok state"
  shows "bt_get (fst (record_render_failure name now state)) k =
    (if k = snd (unresolved_render_state_keys name) then Some (snd (snd (record_render_failure name now state)))
     else if k = fst (unresolved_render_state_keys name) then Some (fst (snd (record_render_failure name now state)))
     else bt_get state k)"
  using assms by (simp add: record_render_failure_def Let_def bt_get_insert bt_ok_insert split: prod.splits)

lemma record_render_failure_values:
  "snd (record_render_failure name now state) =
     (let previous = max (case failure_count state name of Some n \<Rightarrow> n | None \<Rightarrow> 0) 0
      in (sat64 (previous + 1),
          if previous = 0 then max now 0
          else max (case failure_first state name of Some e \<Rightarrow> e | None \<Rightarrow> max now 0) 0))"
  by (simp add: record_render_failure_def Let_def case_prod_unfold failure_count_def failure_first_def)

definition record_failures :: "string \<Rightarrow> int list \<Rightarrow> fired_state \<Rightarrow> fired_state" where
  "record_failures name epochs state = fold (\<lambda>now st. fst (record_render_failure name now st)) epochs state"

text \<open>
  After render failures of one reminder at the times \<open>t\<close>, \<open>ts\<close> with nothing in between, the
  count is the number of failures and the first-failure epoch is that of the first one; clearing
  removes both and changes no other entry.
\<close>

theorem render_failures_counted:
  assumes "bt_ok state" and "failure_count state name = None" and "length ts < 1000000"
  shows "failure_count (record_failures name (t # ts) state) name = Some (1 + int (length ts))
    \<and> failure_first (record_failures name (t # ts) state) name = Some (max t 0)
    \<and> failure_count (clear_render_failure_state name (record_failures name (t # ts) state)) name = None
    \<and> failure_first (clear_render_failure_state name (record_failures name (t # ts) state)) name = None"
proof -
  have small: "is_i64 (1 + int n)" if "n < 1000001" for n using that by (simp add: i64_defs)
  have "bt_ok (record_failures name (t # ts) state)
    \<and> failure_count (record_failures name (t # ts) state) name = Some (1 + int (length ts))
    \<and> failure_first (record_failures name (t # ts) state) name = Some (max t 0)"
    using assms(3)
  proof (induction ts rule: rev_induct)
    case Nil
    show ?case
      using assms(1,2) small[of 0] state_keys_distinct[of name name]
      by (simp add: record_failures_def failure_count_def failure_first_def record_render_failure_get
          bt_ok_record_failure record_render_failure_values)
  next
    case (snoc x ts)
    let ?st = "record_failures name (t # ts) state"
    have IH: "bt_ok ?st" "failure_count ?st name = Some (1 + int (length ts))" "failure_first ?st name = Some (max t 0)"
      using snoc by auto
    have step: "record_failures name (t # ts @ [x]) state = fst (record_render_failure name x ?st)"
      by (simp add: record_failures_def)
    have vals: "snd (record_render_failure name x ?st) = (1 + int (length (ts @ [x])), max t 0)"
      using IH snoc.prems small[of "length (ts @ [x])"]
      by (simp add: record_render_failure_values Let_def add.commute)
    show ?case
      using IH(1) vals state_keys_distinct[of name name]
      by (simp add: step bt_ok_record_failure failure_count_def failure_first_def record_render_failure_get)
  qed
  then show ?thesis by (simp add: failure_count_def failure_first_def clear_render_failure_get)
qed

theorem render_failures_counted_witness:
  "failure_count (record_failures ''r'' [100, 200, 300] []) ''r'' = Some 3
   \<and> failure_first (record_failures ''r'' [100, 200, 300] []) ''r'' = Some 100"
  using render_failures_counted[of "[]" "''r''" "[200, 300]" 100] by (simp add: failure_count_def)

text \<open>
  Pruning keeps every entry that is not failure accounting, and of the accounting exactly the
  entries of reminders that are still configured.
\<close>

lemma prune_render_state_exact:
  assumes "name \<noteq> []"
  shows "failure_count (prune_removed_render_failure_state names state) name =
      (if name \<in> set names then failure_count state name else None)
    \<and> failure_first (prune_removed_render_failure_state names state) name =
      (if name \<in> set names then failure_first state name else None)
    \<and> (\<not> starts_with k UNRESOLVED_RENDER_STATE_PREFIX \<longrightarrow>
         bt_get (prune_removed_render_failure_state names state) k = bt_get state k)"
proof -
  have count: "keep_render_state names (fst (unresolved_render_state_keys name)) \<longleftrightarrow> name \<in> set names"
    using assms by (simp add: keep_render_state_def unresolved_render_state_keys_def Let_def)
  have "\<not> suffix UNRESOLVED_RENDER_COUNT_SUFFIX (name @ UNRESOLVED_RENDER_FIRST_SUFFIX)"
    by (auto simp: UNRESOLVED_RENDER_COUNT_SUFFIX_def UNRESOLVED_RENDER_FIRST_SUFFIX_def suffix_def append_eq_append_conv2
        Cons_eq_append_conv)
  then have first: "keep_render_state names (snd (unresolved_render_state_keys name)) \<longleftrightarrow> name \<in> set names"
    using assms strip_suffix_append[of name UNRESOLVED_RENDER_FIRST_SUFFIX]
    by (simp add: keep_render_state_def unresolved_render_state_keys_def Let_def
        strip_suffix_def[of _ UNRESOLVED_RENDER_COUNT_SUFFIX])
  have "keep_render_state names k" if "\<not> starts_with k UNRESOLVED_RENDER_STATE_PREFIX"
    using that by (simp add: keep_render_state_def strip_prefix_def)
  then show ?thesis
    by (simp add: failure_count_def failure_first_def prune_removed_render_failure_state_def bt_get_retain count first)
qed

lemma prune_render_state_exact_witness:
  "failure_count (prune_removed_render_failure_state [''a''] (record_failures ''b'' [7] [])) ''b'' = None"
  using prune_render_state_exact[of "''b''" "[''a'']" "record_failures ''b'' [7] []" "[]"] by simp

end
