(* ===== verification/Tick_State.thy ===== *)
theory Tick_State
  imports Tick_Model Json
begin

text \<open>
  \<open>state.rs\<close>: the per-host runtime state, its strict validation from a deserialised document, its
  canonical document, and the lines that report it. The YAML reader and writer are third-party;
  the model starts at the document. A \<open>StateError\<close> message is a constructor with the data the
  message shows.
\<close>

definition DEFAULT_TICK_FREQUENCY_MIN :: int where "DEFAULT_TICK_FREQUENCY_MIN = 30"

datatype flag_value = FlagBool bool | FlagInt int | FlagString string

fun is_truthy :: "flag_value \<Rightarrow> bool" where
  "is_truthy (FlagBool b) = b"
| "is_truthy (FlagInt n) = (n \<noteq> 0)"
| "is_truthy (FlagString s) = (s \<noteq> [])"

datatype state_error = StateNotMapping | StateUnknownKeys "string list" | EnabledNotBool json
  | TickNotInteger json | TickNotPositive int | LabelNotString json | FlagsNotMapping json
  | FlagsReservedKey | FlagInvalid string json

record ops_state =
  os_enabled :: bool
  os_tick_frequency_min :: int
  os_label :: "string option"
  os_flags :: "(string, flag_value) btree_map"

definition ops_state_default :: ops_state where
  "ops_state_default = \<lparr>os_enabled = True, os_tick_frequency_min = DEFAULT_TICK_FREQUENCY_MIN,
     os_label = None, os_flags = []\<rparr>"

fun parse_flag :: "string \<times> json \<Rightarrow> state_error + flag_value" where
  "parse_flag (name, JBool b) = Inr (FlagBool b)"
| "parse_flag (name, JInt n) = (if is_i64 n then Inr (FlagInt n) else Inl (FlagInvalid name (JInt n)))"
| "parse_flag (name, JFloat f) = Inl (FlagInvalid name (JFloat f))"
| "parse_flag (name, JString s) = Inr (FlagString s)"
| "parse_flag (name, other) = Inl (FlagInvalid name other)"

fun parse_flag_entries ::
  "json_object \<Rightarrow> (string, flag_value) btree_map \<Rightarrow> state_error + (string, flag_value) btree_map" where
  "parse_flag_entries [] out = Inr out"
| "parse_flag_entries ((name, raw) # rest) out =
     (if name = ''<<'' then Inl FlagsReservedKey
      else case parse_flag (name, raw) of
        Inl e \<Rightarrow> Inl e
      | Inr value \<Rightarrow> parse_flag_entries rest (bt_insert name value out))"

definition parse_flags :: "json option \<Rightarrow> state_error + (string, flag_value) btree_map" where
  "parse_flags value =
     (case value of
        None \<Rightarrow> Inr []
      | Some v \<Rightarrow> (case as_object v of
          None \<Rightarrow> Inl (FlagsNotMapping v)
        | Some obj \<Rightarrow> parse_flag_entries obj []))"

definition parse_label :: "json option \<Rightarrow> state_error + string option" where
  "parse_label value =
     (case value of
        None \<Rightarrow> Inr None
      | Some JNull \<Rightarrow> Inr None
      | Some (JString s) \<Rightarrow> Inr (let trimmed = tick_trim s in if trimmed \<noteq> [] then Some trimmed else None)
      | Some v \<Rightarrow> Inl (LabelNotString v))"

definition ops_state_from_value :: "json \<Rightarrow> state_error + ops_state" where
  "ops_state_from_value raw =
     (case as_object raw of
        None \<Rightarrow> Inl StateNotMapping
      | Some obj \<Rightarrow>
          let unknown = bs_collect (filter (\<lambda>key.
                key \<notin> set [''enabled'', ''tick_frequency_min'', ''label'', ''flags'']
                \<and> \<not> starts_with key ''_'') (map fst obj))
          in if unknown \<noteq> [] then Inl (StateUnknownKeys unknown)
             else case Option.bind (obj_get obj ''enabled'') as_bool of
               None \<Rightarrow> Inl (EnabledNotBool (case obj_get obj ''enabled'' of Some v \<Rightarrow> v | None \<Rightarrow> JNull))
             | Some enabled \<Rightarrow>
                 (case (case obj_get obj ''tick_frequency_min'' of
                          None \<Rightarrow> Inr DEFAULT_TICK_FREQUENCY_MIN
                        | Some v \<Rightarrow> (case as_i64 v of None \<Rightarrow> Inl (TickNotInteger v) | Some n \<Rightarrow> Inr n)) of
                    Inl e \<Rightarrow> Inl e
                  | Inr tick \<Rightarrow>
                      if tick \<le> 0 then Inl (TickNotPositive tick)
                      else case parse_label (obj_get obj ''label'') of
                        Inl e \<Rightarrow> Inl e
                      | Inr label \<Rightarrow> (case parse_flags (obj_get obj ''flags'') of
                          Inl e \<Rightarrow> Inl e
                        | Inr flags \<Rightarrow> Inr \<lparr>os_enabled = enabled, os_tick_frequency_min = tick,
                            os_label = label, os_flags = flags\<rparr>)))"

fun flag_to_value :: "flag_value \<Rightarrow> json" where
  "flag_to_value (FlagBool b) = JBool b"
| "flag_to_value (FlagInt n) = JInt n"
| "flag_to_value (FlagString s) = JString s"

definition ops_state_to_value :: "ops_state \<Rightarrow> json" where
  "ops_state_to_value st =
     JObject [(''enabled'', JBool (os_enabled st)),
       (''tick_frequency_min'', JInt (os_tick_frequency_min st)),
       (''label'', case os_label st of None \<Rightarrow> JNull | Some l \<Rightarrow> JString l),
       (''flags'', JObject (map (\<lambda>(k, v). (k, flag_to_value v)) (os_flags st)))]"

definition flag_truthy :: "(string, flag_value) btree_map \<Rightarrow> string \<Rightarrow> bool" where
  "flag_truthy flags name = (case bt_get flags name of None \<Rightarrow> False | Some v \<Rightarrow> is_truthy v)"

fun flag_text :: "flag_value \<Rightarrow> string" where
  "flag_text (FlagBool b) = (if b then ''true'' else ''false'')"
| "flag_text (FlagInt n) = dec_int n"
| "flag_text (FlagString s) = s"

definition flags_summary :: "(string, flag_value) btree_map \<Rightarrow> string" where
  "flags_summary flags =
     (if flags = [] then []
      else '' flags='' @ str_join '','' (map (\<lambda>(key, value). key @ ''='' @ flag_text value) flags))"

definition state_lines :: "ops_state \<Rightarrow> int option \<Rightarrow> string list" where
  "state_lines st current_tick_min =
     [format_note (''ops-state enabled='' @ (if os_enabled st then ''true'' else ''false'')
        @ '' tick_frequency_min='' @ dec_int (os_tick_frequency_min st)
        @ (case os_label st of None \<Rightarrow> [] | Some label \<Rightarrow> '' label='' @ label)
        @ flags_summary (os_flags st))]
     @ (case current_tick_min of
          None \<Rightarrow> []
        | Some current \<Rightarrow>
            if current \<noteq> os_tick_frequency_min st
            then [format_action ''actualize-tick-frequency''
                    [(''desired'', dec_int (os_tick_frequency_min st)), (''current'', dec_int current)]
                    (''reschedule the tick to '' @ dec_int (os_tick_frequency_min st)
                     @ '' min so it matches the intended cadence (currently '' @ dec_int current @ '' min)'')]
            else [])
     @ (if \<not> os_enabled st
        then [format_note (''ops-state disabled '' @ [CHR 0xE2, CHR 0x80, CHR 0x94]
                @ '' no reminders will fire this tick; set enabled: true to activate'')]
        else [])"

section \<open>Validation and the canonical document\<close>

text \<open>What every accepted state satisfies.\<close>

definition ops_state_ok :: "ops_state \<Rightarrow> bool" where
  "ops_state_ok st \<longleftrightarrow> 0 < os_tick_frequency_min st \<and> is_i64 (os_tick_frequency_min st)
     \<and> (case os_label st of None \<Rightarrow> True | Some l \<Rightarrow> l \<noteq> [] \<and> tick_trim l = l)
     \<and> bt_ok (os_flags st)
     \<and> (\<forall>kv \<in> set (os_flags st). fst kv \<noteq> ''<<'' \<and> (\<forall>n. snd kv = FlagInt n \<longrightarrow> is_i64 n))"

lemma parse_flag_entries_ok:
  "parse_flag_entries obj out = Inr flags \<Longrightarrow> bt_ok out \<Longrightarrow>
   (\<forall>kv \<in> set out. fst kv \<noteq> ''<<'' \<and> (\<forall>n. snd kv = FlagInt n \<longrightarrow> is_i64 n)) \<Longrightarrow>
   bt_ok flags \<and> (\<forall>kv \<in> set flags. fst kv \<noteq> ''<<'' \<and> (\<forall>n. snd kv = FlagInt n \<longrightarrow> is_i64 n))"
proof (induction obj out rule: parse_flag_entries.induct)
  case (2 name raw rest out)
  obtain fv where v: "name \<noteq> ''<<''" "parse_flag (name, raw) = Inr fv"
      "parse_flag_entries rest (bt_insert name fv out) = Inr flags"
    using "2.prems"(1) by (auto split: if_splits sum.splits)
  have int: "\<forall>n. fv = FlagInt n \<longrightarrow> is_i64 n"
    using v(2) by (cases raw) (auto split: if_splits)
  have "kv = (name, fv) \<or> kv \<in> set out" if "kv \<in> set (bt_insert name fv out)" for kv
    using that by (induction name fv out rule: bt_insert.induct) (auto split: if_splits)
  then show ?case
    using "2.IH"[OF v(1,2,3) bt_ok_insert[OF "2.prems"(2)]] "2.prems"(3) v(1) int by fastforce
qed simp

lemma parse_flag_entries_written:
  "bt_ok flags \<Longrightarrow> (\<forall>kv \<in> set flags. fst kv \<noteq> ''<<'' \<and> (\<forall>n. snd kv = FlagInt n \<longrightarrow> is_i64 n)) \<Longrightarrow>
   parse_flag_entries (map (\<lambda>(k, v). (k, flag_to_value v)) flags) out =
     Inr (fold (\<lambda>(k, v). bt_insert k v) flags out)"
proof (induction flags arbitrary: out)
  case (Cons kv flags)
  obtain k v where kv: "kv = (k, v)" by (cases kv)
  have "parse_flag (k, flag_to_value v) = Inr v" using Cons.prems(2) by (cases v) (auto simp: kv)
  then show ?case using Cons by (simp add: kv bt_ok_def)
qed simp

text \<open>
  Validation accepts only well-formed states: a positive frequency, a label without outer white
  space that is not empty, flags in key order with 64-bit integers and no reserved key.
\<close>

theorem ops_state_from_value_ok:
  assumes "ops_state_from_value raw = Inr st"
  shows "ops_state_ok st"
proof -
  obtain obj tick label flags enabled where raw: "as_object raw = Some obj"
    and tick: "0 < tick" "is_i64 tick" and label: "parse_label (obj_get obj ''label'') = Inr label"
    and flags: "parse_flags (obj_get obj ''flags'') = Inr flags"
    and st: "st = \<lparr>os_enabled = enabled, os_tick_frequency_min = tick, os_label = label, os_flags = flags\<rparr>"
    using assms
    by (auto simp: ops_state_from_value_def Let_def as_i64_iff DEFAULT_TICK_FREQUENCY_MIN_def i64_defs not_le
        split: option.splits if_splits sum.splits)
  have "case label of None \<Rightarrow> True | Some l \<Rightarrow> l \<noteq> [] \<and> tick_trim l = l"
    using label trim_idem[of tick_whitespace]
    by (auto simp: parse_label_def tick_trim_def Let_def split: option.splits json.splits if_splits)
  moreover have "bt_ok flags \<and> (\<forall>kv \<in> set flags. fst kv \<noteq> ''<<'' \<and> (\<forall>n. snd kv = FlagInt n \<longrightarrow> is_i64 n))"
  proof (cases "obj_get obj ''flags''")
    case None
    then show ?thesis using flags by (simp add: parse_flags_def)
  next
    case (Some v)
    then obtain fo where "parse_flag_entries fo [] = Inr flags"
      using flags by (auto simp: parse_flags_def split: option.splits)
    then show ?thesis by (rule parse_flag_entries_ok) simp_all
  qed
  ultimately show ?thesis using tick by (simp add: ops_state_ok_def st)
qed

theorem ops_state_from_value_ok_witness:
  "ops_state_ok \<lparr>os_enabled = True, os_tick_frequency_min = 15, os_label = Some ''host'', os_flags = [(''a'', FlagInt 1)]\<rparr>"
proof -
  have "ops_state_from_value (JObject [(''enabled'', JBool True), (''tick_frequency_min'', JInt 15),
      (''label'', JString '' host ''), (''flags'', JObject [(''a'', JInt 1)])]) =
    Inr \<lparr>os_enabled = True, os_tick_frequency_min = 15, os_label = Some ''host'', os_flags = [(''a'', FlagInt 1)]\<rparr>"
    by code_simp
  then show ?thesis by (rule ops_state_from_value_ok)
qed

text \<open>
  The canonical document of a well-formed state is accepted and gives the state back.
\<close>

theorem ops_state_roundtrip:
  assumes "ops_state_ok st"
  shows "ops_state_from_value (ops_state_to_value st) = Inr st"
proof -
  have ok: "bt_ok (os_flags st)" "\<forall>kv \<in> set (os_flags st). fst kv \<noteq> ''<<'' \<and> (\<forall>n. snd kv = FlagInt n \<longrightarrow> is_i64 n)"
    using assms by (simp_all add: ops_state_ok_def)
  have "parse_flag_entries (map (\<lambda>(k, v). (k, flag_to_value v)) (os_flags st)) [] = Inr (os_flags st)"
    using parse_flag_entries_written[OF ok, of "[]"] bt_collect_ok[OF ok(1)] by (simp add: bt_collect_def)
  moreover have "parse_label (Some (case os_label st of None \<Rightarrow> JNull | Some l \<Rightarrow> JString l)) = Inr (os_label st)"
    using assms by (cases "os_label st") (auto simp: ops_state_ok_def parse_label_def)
  ultimately show ?thesis
    using assms by (simp add: ops_state_from_value_def ops_state_to_value_def ops_state_ok_def obj_get_def
        parse_flags_def)
qed

theorem ops_state_roundtrip_witness:
  "ops_state_from_value (ops_state_to_value ops_state_default) = Inr ops_state_default"
  by (rule ops_state_roundtrip)
    (simp add: ops_state_ok_def ops_state_default_def DEFAULT_TICK_FREQUENCY_MIN_def i64_defs)

end
