(* ===== verification/Tick_Engine.thy ===== *)
theory Tick_Engine
  imports Tick_Render Tick_State
begin

text \<open>
  The tick itself (\<open>engine.rs\<close>): the evaluation of the due reminders with its pool of gate threads,
  the dependency pass, the rendering of every reminder, and \<open>run_tick_inner\<close>. The emission callback
  is a function on the state of the sink that may fail; a tick ends with a result, with the
  callback's error, or with a panic.
\<close>

section \<open>Outcomes and lines\<close>

datatype ('e, 'a) tick_run = Done 'a | IoError 'e | Panic

fun run_bind :: "('e, 'a) tick_run \<Rightarrow> ('a \<Rightarrow> ('e, 'b) tick_run) \<Rightarrow> ('e, 'b) tick_run" where
  "run_bind (Done x) f = f x"
| "run_bind (IoError e) f = IoError e"
| "run_bind Panic f = Panic"

type_synonym ('s, 'e) emit_line = "('s \<Rightarrow> string \<Rightarrow> 'e + 's) option"

text \<open>What a tick accumulates: the lines, the sink of the callback, the fired state, the actions.\<close>

record 's tick_out =
  to_lines :: "string list"
  to_sink :: 's
  to_fired :: fired_state
  to_actions :: nat

definition record_line :: "('s, 'e) emit_line \<Rightarrow> string \<Rightarrow> 's tick_out \<Rightarrow> ('e, 's tick_out) tick_run" where
  "record_line cb line st =
     (let st' = st\<lparr>to_lines := to_lines st @ [line]\<rparr>
      in case cb of
        None \<Rightarrow> Done st'
      | Some callback \<Rightarrow> (case callback (to_sink st) line of
          Inl e \<Rightarrow> IoError e
        | Inr s \<Rightarrow> Done (st'\<lparr>to_sink := s\<rparr>)))"

fun record_lines :: "('s, 'e) emit_line \<Rightarrow> string list \<Rightarrow> 's tick_out \<Rightarrow> ('e, 's tick_out) tick_run" where
  "record_lines cb [] st = Done st"
| "record_lines cb (l # ls) st = run_bind (record_line cb l st) (record_lines cb ls)"

definition add_actions :: "nat \<Rightarrow> 's tick_out \<Rightarrow> 's tick_out" where
  "add_actions n st = st\<lparr>to_actions := to_actions st + n\<rparr>"

definition set_fired :: "fired_state \<Rightarrow> 's tick_out \<Rightarrow> 's tick_out" where
  "set_fired fired st = st\<lparr>to_fired := fired\<rparr>"

definition reminder_header :: "reminder \<Rightarrow> string" where
  "reminder_header r =
     format_tick_header (rm_name r) (format_schedule (rm_cadence_secs r) (rm_cadence_offset_secs r))"

definition ops_state_header :: string where
  "ops_state_header = format_tick_header ''ops-state'' ''every tick''"

section \<open>Rendering one reminder\<close>

record reminder_evaluation =
  ev_reminder :: reminder
  ev_outcome :: gate_outcome
  ev_captured :: captured
  ev_error :: "string option"

text \<open>\<open>SuppressedLines\<close> is the header and the \<open>SUPPRESSED\<close> record.\<close>

datatype planned_reminder = Runnable reminder | PlannedSuppressed "string list"

datatype reminder_report = Evaluated reminder_evaluation | ReportSuppressed "string list"

definition render_evaluation ::
  "string list \<Rightarrow> int \<Rightarrow> ('s, 'e) emit_line \<Rightarrow> bool \<Rightarrow> reminder_evaluation \<Rightarrow> 's tick_out
   \<Rightarrow> ('e, 's tick_out) tick_run" where
  "render_evaluation unavailable now cb report_pending ev st =
     (let r = ev_reminder ev;
          name = rm_name r;
          cleared = set_fired (clear_render_failure_state name (to_fired st)) st
      in case ev_error ev of
        Some error \<Rightarrow>
          run_bind (record_lines cb
              [reminder_header r, format_error (''reminder '' @ name @ '': '' @ error),
               no_signal_action r ''gate-execution-error'' error []] cleared)
            (\<lambda>st. Done (add_actions 1 st))
      | None \<Rightarrow> (case ev_outcome ev of
          NoResult \<Rightarrow>
            let detail = (case im_get (ev_captured ev) ''summary'' of Some s \<Rightarrow> s | None \<Rightarrow> [])
            in run_bind (record_lines cb
                 [reminder_header r, format_no_result name detail,
                  no_signal_action r ''could-not-determine'' detail []] cleared)
               (\<lambda>st. Done (add_actions 1 st))
        | Quiet \<Rightarrow>
            let deps = filter (\<lambda>d. d \<in> set unavailable) (rm_depends_on r)
            in if deps \<noteq> []
               then run_bind (record_lines cb
                   [reminder_header r, format_unevaluable name deps,
                    no_signal_action r ''dependency-could-not-determine'' (str_join '','' deps) []] cleared)
                 (\<lambda>st. Done (add_actions 1 st))
               else run_bind
                 (if report_pending then record_lines cb [reminder_header r, format_clean name] cleared
                  else Done cleared)
                 (\<lambda>st. Done (set_fired (bt_insert name now (to_fired st)) st))
        | Fire \<Rightarrow>
            run_bind (record_line cb (reminder_header r) st)
              (\<lambda>st. case render_emit (rm_emit r) (ev_captured ev) of
                 Inl placeholders \<Rightarrow>
                   run_bind (record_lines cb
                       [format_error (''reminder '' @ name @ '': '' @ unresolved_error_text placeholders),
                        no_signal_action r ''unresolved-placeholder'' [] placeholders] st)
                     (\<lambda>st. let (fired, consecutive, first_failure_epoch) =
                              record_render_failure name now (to_fired st);
                            st' = set_fired fired st
                        in if REPEATED_RENDER_FAILURE_THRESHOLD \<le> consecutive
                           then run_bind (record_line cb
                               (repeated_render_failure_action r consecutive first_failure_epoch placeholders) st')
                             (\<lambda>st. Done (add_actions 2 st))
                           else Done (add_actions 1 st'))
               | Inr line \<Rightarrow>
                   let st' = set_fired (bt_insert name now
                         (clear_render_failure_state name (to_fired st))) st
                   in run_bind (record_line cb line st')
                      (\<lambda>st. Done (add_actions (if starts_with line ''ACTION: '' then 1 else 0) st)))))"

definition render_report ::
  "string list \<Rightarrow> int \<Rightarrow> ('s, 'e) emit_line \<Rightarrow> bool \<Rightarrow> reminder_report \<Rightarrow> 's tick_out
   \<Rightarrow> ('e, 's tick_out) tick_run" where
  "render_report unavailable now cb report_pending report st =
     (case report of
        ReportSuppressed lines \<Rightarrow> record_lines cb lines st
      | Evaluated ev \<Rightarrow> render_evaluation unavailable now cb report_pending ev st)"

fun render_reports ::
  "string list \<Rightarrow> int \<Rightarrow> ('s, 'e) emit_line \<Rightarrow> bool \<Rightarrow> reminder_report list \<Rightarrow> 's tick_out
   \<Rightarrow> ('e, 's tick_out) tick_run" where
  "render_reports unavailable now cb report_pending [] st = Done st"
| "render_reports unavailable now cb report_pending (report # rs) st =
     run_bind (render_report unavailable now cb report_pending report st)
       (render_reports unavailable now cb report_pending rs)"

section \<open>The dependency pass\<close>

definition no_result_name :: "reminder_report \<Rightarrow> string option" where
  "no_result_name report =
     (case report of
        Evaluated ev \<Rightarrow> if ev_error ev = None \<and> ev_outcome ev = NoResult
          then Some (rm_name (ev_reminder ev)) else None
      | ReportSuppressed _ \<Rightarrow> None)"

definition newly_unavailable :: "string btree_set \<Rightarrow> reminder_report \<Rightarrow> string option" where
  "newly_unavailable unavailable report =
     (case report of
        ReportSuppressed _ \<Rightarrow> None
      | Evaluated ev \<Rightarrow>
          if ev_error ev \<noteq> None \<or> ev_outcome ev \<noteq> Quiet \<or> rm_name (ev_reminder ev) \<in> set unavailable
          then None
          else if list_ex (\<lambda>d. d \<in> set unavailable) (rm_depends_on (ev_reminder ev))
          then Some (rm_name (ev_reminder ev)) else None)"

fun unavailable_pass :: "reminder_report list \<Rightarrow> string btree_set \<Rightarrow> bool \<Rightarrow> string btree_set \<times> bool" where
  "unavailable_pass [] unavailable changed = (unavailable, changed)"
| "unavailable_pass (report # rs) unavailable changed =
     (case newly_unavailable unavailable report of
        Some name \<Rightarrow> unavailable_pass rs (bs_insert name unavailable) True
      | None \<Rightarrow> unavailable_pass rs unavailable changed)"

definition report_names :: "reminder_report list \<Rightarrow> string set" where
  "report_names reports = {rm_name (ev_reminder ev) | ev. Evaluated ev \<in> set reports}"

lemma finite_report_names [simp]: "finite (report_names reports)"
proof -
  have "report_names reports \<subseteq> (\<lambda>r. case r of Evaluated ev \<Rightarrow> rm_name (ev_reminder ev) | _ \<Rightarrow> []) ` set reports"
    by (force simp: report_names_def)
  then show ?thesis by (rule finite_subset) simp
qed

lemma newly_unavailable_new:
  "newly_unavailable U report = Some name \<Longrightarrow> name \<notin> set U \<and> (\<exists>ev. report = Evaluated ev \<and> name = rm_name (ev_reminder ev))"
  by (auto simp: newly_unavailable_def split: reminder_report.splits if_splits)

lemma unavailable_pass_grows:
  "unavailable_pass rs U changed = (U', changed') \<Longrightarrow> set U \<subseteq> set U' \<and> set U' \<subseteq> set U \<union> report_names rs
     \<and> (changed' \<longrightarrow> changed \<or> set U \<noteq> set U')"
proof (induction rs arbitrary: U changed)
  case (Cons report rs)
  have names: "report_names rs \<subseteq> report_names (report # rs)" by (auto simp: report_names_def)
  show ?case
  proof (cases "newly_unavailable U report")
    case None
    then show ?thesis using Cons names by fastforce
  next
    case (Some name)
    then have "unavailable_pass rs (bs_insert name U) True = (U', changed')" using Cons.prems by simp
    moreover have "name \<in> report_names (report # rs)" "name \<notin> set U"
      using newly_unavailable_new[OF Some] by (auto simp: report_names_def)
    ultimately show ?thesis using Cons.IH names by fastforce
  qed
qed (simp add: report_names_def)

function unavailable_loop :: "reminder_report list \<Rightarrow> string btree_set \<Rightarrow> string btree_set" where
  "unavailable_loop reports unavailable =
     (let (unavailable', changed) = unavailable_pass reports unavailable False
      in if changed then unavailable_loop reports unavailable' else unavailable')"
  by pat_completeness auto
termination
proof (relation "measure (\<lambda>(reports, U). card (report_names reports - set U))", goal_cases)
  case (2 reports U x U' changed)
  then have "unavailable_pass reports U False = (U', changed)" by simp
  from unavailable_pass_grows[OF this] 2 have "set U \<subset> set U'" "set U' \<subseteq> set U \<union> report_names reports" by auto
  then have "report_names reports - set U' \<subset> report_names reports - set U" by blast
  then show ?case by (auto intro!: psubset_card_mono)
qed simp

declare unavailable_loop.simps [simp del]

definition initially_unavailable :: "reminder_report list \<Rightarrow> string btree_set" where
  "initially_unavailable reports = bs_collect (List.map_filter no_result_name reports)"

definition render_after_dependency_pass ::
  "reminder_report list \<Rightarrow> nat \<Rightarrow> int \<Rightarrow> ('s, 'e) emit_line \<Rightarrow> bool \<Rightarrow> 's tick_out \<Rightarrow> ('e, 's tick_out) tick_run"
where
  "render_after_dependency_pass reports render_from now cb report_pending st =
     render_reports (unavailable_loop reports (initially_unavailable reports)) now cb report_pending
       (drop render_from reports) st"

section \<open>The pool of gate threads\<close>

definition MAX_PARALLEL_GATES :: nat where "MAX_PARALLEL_GATES = 8"

type_synonym gate_runner = "string \<Rightarrow> nat option \<Rightarrow> gate_result option"

definition planned_gate :: "planned_reminder \<Rightarrow> gate option" where
  "planned_gate p = (case p of Runnable r \<Rightarrow> rm_gate r | PlannedSuppressed _ \<Rightarrow> None)"

definition is_parallel :: "planned_reminder \<Rightarrow> bool" where
  "is_parallel p = (case planned_gate p of Some g \<Rightarrow> gt_parallel g | None \<Rightarrow> False)"

definition parallel_indexes :: "planned_reminder list \<Rightarrow> nat list" where
  "parallel_indexes planned = filter (\<lambda>i. is_parallel (planned ! i)) [0 ..< length planned]"

text \<open>
  The threads in flight: the index of the reminder and what the thread returns when joined, \<open>None\<close>
  when it panics.
\<close>

type_synonym thread_pool = "(nat, gate_eval option) btree_map"

definition spawn_gate :: "gate_runner \<Rightarrow> planned_reminder list \<Rightarrow> nat \<Rightarrow> thread_pool \<Rightarrow> thread_pool" where
  "spawn_gate run planned i pool = bt_insert i (eval_gate run (planned_gate (planned ! i))) pool"

definition pool_start :: "gate_runner \<Rightarrow> planned_reminder list \<Rightarrow> thread_pool" where
  "pool_start run planned =
     (let indexes = parallel_indexes planned
      in if 2 \<le> length indexes then fold (spawn_gate run planned) (take MAX_PARALLEL_GATES indexes) [] else [])"

definition report_of :: "reminder \<Rightarrow> gate_eval \<Rightarrow> reminder_report" where
  "report_of r evaluated =
     Evaluated (case evaluated of
         Inr (outcome, captured) \<Rightarrow>
           \<lparr>ev_reminder = r, ev_outcome = outcome, ev_captured = captured, ev_error = None\<rparr>
       | Inl error \<Rightarrow> \<lparr>ev_reminder = r, ev_outcome = Quiet, ev_captured = [], ev_error = Some error\<rparr>)"

text \<open>
  One planned reminder: the report, the pool and the position of the next gate to start. \<open>None\<close> is
  a panic of a gate that runs on the main thread.
\<close>

definition pool_step ::
  "gate_runner \<Rightarrow> planned_reminder list \<Rightarrow> nat \<Rightarrow> planned_reminder \<Rightarrow> thread_pool \<Rightarrow> nat
   \<Rightarrow> (reminder_report \<times> thread_pool \<times> nat) option" where
  "pool_step run planned index entry pool next_parallel =
     (case entry of
        PlannedSuppressed lines \<Rightarrow> Some (ReportSuppressed lines, pool, next_parallel)
      | Runnable r \<Rightarrow> (case bt_get pool index of
          Some handle \<Rightarrow>
            let result = (case handle of None \<Rightarrow> Inl ''parallel gate worker panicked'' | Some e \<Rightarrow> e);
                pool' = bt_remove index pool
            in Some (if next_parallel < length (parallel_indexes planned)
                 then (report_of r result,
                       spawn_gate run planned (parallel_indexes planned ! next_parallel) pool',
                       next_parallel + 1)
                 else (report_of r result, pool', next_parallel))
        | None \<Rightarrow> map_option (\<lambda>e. (report_of r e, pool, next_parallel)) (eval_gate run (rm_gate r))))"

text \<open>
  The loop over the planned reminders. The first \<open>prefix_len\<close> reports are rendered as soon as they
  are there. When the callback fails, the scope still waits for the threads in flight, and it
  panics when one of them panicked.
\<close>

fun eval_loop ::
  "gate_runner \<Rightarrow> planned_reminder list \<Rightarrow> nat \<Rightarrow> int \<Rightarrow> ('s, 'e) emit_line \<Rightarrow> bool
   \<Rightarrow> nat \<Rightarrow> planned_reminder list \<Rightarrow> thread_pool \<Rightarrow> nat \<Rightarrow> reminder_report list \<Rightarrow> 's tick_out
   \<Rightarrow> ('e, reminder_report list \<times> 's tick_out) tick_run" where
  "eval_loop run planned prefix_len now cb report_pending index [] pool next_parallel reports st =
     Done (reports, st)"
| "eval_loop run planned prefix_len now cb report_pending index (entry # rest) pool next_parallel reports st =
     (case pool_step run planned index entry pool next_parallel of
        None \<Rightarrow> Panic
      | Some (report, pool', next_parallel') \<Rightarrow>
          let rendered = (if index < prefix_len
                then render_report [] now cb report_pending report st else Done st)
          in case rendered of
               Done st' \<Rightarrow> eval_loop run planned prefix_len now cb report_pending (Suc index) rest
                 pool' next_parallel' (reports @ [report]) st'
             | IoError e \<Rightarrow> if None \<in> set (map snd pool') then Panic else IoError e
             | Panic \<Rightarrow> Panic)"

section \<open>The tick\<close>

record tick_result =
  tr_lines :: "string list"
  tr_fired :: fired_state
  tr_actions_emitted :: nat

fun plan_reminders :: "ops_state \<Rightarrow> int \<Rightarrow> fired_state \<Rightarrow> bool \<Rightarrow> reminder list \<Rightarrow> planned_reminder list" where
  "plan_reminders state now fired report_pending [] = []"
| "plan_reminders state now fired report_pending (r # rs) =
     (if \<not> reminder_due now fired r then []
      else if list_all (flag_truthy (os_flags state)) (rm_requires_flags r) then [Runnable r]
      else if report_pending
      then [PlannedSuppressed [reminder_header r,
              format_suppressed (rm_name r)
                (filter (\<lambda>n. \<not> flag_truthy (os_flags state) n) (rm_requires_flags r))]]
      else []) @ plan_reminders state now fired report_pending rs"

definition has_dependencies :: "planned_reminder \<Rightarrow> bool" where
  "has_dependencies p = (case p of Runnable r \<Rightarrow> rm_depends_on r \<noteq> [] | PlannedSuppressed _ \<Rightarrow> False)"

definition stream_prefix_len :: "('s, 'e) emit_line \<Rightarrow> planned_reminder list \<Rightarrow> nat" where
  "stream_prefix_len cb planned =
     (case cb of None \<Rightarrow> 0 | Some _ \<Rightarrow> length (takeWhile (\<lambda>p. \<not> has_dependencies p) planned))"

definition state_records :: "ops_state \<Rightarrow> int option \<Rightarrow> string list" where
  "state_records state current_tick_min =
     concat (map (\<lambda>line. if starts_with line ''ACTION: '' then [ops_state_header, line] else [line])
       (state_lines state current_tick_min))"

definition state_actions :: "ops_state \<Rightarrow> int option \<Rightarrow> nat" where
  "state_actions state current_tick_min =
     length (filter (\<lambda>line. starts_with line ''ACTION: '') (state_lines state current_tick_min))"

definition run_reminders ::
  "gate_runner \<Rightarrow> planned_reminder list \<Rightarrow> int \<Rightarrow> ('s, 'e) emit_line \<Rightarrow> bool \<Rightarrow> 's tick_out
   \<Rightarrow> ('e, 's tick_out) tick_run" where
  "run_reminders run planned now cb report_pending st =
     (let prefix_len = stream_prefix_len cb planned
      in run_bind
        (eval_loop run planned prefix_len now cb report_pending 0 planned (pool_start run planned)
           MAX_PARALLEL_GATES [] st)
        (\<lambda>(reports, st). if prefix_len < length reports
           then render_after_dependency_pass reports prefix_len now cb report_pending st
           else Done st))"

definition run_tick_inner ::
  "gate_runner \<Rightarrow> (string \<Rightarrow> int \<Rightarrow> int option) \<Rightarrow> tick_config \<Rightarrow> ops_state \<Rightarrow> int \<Rightarrow> fired_state
   \<Rightarrow> int option \<Rightarrow> bool \<Rightarrow> ('s, 'e) emit_line \<Rightarrow> 's \<Rightarrow> ('e, tick_result \<times> 's) tick_run" where
  "run_tick_inner run probe config state now fired current_tick_min report_pending cb sink =
     run_bind (record_lines cb (map (evaluate_health probe now) (tc_health_checks config))
         \<lparr>to_lines = [], to_sink = sink, to_fired = fired, to_actions = 0\<rparr>) (\<lambda>st.
     run_bind (record_lines cb (state_records state current_tick_min) st) (\<lambda>st.
     let st = add_actions (state_actions state current_tick_min) st;
         st = set_fired (prune_removed_render_failure_state
                (bs_collect (map rm_name (tc_reminders config))) (to_fired st)) st
     in run_bind
       (if os_enabled state
        then run_reminders run (plan_reminders state now fired report_pending (tc_reminders config)) now
               cb report_pending st
        else Done st) (\<lambda>st.
     run_bind (record_line cb
         (format_note (''emitted '' @ dec_nat (to_actions st) @ '' instruction(s) this tick'')) st) (\<lambda>st.
     Done (\<lparr>tr_lines = to_lines st, tr_fired = to_fired st, tr_actions_emitted = to_actions st\<rparr>,
           to_sink st)))))"

text \<open>
  \<open>run_tick\<close> has no callback; its \<open>expect\<close> turns an I/O error, which cannot occur, into a panic.
\<close>

definition run_tick ::
  "gate_runner \<Rightarrow> (string \<Rightarrow> int \<Rightarrow> int option) \<Rightarrow> tick_config \<Rightarrow> ops_state \<Rightarrow> int \<Rightarrow> fired_state
   \<Rightarrow> int option \<Rightarrow> tick_result option" where
  "run_tick run probe config state now fired current_tick_min =
     (case run_tick_inner run probe config state now fired current_tick_min False
         (None :: (unit, unit) emit_line) () of
        Done (result, _) \<Rightarrow> Some result
      | IoError _ \<Rightarrow> None
      | Panic \<Rightarrow> None)"

definition run_tick_with_emit ::
  "gate_runner \<Rightarrow> (string \<Rightarrow> int \<Rightarrow> int option) \<Rightarrow> tick_config \<Rightarrow> ops_state \<Rightarrow> int \<Rightarrow> fired_state
   \<Rightarrow> int option \<Rightarrow> bool \<Rightarrow> ('s \<Rightarrow> string \<Rightarrow> 'e + 's) \<Rightarrow> 's \<Rightarrow> ('e, tick_result \<times> 's) tick_run" where
  "run_tick_with_emit run probe config state now fired current_tick_min report_pending callback sink =
     run_tick_inner run probe config state now fired current_tick_min report_pending (Some callback) sink"

end
