(* ===== verification/Tick_Spec.thy ===== *)
theory Tick_Spec
  imports Tick_Engine
begin

text \<open>
  An abstract specification of a tick and the proof that the engine refines it. The specification
  is an \<open>effect\<close>: the lines a step adds, the fired state it leaves and the number of actions it
  counts, as a function of the fired state alone. It has no callback, no threads and no streaming;
  the refinement says that none of them is observable.
\<close>

section \<open>Effects\<close>

type_synonym effect = "string list \<times> fired_state \<times> nat"

fun feed :: "('s, 'e) emit_line \<Rightarrow> 's \<Rightarrow> string list \<Rightarrow> 'e + 's" where
  "feed None s ls = Inr s"
| "feed (Some f) s [] = Inr s"
| "feed (Some f) s (l # ls) = (case f s l of Inl e \<Rightarrow> Inl e | Inr s' \<Rightarrow> feed (Some f) s' ls)"

definition perform :: "('s, 'e) emit_line \<Rightarrow> effect \<Rightarrow> 's tick_out \<Rightarrow> ('e, 's tick_out) tick_run" where
  "perform cb eff st =
     (case eff of (ls, fired, n) \<Rightarrow>
       case feed cb (to_sink st) ls of
         Inl e \<Rightarrow> IoError e
       | Inr s \<Rightarrow> Done \<lparr>to_lines = to_lines st @ ls, to_sink = s, to_fired = fired, to_actions = to_actions st + n\<rparr>)"

definition eff_then :: "effect \<Rightarrow> (fired_state \<Rightarrow> effect) \<Rightarrow> effect" where
  "eff_then eff f = (case eff of (ls, fired, n) \<Rightarrow> case f fired of (ls', fired', n') \<Rightarrow> (ls @ ls', fired', n + n'))"

lemma feed_append:
  "feed cb s (ls @ ls') = (case feed cb s ls of Inl e \<Rightarrow> Inl e | Inr s' \<Rightarrow> feed cb s' ls')"
  by (induction cb s ls rule: feed.induct) (auto split: sum.splits)

lemma feed_one: "feed cb s [l] = (case cb of None \<Rightarrow> Inr s | Some f \<Rightarrow> f s l)"
  by (auto split: option.splits sum.splits)

lemma record_line_perform: "record_line cb l st = perform cb ([l], to_fired st, 0) st"
  by (cases cb) (auto simp: record_line_def perform_def Let_def split: sum.splits)

lemma perform_bind:
  "run_bind (perform cb eff st) (\<lambda>st. perform cb (f (to_fired st)) st) = perform cb (eff_then eff f) st"
  by (cases eff; cases "feed cb (to_sink st) (fst eff)"; cases "f (fst (snd eff))")
    (auto simp: perform_def eff_then_def feed_append split: sum.splits)

lemma record_lines_perform: "record_lines cb ls st = perform cb (ls, to_fired st, 0) st"
proof (induction ls arbitrary: st)
  case Nil
  have "feed cb s [] = Inr s" for s by (cases cb) auto
  then show ?case by (simp add: perform_def)
next
  case (Cons l ls)
  have "run_bind (perform cb ([l], to_fired st, 0) st) (\<lambda>st. perform cb (ls, to_fired st, 0) st)
      = perform cb (l # ls, to_fired st, 0) st"
    using perform_bind[of cb "([l], to_fired st, 0)" st "\<lambda>f. (ls, f, 0)"] by (simp add: eff_then_def)
  moreover have "record_lines cb ls = (\<lambda>st. perform cb (ls, to_fired st, 0) st)"
    using Cons by blast
  ultimately show ?case by (simp only: record_lines.simps record_line_perform)
qed

lemma perform_map:
  "run_bind (perform cb (ls, fired, n) st) (\<lambda>st. Done (add_actions k st)) = perform cb (ls, fired, n + k) st"
  "run_bind (perform cb (ls, fired, n) st) (\<lambda>st. Done (set_fired (g (to_fired st)) st)) = perform cb (ls, g fired, n) st"
  by (auto simp: perform_def add_actions_def set_fired_def split: sum.splits)

lemma perform_set_fired: "perform cb eff (set_fired f st) = perform cb eff st"
  by (auto simp: perform_def set_fired_def split: prod.splits sum.splits)

lemma perform_nothing: "perform cb ([], to_fired st, 0) st = Done st"
proof -
  have "feed cb s [] = Inr s" for s by (cases cb) auto
  then show ?thesis by (simp add: perform_def)
qed

lemma perform_no_lines: "perform cb ([], f, n) st = Done (add_actions n (set_fired f st))"
proof -
  have "feed cb s [] = Inr s" for s by (cases cb) auto
  then show ?thesis by (simp add: perform_def add_actions_def set_fired_def)
qed

lemma set_fired_twice [simp]: "set_fired f (set_fired g st) = set_fired f st"
  by (simp add: set_fired_def)

lemma add_actions_0 [simp]: "add_actions 0 st = st"
  by (simp add: add_actions_def)

lemma to_fired_set [simp]: "to_fired (set_fired f st) = f"
  by (simp add: set_fired_def)

section \<open>The effect of a report\<close>

definition evaluation_effect ::
  "string list \<Rightarrow> int \<Rightarrow> bool \<Rightarrow> reminder_evaluation \<Rightarrow> fired_state \<Rightarrow> effect" where
  "evaluation_effect unavailable now report_pending ev fired =
     (let r = ev_reminder ev;
          name = rm_name r;
          cleared = clear_render_failure_state name fired
      in case ev_error ev of
        Some error \<Rightarrow>
          ([reminder_header r, format_error (''reminder '' @ name @ '': '' @ error),
            no_signal_action r ''gate-execution-error'' error []], cleared, 1)
      | None \<Rightarrow> (case ev_outcome ev of
          NoResult \<Rightarrow>
            let detail = (case im_get (ev_captured ev) ''summary'' of Some s \<Rightarrow> s | None \<Rightarrow> [])
            in ([reminder_header r, format_no_result name detail,
                 no_signal_action r ''could-not-determine'' detail []], cleared, 1)
        | Quiet \<Rightarrow>
            let deps = filter (\<lambda>d. d \<in> set unavailable) (rm_depends_on r)
            in if deps \<noteq> []
               then ([reminder_header r, format_unevaluable name deps,
                      no_signal_action r ''dependency-could-not-determine'' (str_join '','' deps) []], cleared, 1)
               else (if report_pending then [reminder_header r, format_clean name] else [],
                     bt_insert name now cleared, 0)
        | Fire \<Rightarrow>
            (case render_emit (rm_emit r) (ev_captured ev) of
               Inl placeholders \<Rightarrow>
                 let (fired', consecutive, first_failure_epoch) = record_render_failure name now fired;
                     again = REPEATED_RENDER_FAILURE_THRESHOLD \<le> consecutive
                 in ([reminder_header r,
                      format_error (''reminder '' @ name @ '': '' @ unresolved_error_text placeholders),
                      no_signal_action r ''unresolved-placeholder'' [] placeholders]
                     @ (if again then [repeated_render_failure_action r consecutive first_failure_epoch placeholders]
                        else []),
                     fired', if again then 2 else 1)
             | Inr line \<Rightarrow>
                 ([reminder_header r, line], bt_insert name now cleared,
                  if starts_with line ''ACTION: '' then 1 else 0))))"

definition report_effect ::
  "string list \<Rightarrow> int \<Rightarrow> bool \<Rightarrow> reminder_report \<Rightarrow> fired_state \<Rightarrow> effect" where
  "report_effect unavailable now report_pending report fired =
     (case report of
        ReportSuppressed lines \<Rightarrow> (lines, fired, 0)
      | Evaluated ev \<Rightarrow> evaluation_effect unavailable now report_pending ev fired)"

fun reports_effect ::
  "string list \<Rightarrow> int \<Rightarrow> bool \<Rightarrow> reminder_report list \<Rightarrow> fired_state \<Rightarrow> effect" where
  "reports_effect unavailable now report_pending [] fired = ([], fired, 0)"
| "reports_effect unavailable now report_pending (report # rs) fired =
     eff_then (report_effect unavailable now report_pending report fired)
       (reports_effect unavailable now report_pending rs)"

lemma render_evaluation_perform:
  "render_evaluation U now cb pend ev st = perform cb (evaluation_effect U now pend ev (to_fired st)) st"
proof (cases "ev_error ev")
  case (Some e)
  then show ?thesis
    by (simp add: render_evaluation_def evaluation_effect_def Let_def record_lines_perform perform_map
        perform_set_fired del: record_lines.simps)
next
  case None
  show ?thesis
  proof (cases "ev_outcome ev")
    case Quiet
    then show ?thesis using None
      by (auto simp: render_evaluation_def evaluation_effect_def Let_def record_lines_perform perform_map
          perform_set_fired perform_no_lines simp del: record_lines.simps)
  next
    case NoResult
    then show ?thesis using None
      by (simp add: render_evaluation_def evaluation_effect_def Let_def record_lines_perform perform_map
          perform_set_fired del: record_lines.simps)
  next
    case Fire
    show ?thesis
    proof (cases "render_emit (rm_emit (ev_reminder ev)) (ev_captured ev)")
      case (Inr line)
      let ?n = "rm_name (ev_reminder ev)"
      let ?f = "\<lambda>fired. ([line], bt_insert ?n now (clear_render_failure_state ?n fired),
          if starts_with line ''ACTION: '' then 1 else (0 :: nat))"
      have "render_evaluation U now cb pend ev st =
          run_bind (perform cb ([reminder_header (ev_reminder ev)], to_fired st, 0) st)
            (\<lambda>st. perform cb (?f (to_fired st)) st)"
        using None Fire Inr
        by (simp add: render_evaluation_def Let_def record_line_perform perform_map perform_set_fired)
      also have "\<dots> = perform cb (eff_then ([reminder_header (ev_reminder ev)], to_fired st, 0) ?f) st"
        by (rule perform_bind[where f = ?f])
      finally show ?thesis
        using None Fire Inr by (simp add: evaluation_effect_def Let_def eff_then_def)
    next
      case (Inl ps)
      let ?r = "ev_reminder ev"
      let ?n = "rm_name ?r"
      let ?rec = "\<lambda>fired. record_render_failure ?n now fired"
      let ?again = "\<lambda>fired. REPEATED_RENDER_FAILURE_THRESHOLD \<le> fst (snd (?rec fired))"
      let ?last = "\<lambda>fired. (if ?again fired then [repeated_render_failure_action ?r (fst (snd (?rec fired)))
            (snd (snd (?rec fired))) ps] else [], fst (?rec fired), if ?again fired then 2 else (1 :: nat))"
      let ?two = "[format_error (''reminder '' @ ?n @ '': '' @ unresolved_error_text ps),
          no_signal_action ?r ''unresolved-placeholder'' [] ps]"
      have "render_evaluation U now cb pend ev st =
          run_bind (perform cb ([reminder_header ?r], to_fired st, 0) st)
            (\<lambda>st. run_bind (perform cb (?two, to_fired st, 0) st) (\<lambda>st. perform cb (?last (to_fired st)) st))"
        using None Fire Inl
        by (auto simp: render_evaluation_def Let_def case_prod_unfold record_line_perform record_lines_perform
            perform_map perform_set_fired perform_no_lines numeral_2_eq_2
            intro!: arg_cong2[where f = run_bind] ext simp del: record_lines.simps)
      also have "\<dots> = perform cb (eff_then ([reminder_header ?r], to_fired st, 0)
          (\<lambda>fired. eff_then (?two, fired, 0) ?last)) st"
        unfolding perform_bind[where f = ?last]
        by (rule perform_bind[where f = "\<lambda>fired. eff_then (?two, fired, 0) ?last"])
      finally show ?thesis
        using None Fire Inl by (simp add: evaluation_effect_def Let_def eff_then_def case_prod_unfold)
    qed
  qed
qed

lemma render_report_perform:
  "render_report U now cb pend report st = perform cb (report_effect U now pend report (to_fired st)) st"
  by (cases report)
    (simp_all add: render_report_def report_effect_def render_evaluation_perform record_lines_perform
      del: record_lines.simps)

lemma render_reports_perform:
  "render_reports U now cb pend rs st = perform cb (reports_effect U now pend rs (to_fired st)) st"
proof (induction rs arbitrary: st)
  case (Cons report rs)
  have "render_reports U now cb pend rs = (\<lambda>st. perform cb (reports_effect U now pend rs (to_fired st)) st)"
    using Cons by blast
  then show ?case
    unfolding render_reports.simps render_report_perform reports_effect.simps
    by (simp only: perform_bind[where f = "reports_effect U now pend rs"])
qed (simp add: perform_nothing)

section \<open>The pool of gate threads\<close>

text \<open>The states of the pool, as the loop over the planned reminders goes through them.\<close>

inductive pool_reachable :: "gate_runner \<Rightarrow> planned_reminder list \<Rightarrow> nat \<Rightarrow> thread_pool \<Rightarrow> nat \<Rightarrow> bool"
  for run planned where
  start: "pool_reachable run planned 0 (pool_start run planned) MAX_PARALLEL_GATES"
| step: "pool_reachable run planned i pool next_parallel \<Longrightarrow> i < length planned \<Longrightarrow>
    pool_step run planned i (planned ! i) pool next_parallel = Some (report, pool', next_parallel') \<Longrightarrow>
    pool_reachable run planned (Suc i) pool' next_parallel'"

definition pooled :: "planned_reminder list \<Rightarrow> nat \<Rightarrow> bool" where
  "pooled planned i \<longleftrightarrow> i \<in> set (parallel_indexes planned) \<and> 2 \<le> length (parallel_indexes planned)"

text \<open>
  What the report of a planned reminder has to be: the result of its own gate, with a panic turned
  into an error when the gate ran in the pool.
\<close>

definition report_for :: "gate_runner \<Rightarrow> planned_reminder list \<Rightarrow> nat \<Rightarrow> reminder_report option" where
  "report_for run planned i =
     (case planned ! i of
        PlannedSuppressed lines \<Rightarrow> Some (ReportSuppressed lines)
      | Runnable r \<Rightarrow> (case eval_gate run (rm_gate r) of
          Some e \<Rightarrow> Some (report_of r e)
        | None \<Rightarrow> if pooled planned i then Some (report_of r (Inl ''parallel gate worker panicked'')) else None))"

text \<open>How many parallel gates come before an index.\<close>

definition joined :: "planned_reminder list \<Rightarrow> nat \<Rightarrow> nat" where
  "joined planned i = card {j \<in> set (parallel_indexes planned). j < i}"

lemma strict_sorted_below:
  fixes xs :: "nat list"
  assumes "sorted_wrt (<) xs"
  shows "k < length xs \<Longrightarrow> card {j \<in> set xs. j < xs ! k} = k"
    and "{j \<in> set xs. j < i} = set (take (card {j \<in> set xs. j < i}) xs)"
proof -
  have dist: "distinct xs" using assms by (simp add: strict_sorted_iff)
  have lt: "xs ! m < xs ! k \<longleftrightarrow> m < k" if "m < length xs" "k < length xs" for m k
    using assms that by (metis linorder_neqE_nat not_less_iff_gr_or_eq sorted_wrt_iff_nth_less)
  show "card {j \<in> set xs. j < xs ! k} = k" if k: "k < length xs" for k
  proof -
    have "{j \<in> set xs. j < xs ! k} = set (take k xs)"
    proof
      show "{j \<in> set xs. j < xs ! k} \<subseteq> set (take k xs)"
        using k lt by (auto simp: in_set_conv_nth) (metis nth_take)
      show "set (take k xs) \<subseteq> {j \<in> set xs. j < xs ! k}"
        using k lt by (auto simp: in_set_conv_nth) (metis less_trans)
    qed
    then show ?thesis using dist k by (simp add: distinct_card)
  qed
  show "{j \<in> set xs. j < i} = set (take (card {j \<in> set xs. j < i}) xs)"
    using assms
  proof (induction xs)
    case (Cons x xs)
    show ?case
    proof (cases "x < i")
      case True
      then have "{j \<in> set (x # xs). j < i} = insert x {j \<in> set xs. j < i}" by auto
      moreover have "x \<notin> {j \<in> set xs. j < i}" using Cons.prems by auto
      ultimately show ?thesis using Cons by simp
    next
      case False
      then have "{j \<in> set (x # xs). j < i} = {}" using Cons.prems by auto
      then show ?thesis by (simp only: card.empty take0 list.set(1))
    qed
  qed simp
qed

lemma parallel_indexes_sorted: "sorted_wrt (<) (parallel_indexes planned)"
  unfolding parallel_indexes_def by (rule sorted_wrt_filter) simp

lemma parallel_at_joined:
  assumes "i \<in> set (parallel_indexes planned)"
  shows "joined planned i < length (parallel_indexes planned)" "parallel_indexes planned ! joined planned i = i"
    "joined planned (Suc i) = Suc (joined planned i)"
proof -
  let ?P = "parallel_indexes planned"
  obtain k where k: "k < length ?P" "?P ! k = i" using assms by (metis in_set_conv_nth)
  then have "joined planned i = k"
    using strict_sorted_below(1)[OF parallel_indexes_sorted k(1)] by (simp add: joined_def)
  then show "joined planned i < length ?P" "?P ! joined planned i = i" using k by simp_all
  have "{j \<in> set ?P. j < Suc i} = insert i {j \<in> set ?P. j < i}" using assms by auto
  then show "joined planned (Suc i) = Suc (joined planned i)" by (simp add: joined_def)
qed

lemma joined_other: "i \<notin> set (parallel_indexes planned) \<Longrightarrow> joined planned (Suc i) = joined planned i"
  unfolding joined_def by (rule arg_cong[where f = card]) (auto simp: less_Suc_eq)

definition pool_inv :: "gate_runner \<Rightarrow> planned_reminder list \<Rightarrow> nat \<Rightarrow> thread_pool \<Rightarrow> nat \<Rightarrow> bool" where
  "pool_inv run planned i pool next_parallel \<longleftrightarrow>
     (let P = parallel_indexes planned; m = MAX_PARALLEL_GATES + joined planned i
      in bt_ok pool
         \<and> (if 2 \<le> length P
            then next_parallel = max MAX_PARALLEL_GATES (min m (length P))
              \<and> (\<forall>j. bt_get pool j = (if i \<le> j \<and> j \<in> set (take m P)
                    then Some (eval_gate run (planned_gate (planned ! j))) else None))
            else pool = [] \<and> next_parallel = MAX_PARALLEL_GATES))"

lemma spawn_fold:
  "bt_ok pool \<Longrightarrow> bt_ok (fold (spawn_gate run planned) js pool)
     \<and> bt_get (fold (spawn_gate run planned) js pool) j =
         (if j \<in> set js then Some (eval_gate run (planned_gate (planned ! j))) else bt_get pool j)"
  by (induction js arbitrary: pool) (auto simp: spawn_gate_def bt_ok_insert bt_get_insert)

lemma pool_inv_start: "pool_inv run planned 0 (pool_start run planned) MAX_PARALLEL_GATES"
proof -
  have "joined planned 0 = 0" by (simp add: joined_def)
  then show ?thesis
    using spawn_fold[OF bt_ok_Nil, of run planned "take MAX_PARALLEL_GATES (parallel_indexes planned)"]
    by (simp add: pool_inv_def pool_start_def Let_def)
qed

lemma pool_inv_step:
  assumes inv: "pool_inv run planned i pool next_parallel" and i: "i < length planned"
  shows "pool_step run planned i (planned ! i) pool next_parallel = None \<longleftrightarrow> report_for run planned i = None"
    and "pool_step run planned i (planned ! i) pool next_parallel = Some (report, pool', next_parallel') \<Longrightarrow>
      report_for run planned i = Some report \<and> pool_inv run planned (Suc i) pool' next_parallel'"
proof -
  let ?P = "parallel_indexes planned"
  let ?m = "MAX_PARALLEL_GATES + joined planned i"
  let ?ev = "\<lambda>j. eval_gate run (planned_gate (planned ! j))"
  have ok: "bt_ok pool" using inv by (simp add: pool_inv_def Let_def)
  have "(pool_step run planned i (planned ! i) pool next_parallel = None \<longleftrightarrow> report_for run planned i = None)
    \<and> (pool_step run planned i (planned ! i) pool next_parallel = Some (report, pool', next_parallel') \<longrightarrow>
      report_for run planned i = Some report \<and> pool_inv run planned (Suc i) pool' next_parallel')"
  proof (cases "pooled planned i")
    case True
    then have iP: "i \<in> set ?P" and two: "2 \<le> length ?P" by (auto simp: pooled_def)
    have next_eq: "next_parallel = max MAX_PARALLEL_GATES (min ?m (length ?P))"
      and get: "\<And>j. bt_get pool j = (if i \<le> j \<and> j \<in> set (take ?m ?P) then Some (?ev j) else None)"
      using inv two by (auto simp: pool_inv_def Let_def)
    note k = parallel_at_joined[OF iP]
    obtain r where r: "planned ! i = Runnable r"
      using iP by (auto simp: parallel_indexes_def is_parallel_def planned_gate_def split: planned_reminder.splits)
    have "i \<in> set (take ?m ?P)"
      using k(1,2) by (auto simp: in_set_conv_nth MAX_PARALLEL_GATES_def intro!: exI[of _ "joined planned i"])
    then have gi: "bt_get pool i = Some (?ev i)" by (simp add: get)
    have more: "next_parallel < length ?P \<longleftrightarrow> ?m < length ?P"
      by (auto simp: next_eq)
    have gate: "planned_gate (planned ! i) = rm_gate r" by (simp add: r planned_gate_def)
    have rep: "report_for run planned i = Some (report_of r (case ?ev i of
        None \<Rightarrow> Inl ''parallel gate worker panicked'' | Some e \<Rightarrow> e))"
      using True by (auto simp: report_for_def r gate[unfolded r] split: option.splits)
    define removed where "removed = bt_remove i pool"
    have removed: "bt_ok removed" "\<And>j. bt_get removed j = (if j = i then None else bt_get pool j)"
      using ok by (simp_all add: removed_def bt_ok_remove bt_get_remove)
    have step: "pool_step run planned i (planned ! i) pool next_parallel =
        Some (if ?m < length ?P
          then (the (report_for run planned i), spawn_gate run planned (?P ! next_parallel) removed, next_parallel + 1)
          else (the (report_for run planned i), removed, next_parallel))"
      by (simp add: pool_step_def r gi rep Let_def more removed_def)
    have inv': "pool_inv run planned (Suc i) pool' next_parallel'"
      if "(if ?m < length ?P then (spawn_gate run planned (?P ! next_parallel) removed, next_parallel + 1)
          else (removed, next_parallel)) = (pool', next_parallel')"
    proof (cases "?m < length ?P")
      case m: True
      then have n: "next_parallel = ?m" by (simp add: next_eq MAX_PARALLEL_GATES_def)
      have "i < ?P ! ?m"
        using parallel_indexes_sorted[of planned] m k(1,2)
        by (metis MAX_PARALLEL_GATES_def add_strict_increasing le_refl sorted_wrt_nth_less zero_less_numeral)
      moreover have "take (Suc ?m) ?P = take ?m ?P @ [?P ! ?m]" using m by (simp add: take_Suc_conv_app_nth)
      ultimately show ?thesis
        using that m two removed n k(3)
        by (auto simp: pool_inv_def Let_def spawn_gate_def bt_ok_insert bt_get_insert get)
    next
      case m: False
      then have "take (Suc ?m) ?P = take ?m ?P" by simp
      then show ?thesis
        using that m two removed k(3) by (auto simp: pool_inv_def Let_def get next_eq)
    qed
    show ?thesis using step rep inv' by (auto split: if_splits)
  next
    case False
    have none: "bt_get pool i = None"
      using inv False by (auto simp: pool_inv_def Let_def pooled_def split: if_splits dest: in_set_takeD)
    have keep: "pool_inv run planned (Suc i) pool next_parallel"
    proof (cases "2 \<le> length ?P")
      case True
      then have "i \<notin> set ?P" using False by (simp add: pooled_def)
      then show ?thesis
        using inv True joined_other[of i planned]
        by (auto simp: pool_inv_def Let_def le_Suc_eq not_less_eq_eq dest: in_set_takeD le_antisym)
    next
      case False
      then show ?thesis using inv by (simp add: pool_inv_def Let_def)
    qed
    show ?thesis
      using none keep False
      by (auto simp: pool_step_def report_for_def split: planned_reminder.splits option.splits)
  qed
  then show "pool_step run planned i (planned ! i) pool next_parallel = None \<longleftrightarrow> report_for run planned i = None"
    "pool_step run planned i (planned ! i) pool next_parallel = Some (report, pool', next_parallel') \<Longrightarrow>
      report_for run planned i = Some report \<and> pool_inv run planned (Suc i) pool' next_parallel'"
    by blast+
qed

lemma pool_reachable_inv: "pool_reachable run planned i pool n \<Longrightarrow> pool_inv run planned i pool n"
  by (induction rule: pool_reachable.induct) (auto simp: pool_inv_start dest: pool_inv_step(2))

lemma pool_inv_size:
  assumes "pool_inv run planned i pool n"
  shows "length pool \<le> MAX_PARALLEL_GATES"
proof (cases "2 \<le> length (parallel_indexes planned)")
  case True
  let ?P = "parallel_indexes planned" and ?k = "joined planned i"
  have ok: "bt_ok pool" and get: "\<And>j. bt_get pool j \<noteq> None \<Longrightarrow> i \<le> j \<and> j \<in> set (take (MAX_PARALLEL_GATES + ?k) ?P)"
    using assms True by (auto simp: pool_inv_def Let_def split: if_splits)
  have below: "{j \<in> set ?P. j < i} = set (take ?k ?P)"
    using strict_sorted_below(2)[OF parallel_indexes_sorted, of planned i] by (simp add: joined_def)
  have "set (bt_keys pool) \<subseteq> set (drop ?k (take (MAX_PARALLEL_GATES + ?k) ?P))"
  proof
    fix j assume "j \<in> set (bt_keys pool)"
    then have j: "i \<le> j" "j \<in> set (take (MAX_PARALLEL_GATES + ?k) ?P)"
      using get by (auto simp: bt_has_iff_key[symmetric] bt_has_def)
    then have "j \<notin> set (take ?k ?P)" unfolding below[symmetric] by simp
    moreover have "take (MAX_PARALLEL_GATES + ?k) ?P = take ?k ?P @ drop ?k (take (MAX_PARALLEL_GATES + ?k) ?P)"
      using append_take_drop_id[of ?k "take (MAX_PARALLEL_GATES + ?k) ?P"] by simp
    ultimately show "j \<in> set (drop ?k (take (MAX_PARALLEL_GATES + ?k) ?P))" using j(2) by (metis Un_iff set_append)
  qed
  then have "card (set (bt_keys pool)) \<le> card (set (drop ?k (take (MAX_PARALLEL_GATES + ?k) ?P)))"
    by (intro card_mono) auto
  also have "\<dots> \<le> length (drop ?k (take (MAX_PARALLEL_GATES + ?k) ?P))" by (rule card_length)
  also have "\<dots> \<le> MAX_PARALLEL_GATES" by simp
  finally show ?thesis
    using bt_keys_sorted[OF ok] distinct_card[of "bt_keys pool"] by (simp add: strict_sorted_iff bt_keys_def)
qed (use assms in \<open>simp add: pool_inv_def Let_def\<close>)

end
