(* ===== verification/Tick_Refine.thy ===== *)
theory Tick_Refine
  imports Tick_Spec
begin

text \<open>
  The engine refines the specification: a tick with its pool of threads, its streaming prefix and
  its callback does exactly what \<open>tick_effect\<close> says. \<open>tick_effect\<close> evaluates the planned reminders
  in order, determines the unavailable ones, and lists the lines once.
\<close>

section \<open>The specification of a tick\<close>

definition planned_reports :: "gate_runner \<Rightarrow> planned_reminder list \<Rightarrow> reminder_report list option" where
  "planned_reports run planned = those (map (report_for run planned) [0 ..< length planned])"

definition unavailable_of :: "reminder_report list \<Rightarrow> string btree_set" where
  "unavailable_of reports = unavailable_loop reports (initially_unavailable reports)"

definition reminders_effect :: "int \<Rightarrow> bool \<Rightarrow> reminder_report list \<Rightarrow> fired_state \<Rightarrow> effect" where
  "reminders_effect now report_pending reports =
     reports_effect (unavailable_of reports) now report_pending reports"

definition summary_line :: "nat \<Rightarrow> string" where
  "summary_line n = format_note (''emitted '' @ dec_nat n @ '' instruction(s) this tick'')"

definition tick_plan :: "tick_config \<Rightarrow> ops_state \<Rightarrow> int \<Rightarrow> fired_state \<Rightarrow> bool \<Rightarrow> planned_reminder list" where
  "tick_plan config state now fired report_pending =
     (if os_enabled state then plan_reminders state now fired report_pending (tc_reminders config) else [])"

text \<open>\<open>None\<close> when a gate panics outside the pool, which panics the tick.\<close>

definition tick_effect ::
  "gate_runner \<Rightarrow> (string \<Rightarrow> int \<Rightarrow> int option) \<Rightarrow> tick_config \<Rightarrow> ops_state \<Rightarrow> int \<Rightarrow> fired_state
   \<Rightarrow> int option \<Rightarrow> bool \<Rightarrow> effect option" where
  "tick_effect run probe config state now fired current_tick_min report_pending =
     (case planned_reports run (tick_plan config state now fired report_pending) of
        None \<Rightarrow> None
      | Some reports \<Rightarrow>
          let (ls, fired', n) = eff_then
                (map (evaluate_health probe now) (tc_health_checks config) @ state_records state current_tick_min,
                 prune_removed_render_failure_state (bs_collect (map rm_name (tc_reminders config))) fired,
                 state_actions state current_tick_min)
                (reminders_effect now report_pending reports)
          in Some (ls @ [summary_line n], fired', n))"

section \<open>Reports\<close>

lemma those_eq_Some: "those xs = Some ys \<longleftrightarrow> length xs = length ys \<and> (\<forall>i < length ys. xs ! i = Some (ys ! i))"
proof (induction xs arbitrary: ys)
  case (Cons x xs)
  show ?case
    by (cases x; cases ys) (auto simp: Cons nth_Cons' less_Suc_eq_0_disj split: option.splits)
qed auto

lemma those_eq_None: "those xs = None \<longleftrightarrow> None \<in> set xs"
  by (induction xs) (auto split: option.splits)

lemma planned_reports_Some:
  "planned_reports run planned = Some rs \<longleftrightarrow>
     length rs = length planned \<and> (\<forall>i < length planned. report_for run planned i = Some (rs ! i))"
  by (auto simp: planned_reports_def those_eq_Some)

lemma planned_reports_None:
  "planned_reports run planned = None \<longleftrightarrow> (\<exists>i < length planned. report_for run planned i = None)"
  by (auto simp: planned_reports_def those_eq_None image_iff) (metis atLeast0LessThan lessThan_iff)

lemma eff_then_assoc: "eff_then (eff_then a f) g = eff_then a (\<lambda>s. eff_then (f s) g)"
  by (cases a) (simp add: eff_then_def case_prod_unfold)

lemma eff_then_nothing [simp]: "eff_then ([], f, 0) g = g f" "eff_then a (\<lambda>s. ([], s, 0)) = a"
  by (cases "g f"; cases a; simp add: eff_then_def)+

lemma reports_effect_append:
  "reports_effect U now pend (rs @ rs') fired =
     eff_then (reports_effect U now pend rs fired) (reports_effect U now pend rs')"
proof (induction rs arbitrary: fired)
  case (Cons r rs)
  then have "reports_effect U now pend (rs @ rs') =
      (\<lambda>f. eff_then (reports_effect U now pend rs f) (reports_effect U now pend rs'))" by blast
  then show ?case by (simp add: eff_then_assoc)
qed simp

definition report_deps :: "reminder_report \<Rightarrow> string list" where
  "report_deps report = (case report of Evaluated ev \<Rightarrow> rm_depends_on (ev_reminder ev) | ReportSuppressed _ \<Rightarrow> [])"

lemma report_effect_no_deps:
  "report_deps report = [] \<Longrightarrow> report_effect U now pend report fired = report_effect [] now pend report fired"
  by (cases report)
    (simp_all add: report_deps_def report_effect_def evaluation_effect_def Let_def
      split: option.split gate_outcome.split)

lemma reports_effect_no_deps:
  "\<forall>r \<in> set rs. report_deps r = [] \<Longrightarrow> reports_effect U now pend rs fired = reports_effect [] now pend rs fired"
proof (induction rs arbitrary: fired)
  case (Cons r rs)
  then have "reports_effect U now pend rs = reports_effect [] now pend rs" by (intro ext) simp
  then show ?case using Cons.prems report_effect_no_deps[of r U now pend fired] by simp
qed simp

lemma report_of_reminder [simp]: "report_deps (report_of r e) = rm_depends_on r"
  by (auto simp: report_of_def report_deps_def split: sum.splits)

lemma report_for_deps:
  "report_for run planned i = Some report \<Longrightarrow> report_deps report \<noteq> [] \<longleftrightarrow> has_dependencies (planned ! i)"
  by (auto simp: report_for_def has_dependencies_def report_deps_def[of "ReportSuppressed _"]
      split: planned_reminder.splits option.splits if_splits)

section \<open>The evaluation loop\<close>

definition never_fails :: "('s, 'e) emit_line \<Rightarrow> bool" where
  "never_fails cb \<longleftrightarrow> (case cb of None \<Rightarrow> True | Some f \<Rightarrow> \<forall>s l. \<exists>s'. f s l = Inr s')"

definition workers_survive :: "gate_runner \<Rightarrow> planned_reminder list \<Rightarrow> bool" where
  "workers_survive run planned \<longleftrightarrow>
     list_all (\<lambda>i. eval_gate run (planned_gate (planned ! i)) \<noteq> None) (parallel_indexes planned)"

lemma feed_never_fails: "never_fails cb \<Longrightarrow> \<exists>s'. feed cb s ls = Inr s'"
proof (induction cb s ls rule: feed.induct)
  case (3 f s l ls)
  then obtain s' where "f s l = Inr s'" by (fastforce simp: never_fails_def)
  then show ?case using 3 by simp
qed auto

lemma perform_never_fails: "never_fails cb \<Longrightarrow> perform cb eff st \<noteq> IoError e"
  using feed_never_fails[of cb "to_sink st" "fst eff"] by (auto simp: perform_def split: prod.splits)

lemma perform_not_Panic [simp]: "perform cb eff st \<noteq> Panic"
  by (auto simp: perform_def split: prod.splits sum.splits)

lemma pool_inv_survives:
  assumes "pool_inv run planned i pool n" "workers_survive run planned"
  shows "None \<notin> set (map snd pool)"
proof
  assume "None \<in> set (map snd pool)"
  then obtain j where j: "(j, None) \<in> set pool" by auto
  have ok: "bt_ok pool" using assms by (simp add: pool_inv_def Let_def)
  then have get: "bt_get pool j = Some None"
    using j by (simp add: bt_get_def bt_ok_def strict_sorted_iff)
  then have "2 \<le> length (parallel_indexes planned)"
    using assms(1) by (auto simp: pool_inv_def Let_def bt_get_def split: if_splits)
  then have "j \<in> set (parallel_indexes planned)" "eval_gate run (planned_gate (planned ! j)) = None"
    using assms(1) get by (auto simp: pool_inv_def Let_def split: if_splits dest: in_set_takeD)
  then show False using assms(2) by (auto simp: workers_survive_def list_all_iff)
qed

text \<open>
  The loop returns the report of every planned reminder, and has rendered those of the prefix.
\<close>

lemma eval_loop_refines:
  assumes reports: "planned_reports run planned = Some rs"
    and quiet: "never_fails cb \<or> workers_survive run planned"
  shows "pool_inv run planned i pool n \<Longrightarrow> i \<le> length planned \<Longrightarrow>
    eval_loop run planned prefix_len now cb pend i (drop i planned) pool n (take i rs) st =
      run_bind (perform cb (reports_effect [] now pend (drop i (take prefix_len rs)) (to_fired st)) st)
        (\<lambda>st. Done (rs, st))"
proof (induction "length planned - i" arbitrary: i pool n st)
  case 0
  then show ?case using reports by (simp add: planned_reports_Some perform_nothing)
next
  case (Suc k)
  then have i: "i < length planned" by simp
  have len: "length rs = length planned" and rep: "report_for run planned i = Some (rs ! i)"
    using reports i by (auto simp: planned_reports_Some)
  obtain pool' n' where step: "pool_step run planned i (planned ! i) pool n = Some (rs ! i, pool', n')"
    using pool_inv_step[OF Suc.prems(1) i] rep by (cases "pool_step run planned i (planned ! i) pool n") auto
  have inv': "pool_inv run planned (Suc i) pool' n'" using pool_inv_step(2)[OF Suc.prems(1) i step] by blast
  have dp: "drop i planned = planned ! i # drop (Suc i) planned" using i by (simp add: Cons_nth_drop_Suc)
  have tr: "take i rs @ [rs ! i] = take (Suc i) rs" using i len by (simp add: take_Suc_conv_app_nth)
  note IH = Suc.hyps(1)[of "Suc i" pool' n', OF _ inv']
  have kk: "k = length planned - Suc i" "Suc i \<le> length planned" using Suc.hyps(2) i by simp_all
  show ?case
  proof (cases "i < prefix_len")
    case False
    then show ?thesis
      using IH[OF kk, of st] step i by (simp add: dp tr)
  next
    case True
    let ?e = "report_effect [] now pend (rs ! i) (to_fired st)"
    let ?rest = "reports_effect [] now pend (drop (Suc i) (take prefix_len rs))"
    have dr: "drop i (take prefix_len rs) = rs ! i # drop (Suc i) (take prefix_len rs)"
      using True i len by (subst Cons_nth_drop_Suc[symmetric]) auto
    have split: "run_bind (perform cb (reports_effect [] now pend (drop i (take prefix_len rs)) (to_fired st)) st) h
        = run_bind (perform cb ?e st) (\<lambda>st. run_bind (perform cb (?rest (to_fired st)) st) h)"
      for h :: "_ \<Rightarrow> (_, reminder_report list \<times> _) tick_run"
    proof -
      have "perform cb (reports_effect [] now pend (drop i (take prefix_len rs)) (to_fired st)) st =
          run_bind (perform cb ?e st) (\<lambda>st. perform cb (?rest (to_fired st)) st)"
        by (simp add: dr perform_bind)
      then show ?thesis by (cases "perform cb ?e st") auto
    qed
    have no_panic: "None \<notin> set (map snd pool')" if "perform cb ?e st = IoError e" for e
      using that quiet perform_never_fails pool_inv_survives[OF inv'] by metis
    show ?thesis
      unfolding dp eval_loop.simps step
      using IH[OF kk] True no_panic
      by (cases "perform cb ?e st") (simp_all add: tr render_report_perform split)
  qed
qed

lemma prefix_has_no_deps:
  assumes "planned_reports run planned = Some rs" "r \<in> set (take (stream_prefix_len cb planned) rs)"
  shows "report_deps r = []"
proof -
  let ?k = "stream_prefix_len cb planned"
  obtain i where i: "i < ?k" "i < length rs" "r = rs ! i"
    using assms(2) by (auto simp: in_set_conv_nth)
  then have "report_for run planned i = Some r" using assms(1) by (auto simp: planned_reports_Some)
  moreover have "\<not> has_dependencies (planned ! i)"
  proof (cases cb)
    case None
    then show ?thesis using i by (simp add: stream_prefix_len_def)
  next
    case (Some f)
    then show ?thesis
      using i by (simp add: stream_prefix_len_def) (metis nth_mem set_takeWhileD takeWhile_nth)
  qed
  ultimately show ?thesis using report_for_deps by blast
qed

lemma run_reminders_refines:
  assumes reports: "planned_reports run planned = Some rs"
    and quiet: "never_fails cb \<or> workers_survive run planned"
  shows "run_reminders run planned now cb pend st = perform cb (reminders_effect now pend rs (to_fired st)) st"
proof -
  let ?k = "stream_prefix_len cb planned" and ?U = "unavailable_of rs"
  have loop: "eval_loop run planned ?k now cb pend 0 planned (pool_start run planned) MAX_PARALLEL_GATES [] st =
      run_bind (perform cb (reports_effect [] now pend (take ?k rs) (to_fired st)) st) (\<lambda>st. Done (rs, st))"
    using eval_loop_refines[OF reports quiet pool_inv_start, of ?k now pend st] by simp
  have pre: "reports_effect [] now pend (take ?k rs) = reports_effect ?U now pend (take ?k rs)"
    using reports_effect_no_deps[of "take ?k rs" ?U] prefix_has_no_deps[OF reports, of _ cb] by (intro ext) simp
  have rest: "(if ?k < length rs then render_after_dependency_pass rs ?k now cb pend st else Done st) =
      perform cb (reports_effect ?U now pend (drop ?k rs) (to_fired st)) st" for st
    by (auto simp: render_after_dependency_pass_def render_reports_perform unavailable_of_def perform_nothing)
  have "run_reminders run planned now cb pend st =
      run_bind (perform cb (reports_effect ?U now pend (take ?k rs) (to_fired st)) st)
        (\<lambda>st. perform cb (reports_effect ?U now pend (drop ?k rs) (to_fired st)) st)"
    by (cases "perform cb (reports_effect ?U now pend (take ?k rs) (to_fired st)) st")
      (simp_all add: run_reminders_def loop pre rest)
  also have "\<dots> = perform cb (reports_effect ?U now pend (take ?k rs @ drop ?k rs) (to_fired st)) st"
    unfolding reports_effect_append by (rule perform_bind)
  finally show ?thesis by (simp add: reminders_effect_def)
qed

text \<open>What is left of a tick once its effect is known: feed the lines to the callback.\<close>

definition deliver :: "('s, 'e) emit_line \<Rightarrow> 's \<Rightarrow> effect \<Rightarrow> ('e, tick_result \<times> 's) tick_run" where
  "deliver cb sink eff =
     (case eff of (ls, fired, n) \<Rightarrow>
       case feed cb sink ls of
         Inl e \<Rightarrow> IoError e
       | Inr s \<Rightarrow> Done (\<lparr>tr_lines = ls, tr_fired = fired, tr_actions_emitted = n\<rparr>, s))"

lemma perform_bind_cong:
  "(\<And>st'. to_fired st' = g \<Longrightarrow> F st' = G st') \<Longrightarrow>
   run_bind (perform cb (ls, g, m) st) F = run_bind (perform cb (ls, g, m) st) G"
  by (auto simp: perform_def split: sum.splits)

lemma perform_set_bind:
  "run_bind (perform cb (ls, g, m) st) (\<lambda>st. F (set_fired g' (add_actions k st))) =
   run_bind (perform cb (ls, g', m + k) st) F"
  by (auto simp: perform_def set_fired_def add_actions_def add.assoc split: sum.splits)

lemma to_fired_add [simp]: "to_fired (add_actions n st) = to_fired st"
  by (simp add: add_actions_def)

lemma run_tick_inner_refines:
  assumes eff: "tick_effect run probe config state now fired ctm pend = Some eff"
    and quiet: "never_fails cb \<or> workers_survive run (tick_plan config state now fired pend)"
  shows "run_tick_inner run probe config state now fired ctm pend cb sink = deliver cb sink eff"
proof -
  let ?planned = "tick_plan config state now fired pend"
  let ?health = "map (evaluate_health probe now) (tc_health_checks config)"
  let ?st = "\<lparr>to_lines = [], to_sink = sink, to_fired = fired, to_actions = 0\<rparr>"
  let ?pruned = "prune_removed_render_failure_state (bs_collect (map rm_name (tc_reminders config))) fired"
  obtain rs where rs: "planned_reports run ?planned = Some rs"
    using eff by (auto simp: tick_effect_def split: option.splits)
  let ?body = "\<lambda>st. perform cb (reminders_effect now pend rs (to_fired st)) st"
  define total where "total = eff_then (?health @ state_records state ctm, ?pruned, state_actions state ctm)
      (reminders_effect now pend rs)"
  obtain ls f n where total_eq: "total = (ls, f, n)" by (cases total)
  have effect: "eff = (ls @ [summary_line n], f, n)"
    using eff rs total_eq[unfolded total_def] by (simp add: tick_effect_def)
  have reminders: "(if os_enabled state then run_reminders run
        (plan_reminders state now fired pend (tc_reminders config)) now cb pend st else Done st) = ?body st" for st
  proof (cases "os_enabled state")
    case True
    then show ?thesis using run_reminders_refines[OF rs quiet] by (simp add: tick_plan_def)
  next
    case False
    then have "rs = []" using rs by (simp add: tick_plan_def planned_reports_Some)
    then show ?thesis using False by (simp add: reminders_effect_def perform_nothing)
  qed
  have pre: "run_bind (record_lines cb ?health ?st) (\<lambda>st. run_bind (record_lines cb (state_records state ctm) st) h)
      = run_bind (perform cb (?health @ state_records state ctm, fired, 0) ?st) h"
    for h :: "_ \<Rightarrow> (_, tick_result \<times> _) tick_run"
    by (auto simp: record_lines_perform perform_def feed_append split: sum.splits)
  have "run_tick_inner run probe config state now fired ctm pend cb sink =
      run_bind (perform cb (?health @ state_records state ctm, fired, 0) ?st)
        (\<lambda>st. run_bind (?body (set_fired ?pruned (add_actions (state_actions state ctm) st)))
           (\<lambda>st. run_bind (record_line cb (summary_line (to_actions st)) st)
             (\<lambda>st. Done (\<lparr>tr_lines = to_lines st, tr_fired = to_fired st, tr_actions_emitted = to_actions st\<rparr>,
                to_sink st))))"
    unfolding run_tick_inner_def Let_def reminders pre summary_line_def
    by (rule perform_bind_cong) simp
  also have "\<dots> = run_bind (perform cb total ?st)
      (\<lambda>st. run_bind (record_line cb (summary_line (to_actions st)) st)
         (\<lambda>st. Done (\<lparr>tr_lines = to_lines st, tr_fired = to_fired st, tr_actions_emitted = to_actions st\<rparr>,
            to_sink st)))" (is "_ = run_bind _ ?finish")
    unfolding perform_set_bind[where F = "\<lambda>st. run_bind (?body st) ?finish"] total_def perform_bind[symmetric]
    by (cases "perform cb (?health @ state_records state ctm, ?pruned, state_actions state ctm) ?st") simp_all
  also have "\<dots> = deliver cb sink eff"
    unfolding effect total_eq
    by (auto simp: perform_def deliver_def record_line_perform feed_append split: sum.splits)
  finally show ?thesis .
qed

section \<open>Panics\<close>

lemma eval_loop_panics:
  assumes total: "never_fails cb"
  shows "pool_inv run planned i pool n \<Longrightarrow> i \<le> j \<Longrightarrow> j < length planned \<Longrightarrow> report_for run planned j = None \<Longrightarrow>
    eval_loop run planned prefix_len now cb pend i (drop i planned) pool n reports st = Panic"
proof (induction "length planned - i" arbitrary: i pool n reports st)
  case (Suc k)
  then have i: "i < length planned" by simp
  have dp: "drop i planned = planned ! i # drop (Suc i) planned" using i by (simp add: Cons_nth_drop_Suc)
  show ?case
  proof (cases "pool_step run planned i (planned ! i) pool n")
    case None
    then show ?thesis by (simp add: dp)
  next
    case (Some out)
    obtain report pool' n' where out: "out = (report, pool', n')" by (cases out)
    note next_inv = pool_inv_step(2)[OF Suc.prems(1) i Some[unfolded out]]
    have "j \<noteq> i" using next_inv Suc.prems(4) by auto
    then have IH: "eval_loop run planned prefix_len now cb pend (Suc i) (drop (Suc i) planned) pool' n'
        (reports @ [report]) st' = Panic" for st'
      using Suc next_inv by (intro Suc.hyps(1)) auto
    obtain st1 where "perform cb (report_effect [] now pend report (to_fired st)) st = Done st1"
      using perform_never_fails[OF total, of "report_effect [] now pend report (to_fired st)" st]
      by (cases "perform cb (report_effect [] now pend report (to_fired st)) st") auto
    then obtain st' where "(if i < prefix_len then render_report [] now cb pend report st else Done st) = Done st'"
      by (cases "i < prefix_len") (simp_all add: render_report_perform)
    then show ?thesis using IH Some out by (simp add: dp)
  qed
qed simp

lemma run_tick_inner_panics:
  assumes eff: "tick_effect run probe config state now fired ctm pend = None" and total: "never_fails cb"
  shows "run_tick_inner run probe config state now fired ctm pend cb sink = Panic"
proof -
  let ?planned = "tick_plan config state now fired pend"
  obtain j where j: "j < length ?planned" "report_for run ?planned j = None"
    using eff by (auto simp: tick_effect_def planned_reports_None Let_def case_prod_unfold split: option.splits)
  then have on: "os_enabled state" "?planned = plan_reminders state now fired pend (tc_reminders config)"
    by (auto simp: tick_plan_def split: if_splits)
  have panic: "run_reminders run ?planned now cb pend st = Panic" for st
    using eval_loop_panics[OF total pool_inv_start _ j] by (simp add: run_reminders_def Let_def)
  have lines: "\<exists>st'. record_lines cb ls st = Done st'" for ls st
    using perform_never_fails[OF total] by (cases "perform cb (ls, to_fired st, 0) st") (auto simp: record_lines_perform)
  obtain st1 where st1: "record_lines cb (map (evaluate_health probe now) (tc_health_checks config))
         \<lparr>to_lines = [], to_sink = sink, to_fired = fired, to_actions = 0\<rparr> = Done st1" using lines by blast
  obtain st2 where st2: "record_lines cb (state_records state ctm) st1 = Done st2" using lines by blast
  show ?thesis using panic on by (simp add: run_tick_inner_def st1 st2)
qed

lemma eval_gate_returns: "\<forall>cmd t. run cmd t \<noteq> None \<Longrightarrow> eval_gate run g \<noteq> None"
  by (auto simp: eval_gate_def split: option.splits)

lemma no_panic_reports:
  assumes "\<forall>cmd t. run cmd t \<noteq> None"
  shows "workers_survive run planned" "planned_reports run planned \<noteq> None"
proof -
  have "eval_gate run g \<noteq> None" for g by (rule eval_gate_returns[OF assms])
  then have some: "\<exists>e. eval_gate run g = Some e" for g by blast
  then show "workers_survive run planned" by (simp add: workers_survive_def list_all_iff)
  have "report_for run planned i \<noteq> None" for i
    using some by (cases "planned ! i") (auto simp: report_for_def split: option.split, metis option.distinct(1))
  then show "planned_reports run planned \<noteq> None" by (auto simp: planned_reports_None)
qed

lemma tick_refines_aux:
  assumes "never_fails cb \<or> (\<forall>cmd t. run cmd t \<noteq> None)"
  shows "run_tick_inner run probe config state now fired ctm pend cb sink =
    (case tick_effect run probe config state now fired ctm pend of
       None \<Rightarrow> Panic | Some eff \<Rightarrow> deliver cb sink eff)"
proof (cases "tick_effect run probe config state now fired ctm pend")
  case None
  then have "planned_reports run (tick_plan config state now fired pend) = None"
    by (simp add: tick_effect_def Let_def case_prod_unfold split: option.splits)
  then have "\<not> (\<forall>cmd t. run cmd t \<noteq> None)" using no_panic_reports(2) by blast
  then have "never_fails cb" using assms by blast
  from run_tick_inner_panics[OF None this] show ?thesis by (simp add: None)
next
  case (Some eff)
  have "never_fails cb \<or> workers_survive run (tick_plan config state now fired pend)"
    using assms no_panic_reports(1) by blast
  then show ?thesis using run_tick_inner_refines[OF Some] Some by simp
qed

section \<open>The unavailable reminders\<close>

definition dep_edges :: "reminder_report list \<Rightarrow> (string \<times> string) set" where
  "dep_edges reports = {(d, rm_name (ev_reminder ev)) | d ev.
     Evaluated ev \<in> set reports \<and> ev_error ev = None \<and> ev_outcome ev = Quiet \<and> d \<in> set (rm_depends_on (ev_reminder ev))}"

definition no_result_names :: "reminder_report list \<Rightarrow> string set" where
  "no_result_names reports = {rm_name (ev_reminder ev) | ev.
     Evaluated ev \<in> set reports \<and> ev_error ev = None \<and> ev_outcome ev = NoResult}"

lemma set_initially_unavailable: "set (initially_unavailable reports) = no_result_names reports"
proof -
  have "name \<in> set (initially_unavailable reports) \<longleftrightarrow> (\<exists>r \<in> set reports. no_result_name r = Some name)" for name
    by (force simp: initially_unavailable_def List.map_filter_def)
  moreover have "no_result_name r = Some name \<longleftrightarrow> (\<exists>ev. r = Evaluated ev \<and> ev_error ev = None
      \<and> ev_outcome ev = NoResult \<and> name = rm_name (ev_reminder ev))" for r name
    by (auto simp: no_result_name_def split: reminder_report.splits)
  ultimately show ?thesis by (auto simp: no_result_names_def)
qed

lemma newly_unavailable_edge:
  "newly_unavailable U report = Some name \<Longrightarrow> report \<in> set reports \<Longrightarrow> \<exists>d \<in> set U. (d, name) \<in> dep_edges reports"
  by (auto simp: newly_unavailable_def dep_edges_def list_ex_iff split: reminder_report.splits if_splits)

lemma unavailable_pass_within:
  assumes "\<And>x y. (x, y) \<in> dep_edges all \<Longrightarrow> x \<in> C \<Longrightarrow> y \<in> C"
  shows "set rs \<subseteq> set all \<Longrightarrow> set U \<subseteq> C \<Longrightarrow> set (fst (unavailable_pass rs U changed)) \<subseteq> C"
proof (induction rs arbitrary: U changed)
  case (Cons r rs)
  show ?case
  proof (cases "newly_unavailable U r")
    case (Some name)
    then have "name \<in> C" using newly_unavailable_edge[of U r name all] Cons.prems assms by auto
    then show ?thesis using Cons Some by simp
  qed (use Cons in simp)
qed simp

lemma unavailable_pass_stable:
  "unavailable_pass rs U changed = (U', False) \<Longrightarrow> \<not> changed \<and> U' = U \<and> (\<forall>r \<in> set rs. newly_unavailable U r = None)"
proof (induction rs arbitrary: U changed)
  case (Cons r rs)
  show ?case
  proof (cases "newly_unavailable U r")
    case (Some name)
    then show ?thesis using Cons.IH[of "bs_insert name U" True] Cons.prems by simp
  qed (use Cons in auto)
qed simp

lemma unavailable_loop_props:
  shows "set U \<subseteq> set (unavailable_loop reports U)"
    and "\<forall>r \<in> set reports. newly_unavailable (unavailable_loop reports U) r = None"
    and "set U \<subseteq> C \<Longrightarrow> (\<And>x y. (x, y) \<in> dep_edges reports \<Longrightarrow> x \<in> C \<Longrightarrow> y \<in> C) \<Longrightarrow>
      set (unavailable_loop reports U) \<subseteq> C"
proof (induction reports U rule: unavailable_loop.induct)
  case (1 reports U)
  obtain U' changed where pass: "unavailable_pass reports U False = (U', changed)" by (cases "unavailable_pass reports U False")
  note grow = unavailable_pass_grows[OF pass]
  {
    case 1
    show ?case using grow "1.IH"(1)[OF pass[symmetric] refl] by (subst unavailable_loop.simps) (auto simp: pass)
  next
    case 2
    show ?case
      using unavailable_pass_stable[of reports U False U'] "1.IH"(2)[OF pass[symmetric] refl] pass
      by (subst unavailable_loop.simps) (auto simp: pass)
  next
    case 3
    have "set U' \<subseteq> C" using unavailable_pass_within[of reports C reports U False] 3 pass by simp
    then show ?case using "1.IH"(3)[OF pass[symmetric] refl] 3 by (subst unavailable_loop.simps) (auto simp: pass)
  }
qed

interpretation deps: closure_loop "\<lambda>_. True" dep_edges no_result_names "\<lambda>reports. set (unavailable_of reports)"
proof
  fix reports x y
  show "no_result_names reports \<subseteq> set (unavailable_of reports)"
    using unavailable_loop_props(1) by (simp add: unavailable_of_def set_initially_unavailable[symmetric])
  show "y \<in> set (unavailable_of reports)"
    if "(x, y) \<in> dep_edges reports" "x \<in> set (unavailable_of reports)"
    using that unavailable_loop_props(2)[of reports "initially_unavailable reports"]
    by (auto simp: dep_edges_def unavailable_of_def newly_unavailable_def list_ex_iff split: if_splits)
next
  fix reports C
  assume "no_result_names reports \<subseteq> C" "\<And>x y. (x, y) \<in> dep_edges reports \<Longrightarrow> x \<in> C \<Longrightarrow> y \<in> C"
  then show "set (unavailable_of reports) \<subseteq> C"
    unfolding unavailable_of_def by (intro unavailable_loop_props(3)) (auto simp: set_initially_unavailable)
qed

end
