(* ===== verification/Tick_Properties.thy ===== *)
theory Tick_Properties
  imports Tick_Refine
begin

text \<open>
  What a tick guarantees. Every property is about the engine's functions; its proof goes through
  the refinement of \<open>Tick_Refine\<close>, so that it speaks about \<open>tick_effect\<close> and never about threads,
  streaming or the callback.
\<close>

section \<open>Actions are counted\<close>

abbreviation is_action :: "string \<Rightarrow> bool" where
  "is_action line \<equiv> starts_with line ''ACTION: ''"

definition counted :: "effect \<Rightarrow> bool" where
  "counted eff \<longleftrightarrow> snd (snd eff) = length (filter is_action (fst eff))"

lemma counted_then: "counted eff \<Longrightarrow> (\<And>f. counted (g f)) \<Longrightarrow> counted (eff_then eff g)"
  by (simp add: counted_def eff_then_def case_prod_unfold)

lemma prefix_str_join: "prefix p x \<Longrightarrow> prefix p (str_join sep (x # xs))"
  by (cases xs) (auto simp: prefix_def)

lemma is_action_format [simp]: "is_action (format_action skill kvs title)"
  unfolding format_action_def append_Cons[of "_ @ _"] append_Nil by (rule prefix_str_join) simp

lemma not_action [simp]:
  "\<not> is_action (format_tick_header name schedule)"
  "\<not> is_action (format_note text)"
  "\<not> is_action (format_error text)"
  "\<not> is_action (format_health name status age threshold detail)"
  "\<not> is_action (format_no_result name detail)"
  "\<not> is_action (format_unevaluable name deps)"
  "\<not> is_action (format_clean name)"
  "\<not> is_action (format_suppressed name flags)"
  by (simp_all add: format_tick_header_def format_note_def format_error_def format_health_def
      format_no_result_def format_unevaluable_def format_clean_def format_suppressed_def Let_def)

lemma is_action_specific [simp]:
  "is_action (no_signal_action r reason detail missing)"
  "is_action (repeated_render_failure_action r consecutive first missing)"
  "\<not> is_action (reminder_header r)" "\<not> is_action ops_state_header"
  "\<not> is_action (evaluate_health probe now hc)" "\<not> is_action (summary_line n)"
  by (simp_all add: no_signal_action_def repeated_render_failure_action_def reminder_header_def
      ops_state_header_def evaluate_health_def summary_line_def Let_def split: option.split)

definition quiet_suppression :: "reminder_report \<Rightarrow> bool" where
  "quiet_suppression report =
     (case report of Evaluated _ \<Rightarrow> True | ReportSuppressed ls \<Rightarrow> list_all (\<lambda>l. \<not> is_action l) ls)"

lemma counted_report: "quiet_suppression report \<Longrightarrow> counted (report_effect U now pend report fired)"
  by (cases report)
    (auto simp: quiet_suppression_def report_effect_def evaluation_effect_def counted_def Let_def list_all_iff
      case_prod_unfold split: option.split gate_outcome.split sum.split)

lemma counted_reports:
  "\<forall>r \<in> set rs. quiet_suppression r \<Longrightarrow> counted (reports_effect U now pend rs fired)"
  by (induction rs arbitrary: fired) (auto simp: counted_report intro!: counted_then, simp add: counted_def)

lemma plan_suppressed_quiet:
  "PlannedSuppressed ls \<in> set (plan_reminders state now fired pend reminders) \<Longrightarrow> list_all (\<lambda>l. \<not> is_action l) ls"
  by (induction reminders) (auto split: if_splits)

lemma planned_report_cases:
  assumes "planned_reports run planned = Some rs" "report \<in> set rs"
  obtains ls where "PlannedSuppressed ls \<in> set planned" "report = ReportSuppressed ls"
  | r e where "Runnable r \<in> set planned" "report = report_of r e"
      "e = (case eval_gate run (rm_gate r) of Some e \<Rightarrow> e | None \<Rightarrow> Inl ''parallel gate worker panicked'')"
proof -
  obtain i where i: "i < length rs" "report = rs ! i" using assms(2) by (metis in_set_conv_nth)
  then have "report_for run planned i = Some report" "planned ! i \<in> set planned"
    using assms(1) by (auto simp: planned_reports_Some)
  then show ?thesis
    using that by (cases "planned ! i") (auto simp: report_for_def split: option.splits if_splits)
qed

lemma planned_report_of:
  assumes "planned_reports run planned = Some rs" "Runnable r \<in> set planned"
  shows "report_of r (case eval_gate run (rm_gate r) of Some e \<Rightarrow> e | None \<Rightarrow> Inl ''parallel gate worker panicked'') \<in> set rs"
proof -
  obtain i where i: "i < length planned" "planned ! i = Runnable r" using assms(2) by (metis in_set_conv_nth)
  then have len: "i < length rs" and rep: "report_for run planned i = Some (rs ! i)"
    using assms(1) by (auto simp: planned_reports_Some)
  have "rs ! i = report_of r (case eval_gate run (rm_gate r) of Some e \<Rightarrow> e | None \<Rightarrow> Inl ''parallel gate worker panicked'')"
    using rep i(2) by (auto simp: report_for_def split: option.splits if_splits)
  then show ?thesis using len by (metis nth_mem)
qed

lemma tick_counted:
  assumes "tick_effect run probe config state now fired ctm pend = Some (ls, f, n)"
  shows "n = length (filter is_action ls)" "last ls = summary_line n" "ls \<noteq> []"
proof -
  let ?planned = "tick_plan config state now fired pend"
  let ?pre = "(map (evaluate_health probe now) (tc_health_checks config) @ state_records state ctm,
     prune_removed_render_failure_state (bs_collect (map rm_name (tc_reminders config))) fired, state_actions state ctm)"
  obtain rs where rs: "planned_reports run ?planned = Some rs"
    using assms by (auto simp: tick_effect_def split: option.splits)
  obtain ls' where eff: "eff_then ?pre (reminders_effect now pend rs) = (ls', f, n)" and ls: "ls = ls' @ [summary_line n]"
    using assms by (auto simp: tick_effect_def rs Let_def split: prod.splits)
  have "length (filter is_action (concat (map (\<lambda>l. if is_action l then [ops_state_header, l] else [l]) xs)))
      = length (filter is_action xs)" for xs by (induction xs) auto
  moreover have "filter is_action (map (evaluate_health probe now) hcs) = []" for hcs by (induction hcs) auto
  ultimately have pre: "counted ?pre" by (simp add: counted_def state_records_def state_actions_def)
  have "quiet_suppression r" if "r \<in> set rs" for r
    using rs that
  proof (cases rule: planned_report_cases)
    case (1 ls)
    then have "list_all (\<lambda>l. \<not> is_action l) ls"
      using plan_suppressed_quiet by (auto simp: tick_plan_def split: if_splits)
    then show ?thesis by (simp add: 1 quiet_suppression_def)
  qed (simp add: quiet_suppression_def report_of_def)
  then have "counted (reminders_effect now pend rs f)" for f
    unfolding reminders_effect_def by (intro counted_reports) blast
  then have "counted (ls', f, n)" unfolding eff[symmetric] by (intro counted_then pre)
  then show "n = length (filter is_action ls)" "last ls = summary_line n" "ls \<noteq> []"
    by (simp_all add: ls counted_def)
qed

section \<open>The fired state\<close>

definition ev_determined :: "string set \<Rightarrow> reminder_evaluation \<Rightarrow> bool" where
  "ev_determined U ev \<longleftrightarrow> ev_error ev = None \<and>
     (case ev_outcome ev of
        Quiet \<Rightarrow> set (rm_depends_on (ev_reminder ev)) \<inter> U = {}
      | Fire \<Rightarrow> (\<exists>line. render_emit (rm_emit (ev_reminder ev)) (ev_captured ev) = Inr line)
      | NoResult \<Rightarrow> False)"

lemma internal_keys:
  "starts_with (fst (unresolved_render_state_keys name)) INTERNAL_STATE_PREFIX"
  "starts_with (snd (unresolved_render_state_keys name)) INTERNAL_STATE_PREFIX"
  by (simp_all add: unresolved_render_state_keys_def Let_def UNRESOLVED_RENDER_STATE_PREFIX_def
      INTERNAL_STATE_PREFIX_def)

lemma clear_other: "\<not> starts_with k INTERNAL_STATE_PREFIX \<Longrightarrow>
    bt_get (clear_render_failure_state name state) k = bt_get state k"
  using internal_keys[of name] by (auto simp: clear_render_failure_get)

lemma record_other: "bt_ok state \<Longrightarrow> \<not> starts_with k INTERNAL_STATE_PREFIX \<Longrightarrow>
    bt_get (fst (record_render_failure name now state)) k = bt_get state k"
  using internal_keys[of name] by (auto simp: record_render_failure_get)

lemma prune_other:
  assumes "\<not> starts_with k INTERNAL_STATE_PREFIX"
  shows "bt_get (prune_removed_render_failure_state names state) k = bt_get state k"
proof -
  have "\<not> starts_with k UNRESOLVED_RENDER_STATE_PREFIX"
    using assms by (auto simp: UNRESOLVED_RENDER_STATE_PREFIX_def INTERNAL_STATE_PREFIX_def prefix_def)
  then have "keep_render_state names k" by (simp add: keep_render_state_def strip_prefix_def)
  then show ?thesis by (simp add: prune_removed_render_failure_state_def bt_get_retain)
qed

lemma report_effect_fired:
  assumes ok: "bt_ok fired" and k: "\<not> starts_with k INTERNAL_STATE_PREFIX"
  shows "bt_ok (fst (snd (report_effect U now pend report fired)))"
    and "bt_get (fst (snd (report_effect U now pend report fired))) k =
      (if \<exists>ev. report = Evaluated ev \<and> rm_name (ev_reminder ev) = k \<and> ev_determined (set U) ev
       then Some now else bt_get fired k)"
proof -
  note [simp] = ok bt_ok_insert bt_ok_clear bt_ok_record_failure bt_get_insert clear_other[OF k] record_other[OF ok k]
  show "bt_ok (fst (snd (report_effect U now pend report fired)))"
    by (cases report)
      (simp_all add: report_effect_def evaluation_effect_def Let_def case_prod_unfold
        split: option.split gate_outcome.split sum.split)
  show "bt_get (fst (snd (report_effect U now pend report fired))) k =
      (if \<exists>ev. report = Evaluated ev \<and> rm_name (ev_reminder ev) = k \<and> ev_determined (set U) ev
       then Some now else bt_get fired k)"
  proof (cases report)
    case (Evaluated ev)
    have "filter (\<lambda>d. d \<in> set U) ds = [] \<longleftrightarrow> set ds \<inter> set U = {}" for ds
      by (auto simp: filter_empty_conv)
    then show ?thesis
      unfolding Evaluated report_effect_def evaluation_effect_def ev_determined_def
      by (cases "ev_error ev"; cases "ev_outcome ev"; cases "render_emit (rm_emit (ev_reminder ev)) (ev_captured ev)")
        (simp_all add: Let_def case_prod_unfold)
  qed (simp add: report_effect_def)
qed

lemma reports_effect_fired:
  assumes k: "\<not> starts_with k INTERNAL_STATE_PREFIX"
  shows "bt_ok fired \<Longrightarrow> bt_get (fst (snd (reports_effect U now pend rs fired))) k =
    (if \<exists>ev. Evaluated ev \<in> set rs \<and> rm_name (ev_reminder ev) = k \<and> ev_determined (set U) ev
     then Some now else bt_get fired k)"
proof (induction rs arbitrary: fired)
  case (Cons r rs)
  note one = report_effect_fired[OF Cons.prems k, of U now pend r]
  show ?case
    using Cons.IH[OF one(1)] one(2)
    by (auto simp: eff_then_def case_prod_unfold)
qed simp

lemma reports_effect_ok: "bt_ok fired \<Longrightarrow> bt_ok (fst (snd (reports_effect U now pend rs fired)))"
proof (induction rs arbitrary: fired)
  case (Cons r rs)
  have "\<not> starts_with [] INTERNAL_STATE_PREFIX" by (simp add: INTERNAL_STATE_PREFIX_def)
  from Cons.IH[OF report_effect_fired(1)[OF Cons.prems this]]
  show ?case by (simp add: eff_then_def case_prod_unfold)
qed simp

lemma tick_effect_ok:
  assumes "tick_effect run probe config state now fired ctm pend = Some (ls, f, n)" "bt_ok fired"
  shows "bt_ok f"
proof -
  obtain rs where "f = fst (snd (reports_effect (unavailable_of rs) now pend rs
      (prune_removed_render_failure_state (bs_collect (map rm_name (tc_reminders config))) fired)))"
    using assms(1) by (auto simp: tick_effect_def reminders_effect_def eff_then_def Let_def case_prod_unfold split: option.splits)
  then show ?thesis
    using assms(2) by (simp add: reports_effect_ok prune_removed_render_failure_state_def bt_ok_retain)
qed

text \<open>The names that a tick cannot determine: no result, or quiet on top of such a name.\<close>

definition tick_undetermined ::
  "gate_runner \<Rightarrow> tick_config \<Rightarrow> ops_state \<Rightarrow> int \<Rightarrow> fired_state \<Rightarrow> bool \<Rightarrow> string set" where
  "tick_undetermined run config state now fired pend =
     (case planned_reports run (tick_plan config state now fired pend) of
        Some reports \<Rightarrow> (dep_edges reports)\<^sup>* `` no_result_names reports
      | None \<Rightarrow> {})"

text \<open>When a reminder with the given gate result has been dealt with, so that its cadence advances.\<close>

definition settled :: "string set \<Rightarrow> reminder \<Rightarrow> gate_eval option \<Rightarrow> bool" where
  "settled U r evaluated =
     (case evaluated of
        Some (Inr (Quiet, _)) \<Rightarrow> set (rm_depends_on r) \<inter> U = {}
      | Some (Inr (Fire, captured)) \<Rightarrow> (\<exists>line. render_emit (rm_emit r) captured = Inr line)
      | _ \<Rightarrow> False)"

lemma determined_settled:
  "ev_determined U ev \<longleftrightarrow> settled U r (eval_gate run (rm_gate r))"
  if "Evaluated ev = report_of r (case eval_gate run (rm_gate r) of Some e \<Rightarrow> e
        | None \<Rightarrow> Inl ''parallel gate worker panicked'')"
  using that by (auto simp: report_of_def ev_determined_def settled_def split: option.splits sum.splits gate_outcome.splits)

lemma Runnable_planned:
  "Runnable r \<in> set (tick_plan config state now fired pend) \<longleftrightarrow>
     os_enabled state \<and> r \<in> set (tc_reminders config) \<and> reminder_due now fired r
     \<and> list_all (flag_truthy (os_flags state)) (rm_requires_flags r)"
proof -
  have "Runnable r \<in> set (plan_reminders state now fired pend rs) \<longleftrightarrow> r \<in> set rs \<and> reminder_due now fired r
     \<and> list_all (flag_truthy (os_flags state)) (rm_requires_flags r)" for rs
    by (induction rs) auto
  then show ?thesis by (auto simp: tick_plan_def)
qed

lemma tick_effect_fired:
  assumes eff: "tick_effect run probe config state now fired ctm pend = Some (ls, f, n)"
    and ok: "bt_ok fired" and dist: "distinct (map rm_name (tc_reminders config))"
    and r: "r \<in> set (tc_reminders config)" and k: "\<not> starts_with (rm_name r) INTERNAL_STATE_PREFIX"
  shows "bt_get f (rm_name r) =
    (if Runnable r \<in> set (tick_plan config state now fired pend)
        \<and> settled (tick_undetermined run config state now fired pend) r (eval_gate run (rm_gate r))
     then Some now else bt_get fired (rm_name r))"
proof -
  let ?planned = "tick_plan config state now fired pend"
  let ?U = "tick_undetermined run config state now fired pend"
  let ?names = "bs_collect (map rm_name (tc_reminders config))"
  let ?e = "\<lambda>r. case eval_gate run (rm_gate r) of Some e \<Rightarrow> e | None \<Rightarrow> Inl ''parallel gate worker panicked''"
  obtain rs where rs: "planned_reports run ?planned = Some rs"
    using eff by (auto simp: tick_effect_def split: option.splits)
  have U: "?U = set (unavailable_of rs)" by (simp add: tick_undetermined_def rs deps.marked_eq)
  have f: "f = fst (snd (reports_effect (unavailable_of rs) now pend rs (prune_removed_render_failure_state ?names fired)))"
    using eff rs by (auto simp: tick_effect_def reminders_effect_def eff_then_def Let_def case_prod_unfold)
  have ok': "bt_ok (prune_removed_render_failure_state ?names fired)"
    using ok by (simp add: prune_removed_render_failure_state_def bt_ok_retain)
  have "(\<exists>ev. Evaluated ev \<in> set rs \<and> rm_name (ev_reminder ev) = rm_name r \<and> ev_determined ?U ev) \<longleftrightarrow>
      Runnable r \<in> set ?planned \<and> settled ?U r (eval_gate run (rm_gate r))" (is "?L \<longleftrightarrow> ?R")
  proof
    assume ?L
    then obtain ev where ev: "Evaluated ev \<in> set rs" "rm_name (ev_reminder ev) = rm_name r" "ev_determined ?U ev"
      by blast
    then obtain r' where r': "Runnable r' \<in> set ?planned" "Evaluated ev = report_of r' (?e r')"
      using rs by (auto elim!: planned_report_cases)
    have same: "ev_reminder ev = r'" using r'(2) by (auto simp: report_of_def split: sum.splits)
    have "r' \<in> set (tc_reminders config)" using r'(1) by (simp add: Runnable_planned)
    then have "r' = r" using dist r ev(2) same by (auto simp: distinct_map dest: inj_onD)
    then show ?R using r' ev(3) determined_settled[OF r'(2)] by simp
  next
    assume R: ?R
    then have in_rs: "report_of r (?e r) \<in> set rs" using planned_report_of[OF rs] by blast
    obtain ev where ev: "report_of r (?e r) = Evaluated ev" by (simp add: report_of_def)
    have "rm_name (ev_reminder ev) = rm_name r" using ev by (auto simp: report_of_def split: sum.splits)
    then show ?L using in_rs ev R determined_settled[OF ev[symmetric]] by auto
  qed
  then show ?thesis
    unfolding f reports_effect_fired[OF k ok'] U[symmetric] prune_other[OF k] by simp
qed

section \<open>Properties\<close>

text \<open>
  A sample: a foundation whose gate exits with 75, a reminder that depends on it, and one without a
  gate that always fires.
\<close>

definition sample_runner :: gate_runner where
  "sample_runner cmd timeout =
     Some (if cmd = ''probe'' then gate_result_completed 75 ''summary=no network'' else gate_result_completed 0 [])"

definition sample_config :: tick_config where
  "sample_config =
     \<lparr>tc_reminders =
        [(reminder_new ''base'' (emit_note ''base moved''))\<lparr>rm_gate := Some ((gate_new ''probe'')\<lparr>gt_parallel := True\<rparr>)\<rparr>,
         (reminder_new ''top'' (emit_note ''top moved''))\<lparr>rm_depends_on := [''base''],
            rm_gate := Some ((gate_new ''test'')\<lparr>gt_when := WhenFailure, gt_parallel := True\<rparr>)\<rparr>,
         reminder_new ''land'' (emit_action ''land-prs'' ''land the queue'')],
      tc_health_checks = [], tc_description = []\<rparr>"

definition sane :: "gate_runner \<Rightarrow> ('s, 'e) emit_line \<Rightarrow> bool" where
  "sane run cb \<longleftrightarrow> never_fails cb \<or> (\<forall>cmd t. run cmd t \<noteq> None)"

lemma sane_sample [simp]: "sane sample_runner cb"
  by (simp add: sane_def sample_runner_def)

lemma sane_no_callback [simp]: "sane run None"
  by (simp add: sane_def never_fails_def)

lemma tick_Done_effect:
  assumes "sane run cb" "run_tick_inner run probe config state now fired ctm pend cb sink = Done (res, sink')"
  shows "tick_effect run probe config state now fired ctm pend = Some (tr_lines res, tr_fired res, tr_actions_emitted res)"
  using assms tick_refines_aux[of cb run probe config state now fired ctm pend sink]
  by (auto simp: sane_def deliver_def split: option.splits prod.splits sum.splits)

lemma sample_tick_returns:
  obtains res where "run_tick_inner sample_runner probe config state now fired ctm pend
    (None :: (unit, unit) emit_line) () = Done (res, ())"
proof -
  have "tick_effect sample_runner probe config state now fired ctm pend \<noteq> None"
    using no_panic_reports(2)[of sample_runner]
    by (simp add: tick_effect_def Let_def case_prod_unfold sample_runner_def split: option.split)
  then obtain ls f n where "tick_effect sample_runner probe config state now fired ctm pend = Some (ls, f, n)" by auto
  then have "run_tick_inner sample_runner probe config state now fired ctm pend (None :: (unit, unit) emit_line) () =
      Done (\<lparr>tr_lines = ls, tr_fired = f, tr_actions_emitted = n\<rparr>, ())"
    using tick_refines_aux[of "None :: (unit, unit) emit_line" sample_runner probe config state now fired ctm pend "()"]
    by (simp add: never_fails_def deliver_def)
  then show ?thesis by (rule that)
qed

text \<open>
  C29: A tick refines its specification. With a callback that never fails, or with gates that never
  panic, \<open>run_tick_inner\<close> panics exactly when \<open>tick_effect\<close> has no value (a gate on the main thread
  panics), and otherwise its lines, fired state and action count are those of \<open>tick_effect\<close>; the
  callback is fed the lines in order and its error is the tick's.
\<close>

theorem tick_refines:
  assumes "never_fails cb \<or> (\<forall>cmd t. run cmd t \<noteq> None)"
  shows "run_tick_inner run probe config state now fired ctm pend cb sink =
    (case tick_effect run probe config state now fired ctm pend of
       None \<Rightarrow> Panic
     | Some (ls, fired', n) \<Rightarrow> (case feed cb sink ls of
         Inl e \<Rightarrow> IoError e
       | Inr s \<Rightarrow> Done (\<lparr>tr_lines = ls, tr_fired = fired', tr_actions_emitted = n\<rparr>, s)))"
  unfolding tick_refines_aux[OF assms] deliver_def by (rule refl)

theorem tick_refines_witness:
  "run_tick_inner sample_runner (\<lambda>_ _. None) sample_config ops_state_default 100 [] None False
     (Some (\<lambda>s l. if 2 \<le> length s then Inl ''disk full'' else Inr (s @ [l]))) [] = IoError ''disk full''"
proof -
  let ?cb = "Some (\<lambda>s l. if 2 \<le> length s then Inl ''disk full'' else Inr (s @ [l :: string]))"
  obtain ls f n where eff: "tick_effect sample_runner (\<lambda>_ _. None) sample_config ops_state_default 100 [] None False = Some (ls, f, n)"
    and len: "2 < length ls"
  proof -
    have "case tick_effect sample_runner (\<lambda>_ _. None) sample_config ops_state_default 100 [] None False of
        None \<Rightarrow> False | Some (ls, f, n) \<Rightarrow> 2 < length ls" by code_simp
    then show ?thesis using that by (auto split: option.splits)
  qed
  obtain a b c rest where ls: "ls = a # b # c # rest" using len by (cases ls; cases "tl ls"; cases "tl (tl ls)") auto
  have "feed ?cb [] ls = Inl ''disk full''" by (simp add: ls)
  then show ?thesis
    using tick_refines[of ?cb sample_runner "\<lambda>_ _. None" sample_config ops_state_default 100 "[]" None False "[]"]
    by (simp add: eff sample_runner_def)
qed

text \<open>
  Streaming is not observable. A tick whose callback appends the lines to a sink gives the same
  result as the tick without callback, and the sink holds exactly the lines of the result, in order;
  it panics when that tick panics.
\<close>

theorem tick_stream_equiv:
  "run_tick_with_emit run probe config state now fired ctm pend (\<lambda>s l. Inr (s @ [l])) sink =
    (case run_tick_inner run probe config state now fired ctm pend (None :: (unit, 'e) emit_line) () of
       Done (res, _) \<Rightarrow> Done (res, sink @ tr_lines res)
     | IoError e \<Rightarrow> IoError e
     | Panic \<Rightarrow> Panic)"
proof -
  let ?cb = "Some (\<lambda>s l. Inr (s @ [l])) :: (string list, 'e) emit_line"
  have feed: "feed ?cb sink ls = Inr (sink @ ls)" for ls
    by (induction ls arbitrary: sink) auto
  have total: "never_fails ?cb" "never_fails (None :: (unit, 'e) emit_line)"
    by (simp_all add: never_fails_def)
  show ?thesis
    unfolding run_tick_with_emit_def tick_refines_aux[OF disjI1[OF total(1)]] tick_refines_aux[OF disjI1[OF total(2)]]
    by (auto simp: deliver_def feed split: option.split)
qed

text \<open>
  A tick returns a result whenever its gates return: it terminates with a result and never
  panics, whatever the gates answer and whatever the configuration, states and clock are.
\<close>

theorem tick_returns:
  assumes "\<forall>cmd t. run cmd t \<noteq> None"
  shows "\<exists>res. run_tick run probe config state now fired ctm = Some res"
proof -
  have "tick_effect run probe config state now fired ctm False \<noteq> None"
    using no_panic_reports(2)[OF assms] by (simp add: tick_effect_def Let_def case_prod_unfold split: option.split)
  then show ?thesis
    using tick_refines_aux[of "None :: (unit, unit) emit_line" run probe config state now fired ctm False "()"]
    by (auto simp: run_tick_def never_fails_def deliver_def)
qed

theorem tick_returns_witness:
  "\<exists>res. run_tick sample_runner (\<lambda>_ _. None) sample_config ops_state_default 100 [] None = Some res"
  by (rule tick_returns) (simp add: sample_runner_def)

text \<open>
  The action count of a tick is the number of its lines that start with \<open>ACTION: \<close>, and its last
  line is the note that says how many there are.
\<close>

theorem tick_actions_counted:
  assumes "sane run cb" "run_tick_inner run probe config state now fired ctm pend cb sink = Done (res, sink')"
  shows "tr_actions_emitted res = length (filter (\<lambda>line. starts_with line ''ACTION: '') (tr_lines res))
    \<and> tr_lines res \<noteq> []
    \<and> last (tr_lines res) = ''NOTE: emitted '' @ dec_nat (tr_actions_emitted res) @ '' instruction(s) this tick''"
  using tick_counted[OF tick_Done_effect[OF assms]] by (simp add: summary_line_def format_note_def)

theorem tick_actions_counted_witness:
  "\<exists>res. run_tick_inner sample_runner (\<lambda>_ _. None) sample_config ops_state_default 100 [] None False
      (None :: (unit, unit) emit_line) () = Done (res, ())
    \<and> tr_actions_emitted res = length (filter (\<lambda>line. starts_with line ''ACTION: '') (tr_lines res))"
proof -
  obtain res where res: "run_tick_inner sample_runner (\<lambda>_ _. None) sample_config ops_state_default 100 [] None False
      (None :: (unit, unit) emit_line) () = Done (res, ())" by (rule sample_tick_returns)
  from tick_actions_counted[OF sane_no_callback res] res show ?thesis by blast
qed

text \<open>
  C30: A tick advances the cadence of a reminder exactly when it dealt with it: the ops state is
  enabled, the reminder is due, its flags are set, and its gate was quiet with no undetermined
  dependency, or fired with an emission that rendered. In every other case (a gate that failed or
  panicked, exit code 75, a dependency without a result, an unresolved placeholder) the entry of the
  fired state is what it was, so that the reminder is retried.
\<close>

theorem tick_fired_exact:
  assumes "sane run cb" "run_tick_inner run probe config state now fired ctm pend cb sink = Done (res, sink')"
    and "bt_ok fired" "distinct (map rm_name (tc_reminders config))"
    and "r \<in> set (tc_reminders config)" "\<not> starts_with (rm_name r) INTERNAL_STATE_PREFIX"
  shows "bt_get (tr_fired res) (rm_name r) =
    (if os_enabled state \<and> reminder_due now fired r
        \<and> list_all (flag_truthy (os_flags state)) (rm_requires_flags r)
        \<and> settled (tick_undetermined run config state now fired pend) r (eval_gate run (rm_gate r))
     then Some now else bt_get fired (rm_name r))"
  using tick_effect_fired[OF tick_Done_effect[OF assms(1,2)] assms(3-6)] assms(5) by (simp add: Runnable_planned)

theorem tick_fired_exact_witness:
  "\<exists>res. run_tick_inner sample_runner (\<lambda>_ _. None) sample_config ops_state_default 100 [] None False
      (None :: (unit, unit) emit_line) () = Done (res, ())
    \<and> bt_get (tr_fired res) ''base'' = None \<and> bt_get (tr_fired res) ''land'' = Some 100"
proof -
  let ?base = "(reminder_new ''base'' (emit_note ''base moved''))\<lparr>rm_gate := Some ((gate_new ''probe'')\<lparr>gt_parallel := True\<rparr>)\<rparr>"
  let ?land = "reminder_new ''land'' (emit_action ''land-prs'' ''land the queue'')"
  obtain res where res: "run_tick_inner sample_runner (\<lambda>_ _. None) sample_config ops_state_default 100 [] None False
      (None :: (unit, unit) emit_line) () = Done (res, ())" by (rule sample_tick_returns)
  have dist: "distinct (map rm_name (tc_reminders sample_config))" by code_simp
  have names: "\<not> starts_with ''base'' INTERNAL_STATE_PREFIX" "\<not> starts_with ''land'' INTERNAL_STATE_PREFIX"
    by (simp_all add: INTERNAL_STATE_PREFIX_def)
  have "eval_gate sample_runner (rm_gate ?base) = Some (Inr (NoResult, []))" by code_simp
  then have "\<not> settled U ?base (eval_gate sample_runner (rm_gate ?base))" for U by (simp add: settled_def)
  then have "bt_get (tr_fired res) ''base'' = None"
    using tick_fired_exact[OF sane_no_callback res bt_ok_Nil dist, of ?base] names
    by (simp add: sample_config_def reminder_new_def)
  moreover have "render_emit (rm_emit ?land) [] = Inr (format_action ''land-prs'' [] ''land the queue'')" by code_simp
  then have "settled U ?land (eval_gate sample_runner (rm_gate ?land))" for U
    by (auto simp: settled_def reminder_new_def eval_gate_def)
  then have "bt_get (tr_fired res) ''land'' = Some 100"
    using tick_fired_exact[OF sane_no_callback res bt_ok_Nil dist, of ?land] names
    by (simp add: sample_config_def reminder_new_def ops_state_default_def reminder_due_def is_due_def EVERY_TICK_def)
  ultimately show ?thesis using res by blast
qed

text \<open>
  C31: At every moment of the loop over the planned reminders at most eight gate threads are in
  flight, the reminder that is joined next has been started, and the report of a reminder is the
  result of its own gate.
\<close>

theorem gate_pool_bounded:
  assumes "pool_reachable run planned i pool next_parallel"
  shows "length pool \<le> 8
    \<and> (i < length planned \<longrightarrow>
        (pooled planned i \<longrightarrow> bt_get pool i = Some (eval_gate run (planned_gate (planned ! i))))
        \<and> map_option fst (pool_step run planned i (planned ! i) pool next_parallel) = report_for run planned i)"
proof (intro conjI impI)
  note inv = pool_reachable_inv[OF assms]
  show "length pool \<le> 8" using pool_inv_size[OF inv] by (simp add: MAX_PARALLEL_GATES_def)
  show "map_option fst (pool_step run planned i (planned ! i) pool next_parallel) = report_for run planned i"
    if "i < length planned"
    using pool_inv_step[OF inv that] by (cases "pool_step run planned i (planned ! i) pool next_parallel") auto
  assume "pooled planned i"
  then show "bt_get pool i = Some (eval_gate run (planned_gate (planned ! i)))"
    using inv parallel_at_joined[of i planned]
    by (auto simp: pool_inv_def Let_def pooled_def in_set_conv_nth MAX_PARALLEL_GATES_def
        intro!: exI[of _ "joined planned i"])
qed

theorem gate_pool_bounded_witness:
  "length (pool_start sample_runner (map Runnable (tc_reminders sample_config))) \<le> 8
   \<and> bt_get (pool_start sample_runner (map Runnable (tc_reminders sample_config))) 0 =
       Some (eval_gate sample_runner (Some ((gate_new ''probe'')\<lparr>gt_parallel := True\<rparr>)))"
proof -
  let ?p = "map Runnable (tc_reminders sample_config)"
  have p: "pooled ?p 0" "0 < length ?p" "planned_gate (?p ! 0) = Some ((gate_new ''probe'')\<lparr>gt_parallel := True\<rparr>)"
    by code_simp+
  show ?thesis
    using gate_pool_bounded[OF pool_reachable.start[of sample_runner ?p]] p by simp
qed

end
