(* ===== verification/Tick_Config.thy ===== *)
theory Tick_Config
  imports Tick_Cadence Json
begin

text \<open>
  \<open>io.rs\<close>: the strict reader of a tick configuration, its dependency check, the canonical document,
  and the checks before it is written. The JSON and YAML text codecs are third-party: a document
  enters as the tree of events the codec presents to Serde's visitor (\<open>raw_doc\<close>), and leaves as a
  \<open>json\<close> value. A \<open>TickConfigError\<close> message is a constructor with the data the message shows;
  \<open>loc\<close> is the path (\<open>where_\<close>) in the document.
\<close>

section \<open>Results\<close>

definition and_then :: "'e + 'a \<Rightarrow> ('a \<Rightarrow> 'e + 'b) \<Rightarrow> 'e + 'b" where
  "and_then r f = (case r of Inl e \<Rightarrow> Inl e | Inr x \<Rightarrow> f x)"

fun try_map :: "('a \<Rightarrow> 'e + 'b) \<Rightarrow> 'a list \<Rightarrow> 'e + 'b list" where
  "try_map f [] = Inr []"
| "try_map f (x # xs) = and_then (f x) (\<lambda>y. and_then (try_map f xs) (\<lambda>ys. Inr (y # ys)))"

definition ok_or :: "'e \<Rightarrow> 'a option \<Rightarrow> 'e + 'a" where
  "ok_or e x = (case x of None \<Rightarrow> Inl e | Some v \<Rightarrow> Inr v)"

lemma and_then_simps [simp]: "and_then (Inl e) f = Inl e" "and_then (Inr x) f = f x"
  by (simp_all add: and_then_def)

lemma and_then_Inr: "and_then r f = Inr y \<longleftrightarrow> (\<exists>x. r = Inr x \<and> f x = Inr y)"
  by (cases r) auto

lemma ok_or_simps [simp]: "ok_or e None = Inl e" "ok_or e (Some v) = Inr v"
  by (simp_all add: ok_or_def)

lemma ok_or_Inr: "ok_or e x = Inr v \<longleftrightarrow> x = Some v"
  by (cases x) auto

lemma try_map_Inr: "try_map f xs = Inr ys \<longleftrightarrow> list_all2 (\<lambda>x y. f x = Inr y) xs ys"
  by (induction xs arbitrary: ys) (auto simp: and_then_Inr list_all2_Cons1)

section \<open>Strict documents\<close>

text \<open>
  The events of a document: numbers as the codec classifies them (a float with the information
  whether it is finite), mappings with arbitrary keys, in document order, repetitions included.
\<close>

datatype raw_doc = RNull | RBool bool | RI64 int | RU64 int | RF64 bool json_float | RString string
  | RSequence "raw_doc list" | RMapping "(raw_doc \<times> raw_doc) list"

datatype strict_value = SNull | SBool bool | SI64 int | SU64 int | SF64 bool json_float | SString string
  | SSequence "strict_value list" | SMapping "(string \<times> strict_value) list"

datatype strict_error = NonFiniteNumber | KeyNotString | ReservedMergeKey | DuplicateKey bool string

function (sequential) strict_visit :: "bool \<Rightarrow> raw_doc \<Rightarrow> strict_error + strict_value"
  and strict_visit_seq :: "bool \<Rightarrow> raw_doc list \<Rightarrow> strict_error + strict_value list"
  and strict_visit_map :: "bool \<Rightarrow> (raw_doc \<times> raw_doc) list \<Rightarrow> (string, strict_value) index_map
    \<Rightarrow> strict_error + (string, strict_value) index_map" where
  "strict_visit yaml RNull = Inr SNull"
| "strict_visit yaml (RBool b) = Inr (SBool b)"
| "strict_visit yaml (RI64 n) = Inr (SI64 n)"
| "strict_visit yaml (RU64 n) = Inr (SU64 n)"
| "strict_visit yaml (RF64 fin x) = (if fin then Inr (SF64 True x) else Inl NonFiniteNumber)"
| "strict_visit yaml (RString s) = Inr (SString s)"
| "strict_visit yaml (RSequence ds) = and_then (strict_visit_seq yaml ds) (\<lambda>vs. Inr (SSequence vs))"
| "strict_visit yaml (RMapping kvs) = and_then (strict_visit_map yaml kvs []) (\<lambda>m. Inr (SMapping m))"
| "strict_visit_seq yaml [] = Inr []"
| "strict_visit_seq yaml (d # ds) =
     and_then (strict_visit yaml d) (\<lambda>v. and_then (strict_visit_seq yaml ds) (\<lambda>vs. Inr (v # vs)))"
| "strict_visit_map yaml [] values = Inr values"
| "strict_visit_map yaml ((raw_key, d) # kvs) values =
     and_then (strict_visit yaml raw_key) (\<lambda>key_value.
       case key_value of
         SString key \<Rightarrow>
           if key = ''<<'' then Inl ReservedMergeKey
           else if im_get values key \<noteq> None then Inl (DuplicateKey yaml key)
           else and_then (strict_visit yaml d) (\<lambda>v. strict_visit_map yaml kvs (im_insert key v values))
       | _ \<Rightarrow> Inl KeyNotString)"
  by pat_completeness auto
termination
  by (relation "measure (case_sum (\<lambda>(yaml, d). size d)
        (case_sum (\<lambda>(yaml, ds). size_list size ds) (\<lambda>(yaml, kvs, m).
          size_list (\<lambda>x. Suc (size (fst x) + size (snd x))) kvs)))")
    (auto simp: size_prod_simp)

fun strict_value_to_json :: "strict_value \<Rightarrow> strict_error + json"
  and strict_values_to_json :: "strict_value list \<Rightarrow> strict_error + json list"
  and strict_entries_to_json :: "(string \<times> strict_value) list \<Rightarrow> strict_error + (string \<times> json) list" where
  "strict_value_to_json SNull = Inr JNull"
| "strict_value_to_json (SBool b) = Inr (JBool b)"
| "strict_value_to_json (SI64 n) = Inr (JInt n)"
| "strict_value_to_json (SU64 n) = Inr (JInt n)"
| "strict_value_to_json (SF64 fin x) = (if fin then Inr (JFloat x) else Inl NonFiniteNumber)"
| "strict_value_to_json (SString s) = Inr (JString s)"
| "strict_value_to_json (SSequence vs) = and_then (strict_values_to_json vs) (\<lambda>js. Inr (JArray js))"
| "strict_value_to_json (SMapping kvs) = and_then (strict_entries_to_json kvs) (\<lambda>js. Inr (JObject js))"
| "strict_values_to_json [] = Inr []"
| "strict_values_to_json (v # vs) =
     and_then (strict_value_to_json v) (\<lambda>j. and_then (strict_values_to_json vs) (\<lambda>js. Inr (j # js)))"
| "strict_entries_to_json [] = Inr []"
| "strict_entries_to_json ((k, v) # kvs) =
     and_then (strict_value_to_json v) (\<lambda>j. and_then (strict_entries_to_json kvs) (\<lambda>js. Inr ((k, j) # js)))"

section \<open>Field readers\<close>

datatype value_kind = KNone | KBool | KInt | KFloat | KStr | KList | KDict

fun value_type :: "json \<Rightarrow> value_kind" where
  "value_type JNull = KNone"
| "value_type (JBool b) = KBool"
| "value_type (JInt n) = KInt"
| "value_type (JFloat x) = KFloat"
| "value_type (JString s) = KStr"
| "value_type (JArray xs) = KList"
| "value_type (JObject kvs) = KDict"

datatype config_error =
    InvalidText string
  | StrictError strict_error
  | ExpectedObject string value_kind
  | UnknownFields string "string list"
  | NotString string string | NotInteger string string | Negative string string | NotBoolean string string
  | NotStringList string string | NotOnlyStrings string string | FieldNotString string
  | UnknownWhen string string | BadTimeout string int | UnknownKind string string | SkillRequired string
  | EmitRequired string | EmptyField string string | BadNameChars string | ReservedName string
  | OffsetNeedsCadence string | OffsetTooLarge string int int
  | WindowNeedsOffset string | WindowOutOfRange string int int
  | BadDependency string string | DuplicateDependency string | SelfDependency string
  | UnknownDependency string string | DependencyCycle "string list" | MissingReminder string
  | NotList string | NamesNotUnique string
  | BadReminderName | NegativeCadence | SkillMissing | ReservedFieldKey
  | EmptyHealthName | EmptyHealthGlob | NegativeThreshold

definition as_obj :: "string \<Rightarrow> json \<Rightarrow> config_error + json_object" where
  "as_obj loc value = ok_or (ExpectedObject loc (value_type value)) (as_object value)"

definition reject_unknown :: "string list \<Rightarrow> string \<Rightarrow> json_object \<Rightarrow> config_error + unit" where
  "reject_unknown allowed loc obj =
     (let unknown = bs_collect (filter (\<lambda>key. key \<notin> set allowed) (map fst obj))
      in if unknown = [] then Inr () else Inl (UnknownFields loc unknown))"

definition req_str :: "json_object \<Rightarrow> string \<Rightarrow> string \<Rightarrow> config_error + string" where
  "req_str obj key loc = ok_or (NotString loc key) (Option.bind (obj_get obj key) as_str)"

definition opt_str :: "json_object \<Rightarrow> string \<Rightarrow> string \<Rightarrow> string \<Rightarrow> config_error + string" where
  "opt_str obj key dflt loc =
     (case obj_get obj key of
        None \<Rightarrow> Inr dflt
      | Some v \<Rightarrow> ok_or (NotString loc key) (as_str v))"

definition opt_int :: "json_object \<Rightarrow> string \<Rightarrow> int \<Rightarrow> string \<Rightarrow> config_error + int" where
  "opt_int obj key dflt loc =
     (case obj_get obj key of
        None \<Rightarrow> Inr dflt
      | Some v \<Rightarrow> ok_or (NotInteger loc key) (as_i64 v))"

definition opt_nonnegative_int :: "json_object \<Rightarrow> string \<Rightarrow> int \<Rightarrow> string \<Rightarrow> config_error + int" where
  "opt_nonnegative_int obj key dflt loc =
     and_then (opt_int obj key dflt loc) (\<lambda>value.
       if value < 0 then Inl (Negative loc key) else Inr value)"

definition opt_bool :: "json_object \<Rightarrow> string \<Rightarrow> bool \<Rightarrow> string \<Rightarrow> config_error + bool" where
  "opt_bool obj key dflt loc =
     (case obj_get obj key of
        None \<Rightarrow> Inr dflt
      | Some v \<Rightarrow> ok_or (NotBoolean loc key) (as_bool v))"

definition opt_str_list :: "json_object \<Rightarrow> string \<Rightarrow> string \<Rightarrow> config_error + string list" where
  "opt_str_list obj key loc =
     (case obj_get obj key of
        None \<Rightarrow> Inr []
      | Some v \<Rightarrow> and_then (ok_or (NotStringList loc key) (as_array v))
          (try_map (\<lambda>item. ok_or (NotOnlyStrings loc key) (as_str item))))"

fun read_fields :: "string \<Rightarrow> json_object \<Rightarrow> (string, string) index_map
    \<Rightarrow> config_error + (string, string) index_map" where
  "read_fields pre [] out = Inr out"
| "read_fields pre ((name, value) # rest) out =
     (case as_str value of
        None \<Rightarrow> Inl (FieldNotString (pre @ name))
      | Some s \<Rightarrow> read_fields pre rest (im_insert name s out))"

definition opt_fields :: "json_object \<Rightarrow> string \<Rightarrow> string \<Rightarrow> config_error + (string, string) index_map" where
  "opt_fields obj key loc =
     (case obj_get obj key of
        None \<Rightarrow> Inr []
      | Some v \<Rightarrow> and_then (as_obj (loc @ ''.'' @ key) v) (\<lambda>fs.
          read_fields (loc @ ''.'' @ key @ ''.'') fs []))"

section \<open>Readers of the parts\<close>

text \<open>A field that is absent or null.\<close>

definition present :: "json_object \<Rightarrow> string \<Rightarrow> bool" where
  "present obj key \<longleftrightarrow> (case obj_get obj key of None \<Rightarrow> False | Some v \<Rightarrow> v \<noteq> JNull)"

definition timeout_from :: "json_object \<Rightarrow> string \<Rightarrow> config_error + int option" where
  "timeout_from obj loc =
     (if present obj ''timeout_secs''
      then and_then (opt_nonnegative_int obj ''timeout_secs'' 0 loc) (\<lambda>secs.
        if secs \<le> 0 then Inl (BadTimeout loc secs) else Inr (Some secs))
      else Inr None)"

definition gate_from :: "json option \<Rightarrow> string \<Rightarrow> config_error + gate option" where
  "gate_from value loc =
     (case value of
        None \<Rightarrow> Inr None
      | Some v \<Rightarrow> if v = JNull then Inr None else
          and_then (as_obj loc v) (\<lambda>obj.
          and_then (reject_unknown [''cmd'', ''when'', ''capture'', ''timeout_secs'', ''parallel''] loc obj) (\<lambda>_.
          and_then (opt_str obj ''when'' ''success'' loc) (\<lambda>when_name.
          and_then (ok_or (UnknownWhen loc when_name) (gate_when_from_value when_name)) (\<lambda>gw.
          and_then (timeout_from obj loc) (\<lambda>timeout_secs.
          and_then (req_str obj ''cmd'' loc) (\<lambda>cmd.
          and_then (opt_bool obj ''capture'' False loc) (\<lambda>capture.
          and_then (opt_bool obj ''parallel'' False loc) (\<lambda>parallel.
          Inr (Some \<lparr>gt_cmd = cmd, gt_when = gw, gt_capture = capture, gt_parallel = parallel,
            gt_timeout_secs = timeout_secs\<rparr>))))))))))"

definition emit_from :: "json \<Rightarrow> string \<Rightarrow> config_error + emit" where
  "emit_from value loc =
     and_then (as_obj loc value) (\<lambda>obj.
     and_then (reject_unknown [''kind'', ''title'', ''skill'', ''fields''] loc obj) (\<lambda>_.
     and_then (opt_str obj ''kind'' ''action'' loc) (\<lambda>kind_name.
     and_then (ok_or (UnknownKind loc kind_name) (emit_kind_from_value kind_name)) (\<lambda>kind.
     and_then (opt_str obj ''title'' [] loc) (\<lambda>title.
     and_then (opt_str obj ''skill'' [] loc) (\<lambda>skill.
     and_then (opt_fields obj ''fields'' loc) (\<lambda>fs.
     if kind = EmitAction \<and> tick_trim skill = [] then Inl (SkillRequired loc)
     else Inr \<lparr>em_kind = kind, em_title = title, em_skill = skill, em_fields = fs\<rparr>)))))))"

definition offset_from :: "json_object \<Rightarrow> int \<Rightarrow> string \<Rightarrow> config_error + int option" where
  "offset_from obj cadence_secs loc =
     (if present obj ''cadence_offset_secs''
      then and_then (opt_nonnegative_int obj ''cadence_offset_secs'' 0 loc) (\<lambda>offset.
        if cadence_secs \<le> 0 then Inl (OffsetNeedsCadence loc)
        else if cadence_secs \<le> offset then Inl (OffsetTooLarge loc offset cadence_secs)
        else Inr (Some offset))
      else Inr None)"

definition window_from :: "json_object \<Rightarrow> int \<Rightarrow> int option \<Rightarrow> string \<Rightarrow> config_error + int option" where
  "window_from obj cadence_secs cadence_offset_secs loc =
     (if present obj ''cadence_window_secs''
      then and_then (opt_nonnegative_int obj ''cadence_window_secs'' 0 loc) (\<lambda>window.
        if cadence_offset_secs = None then Inl (WindowNeedsOffset loc)
        else if window \<le> 0 \<or> cadence_secs < window then Inl (WindowOutOfRange loc window cadence_secs)
        else Inr (Some window))
      else Inr None)"

text \<open>What a reminder's name must be: a key of the fired-state file.\<close>

definition check_name :: "string \<Rightarrow> string \<Rightarrow> config_error + unit" where
  "check_name name loc =
     (if tick_trim name = [] then Inl (EmptyField loc ''name'')
      else if CHR ''='' \<in> set name \<or> any_of tick_whitespace name then Inl (BadNameChars loc)
      else if starts_with name INTERNAL_STATE_PREFIX then Inl (ReservedName loc)
      else Inr ())"

definition reminder_from :: "json \<Rightarrow> string \<Rightarrow> config_error + reminder" where
  "reminder_from value loc =
     and_then (as_obj loc value) (\<lambda>obj.
     and_then (reject_unknown [''name'', ''emit'', ''cadence_secs'', ''cadence_offset_secs'',
        ''cadence_window_secs'', ''requires_flags'', ''depends_on'', ''gate''] loc obj) (\<lambda>_.
     and_then (ok_or (EmitRequired loc) (if present obj ''emit'' then obj_get obj ''emit'' else None)) (\<lambda>emit_value.
     and_then (req_str obj ''name'' loc) (\<lambda>name.
     and_then (check_name name loc) (\<lambda>_.
     and_then (opt_nonnegative_int obj ''cadence_secs'' 0 loc) (\<lambda>cadence_secs.
     and_then (offset_from obj cadence_secs loc) (\<lambda>cadence_offset_secs.
     and_then (window_from obj cadence_secs cadence_offset_secs loc) (\<lambda>cadence_window_secs.
     and_then (emit_from emit_value (loc @ ''.emit'')) (\<lambda>em.
     and_then (opt_str_list obj ''requires_flags'' loc) (\<lambda>requires_flags.
     and_then (gate_from (obj_get obj ''gate'') (loc @ ''.gate'')) (\<lambda>gate_value.
     and_then (opt_str_list obj ''depends_on'' loc) (\<lambda>depends_on.
     Inr \<lparr>rm_name = name, rm_emit = em, rm_cadence_secs = cadence_secs, rm_requires_flags = requires_flags,
       rm_gate = gate_value, rm_depends_on = depends_on, rm_cadence_offset_secs = cadence_offset_secs,
       rm_cadence_window_secs = cadence_window_secs\<rparr>))))))))))))"

definition health_from :: "json \<Rightarrow> string \<Rightarrow> config_error + health_check" where
  "health_from value loc =
     and_then (as_obj loc value) (\<lambda>obj.
     and_then (reject_unknown [''name'', ''glob'', ''threshold_secs'', ''detail''] loc obj) (\<lambda>_.
     and_then (req_str obj ''name'' loc) (\<lambda>name.
     if tick_trim name = [] then Inl (EmptyField loc ''name'') else
     and_then (req_str obj ''glob'' loc) (\<lambda>glob.
     if tick_trim glob = [] then Inl (EmptyField loc ''glob'') else
     and_then (opt_nonnegative_int obj ''threshold_secs'' 0 loc) (\<lambda>threshold_secs.
     and_then (opt_str obj ''detail'' [] loc) (\<lambda>detail.
     Inr \<lparr>hc_name = name, hc_glob = glob, hc_threshold_secs = threshold_secs, hc_detail = detail\<rparr>))))))"

section \<open>Dependencies\<close>

type_synonym reminder_map = "(string, reminder) btree_map"

fun check_dependencies :: "reminder_map \<Rightarrow> reminder \<Rightarrow> string btree_set \<Rightarrow> string list \<Rightarrow> config_error + unit" where
  "check_dependencies names r unique [] = Inr ()"
| "check_dependencies names r unique (d # ds) =
     (if tick_trim d = [] \<or> CHR ''='' \<in> set d \<or> any_of tick_whitespace d then Inl (BadDependency (rm_name r) d)
      else if d \<in> set unique then Inl (DuplicateDependency (rm_name r))
      else if d = rm_name r then Inl (SelfDependency (rm_name r))
      else if \<not> bt_has names d then Inl (UnknownDependency (rm_name r) d)
      else check_dependencies names r (bs_insert d unique) ds)"

text \<open>
  The depth-first search \<open>visit\<close>, as one function on the list of names that a loop still visits: the
  top-level loop over the reminders, and the loop over the dependencies of the reminder at the end
  of the path. \<open>visiting\<close> and \<open>path\<close> are back to what they were when a visit succeeds; an unknown
  name is the panic of the index expression.
\<close>

function visit :: "reminder_map \<Rightarrow> string btree_set \<Rightarrow> string list \<Rightarrow> string btree_set \<Rightarrow> string list
    \<Rightarrow> config_error + string btree_set" where
  "visit names visiting path visited [] = Inr visited"
| "visit names visiting path visited (n # ns) =
     (if n \<in> set visited then visit names visiting path visited ns
      else if n \<in> set visiting then Inl (DependencyCycle (path @ [n]))
      else case bt_get names n of
        None \<Rightarrow> Inl (MissingReminder n)
      | Some r \<Rightarrow>
          (case visit names (bs_insert n visiting) (path @ [n]) visited (rm_depends_on r) of
             Inl e \<Rightarrow> Inl e
           | Inr visited' \<Rightarrow> visit names visiting path (bs_insert n visited') ns))"
  by pat_completeness auto
termination
proof (relation "measures [\<lambda>(names, visiting, path, visited, ns). card (set (bt_keys names) - set visiting),
    \<lambda>(names, visiting, path, visited, ns). length ns]", goal_cases)
  case (3 names visiting path visited n ns r)
  then have n: "n \<in> set (bt_keys names)" "n \<notin> set visiting"
    by (auto simp: bt_has_iff_key[symmetric] bt_has_def)
  have "set (bt_keys names) - set (bs_insert n visiting) \<subset> set (bt_keys names) - set visiting" using n by auto
  then show ?case by (auto intro!: psubset_card_mono)
qed simp_all

declare visit.simps [simp del]

definition validate_dependencies :: "reminder list \<Rightarrow> config_error + unit" where
  "validate_dependencies reminders =
     (let names = bt_collect (map (\<lambda>r. (rm_name r, r)) reminders)
      in and_then (try_map (\<lambda>r. check_dependencies names r [] (rm_depends_on r)) reminders) (\<lambda>_.
         and_then (visit names [] [] [] (map rm_name reminders)) (\<lambda>_. Inr ())))"

section \<open>Configurations\<close>

definition at_index :: "string \<Rightarrow> nat \<Rightarrow> string" where
  "at_index name i = name @ ''['' @ dec_nat i @ '']''"

definition list_from :: "json_object \<Rightarrow> string \<Rightarrow> (json \<Rightarrow> string \<Rightarrow> config_error + 'a) \<Rightarrow> config_error + 'a list" where
  "list_from obj key f =
     (case obj_get obj key of
        None \<Rightarrow> Inr []
      | Some v \<Rightarrow> and_then (ok_or (NotList key) (as_array v)) (\<lambda>items.
          try_map (\<lambda>(i, item). f item (at_index key i)) (enumerate 0 items)))"

fun unique_names :: "string btree_set \<Rightarrow> string list \<Rightarrow> bool" where
  "unique_names seen [] \<longleftrightarrow> True"
| "unique_names seen (n # ns) \<longleftrightarrow> (if n \<in> set seen then False else unique_names (bs_insert n seen) ns)"

definition require :: "bool \<Rightarrow> 'e \<Rightarrow> 'e + unit" where
  "require b e = (if b then Inr () else Inl e)"

definition config_from_value :: "json \<Rightarrow> config_error + tick_config" where
  "config_from_value raw =
     and_then (as_obj ''<root>'' raw) (\<lambda>obj.
     and_then (reject_unknown [''reminders'', ''health_checks'', ''description''] ''<root>'' obj) (\<lambda>_.
     and_then (list_from obj ''reminders'' reminder_from) (\<lambda>reminders.
     and_then (require (unique_names [] (map rm_name reminders)) (NamesNotUnique ''reminder'')) (\<lambda>_.
     and_then (validate_dependencies reminders) (\<lambda>_.
     and_then (list_from obj ''health_checks'' health_from) (\<lambda>health_checks.
     and_then (require (unique_names [] (map hc_name health_checks)) (NamesNotUnique ''health check'')) (\<lambda>_.
     and_then (opt_str obj ''description'' [] ''<root>'') (\<lambda>description.
     Inr \<lparr>tc_reminders = reminders, tc_health_checks = health_checks, tc_description = description\<rparr>))))))))"

text \<open>The codec is a parameter: the text's tree of events, or the codec's message.\<close>

definition strict_document :: "bool \<Rightarrow> (string \<Rightarrow> string + raw_doc) \<Rightarrow> string \<Rightarrow> config_error + json" where
  "strict_document yaml parse text =
     (case parse text of
        Inl message \<Rightarrow> Inl (InvalidText message)
      | Inr doc \<Rightarrow>
          (case and_then (strict_visit yaml doc) strict_value_to_json of
             Inl e \<Rightarrow> Inl (StrictError e)
           | Inr value \<Rightarrow> Inr value))"

definition config_from_json :: "(string \<Rightarrow> string + raw_doc) \<Rightarrow> string \<Rightarrow> config_error + tick_config" where
  "config_from_json parse text = and_then (strict_document False parse text) config_from_value"

definition config_from_yaml :: "(string \<Rightarrow> string + raw_doc) \<Rightarrow> string \<Rightarrow> config_error + tick_config" where
  "config_from_yaml parse text = and_then (strict_document True parse text) config_from_value"

section \<open>The canonical document\<close>

definition gate_to_value :: "gate option \<Rightarrow> json" where
  "gate_to_value gate_opt =
     (case gate_opt of
        None \<Rightarrow> JNull
      | Some g \<Rightarrow> JObject ([(''cmd'', JString (gt_cmd g)), (''when'', JString (gate_when_str (gt_when g))),
            (''capture'', JBool (gt_capture g))]
          @ (case gt_timeout_secs g of None \<Rightarrow> [] | Some secs \<Rightarrow> [(''timeout_secs'', JInt secs)])
          @ (if gt_parallel g then [(''parallel'', JBool True)] else [])))"

definition sorted_fields :: "(string, string) index_map \<Rightarrow> (string, string) index_map" where
  "sorted_fields fs = sort_key fst fs"

definition emit_to_value :: "emit \<Rightarrow> json" where
  "emit_to_value em =
     JObject [(''kind'', JString (emit_kind_str (em_kind em))), (''title'', JString (em_title em)),
       (''skill'', JString (em_skill em)),
       (''fields'', JObject (map (\<lambda>(k, v). (k, JString v)) (sorted_fields (em_fields em))))]"

definition health_to_value :: "health_check \<Rightarrow> json" where
  "health_to_value hc =
     JObject [(''name'', JString (hc_name hc)), (''glob'', JString (hc_glob hc)),
       (''threshold_secs'', JInt (hc_threshold_secs hc)), (''detail'', JString (hc_detail hc))]"

definition reminder_to_value :: "reminder \<Rightarrow> json" where
  "reminder_to_value r =
     JObject ([(''name'', JString (rm_name r)), (''cadence_secs'', JInt (rm_cadence_secs r))]
       @ (case rm_cadence_offset_secs r of None \<Rightarrow> [] | Some off \<Rightarrow> [(''cadence_offset_secs'', JInt off)])
       @ (case rm_cadence_window_secs r of None \<Rightarrow> [] | Some w \<Rightarrow> [(''cadence_window_secs'', JInt w)])
       @ [(''requires_flags'', JArray (map JString (rm_requires_flags r)))]
       @ (if rm_depends_on r \<noteq> [] then [(''depends_on'', JArray (map JString (rm_depends_on r)))] else [])
       @ [(''gate'', gate_to_value (rm_gate r)), (''emit'', emit_to_value (rm_emit r))])"

definition config_to_value :: "tick_config \<Rightarrow> json" where
  "config_to_value c =
     JObject [(''description'', JString (tc_description c)),
       (''health_checks'', JArray (map health_to_value (tc_health_checks c))),
       (''reminders'', JArray (map reminder_to_value (tc_reminders c)))]"

fun serializable_reminders :: "string btree_set \<Rightarrow> reminder list \<Rightarrow> config_error + unit" where
  "serializable_reminders seen [] = Inr ()"
| "serializable_reminders seen (r # rs) =
     (if tick_trim (rm_name r) = [] \<or> CHR ''='' \<in> set (rm_name r) \<or> any_of tick_whitespace (rm_name r)
         \<or> starts_with (rm_name r) INTERNAL_STATE_PREFIX then Inl BadReminderName
      else if rm_name r \<in> set seen then Inl (NamesNotUnique ''reminder'')
      else if rm_cadence_secs r < 0 then Inl NegativeCadence
      else if em_kind (rm_emit r) = EmitAction \<and> tick_trim (em_skill (rm_emit r)) = [] then Inl SkillMissing
      else if im_get (em_fields (rm_emit r)) ''<<'' \<noteq> None then Inl ReservedFieldKey
      else serializable_reminders (bs_insert (rm_name r) seen) rs)"

fun serializable_health :: "string btree_set \<Rightarrow> health_check list \<Rightarrow> config_error + unit" where
  "serializable_health seen [] = Inr ()"
| "serializable_health seen (h # hs) =
     (if tick_trim (hc_name h) = [] then Inl EmptyHealthName
      else if hc_name h \<in> set seen then Inl (NamesNotUnique ''health check'')
      else if tick_trim (hc_glob h) = [] then Inl EmptyHealthGlob
      else if hc_threshold_secs h < 0 then Inl NegativeThreshold
      else serializable_health (bs_insert (hc_name h) seen) hs)"

definition validate_serializable :: "tick_config \<Rightarrow> config_error + unit" where
  "validate_serializable c =
     and_then (serializable_reminders [] (tc_reminders c)) (\<lambda>_.
     and_then (validate_dependencies (tc_reminders c)) (\<lambda>_.
     serializable_health [] (tc_health_checks c)))"

text \<open>The printer of documents is a parameter; for YAML it may fail.\<close>

definition config_to_json :: "(json \<Rightarrow> string) \<Rightarrow> tick_config \<Rightarrow> config_error + string" where
  "config_to_json print c = and_then (validate_serializable c) (\<lambda>_. Inr (print (config_to_value c)))"

definition config_to_yaml :: "(json \<Rightarrow> string + string) \<Rightarrow> tick_config \<Rightarrow> config_error + string" where
  "config_to_yaml print c =
     and_then (validate_serializable c) (\<lambda>_.
       case print (config_to_value c) of Inl message \<Rightarrow> Inl (InvalidText message) | Inr text \<Rightarrow> Inr text)"

end
