(* ===== verification/Tick_Config_Spec.thy ===== *)
theory Tick_Config_Spec
  imports Tick_Config
begin

text \<open>
  What the reader of configurations guarantees: an accepted configuration is well formed, with
  unique names and an acyclic dependency graph, and the canonical document of a well-formed
  configuration reads back as that configuration.
\<close>

section \<open>The dependency search\<close>

definition dep_rel :: "reminder list \<Rightarrow> (string \<times> string) set" where
  "dep_rel reminders = {(rm_name r, d) | r d. r \<in> set reminders \<and> d \<in> set (rm_depends_on r)}"

definition map_rel :: "reminder_map \<Rightarrow> (string \<times> string) set" where
  "map_rel names = {(n, d) | n d r. bt_get names n = Some r \<and> d \<in> set (rm_depends_on r)}"

text \<open>What a finished search knows of the names it has visited.\<close>

definition searched :: "reminder_map \<Rightarrow> string set \<Rightarrow> bool" where
  "searched names V \<longleftrightarrow> (map_rel names) `` V \<subseteq> V \<and> (\<forall>n \<in> V. (n, n) \<notin> (map_rel names)\<^sup>+)"

lemma searched_reach: "searched names V \<Longrightarrow> (a, b) \<in> (map_rel names)\<^sup>* \<Longrightarrow> a \<in> V \<Longrightarrow> b \<in> V"
  by (rotate_tac 1, induction rule: rtrancl_induct) (auto simp: searched_def)

lemma searched_insert:
  assumes V: "searched names V" and new: "n \<notin> V" and deps: "\<And>d. (n, d) \<in> map_rel names \<Longrightarrow> d \<in> V"
  shows "searched names (insert n V)"
proof -
  have "(n, n) \<notin> (map_rel names)\<^sup>+"
  proof
    assume "(n, n) \<in> (map_rel names)\<^sup>+"
    then obtain d where "(n, d) \<in> map_rel names" "(d, n) \<in> (map_rel names)\<^sup>*" by (auto dest: tranclD)
    then show False using searched_reach[OF V] deps new by blast
  qed
  then show ?thesis using V deps by (auto simp: searched_def)
qed

lemma visit_sound:
  "visit names visiting path visited ns = Inr visited' \<Longrightarrow> searched names (set visited) \<Longrightarrow>
   set visited \<inter> set visiting = {} \<Longrightarrow>
   searched names (set visited') \<and> set visited \<union> set ns \<subseteq> set visited' \<and> set visited' \<inter> set visiting = {}"
proof (induction names visiting path visited ns arbitrary: visited' rule: visit.induct)
  case (1 names visiting path visited)
  then show ?case by (simp add: visit.simps)
next
  case (2 names visiting path visited n ns)
  show ?case
  proof (cases "n \<in> set visited")
    case True
    then have "visit names visiting path visited ns = Inr visited'" using 2(4) by (simp add: visit.simps)
    from 2(1)[OF True this 2(5,6)] True show ?thesis by auto
  next
    case False
    with 2(4) have nv: "n \<notin> set visiting" by (auto simp: visit.simps)
    from False nv 2(4) obtain r where r: "bt_get names n = Some r" by (auto simp: visit.simps split: option.splits)
    from False nv r 2(4) obtain mid where mid: "visit names (bs_insert n visiting) (path @ [n]) visited (rm_depends_on r) = Inr mid"
      and rest: "visit names visiting path (bs_insert n mid) ns = Inr visited'"
      by (auto simp: visit.simps split: sum.splits)
    have m: "searched names (set mid)" "set visited \<union> set (rm_depends_on r) \<subseteq> set mid"
        "set mid \<inter> set (bs_insert n visiting) = {}"
      using 2(2)[OF False nv r mid 2(5)] 2(6) False by auto
    have "searched names (insert n (set mid))"
      by (rule searched_insert[OF m(1)]) (use m r in \<open>auto simp: map_rel_def\<close>)
    then show ?thesis
      using 2(3)[OF False nv r mid rest] m nv by auto
  qed
qed

lemma visit_complete:
  assumes acyclic: "\<And>n. (n, n) \<notin> (map_rel names)\<^sup>+"
    and known: "\<And>a b. (a, b) \<in> map_rel names \<Longrightarrow> bt_get names b \<noteq> None"
  shows "\<forall>n \<in> set ns. bt_get names n \<noteq> None \<Longrightarrow>
    (\<forall>v \<in> set visiting. \<forall>n \<in> set ns. (v, n) \<in> (map_rel names)\<^sup>+) \<Longrightarrow>
    \<exists>visited'. visit names visiting path visited ns = Inr visited'"
  using assms
proof (induction names visiting path visited ns rule: visit.induct)
  case (1 names visiting path visited)
  then show ?case by (simp add: visit.simps)
next
  case (2 names visiting path visited n ns)
  show ?case
  proof (cases "n \<in> set visited")
    case True
    then show ?thesis using 2(1) 2(4-7) by (simp add: visit.simps)
  next
    case False
    obtain r where r: "bt_get names n = Some r" using 2(4) by auto
    have nv: "n \<notin> set visiting" using 2(5,6) by auto
    have edge: "(n, d) \<in> map_rel names" if "d \<in> set (rm_depends_on r)" for d
      using that r by (auto simp: map_rel_def)
    have kn: "\<forall>d \<in> set (rm_depends_on r). bt_get names d \<noteq> None" using edge 2(7) by blast
    have "\<exists>mid. visit names (bs_insert n visiting) (path @ [n]) visited (rm_depends_on r) = Inr mid"
      using 2(5) edge by (intro 2(2)[OF False nv r kn _ 2(6,7)]) (auto intro: trancl_into_trancl)
    then obtain mid where mid: "visit names (bs_insert n visiting) (path @ [n]) visited (rm_depends_on r) = Inr mid" ..
    have "\<exists>v. visit names visiting path (bs_insert n mid) ns = Inr v"
      using 2(4,5) by (intro 2(3)[OF False nv r mid _ _ 2(6,7)]) auto
    then show ?thesis using False nv r mid by (auto simp: visit.simps)
  qed
qed

definition dep_name_ok :: "string \<Rightarrow> bool" where
  "dep_name_ok d \<longleftrightarrow> tick_trim d \<noteq> [] \<and> CHR ''='' \<notin> set d \<and> \<not> any_of tick_whitespace d"

definition deps_ok :: "reminder list \<Rightarrow> bool" where
  "deps_ok reminders \<longleftrightarrow> (\<forall>r \<in> set reminders. distinct (rm_depends_on r) \<and> rm_name r \<notin> set (rm_depends_on r)
     \<and> (\<forall>d \<in> set (rm_depends_on r). dep_name_ok d \<and> d \<in> rm_name ` set reminders))"

lemma check_dependencies_iff:
  "check_dependencies names r unique ds = Inr () \<longleftrightarrow>
     distinct ds \<and> set ds \<inter> set unique = {} \<and> (\<forall>d \<in> set ds. dep_name_ok d \<and> d \<noteq> rm_name r \<and> bt_has names d)"
  by (induction ds arbitrary: unique) (auto simp: dep_name_ok_def)

lemma try_map_unit: "(\<exists>us. try_map f xs = Inr us) \<longleftrightarrow> (\<forall>x \<in> set xs. \<exists>u. f x = Inr u)"
  by (induction xs) (auto simp: and_then_Inr)

lemma map_rel_collect:
  assumes "distinct (map rm_name reminders)"
  shows "map_rel (bt_collect (map (\<lambda>r. (rm_name r, r)) reminders)) = dep_rel reminders"
proof -
  have "bt_get (bt_collect (map (\<lambda>r. (rm_name r, r)) reminders)) n = Some r \<longleftrightarrow> r \<in> set reminders \<and> rm_name r = n" for n r
    using assms by (subst bt_get_collect_distinct) (auto simp: comp_def)
  then show ?thesis by (auto simp: map_rel_def dep_rel_def)
qed

lemma validate_dependencies_iff:
  assumes dist: "distinct (map rm_name reminders)"
  shows "validate_dependencies reminders = Inr () \<longleftrightarrow> deps_ok reminders \<and> (\<forall>n. (n, n) \<notin> (dep_rel reminders)\<^sup>+)"
proof -
  define names where "names = bt_collect (map (\<lambda>r. (rm_name r, r)) reminders)"
  have has: "bt_has names d \<longleftrightarrow> d \<in> rm_name ` set reminders" for d
    by (auto simp: names_def bt_has_collect image_iff)
  have get: "bt_get names d \<noteq> None \<longleftrightarrow> d \<in> rm_name ` set reminders" for d
    using has[of d] by (simp add: bt_has_def)
  have rel: "map_rel names = dep_rel reminders" unfolding names_def by (rule map_rel_collect[OF dist])
  have checks: "(\<exists>us. try_map (\<lambda>r. check_dependencies names r [] (rm_depends_on r)) reminders = Inr us) \<longleftrightarrow> deps_ok reminders"
    unfolding try_map_unit by (auto simp: check_dependencies_iff deps_ok_def has)
  have search: "(\<exists>v. visit names [] [] [] (map rm_name reminders) = Inr v) \<longleftrightarrow> (\<forall>n. (n, n) \<notin> (dep_rel reminders)\<^sup>+)"
    if ok: "deps_ok reminders"
  proof
    assume "\<exists>v. visit names [] [] [] (map rm_name reminders) = Inr v"
    then obtain v where run: "visit names [] [] [] (map rm_name reminders) = Inr v" ..
    have v: "searched names (set v)" "rm_name ` set reminders \<subseteq> set v"
      using visit_sound[OF run] by (simp_all add: searched_def)
    show "\<forall>n. (n, n) \<notin> (dep_rel reminders)\<^sup>+"
    proof (intro allI notI)
      fix n assume cyc: "(n, n) \<in> (dep_rel reminders)\<^sup>+"
      then obtain d where "(n, d) \<in> dep_rel reminders" by (auto dest: tranclD)
      then have "n \<in> set v" using v(2) by (auto simp: dep_rel_def)
      then show False using v(1) cyc by (auto simp: searched_def rel)
    qed
  next
    assume ac: "\<forall>n. (n, n) \<notin> (dep_rel reminders)\<^sup>+"
    have "bt_get names b \<noteq> None" if "(a, b) \<in> map_rel names" for a b
      using that ok unfolding rel get by (auto simp: dep_rel_def deps_ok_def)
    then show "\<exists>v. visit names [] [] [] (map rm_name reminders) = Inr v"
      using ac by (intro visit_complete) (simp_all add: rel get del: not_None_eq)
  qed
  have "validate_dependencies reminders = Inr () \<longleftrightarrow>
      (\<exists>us. try_map (\<lambda>r. check_dependencies names r [] (rm_depends_on r)) reminders = Inr us)
      \<and> (\<exists>v. visit names [] [] [] (map rm_name reminders) = Inr v)"
    by (auto simp: validate_dependencies_def Let_def and_then_Inr names_def)
  then show ?thesis using checks search by auto
qed

section \<open>Well-formed configurations\<close>

definition name_ok :: "string \<Rightarrow> bool" where
  "name_ok name \<longleftrightarrow> dep_name_ok name \<and> \<not> starts_with name INTERNAL_STATE_PREFIX"

definition gate_ok :: "gate \<Rightarrow> bool" where
  "gate_ok g \<longleftrightarrow> (case gt_timeout_secs g of None \<Rightarrow> True | Some secs \<Rightarrow> 0 < secs \<and> is_i64 secs)"

definition emit_ok :: "emit \<Rightarrow> bool" where
  "emit_ok em \<longleftrightarrow> im_ok (em_fields em) \<and> (em_kind em = EmitAction \<longrightarrow> tick_trim (em_skill em) \<noteq> [])"

text \<open>A phase lies inside a positive cadence, and a window inside the period.\<close>

definition cadence_ok :: "reminder \<Rightarrow> bool" where
  "cadence_ok r \<longleftrightarrow> 0 \<le> rm_cadence_secs r \<and> is_i64 (rm_cadence_secs r)
     \<and> (case rm_cadence_offset_secs r of None \<Rightarrow> rm_cadence_window_secs r = None
        | Some off \<Rightarrow> 0 \<le> off \<and> off < rm_cadence_secs r)
     \<and> (case rm_cadence_window_secs r of None \<Rightarrow> True | Some w \<Rightarrow> 0 < w \<and> w \<le> rm_cadence_secs r)"

definition reminder_ok :: "reminder \<Rightarrow> bool" where
  "reminder_ok r \<longleftrightarrow> name_ok (rm_name r) \<and> cadence_ok r \<and> emit_ok (rm_emit r)
     \<and> (case rm_gate r of None \<Rightarrow> True | Some g \<Rightarrow> gate_ok g)"

definition health_ok :: "health_check \<Rightarrow> bool" where
  "health_ok hc \<longleftrightarrow> tick_trim (hc_name hc) \<noteq> [] \<and> tick_trim (hc_glob hc) \<noteq> []
     \<and> 0 \<le> hc_threshold_secs hc \<and> is_i64 (hc_threshold_secs hc)"

definition config_ok :: "tick_config \<Rightarrow> bool" where
  "config_ok c \<longleftrightarrow> list_all reminder_ok (tc_reminders c) \<and> distinct (map rm_name (tc_reminders c))
     \<and> deps_ok (tc_reminders c) \<and> (\<forall>n. (n, n) \<notin> (dep_rel (tc_reminders c))\<^sup>+)
     \<and> list_all health_ok (tc_health_checks c) \<and> distinct (map hc_name (tc_health_checks c))"

lemma unique_names_iff: "unique_names seen ns \<longleftrightarrow> distinct ns \<and> set ns \<inter> set seen = {}"
  by (induction ns arbitrary: seen) auto

lemma require_Inr [simp]: "require b e = Inr u \<longleftrightarrow> b"
  by (simp add: require_def)

lemma opt_int_i64: "opt_int obj key dflt loc = Inr n \<Longrightarrow> is_i64 dflt \<Longrightarrow> is_i64 n"
  by (auto simp: opt_int_def ok_or_Inr as_i64_iff split: option.splits)

lemma opt_nonneg_ok:
  "opt_nonnegative_int obj key 0 loc = Inr n \<Longrightarrow> 0 \<le> n \<and> is_i64 n"
  by (auto simp: opt_nonnegative_int_def and_then_Inr i64_defs split: if_splits dest!: opt_int_i64)

lemma check_name_iff: "check_name name loc = Inr u \<longleftrightarrow> name_ok name"
  by (auto simp: check_name_def name_ok_def dep_name_ok_def)

lemma read_fields_ok: "read_fields pre fs out = Inr m \<Longrightarrow> im_ok out \<Longrightarrow> im_ok m"
  by (induction pre fs out rule: read_fields.induct) (auto simp: im_ok_insert split: option.splits)

lemma emit_from_ok: "emit_from v loc = Inr em \<Longrightarrow> emit_ok em"
  by (auto simp: emit_from_def and_then_Inr emit_ok_def opt_fields_def im_ok_def split: if_splits option.splits
      dest!: read_fields_ok)

lemma timeout_from_ok: "timeout_from obj loc = Inr (Some secs) \<Longrightarrow> 0 < secs \<and> is_i64 secs"
  by (auto simp: timeout_from_def and_then_Inr split: if_splits dest!: opt_nonneg_ok)

lemma gate_from_ok: "gate_from v loc = Inr (Some g) \<Longrightarrow> gate_ok g"
  by (auto simp: gate_from_def and_then_Inr gate_ok_def split: option.splits if_splits dest!: timeout_from_ok)

lemma offset_from_ok: "offset_from obj c loc = Inr (Some off) \<Longrightarrow> 0 \<le> off \<and> off < c"
  by (auto simp: offset_from_def and_then_Inr split: if_splits dest!: opt_nonneg_ok)

lemma window_from_ok: "window_from obj c off loc = Inr (Some w) \<Longrightarrow> 0 < w \<and> w \<le> c \<and> off \<noteq> None"
  by (auto simp: window_from_def and_then_Inr split: if_splits dest!: opt_nonneg_ok)

lemma reminder_from_ok: "reminder_from v loc = Inr r \<Longrightarrow> reminder_ok r"
  by (auto simp: reminder_from_def and_then_Inr reminder_ok_def cadence_ok_def check_name_iff split: option.split
      dest: emit_from_ok gate_from_ok offset_from_ok window_from_ok opt_nonneg_ok)

lemma health_from_ok: "health_from v loc = Inr hc \<Longrightarrow> health_ok hc"
  by (auto simp: health_from_def and_then_Inr health_ok_def split: if_splits dest!: opt_nonneg_ok)

lemma list_from_all:
  assumes "list_from obj key f = Inr xs" "\<And>v loc x. f v loc = Inr x \<Longrightarrow> P x"
  shows "list_all P xs"
proof -
  have "P y" if "list_all2 (\<lambda>p x. (case p of (i, item) \<Rightarrow> f item (at_index key i)) = Inr x) ps ys" "y \<in> set ys" for ps ys y
    using that by (induction rule: list_all2_induct) (auto intro: assms(2))
  then show ?thesis
    using assms(1) by (auto simp: list_from_def and_then_Inr try_map_Inr list_all_iff split: option.splits)
qed

lemma config_from_value_wf:
  assumes "config_from_value v = Inr c"
  shows "config_ok c"
proof -
  obtain obj where c: "list_from obj ''reminders'' reminder_from = Inr (tc_reminders c)"
      "distinct (map rm_name (tc_reminders c))" "validate_dependencies (tc_reminders c) = Inr ()"
      "list_from obj ''health_checks'' health_from = Inr (tc_health_checks c)"
      "distinct (map hc_name (tc_health_checks c))"
    using assms by (auto simp: config_from_value_def and_then_Inr unique_names_iff)
  show ?thesis
    unfolding config_ok_def
    using c validate_dependencies_iff[OF c(2)] list_from_all[OF c(1), of reminder_ok]
      list_from_all[OF c(4), of health_ok] reminder_from_ok health_from_ok by blast
qed

section \<open>The canonical document reads back\<close>

text \<open>The document lists the fields of an emission in the order of their names.\<close>

definition canonical_emit :: "emit \<Rightarrow> emit" where
  "canonical_emit em = em\<lparr>em_fields := sorted_fields (em_fields em)\<rparr>"

definition canonical_reminder :: "reminder \<Rightarrow> reminder" where
  "canonical_reminder r = r\<lparr>rm_emit := canonical_emit (rm_emit r)\<rparr>"

definition canonical :: "tick_config \<Rightarrow> tick_config" where
  "canonical c = c\<lparr>tc_reminders := map canonical_reminder (tc_reminders c)\<rparr>"

lemmas field_readers = as_obj_def reject_unknown_def req_str_def opt_str_def opt_int_def opt_nonnegative_int_def
  opt_bool_def opt_str_list_def present_def obj_get_def Let_def

lemma im_insert_new: "k \<notin> fst ` set m \<Longrightarrow> im_insert k v m = m @ [(k, v)]"
  by (induction k v m rule: im_insert.induct) auto

lemma read_fields_strings:
  "distinct (map fst (out @ fs)) \<Longrightarrow> read_fields pre (map (\<lambda>(k, v). (k, JString v)) fs) out = Inr (out @ fs)"
proof (induction fs arbitrary: out)
  case (Cons kv fs)
  obtain k v where kv: "kv = (k, v)" by (cases kv)
  have "k \<notin> fst ` set out" using Cons.prems by (auto simp: kv)
  then show ?case using Cons.IH[of "out @ [(k, v)]"] Cons.prems by (simp add: kv im_insert_new)
qed simp

lemma sorted_fields_ok: "im_ok fs \<Longrightarrow> im_ok (sorted_fields fs)"
proof -
  have "mset (map fst (sort_key fst fs)) = mset (map fst fs)" by simp
  then show "im_ok fs \<Longrightarrow> ?thesis" unfolding im_ok_def sorted_fields_def by (metis mset_eq_imp_distinct_iff)
qed

lemma emit_roundtrip:
  assumes "emit_ok em"
  shows "emit_from (emit_to_value em) loc = Inr (canonical_emit em)"
proof -
  have "read_fields pre (map (\<lambda>(k, v). (k, JString v)) (sorted_fields (em_fields em))) [] = Inr (sorted_fields (em_fields em))" for pre
    using read_fields_strings[of "[]"] sorted_fields_ok assms by (simp add: emit_ok_def im_ok_def)
  then show ?thesis
    using assms emit_kind_from_value_iff[of "emit_kind_str (em_kind em)" "em_kind em"]
    by (simp add: emit_from_def emit_to_value_def field_readers opt_fields_def emit_ok_def canonical_emit_def)
qed

lemma gate_roundtrip:
  assumes "case g of None \<Rightarrow> True | Some g \<Rightarrow> gate_ok g"
  shows "gate_from (Some (gate_to_value g)) loc = Inr g"
proof (cases g)
  case (Some h)
  then show ?thesis
    using assms gate_when_from_value_iff[of "gate_when_str (gt_when h)" "gt_when h"]
    by (cases "gt_timeout_secs h")
      (auto simp: gate_from_def gate_to_value_def field_readers timeout_from_def gate_ok_def)
qed (simp add: gate_from_def gate_to_value_def)

lemma string_list_roundtrip:
  "try_map (\<lambda>item. ok_or e (as_str item)) (map JString xs) = Inr xs"
  by (induction xs) auto

lemma reminder_roundtrip:
  assumes "reminder_ok r"
  shows "reminder_from (reminder_to_value r) loc = Inr (canonical_reminder r)"
proof -
  have emit: "emit_from (emit_to_value (rm_emit r)) l = Inr (canonical_emit (rm_emit r))"
    and gate: "gate_from (Some (gate_to_value (rm_gate r))) l = Inr (rm_gate r)" for l
    using assms by (simp_all add: reminder_ok_def emit_roundtrip gate_roundtrip)
  have name: "check_name (rm_name r) loc = Inr ()"
    using assms check_name_iff[of "rm_name r" loc "()"] by (simp add: reminder_ok_def)
  have emit_obj: "emit_to_value em \<noteq> JNull" for em by (simp add: emit_to_value_def)
  show ?thesis
    using assms
    by (cases "rm_cadence_offset_secs r"; cases "rm_cadence_window_secs r"; cases "rm_depends_on r")
      (auto simp: reminder_from_def reminder_to_value_def field_readers offset_from_def window_from_def
        emit gate name emit_obj string_list_roundtrip canonical_reminder_def reminder_ok_def cadence_ok_def i64_defs
        simp del: list.map)
qed

lemma health_roundtrip: "health_ok hc \<Longrightarrow> health_from (health_to_value hc) loc = Inr hc"
  by (auto simp: health_from_def health_to_value_def field_readers health_ok_def)

lemma try_map_enumerate:
  assumes "\<And>x loc. x \<in> set xs \<Longrightarrow> f (g x) loc = Inr (h x)"
  shows "try_map (\<lambda>(i, item). f item (at_index key i)) (enumerate n (map g xs)) = Inr (map h xs)"
  using assms by (induction xs arbitrary: n) auto

lemma canonical_simps [simp]:
  "rm_name (canonical_reminder r) = rm_name r" "rm_depends_on (canonical_reminder r) = rm_depends_on r"
  "map rm_name (map canonical_reminder rs) = map rm_name rs"
  "tc_reminders (canonical c) = map canonical_reminder (tc_reminders c)"
  "tc_health_checks (canonical c) = tc_health_checks c" "tc_description (canonical c) = tc_description c"
  by (simp_all add: canonical_reminder_def canonical_def)

lemma canonical_deps: "validate_dependencies (map canonical_reminder rs) = Inr () \<longleftrightarrow> validate_dependencies rs = Inr ()"
  if "distinct (map rm_name rs)"
proof -
  have "dep_rel xs = (\<Union>r \<in> set xs. {rm_name r} \<times> set (rm_depends_on r))" for xs by (auto simp: dep_rel_def)
  then have "dep_rel (map canonical_reminder rs) = dep_rel rs" by simp
  moreover have "deps_ok (map canonical_reminder rs) \<longleftrightarrow> deps_ok rs" by (simp add: deps_ok_def image_image)
  ultimately show ?thesis
    using that validate_dependencies_iff[of rs] validate_dependencies_iff[of "map canonical_reminder rs"] by (simp add: comp_def)
qed

lemma config_value_roundtrip:
  assumes ok: "config_ok c"
  shows "config_from_value (config_to_value c) = Inr (canonical c)"
proof -
  have rems: "try_map (\<lambda>(i, item). reminder_from item (at_index ''reminders'' i))
      (enumerate 0 (map reminder_to_value (tc_reminders c))) = Inr (map canonical_reminder (tc_reminders c))"
    using ok by (intro try_map_enumerate) (auto simp: config_ok_def list_all_iff reminder_roundtrip)
  have hcs: "try_map (\<lambda>(i, item). health_from item (at_index ''health_checks'' i))
      (enumerate 0 (map health_to_value (tc_health_checks c))) = Inr (map (\<lambda>h. h) (tc_health_checks c))"
    using ok by (intro try_map_enumerate) (auto simp: config_ok_def list_all_iff health_roundtrip)
  have dist: "distinct (map rm_name (tc_reminders c))" using ok by (simp add: config_ok_def)
  have deps: "validate_dependencies (map canonical_reminder (tc_reminders c)) = Inr ()"
    using ok canonical_deps[OF dist] validate_dependencies_iff[OF dist] by (simp add: config_ok_def)
  have uniq: "unique_names [] (map rm_name (map canonical_reminder (tc_reminders c)))"
      "unique_names [] (map hc_name (tc_health_checks c))"
    using ok by (simp_all add: config_ok_def unique_names_iff comp_def)
  show ?thesis
    using rems hcs deps uniq
    by (simp add: config_from_value_def config_to_value_def list_from_def field_readers require_def canonical_def
        del: list.map map_map)
qed

section \<open>The strict document of a value\<close>

text \<open>The events that a codec presents for the text of a value; an integer that is not negative is presented as unsigned.\<close>

fun doc_of :: "json \<Rightarrow> raw_doc" and docs_of :: "json list \<Rightarrow> raw_doc list"
  and entries_of :: "(string \<times> json) list \<Rightarrow> (raw_doc \<times> raw_doc) list" where
  "doc_of JNull = RNull"
| "doc_of (JBool b) = RBool b"
| "doc_of (JInt n) = (if n < 0 then RI64 n else RU64 n)"
| "doc_of (JFloat x) = RF64 True x"
| "doc_of (JString s) = RString s"
| "doc_of (JArray xs) = RSequence (docs_of xs)"
| "doc_of (JObject kvs) = RMapping (entries_of kvs)"
| "docs_of [] = []"
| "docs_of (v # vs) = doc_of v # docs_of vs"
| "entries_of [] = []"
| "entries_of ((k, v) # kvs) = (RString k, doc_of v) # entries_of kvs"

text \<open>Values without a repeated or a reserved key, at any depth.\<close>

fun keys_ok :: "json \<Rightarrow> bool" and keys_ok_list :: "json list \<Rightarrow> bool"
  and keys_ok_entries :: "(string \<times> json) list \<Rightarrow> bool" where
  "keys_ok (JArray xs) \<longleftrightarrow> keys_ok_list xs"
| "keys_ok (JObject kvs) \<longleftrightarrow> distinct (map fst kvs) \<and> ''<<'' \<notin> fst ` set kvs \<and> keys_ok_entries kvs"
| "keys_ok _ \<longleftrightarrow> True"
| "keys_ok_list [] \<longleftrightarrow> True"
| "keys_ok_list (v # vs) \<longleftrightarrow> keys_ok v \<and> keys_ok_list vs"
| "keys_ok_entries [] \<longleftrightarrow> True"
| "keys_ok_entries ((k, v) # kvs) \<longleftrightarrow> keys_ok v \<and> keys_ok_entries kvs"

lemma strict_doc_of:
  "keys_ok v \<Longrightarrow> \<exists>s. strict_visit yaml (doc_of v) = Inr s \<and> strict_value_to_json s = Inr v"
  "keys_ok_list vs \<Longrightarrow> \<exists>ss. strict_visit_seq yaml (docs_of vs) = Inr ss \<and> strict_values_to_json ss = Inr vs"
  "keys_ok_entries kvs \<Longrightarrow> distinct (map fst kvs) \<Longrightarrow> ''<<'' \<notin> fst ` set kvs \<Longrightarrow>
     \<exists>es. map fst es = map fst kvs \<and> strict_entries_to_json es = Inr kvs
       \<and> (\<forall>m. fst ` set m \<inter> fst ` set kvs = {} \<longrightarrow> strict_visit_map yaml (entries_of kvs) m = Inr (m @ es))"
proof (induction v and vs and kvs rule: doc_of_docs_of_entries_of.induct)
  case (7 kvs)
  then obtain es where "map fst es = map fst kvs" "strict_entries_to_json es = Inr kvs"
      "\<forall>m. fst ` set m \<inter> fst ` set kvs = {} \<longrightarrow> strict_visit_map yaml (entries_of kvs) m = Inr (m @ es)" by auto
  then show ?case by (intro exI[of _ "SMapping es"]) simp
next
  case (11 k v kvs)
  then obtain s where s: "strict_visit yaml (doc_of v) = Inr s" "strict_value_to_json s = Inr v" by auto
  obtain es where es: "map fst es = map fst kvs" "strict_entries_to_json es = Inr kvs"
      "\<And>m. fst ` set m \<inter> fst ` set kvs = {} \<Longrightarrow> strict_visit_map yaml (entries_of kvs) m = Inr (m @ es)"
    using 11 by auto
  show ?case
  proof (intro exI[of _ "(k, s) # es"] conjI allI impI)
    fix m :: "(string \<times> strict_value) list"
    assume m: "fst ` set m \<inter> fst ` set ((k, v) # kvs) = {}"
    then have k: "k \<notin> fst ` set m" by auto
    have "strict_visit_map yaml (entries_of kvs) (m @ [(k, s)]) = Inr ((m @ [(k, s)]) @ es)"
      using m 11(4) by (intro es(3)) (auto simp: image_iff)
    moreover have "im_get m k = None" using k by (simp add: im_get_def map_of_eq_None_iff)
    ultimately show "strict_visit_map yaml (entries_of ((k, v) # kvs)) m = Inr (m @ (k, s) # es)"
      using 11(5) k by (auto simp: s im_insert_new)
  qed (use es s in auto)
qed auto

lemma strict_document_of:
  "keys_ok v \<Longrightarrow> parse text = Inr (doc_of v) \<Longrightarrow> strict_document yaml parse text = Inr v"
  using strict_doc_of(1)[of v yaml] by (auto simp: strict_document_def)

definition no_merge_keys :: "tick_config \<Rightarrow> bool" where
  "no_merge_keys c \<longleftrightarrow> list_all (\<lambda>r. ''<<'' \<notin> fst ` set (em_fields (rm_emit r))) (tc_reminders c)"

lemma keys_ok_list_iff: "keys_ok_list vs \<longleftrightarrow> (\<forall>v \<in> set vs. keys_ok v)"
  by (induction vs) auto

lemma keys_ok_entries_iff: "keys_ok_entries kvs \<longleftrightarrow> (\<forall>kv \<in> set kvs. keys_ok (snd kv))"
  by (induction kvs) (auto split: prod.splits)

lemma keys_ok_emit:
  assumes "emit_ok em" "''<<'' \<notin> fst ` set (em_fields em)"
  shows "keys_ok (emit_to_value em)"
proof -
  have "keys_ok (JObject (map (\<lambda>(k, v). (k, JString v)) fs))" if "distinct (map fst fs)" "''<<'' \<notin> fst ` set fs" for fs
    using that by (auto simp: case_prod_unfold comp_def keys_ok_entries_iff image_image)
  then show ?thesis
    using assms sorted_fields_ok[of "em_fields em"]
    by (simp add: emit_to_value_def emit_ok_def im_ok_def sorted_fields_def)
qed

lemma keys_ok_gate: "keys_ok (gate_to_value g)"
  by (auto simp: gate_to_value_def keys_ok_entries_iff split: option.split)

lemma keys_ok_reminder:
  assumes "reminder_ok r" "''<<'' \<notin> fst ` set (em_fields (rm_emit r))"
  shows "keys_ok (reminder_to_value r)"
proof -
  have "keys_ok (emit_to_value (rm_emit r))" using assms by (simp add: keys_ok_emit reminder_ok_def)
  then show ?thesis
    by (auto simp: reminder_to_value_def keys_ok_entries_iff keys_ok_list_iff keys_ok_gate split: option.split)
qed

lemma keys_ok_config: "config_ok c \<Longrightarrow> no_merge_keys c \<Longrightarrow> keys_ok (config_to_value c)"
  by (auto simp: config_to_value_def keys_ok_list_iff health_to_value_def keys_ok_reminder config_ok_def
      no_merge_keys_def list_all_iff)

lemma serializable_reminders_ok:
  "list_all reminder_ok rs \<Longrightarrow> list_all (\<lambda>r. ''<<'' \<notin> fst ` set (em_fields (rm_emit r))) rs \<Longrightarrow>
   distinct (map rm_name rs) \<Longrightarrow> rm_name ` set rs \<inter> set seen = {} \<Longrightarrow> serializable_reminders seen rs = Inr ()"
  by (induction rs arbitrary: seen)
    (auto simp: reminder_ok_def name_ok_def dep_name_ok_def emit_ok_def cadence_ok_def im_get_def map_of_eq_None_iff)

lemma serializable_health_ok:
  "list_all health_ok hs \<Longrightarrow> distinct (map hc_name hs) \<Longrightarrow> hc_name ` set hs \<inter> set seen = {} \<Longrightarrow>
   serializable_health seen hs = Inr ()"
  by (induction hs arbitrary: seen) (auto simp: health_ok_def)

lemma validate_serializable_ok:
  assumes "config_ok c" "no_merge_keys c"
  shows "validate_serializable c = Inr ()"
proof -
  have dist: "distinct (map rm_name (tc_reminders c))" using assms by (simp add: config_ok_def)
  show ?thesis
    using assms validate_dependencies_iff[OF dist] serializable_reminders_ok[of "tc_reminders c" "[]"]
      serializable_health_ok[of "tc_health_checks c" "[]"]
    by (simp add: validate_serializable_def config_ok_def no_merge_keys_def)
qed

section \<open>Properties\<close>

definition sample_reminders :: "reminder list" where
  "sample_reminders =
     [(reminder_new ''a'' (emit_action ''act'' ''do it''))\<lparr>rm_cadence_secs := 3600, rm_cadence_offset_secs := Some 60,
        rm_depends_on := [''b'']\<rparr>,
      reminder_new ''b'' (emit_note ''look'')]"

definition sample_tick_config :: tick_config where
  "sample_tick_config = \<lparr>tc_reminders = sample_reminders,
     tc_health_checks = [health_check_new ''logs'' ''*.log'' 60], tc_description = ''sample''\<rparr>"

lemma sample_accepted: "config_from_value (config_to_value sample_tick_config) = Inr sample_tick_config"
  by code_simp

text \<open>
  An accepted configuration is well formed: reminder and health-check names are unique, every
  name is a valid key of the fired-state file outside the reserved namespace, cadences are
  non-negative, a phase is inside its cadence and a window inside its period, gate timeouts are
  positive, actions have a skill, and the dependency graph is closed, irreflexive and acyclic.
\<close>

theorem config_accepted_ok:
  assumes "config_from_value v = Inr c"
  shows "config_ok c"
  using assms by (rule config_from_value_wf)

theorem config_accepted_ok_witness: "config_ok sample_tick_config"
  by (rule config_accepted_ok[OF sample_accepted])

text \<open>
  C32: The dependency check is exact. For reminders with unique names it succeeds if and only if every
  dependency is a valid, known name other than the reminder's own, none is repeated, and no reminder
  depends on itself through others. The depth-first search always ends.
\<close>

theorem dependencies_exact:
  assumes "distinct (map rm_name reminders)"
  shows "validate_dependencies reminders = Inr () \<longleftrightarrow>
    (\<forall>r \<in> set reminders. distinct (rm_depends_on r) \<and> rm_name r \<notin> set (rm_depends_on r)
       \<and> (\<forall>d \<in> set (rm_depends_on r). dep_name_ok d \<and> d \<in> rm_name ` set reminders))
    \<and> acyclic (dep_rel reminders)"
  using validate_dependencies_iff[OF assms] by (simp add: deps_ok_def acyclic_def)

theorem dependencies_exact_witness:
  "validate_dependencies sample_reminders = Inr () \<and> acyclic (dep_rel sample_reminders)"
proof -
  have "distinct (map rm_name sample_reminders)" "validate_dependencies sample_reminders = Inr ()" by code_simp+
  then show ?thesis using dependencies_exact[of sample_reminders] by blast
qed

text \<open>
  C33: Writing and reading a configuration as JSON gives it back with the fields of each emission in
  the order of their names, for every well-formed configuration without the reserved key and every
  codec whose reader presents the events of the written document.
\<close>

theorem config_json_roundtrip:
  assumes "config_ok c" "no_merge_keys c"
    and "parse (print (config_to_value c)) = Inr (doc_of (config_to_value c))"
  shows "\<exists>text. config_to_json print c = Inr text \<and> config_from_json parse text = Inr (canonical c)"
  using strict_document_of[where yaml = False and parse = parse, OF keys_ok_config[OF assms(1,2)] assms(3)] assms(1,2)
  by (simp add: config_to_json_def validate_serializable_ok config_from_json_def config_value_roundtrip)

theorem config_json_roundtrip_witness:
  "\<exists>text. config_to_json unary_text sample_tick_config = Inr text
     \<and> config_from_json (\<lambda>t. Inr (doc_of (unary_value t))) text = Inr (canonical sample_tick_config)"
proof (rule config_json_roundtrip)
  show "config_ok sample_tick_config" by (rule config_from_value_wf[OF sample_accepted])
  show "no_merge_keys sample_tick_config" by code_simp
qed simp

text \<open>
  The writer's validation is weaker than the reader's: a reminder without a cadence but with a
  phase passes \<open>validate_serializable\<close>, and the document written for it is rejected by the reader.
\<close>

theorem serializable_not_readable:
  fixes c
  defines "c \<equiv> \<lparr>tc_reminders = [(reminder_new ''a'' (emit_note ''look''))\<lparr>rm_cadence_offset_secs := Some 5\<rparr>],
    tc_health_checks = [], tc_description = []\<rparr>"
  shows "validate_serializable c = Inr ()
    \<and> config_from_value (config_to_value c) = Inl (OffsetNeedsCadence ''reminders[0]'')"
  unfolding c_def by code_simp

end
