(* ===== verification/Queue_Tests.thy ===== *)
theory Queue_Tests
  imports Rust_Text "HOL-Library.Option_ord"
begin

text \<open>
  Validation as a set of individual tests (\<open>merge-queue/src/tests.rs\<close>): test identifiers with their
  textual form, selections, outcomes, the results of one run, and the selection argument of the
  command line. An error message is a constructor of \<open>test_id_error\<close> with the values it names; the
  file that \<open>@FILE\<close> reads is a parameter of \<open>parse_selection\<close>.
\<close>

section \<open>Test identifiers\<close>

definition CASE_SEPARATOR :: string where "CASE_SEPARATOR = ''::''"

datatype test_id = TestId (ti_step: string) (ti_case: "string option")

text \<open>The derived order: the step first, then the case, a whole step before its cases.\<close>

instantiation test_id :: linorder
begin

definition less_eq_test_id :: "test_id \<Rightarrow> test_id \<Rightarrow> bool" where
  "less_eq_test_id a b \<longleftrightarrow> (ti_step a, ti_case a) \<le> (ti_step b, ti_case b)"

definition less_test_id :: "test_id \<Rightarrow> test_id \<Rightarrow> bool" where
  "less_test_id a b \<longleftrightarrow> (ti_step a, ti_case a) < (ti_step b, ti_case b)"

instance
proof
  fix a b c :: test_id
  show "a < b \<longleftrightarrow> a \<le> b \<and> \<not> b \<le> a"
    unfolding less_test_id_def less_eq_test_id_def by (rule less_le_not_le)
  show "a \<le> a" by (simp add: less_eq_test_id_def)
  show "a \<le> b \<Longrightarrow> b \<le> c \<Longrightarrow> a \<le> c"
    unfolding less_eq_test_id_def by (rule order_trans)
  show "a \<le> b \<Longrightarrow> b \<le> a \<Longrightarrow> a = b"
    unfolding less_eq_test_id_def by (cases a; cases b) (metis antisym prod.inject test_id.sel)
  show "a \<le> b \<or> b \<le> a" unfolding less_eq_test_id_def by (rule linear)
qed

end

definition test_id_step :: "string \<Rightarrow> test_id" where
  "test_id_step step = TestId step None"

definition whole_step :: "test_id \<Rightarrow> test_id" where
  "whole_step t = test_id_step (ti_step t)"

definition test_id_display :: "test_id \<Rightarrow> string" where
  "test_id_display t =
     (case ti_case t of Some c \<Rightarrow> ti_step t @ CASE_SEPARATOR @ c | None \<Rightarrow> ti_step t)"

text \<open>\<open>split_once\<close> at a string: the text before and after its first occurrence.\<close>

fun split_once_at :: "string \<Rightarrow> string \<Rightarrow> (string \<times> string) option" where
  "split_once_at pat [] = (if pat = [] then Some ([], []) else None)"
| "split_once_at pat (c # s) =
     (if prefix pat (c # s) then Some ([], drop (length pat) (c # s))
      else map_option (\<lambda>(a, b). (c # a, b)) (split_once_at pat s))"

datatype test_id_error = EmptyStep string | EmptyCase string | BadCharacter string
  | CannotRead string string

definition id_char_bad :: "string \<Rightarrow> bool" where
  "id_char_bad s \<longleftrightarrow> any_of unicode_whitespace s \<or> CHR ''#'' \<in> set s"

definition test_id_parse :: "string \<Rightarrow> test_id_error + test_id" where
  "test_id_parse text =
     (let text = str_trim text;
          (step, cse) = (case split_once_at CASE_SEPARATOR text of
              Some (step, cse) \<Rightarrow> (step, Some cse)
            | None \<Rightarrow> (text, None))
      in if step = [] then Inl (EmptyStep text)
         else if cse = Some [] then Inl (EmptyCase text)
         else if id_char_bad step \<or> (case cse of Some c \<Rightarrow> id_char_bad c | None \<Rightarrow> False)
         then Inl (BadCharacter text)
         else Inr (TestId step cse))"

section \<open>Selections\<close>

datatype test_selection = SelAll | SelTests "test_id btree_set"

definition selection_default :: test_selection where
  "selection_default = SelTests []"

definition selection_of :: "test_id list \<Rightarrow> test_selection" where
  "selection_of tests = SelTests (bs_collect tests)"

fun selection_is_all :: "test_selection \<Rightarrow> bool" where
  "selection_is_all SelAll = True"
| "selection_is_all (SelTests tests) = False"

fun selection_is_empty :: "test_selection \<Rightarrow> bool" where
  "selection_is_empty SelAll = False"
| "selection_is_empty (SelTests tests) = (tests = [])"

definition tests_cover :: "test_id btree_set \<Rightarrow> test_id \<Rightarrow> bool" where
  "tests_cover tests t \<longleftrightarrow> t \<in> set tests \<or> (ti_case t \<noteq> None \<and> whole_step t \<in> set tests)"

fun selection_union :: "test_selection \<Rightarrow> test_selection \<Rightarrow> test_selection" where
  "selection_union SelAll y = SelAll"
| "selection_union (SelTests a) SelAll = SelAll"
| "selection_union (SelTests a) (SelTests b) = SelTests (bs_collect (a @ b))"

fun selection_intersect :: "test_selection \<Rightarrow> test_selection \<Rightarrow> test_selection" where
  "selection_intersect SelAll y = y"
| "selection_intersect (SelTests a) SelAll = SelTests a"
| "selection_intersect (SelTests a) (SelTests b) =
     SelTests (bs_collect (filter (\<lambda>t. tests_cover a t \<and> tests_cover b t) (a @ b)))"

fun selection_covers :: "test_selection \<Rightarrow> test_id \<Rightarrow> bool" where
  "selection_covers SelAll t = True"
| "selection_covers (SelTests tests) t = tests_cover tests t"

fun selection_tests :: "test_selection \<Rightarrow> test_id btree_set option" where
  "selection_tests SelAll = None"
| "selection_tests (SelTests tests) = Some tests"

fun selection_summary :: "test_selection \<Rightarrow> string" where
  "selection_summary SelAll = ''all''"
| "selection_summary (SelTests tests) =
     (if length tests = 1 then ''1 test'' else dec_nat (length tests) @ '' tests'')"

datatype scope = Complete | Focused

definition scope_of :: "test_selection \<Rightarrow> scope" where
  "scope_of s = (if selection_is_all s then Complete else Focused)"

fun scope_str :: "scope \<Rightarrow> string" where
  "scope_str Complete = ''complete''"
| "scope_str Focused = ''focused''"

section \<open>Outcomes and results\<close>

datatype outcome = OutPass | OutFail | OutSkip | OutError | OutMissing

text \<open>The derived order is the order of the declaration.\<close>

fun outcome_index :: "outcome \<Rightarrow> nat" where
  "outcome_index OutPass = 0"
| "outcome_index OutFail = 1"
| "outcome_index OutSkip = 2"
| "outcome_index OutError = 3"
| "outcome_index OutMissing = 4"

lemma outcome_index_inject: "outcome_index a = outcome_index b \<longleftrightarrow> a = b"
  by (cases a; cases b) simp_all

instantiation outcome :: linorder
begin

definition less_eq_outcome :: "outcome \<Rightarrow> outcome \<Rightarrow> bool" where
  "less_eq_outcome a b \<longleftrightarrow> outcome_index a \<le> outcome_index b"

definition less_outcome :: "outcome \<Rightarrow> outcome \<Rightarrow> bool" where
  "less_outcome a b \<longleftrightarrow> outcome_index a < outcome_index b"

instance
  by standard (auto simp: less_eq_outcome_def less_outcome_def outcome_index_inject)

end

fun is_bad :: "outcome \<Rightarrow> bool" where
  "is_bad OutPass = False"
| "is_bad OutFail = True"
| "is_bad OutSkip = False"
| "is_bad OutError = True"
| "is_bad OutMissing = True"

fun outcome_str :: "outcome \<Rightarrow> string" where
  "outcome_str OutPass = ''pass''"
| "outcome_str OutFail = ''fail''"
| "outcome_str OutSkip = ''skip''"
| "outcome_str OutError = ''error''"
| "outcome_str OutMissing = ''missing''"

definition outcome_parse :: "string \<Rightarrow> outcome option" where
  "outcome_parse text =
     (let t = to_ascii_lowercase (str_trim text)
      in if t \<in> set [''pass'', ''passed'', ''ok'', ''success''] then Some OutPass
         else if t \<in> set [''fail'', ''failed'', ''failure''] then Some OutFail
         else if t \<in> set [''skip'', ''skipped''] then Some OutSkip
         else if t \<in> set [''error'', ''errored'', ''timeout'', ''timed-out'', ''cancelled''] then Some OutError
         else None)"

record test_result =
  te_id :: test_id
  te_outcome :: outcome
  te_duration_ms :: "nat option"
  te_log :: "string option"

record test_results =
  tr_results :: "(test_id, outcome) btree_map"
  tr_durations_ms :: "(test_id, nat) btree_map"
  tr_logs :: "(test_id, string) btree_map"
  tr_unattributed :: bool

definition test_results_default :: test_results where
  "test_results_default = \<lparr>tr_results = [], tr_durations_ms = [], tr_logs = [], tr_unattributed = False\<rparr>"

definition record_outcome :: "test_id \<Rightarrow> outcome \<Rightarrow> (test_id, outcome) btree_map \<Rightarrow> (test_id, outcome) btree_map" where
  "record_outcome t new m =
     (let m = bt_or_insert t new m
      in case bt_get m t of
           Some slot \<Rightarrow> if slot < new then bt_insert t new m else m
         | None \<Rightarrow> m)"

definition record_result :: "test_result \<Rightarrow> test_results \<Rightarrow> test_results" where
  "record_result r rs =
     rs\<lparr>tr_results := record_outcome (te_id r) (te_outcome r) (tr_results rs),
        tr_durations_ms := (case te_duration_ms r of
            Some ms \<Rightarrow> bt_insert (te_id r) ms (tr_durations_ms rs) | None \<Rightarrow> tr_durations_ms rs),
        tr_logs := (case te_log r of
            Some lg \<Rightarrow> bt_insert (te_id r) lg (tr_logs rs) | None \<Rightarrow> tr_logs rs)\<rparr>"

definition result_at :: "test_results \<Rightarrow> test_id \<Rightarrow> test_result option" where
  "result_at rs t =
     map_option (\<lambda>out. \<lparr>te_id = t, te_outcome = out, te_duration_ms = bt_get (tr_durations_ms rs) t,
         te_log = bt_get (tr_logs rs) t\<rparr>)
       (bt_get (tr_results rs) t)"

definition failed :: "test_results \<Rightarrow> test_id btree_set" where
  "failed rs = bs_collect (map fst (filter (\<lambda>(t, out). is_bad out) (tr_results rs)))"

definition attributed_failures :: "test_results \<Rightarrow> test_id btree_set" where
  "attributed_failures rs =
     bs_collect (map fst (filter (\<lambda>(t, out). out = OutFail \<or> out = OutError) (tr_results rs)))"

definition failed_results :: "test_results \<Rightarrow> test_result list" where
  "failed_results rs = List.map_filter (result_at rs) (failed rs)"

definition green :: "test_results \<Rightarrow> bool" where
  "green rs \<longleftrightarrow> list_all (\<lambda>(t, out). \<not> is_bad out) (tr_results rs)"

definition counts :: "test_results \<Rightarrow> (outcome, nat) btree_map" where
  "counts rs = fold (\<lambda>(t, out) m.
     bt_insert out (Suc (case bt_get m out of Some n \<Rightarrow> n | None \<Rightarrow> 0)) m) (tr_results rs) []"

definition reported :: "(test_id, outcome) btree_map \<Rightarrow> test_id \<Rightarrow> bool" where
  "reported m t \<longleftrightarrow>
     bt_has m t \<or> list_ex (\<lambda>seen. ti_step seen = ti_step t \<and> ti_case t = None) (bt_keys m)"

definition require_results :: "test_selection \<Rightarrow> test_results \<Rightarrow> test_results" where
  "require_results s rs =
     (case selection_tests s of
        None \<Rightarrow> rs
      | Some tests \<Rightarrow> rs\<lparr>tr_results :=
          fold (\<lambda>t m. if reported m t then m else bt_insert t OutMissing m) tests (tr_results rs)\<rparr>)"

record validation_claim =
  vc_selection :: test_selection
  vc_policy :: string
  vc_scope :: scope
  vc_commit :: string

definition validation_claim_new :: "test_selection \<Rightarrow> string \<Rightarrow> string \<Rightarrow> validation_claim" where
  "validation_claim_new s policy commit =
     \<lparr>vc_selection = s, vc_policy = policy, vc_scope = scope_of s, vc_commit = commit\<rparr>"

section \<open>The selection argument\<close>

definition line_words :: "string \<Rightarrow> string list" where
  "line_words line =
     filter (\<lambda>w. w \<noteq> []) (split_of [[CHR '','' ], [CHR '' ''], [CHR 0x09]] (hd (split_of [[CHR ''#'']] line)))"

fun parse_words :: "string list \<Rightarrow> test_id btree_set \<Rightarrow> test_id_error + test_selection" where
  "parse_words [] tests = Inr (SelTests tests)"
| "parse_words (w # ws) tests =
     (if w = ''all'' then Inr SelAll
      else case test_id_parse w of
        Inl e \<Rightarrow> Inl e
      | Inr t \<Rightarrow> parse_words ws (bs_insert t tests))"

definition parse_selection :: "(string \<Rightarrow> string + string) \<Rightarrow> string \<Rightarrow> test_id_error + test_selection" where
  "parse_selection read_file text =
     (case (case strip_prefix text ''@'' of
          Some path \<Rightarrow> (case read_file path of
              Inl e \<Rightarrow> Inl (CannotRead path e) | Inr body \<Rightarrow> Inr body)
        | None \<Rightarrow> Inr text) of
        Inl e \<Rightarrow> Inl e
      | Inr body \<Rightarrow> parse_words (concat (map line_words (str_lines body))) [])"

section \<open>The textual form of a test identifier\<close>

lemma split_once_at_None: "split_once_at pat s = None \<longleftrightarrow> \<not> str_contains s pat"
  by (induction s) auto

text \<open>
  The first \<open>::\<close> of a text is where the text before it, followed by one colon, holds no \<open>::\<close>.
\<close>

lemma prefix_sep: "prefix CASE_SEPARATOR (c # s) \<longleftrightarrow> c = CHR '':'' \<and> s \<noteq> [] \<and> hd s = CHR '':''"
  by (cases s) (simp_all add: CASE_SEPARATOR_def eq_commute)

lemma split_sep_Some:
  "split_once_at CASE_SEPARATOR s = Some (a, b) \<longleftrightarrow>
     s = a @ CASE_SEPARATOR @ b \<and> \<not> str_contains (a @ '':'') CASE_SEPARATOR"
proof (induction s arbitrary: a)
  case Nil
  then show ?case by (simp add: CASE_SEPARATOR_def)
next
  case (Cons c s)
  show ?case
  proof (cases "prefix CASE_SEPARATOR (c # s)")
    case True
    then obtain r where "c # s = CASE_SEPARATOR @ r" by (auto simp: prefix_def)
    then have s: "c = CHR '':''" "s = '':'' @ r" by (simp_all add: CASE_SEPARATOR_def)
    have "split_once_at CASE_SEPARATOR (c # s) = Some ([], r)"
      by (simp add: s prefix_sep) (simp add: CASE_SEPARATOR_def)
    moreover have "str_contains (a @ '':'') CASE_SEPARATOR" if "a = x # xs" "c # s = a @ CASE_SEPARATOR @ b" for x xs
      using that by (cases xs) (simp_all add: s prefix_sep CASE_SEPARATOR_def)
    moreover have "\<not> str_contains '':'' CASE_SEPARATOR" by (simp add: CASE_SEPARATOR_def)
    ultimately show ?thesis by (cases a) (auto simp: s CASE_SEPARATOR_def)
  next
    case False
    have step: "split_once_at CASE_SEPARATOR (c # s) = Some (a, b) \<longleftrightarrow>
        (\<exists>xs. a = c # xs \<and> split_once_at CASE_SEPARATOR s = Some (xs, b))"
      using False by auto
    have nil: "c # s \<noteq> CASE_SEPARATOR @ b" using False by (metis prefixI)
    have "prefix CASE_SEPARATOR (c # xs @ '':'') \<longleftrightarrow> prefix CASE_SEPARATOR (c # xs @ CASE_SEPARATOR @ b)" for xs
      by (cases xs) (simp_all add: prefix_sep CASE_SEPARATOR_def)
    then have "str_contains (c # xs @ '':'') CASE_SEPARATOR \<longleftrightarrow> str_contains (xs @ '':'') CASE_SEPARATOR"
      if "s = xs @ CASE_SEPARATOR @ b" for xs using False that by simp
    then show ?thesis using step nil Cons.IH by (cases a) auto
  qed
qed

definition id_part_ok :: "string \<Rightarrow> bool" where
  "id_part_ok s \<longleftrightarrow> s \<noteq> [] \<and> \<not> id_char_bad s"

text \<open>The identifiers of the documented contract: the first separator of the text is the one meant.\<close>

definition valid_test_id :: "test_id \<Rightarrow> bool" where
  "valid_test_id t \<longleftrightarrow> id_part_ok (ti_step t) \<and>
     (case ti_case t of
        None \<Rightarrow> \<not> str_contains (ti_step t) CASE_SEPARATOR
      | Some c \<Rightarrow> id_part_ok c \<and> \<not> str_contains (ti_step t @ '':'') CASE_SEPARATOR)"

lemma id_char_bad_Nil [simp]: "\<not> id_char_bad []"
  by (simp add: id_char_bad_def)

lemma test_id_parse_sep:
  "split_once_at CASE_SEPARATOR (str_trim s) = Some (a, b) \<Longrightarrow>
     test_id_parse s = Inr t \<longleftrightarrow> id_part_ok a \<and> id_part_ok b \<and> t = TestId a (Some b)"
  by (auto simp: test_id_parse_def Let_def id_part_ok_def)

lemma test_id_parse_no_sep:
  "split_once_at CASE_SEPARATOR (str_trim s) = None \<Longrightarrow>
     test_id_parse s = Inr t \<longleftrightarrow> id_part_ok (str_trim s) \<and> t = TestId (str_trim s) None"
  by (auto simp: test_id_parse_def Let_def id_part_ok_def)

lemma test_id_parse_trimmed:
  "test_id_parse s = Inr t \<longleftrightarrow> valid_test_id t \<and> str_trim s = test_id_display t"
proof (cases "split_once_at CASE_SEPARATOR (str_trim s)")
  case None
  have "str_contains (a @ CASE_SEPARATOR @ c) CASE_SEPARATOR" for a c
    unfolding str_contains_iff by (rule sublist_appendI)
  then have "str_trim s \<noteq> a @ CASE_SEPARATOR @ c" for a c
    using None by (metis split_once_at_None)
  then show ?thesis using test_id_parse_no_sep[OF None] None[unfolded split_once_at_None]
    by (cases t) (auto simp: valid_test_id_def test_id_display_def split: option.splits)
next
  case (Some p)
  then obtain a b where p: "split_once_at CASE_SEPARATOR (str_trim s) = Some (a, b)" by (cases p) simp
  have sep: "str_contains (str_trim s) CASE_SEPARATOR"
    using p by (metis split_once_at_None option.distinct(1))
  obtain x y where t: "t = TestId x y" by (cases t)
  show ?thesis
  proof (cases y)
    case None
    then show ?thesis using sep test_id_parse_sep[OF p]
      by (auto simp: t valid_test_id_def test_id_display_def)
  next
    case (Some z)
    have "(x, z) = (a, b) \<longleftrightarrow>
        str_trim s = x @ CASE_SEPARATOR @ z \<and> \<not> str_contains (x @ '':'') CASE_SEPARATOR"
      using p split_sep_Some[of "str_trim s" x z] by auto
    then show ?thesis using test_id_parse_sep[OF p, of t]
      by (auto simp: t Some valid_test_id_def test_id_display_def)
  qed
qed

lemma id_char_bad_append [simp]: "id_char_bad (a @ '':'' @ b) \<longleftrightarrow> id_char_bad a \<or> id_char_bad b"
proof -
  have "list_all (\<lambda>w. CHR '':'' \<notin> set w) unicode_whitespace" by code_simp
  then have "w \<in> set unicode_whitespace \<Longrightarrow> CHR '':'' \<notin> set w" for w by (simp add: list_all_iff)
  from any_of_append[OF this] show ?thesis by (auto simp: id_char_bad_def)
qed

lemma id_char_bad_sep [simp]: "id_char_bad (a @ CASE_SEPARATOR @ b) \<longleftrightarrow> id_char_bad a \<or> id_char_bad b"
  using id_char_bad_append[of a "'':'' @ b"] id_char_bad_append[of "[]" b]
  by (auto simp: CASE_SEPARATOR_def id_char_bad_def)

lemma display_clean: "valid_test_id t \<Longrightarrow> id_part_ok (test_id_display t)"
  by (auto simp: valid_test_id_def test_id_display_def id_part_ok_def split: option.splits)

lemma trim_display: "valid_test_id t \<Longrightarrow> str_trim (test_id_display t) = test_id_display t"
  using display_clean[of t] unfolding str_trim_def id_part_ok_def id_char_bad_def
  by (blast intro: trim_clean)

text \<open>
  Test identifiers round trip: parsing a text succeeds with exactly the identifier whose display
  is the trimmed text, and every identifier of the documented contract (no empty part, no white
  space or hash, the first separator is the step/case separator) is read back from its display.
\<close>

theorem test_id_roundtrip:
  "(test_id_parse s = Inr t \<longleftrightarrow> valid_test_id t \<and> str_trim s = test_id_display t)
   \<and> (valid_test_id t \<longleftrightarrow> test_id_parse (test_id_display t) = Inr t)"
  using test_id_parse_trimmed[of s t] test_id_parse_trimmed[of "test_id_display t" t] trim_display[of t]
  by blast

section \<open>Selections as sets of tests\<close>

lemma tests_cover_append: "tests_cover (bs_collect (a @ b)) t \<longleftrightarrow> tests_cover a t \<or> tests_cover b t"
  by (auto simp: tests_cover_def)

lemma whole_step_simps [simp]: "ti_step (whole_step t) = ti_step t" "ti_case (whole_step t) = None"
  by (simp_all add: whole_step_def test_id_step_def)

lemma tests_cover_meet:
  "tests_cover (bs_collect (filter (\<lambda>t. tests_cover a t \<and> tests_cover b t) (a @ b))) t
     \<longleftrightarrow> tests_cover a t \<and> tests_cover b t"
  by (auto simp: tests_cover_def)

lemma covers_union [simp]:
  "selection_covers (selection_union x y) t \<longleftrightarrow> selection_covers x t \<or> selection_covers y t"
  by (cases x; cases y) (simp_all add: tests_cover_append)

lemma covers_intersect [simp]:
  "selection_covers (selection_intersect x y) t \<longleftrightarrow> selection_covers x t \<and> selection_covers y t"
  by (cases x; cases y) (simp_all add: tests_cover_meet del: filter_append)

text \<open>
  Union and intersection of selections are union and intersection of the tests they cover,
  whole steps covering their cases; a selection that covers a test by its step covers every case of
  that step; only \<open>All\<close> has the complete scope.
\<close>

theorem selection_algebra:
  "{t. selection_covers (selection_union x y) t} = {t. selection_covers x t} \<union> {t. selection_covers y t}
   \<and> {t. selection_covers (selection_intersect x y) t} = {t. selection_covers x t} \<inter> {t. selection_covers y t}
   \<and> (\<forall>s c. selection_covers x (TestId s None) \<longrightarrow> selection_covers x (TestId s c))
   \<and> (vc_scope (validation_claim_new x policy commit) = Complete \<longleftrightarrow> x = SelAll)"
proof -
  have "selection_covers x (TestId s None) \<Longrightarrow> selection_covers x (TestId s c)" for s c
    by (cases x; cases c) (auto simp: tests_cover_def whole_step_def test_id_step_def)
  moreover have "vc_scope (validation_claim_new x policy commit) = Complete \<longleftrightarrow> x = SelAll"
    by (cases x) (simp_all add: validation_claim_new_def scope_of_def)
  ultimately show ?thesis by auto
qed

theorem selection_algebra_witness:
  "selection_covers (SelTests [TestId ''a'' None]) (TestId ''a'' (Some ''c''))"
proof -
  have "selection_covers (SelTests [TestId ''a'' None]) (TestId ''a'' None)"
    by (simp add: tests_cover_def)
  then show ?thesis using selection_algebra[of "SelTests [TestId ''a'' None]"] by blast
qed

section \<open>Results\<close>

lemma bt_insert_mem: "(k, v) \<in> set (bt_insert k v m)"
  by (induction k v m rule: bt_insert.induct) auto

lemma green_iff: "green rs \<longleftrightarrow> (\<forall>(t, out) \<in> set (tr_results rs). \<not> is_bad out)"
  by (simp add: green_def list_all_iff)

abbreviation require_step :: "test_id \<Rightarrow> (test_id, outcome) btree_map \<Rightarrow> (test_id, outcome) btree_map" where
  "require_step t m \<equiv> (if reported m t then m else bt_insert t OutMissing m)"

lemma require_missing_stays:
  "\<exists>t. (t, OutMissing) \<in> set m \<Longrightarrow> \<exists>t. (t, OutMissing) \<in> set (fold require_step ts m)"
proof (induction ts arbitrary: m)
  case (Cons t ts)
  have "(t', v) \<in> set m \<Longrightarrow> t' \<noteq> t \<Longrightarrow> (t', v) \<in> set (bt_insert t OutMissing m)" for t' v
    by (induction t OutMissing m rule: bt_insert.induct) auto
  then have "\<exists>t'. (t', OutMissing) \<in> set (require_step t m)"
    using Cons.prems bt_insert_mem[of t OutMissing m] by (cases "reported m t") auto
  then show ?case using Cons.IH by simp
qed simp

lemma require_fold_cases:
  "(list_all (reported m) ts \<longrightarrow> fold require_step ts m = m)
   \<and> (\<not> list_all (reported m) ts \<longrightarrow> (\<exists>t. (t, OutMissing) \<in> set (fold require_step ts m)))"
proof (induction ts)
  case (Cons t ts)
  show ?case
  proof (cases "reported m t")
    case True
    then show ?thesis using Cons by simp
  next
    case False
    then show ?thesis
      using require_missing_stays[of "bt_insert t OutMissing m" ts] bt_insert_mem[of t OutMissing m] by auto
  qed
qed simp

text \<open>
  C20: Silence never passes: after the selected tests are required, a run is green exactly when no
  reported result blocks and every selected test was reported, by itself or, for a whole step, by
  one of its cases. Requiring the complete suite changes nothing.
\<close>

theorem require_green_exact:
  "green (require_results s rs) \<longleftrightarrow> green rs \<and>
     (\<forall>tests. selection_tests s = Some tests \<longrightarrow> (\<forall>t \<in> set tests.
        (\<exists>seen \<in> set (bt_keys (tr_results rs)). seen = t \<or> (ti_case t = None \<and> ti_step seen = ti_step t))))"
proof (cases s)
  case SelAll
  then show ?thesis by (simp add: require_results_def)
next
  case (SelTests tests)
  have rep: "reported m t \<longleftrightarrow>
      (\<exists>seen \<in> set (bt_keys m). seen = t \<or> (ti_case t = None \<and> ti_step seen = ti_step t))" for m t
    by (auto simp: reported_def bt_has_iff_key list_ex_iff)
  have bad: "(t, OutMissing) \<in> set (tr_results x) \<Longrightarrow> \<not> green x" for t x
    by (force simp: green_iff)
  show ?thesis using SelTests require_fold_cases[of "tr_results rs" tests] bad
    by (auto simp: require_results_def list_all_iff rep green_def)
qed

theorem require_green_exact_witness:
  "\<not> green (require_results (SelTests [TestId ''a'' None])
       (test_results_default\<lparr>tr_results := [(TestId ''b'' None, OutPass)]\<rparr>))"
  using require_green_exact[of "SelTests [TestId ''a'' None]"
      "test_results_default\<lparr>tr_results := [(TestId ''b'' None, OutPass)]\<rparr>"]
  by (simp add: test_results_default_def bt_keys_def)

text \<open>
  A failure can be hidden: recording a failed result and then a skipped one for the same test
  keeps the skip, because the derived order of the outcomes puts \<open>Skip\<close> above \<open>Fail\<close>, and the run
  is green although a test failed. (The reports in the other order keep the skip too.)
\<close>

theorem skip_hides_failure:
  "let f = \<lparr>te_id = t, te_outcome = OutFail, te_duration_ms = None, te_log = None\<rparr>;
       s = \<lparr>te_id = t, te_outcome = OutSkip, te_duration_ms = None, te_log = None\<rparr>
   in \<not> green (record_result f test_results_default)
      \<and> green (record_result s (record_result f test_results_default))
      \<and> green (record_result f (record_result s test_results_default))
      \<and> is_bad OutFail \<and> \<not> is_bad OutSkip"
  by (simp add: record_result_def record_outcome_def test_results_default_def bt_or_insert_def
      bt_get_def green_def less_outcome_def)

section \<open>The selection argument reads a list of tests back\<close>

abbreviation word_breaks :: "string list" where
  "word_breaks \<equiv> [[CHR '','' ], [CHR '' ''], [CHR 0x09]]"

text \<open>An identifier that can be listed: valid, not the word \<open>all\<close>, and without a comma.\<close>

definition listable :: "test_id \<Rightarrow> bool" where
  "listable t \<longleftrightarrow> valid_test_id t \<and> test_id_display t \<noteq> ''all'' \<and> CHR '','' \<notin> set (test_id_display t)"

lemma clean_white:
  assumes "id_part_ok s" and "[c] \<in> set unicode_whitespace"
  shows "c \<notin> set s"
proof -
  have "str_contains s [c] \<longleftrightarrow> c \<in> set s" by (induction s) auto
  then show ?thesis using assms by (auto simp: id_part_ok_def id_char_bad_def any_of_def)
qed

lemma listable_chars:
  assumes "listable t" and "c \<in> {CHR '','', CHR '' '', CHR 0x09, CHR 0x0A, CHR 0x0D, CHR ''#''}"
  shows "c \<notin> set (test_id_display t)"
proof -
  have ok: "id_part_ok (test_id_display t)" using assms(1) display_clean by (simp add: listable_def)
  moreover have "[CHR '' ''] \<in> set unicode_whitespace" "[CHR 0x09] \<in> set unicode_whitespace"
    "[CHR 0x0A] \<in> set unicode_whitespace" "[CHR 0x0D] \<in> set unicode_whitespace"
    by (simp_all add: unicode_whitespace_def)
  moreover have "CHR ''#'' \<notin> set (test_id_display t)" using ok by (simp add: id_part_ok_def id_char_bad_def)
  ultimately show ?thesis using assms clean_white by (auto simp: listable_def)
qed

lemma set_str_join: "set (str_join sep xs) \<subseteq> set sep \<union> (\<Union>x \<in> set xs. set x)"
  by (induction sep xs rule: str_join.induct) auto

lemma split_join:
  "xs \<noteq> [] \<Longrightarrow> list_all (\<lambda>x. \<not> any_of word_breaks x) xs \<Longrightarrow> split_of word_breaks (str_join '','' xs) = xs"
proof (induction "'',''" xs rule: str_join.induct)
  case (2 x)
  then show ?case by (simp add: split_clean)
next
  case (3 x y xs)
  have "split_of word_breaks (x @ CHR '','' # str_join '','' (y # xs))
      = x # split_of word_breaks (str_join '','' (y # xs))"
    by (rule split_at_break) (use 3 in auto)
  with 3 show ?case by simp
qed simp

lemma join_words:
  assumes "ts \<noteq> []" and "list_all listable ts"
  defines "body \<equiv> str_join '','' (map test_id_display ts)"
  shows "concat (map line_words (str_lines body)) = map test_id_display ts"
proof -
  have ok: "id_part_ok (test_id_display t)" if "t \<in> set ts" for t
    using that assms(2) display_clean by (auto simp: list_all_iff listable_def)
  have avoid: "c \<notin> set body" if "c \<in> {CHR 0x0A, CHR 0x0D, CHR ''#''}" for c
    using that assms(2) listable_chars[of _ c] set_str_join[of "'',''" "map test_id_display ts"]
    unfolding body_def list_all_iff by fastforce
  have clean: "\<not> any_of [[c]] body" if "c \<in> {CHR 0x0A, CHR 0x0D, CHR ''#''}" for c
    using any_of_chars[of "[c]" body] avoid[OF that] by simp
  have "list_all (\<lambda>x. \<not> any_of word_breaks x) (map test_id_display ts)"
    using any_of_chars[of "[CHR '','', CHR '' '', CHR 0x09]"] listable_chars assms(2)
    by (fastforce simp: list_all_iff)
  then have words: "split_of word_breaks body = map test_id_display ts"
    using split_join[of "map test_id_display ts"] assms(1) by (simp add: body_def)
  have "body \<noteq> []"
    using assms(1) ok unfolding body_def by (cases ts; cases "tl ts") (auto simp: id_part_ok_def)
  moreover have "drop_cr body = body"
    using avoid[of "CHR 0x0D"] by (auto simp: drop_cr_def strip_suffix_def suffix_def split: if_splits)
  ultimately have "str_lines body = [body]"
    using split_clean[OF clean[of "CHR 0x0A"]] by (simp add: str_lines_def)
  moreover have "line_words body = map test_id_display ts"
    using split_clean[OF clean[of "CHR ''#''"]] words ok
    by (auto simp: line_words_def id_part_ok_def intro!: filter_True)
  ultimately show ?thesis by simp
qed

lemma parse_words_list:
  "list_all listable ts \<Longrightarrow> parse_words (map test_id_display ts) acc = Inr (SelTests (fold bs_insert ts acc))"
proof (induction ts arbitrary: acc)
  case (Cons t ts)
  then have "test_id_parse (test_id_display t) = Inr t"
    using test_id_parse_trimmed[of "test_id_display t" t] trim_display by (simp add: listable_def)
  then show ?case using Cons by (simp add: listable_def)
qed simp

text \<open>
  Listing tests separated by commas as a selection argument selects exactly those tests, when
  each is a valid identifier without a comma, none is the word \<open>all\<close>, and the argument does not
  start with the sign that names a file.
\<close>

theorem parse_selection_roundtrip:
  assumes "list_all listable ts" and "\<not> prefix ''@'' (str_join '','' (map test_id_display ts))"
  shows "parse_selection read_file (str_join '','' (map test_id_display ts)) = Inr (selection_of ts)"
proof (cases "ts = []")
  case True
  then show ?thesis
    by (simp add: parse_selection_def strip_prefix_def str_lines_def split_of_def selection_of_def bs_collect_def)
next
  case False
  have "strip_prefix (str_join '','' (map test_id_display ts)) ''@'' = None"
    using assms(2) by (simp add: strip_prefix_def)
  then show ?thesis
    using join_words[OF False assms(1)] parse_words_list[OF assms(1), of "[]"]
    by (simp add: parse_selection_def selection_of_def bs_collect_def)
qed

lemma sample_listable:
  "list_all listable [TestId ''b'' None, TestId ''a'' (Some ''x::y'')]"
  by code_simp

theorem parse_selection_roundtrip_witness:
  "parse_selection Inl ''b,a::x::y'' = Inr (SelTests [TestId ''a'' (Some ''x::y''), TestId ''b'' None])"
proof -
  have "\<not> prefix ''@'' (str_join '','' (map test_id_display [TestId ''b'' None, TestId ''a'' (Some ''x::y'')]))"
    by (simp add: test_id_display_def)
  from parse_selection_roundtrip[OF sample_listable this, of Inl]
  show ?thesis
    by (simp add: test_id_display_def CASE_SEPARATOR_def selection_of_def bs_collect_def less_test_id_def)
qed

end
