(* ===== verification/Queue_Model.thy ===== *)
theory Queue_Model
  imports Queue_Tests
begin

text \<open>
  The vocabulary of \<open>merge-queue\<close> (\<open>model.rs\<close>): submitted changes with their holds, obligations and
  their discharge, plans, and what a queued change waits on. A field \<open>f\<close> of a struct is a record
  field with a prefix for the struct (\<open>Item::pr\<close> is \<open>it_pr\<close>). Times are RFC 3339 texts with second
  precision in UTC, compared as texts; the clock (\<open>now\<close>) is an argument.
\<close>

section \<open>Submitted changes\<close>

datatype item_status = Queued | Landed | Ejected | Withdrawn

fun item_status_str :: "item_status \<Rightarrow> string" where
  "item_status_str Queued = ''queued''"
| "item_status_str Landed = ''landed''"
| "item_status_str Ejected = ''ejected''"
| "item_status_str Withdrawn = ''withdrawn''"

record notify_delivery =
  nd_key :: string
  nd_attempts :: nat
  nd_delivered :: bool
  nd_last_error :: string

definition notify_delivery_is_empty :: "notify_delivery \<Rightarrow> bool" where
  "notify_delivery_is_empty d \<longleftrightarrow>
     nd_key d = [] \<and> nd_attempts d = 0 \<and> \<not> nd_delivered d \<and> nd_last_error d = []"

datatype notify_mode = NotifyBoth | HooksOnly | NotifyOnly

fun notify_mode_str :: "notify_mode \<Rightarrow> string" where
  "notify_mode_str NotifyBoth = ''both''"
| "notify_mode_str HooksOnly = ''hooks-only''"
| "notify_mode_str NotifyOnly = ''notify-only''"

definition notify_mode_parse :: "string \<Rightarrow> string + notify_mode" where
  "notify_mode_parse v =
     (if v = ''both'' then Inr NotifyBoth
      else if v = ''hooks-only'' then Inr HooksOnly
      else if v = ''notify-only'' then Inr NotifyOnly
      else Inl v)"

definition notify_mode_is_default :: "notify_mode \<Rightarrow> bool" where
  "notify_mode_is_default mode \<longleftrightarrow> mode = NotifyBoth"

record queue_event =
  ev_at :: string
  ev_kind :: string
  ev_detail :: string

record requirement =
  rq_peer :: string
  rq_commit :: string
  rq_pr :: "int option"

record held_change =
  hc_pr :: int
  hc_head :: string

record held_candidate =
  hd_tip :: string
  hd_parent :: string
  hd_changes :: "held_change list"
  hd_prefixes :: "string list"
  hd_claim :: validation_claim
  hd_run :: string
  hd_validation :: nat

definition held_candidate_prs :: "held_candidate \<Rightarrow> int list" where
  "held_candidate_prs c = map hc_pr (hd_changes c)"

record kept_validation =
  kv_tip :: string
  kv_parent :: string
  kv_changes :: "held_change list"
  kv_claim :: validation_claim
  kv_run :: string
  kv_validation :: nat

definition kept_validation_prs :: "kept_validation \<Rightarrow> int list" where
  "kept_validation_prs v = map hc_pr (kv_changes v)"

record ruling =
  ru_by :: string
  ru_reason :: string
  ru_at :: string

record item =
  it_pr :: int
  it_head_ref :: string
  it_head :: string
  it_priority :: int
  it_submitted_at :: string
  it_submitted_by :: string
  it_notify :: string
  it_shepherd :: string
  it_notify_mode :: "notify_mode option"
  it_notify_delivery :: notify_delivery
  it_title :: string
  it_after :: "int list"
  it_solo :: bool
  it_prioritized :: bool
  it_exact :: bool
  it_requires :: "requirement list"
  it_claim :: "validation_claim option"
  it_source :: string
  it_close_pending :: bool
  it_validation_refusals :: nat
  it_suspect_reruns :: nat
  it_next_retry_at :: string
  it_last_refusal :: string
  it_flaky_nodes :: "string list"
  it_flaky_hold_until :: string
  it_hold_verdict :: string
  it_held_candidate :: "held_candidate option"
  it_accepted :: "ruling option"
  it_escalated :: string
  it_deciding_report :: string
  it_deciding_failed :: "test_result list"
  it_status :: item_status
  it_landed_as :: string
  it_history :: "queue_event list"

definition effective_notify_mode :: "item \<Rightarrow> notify_mode \<Rightarrow> notify_mode" where
  "effective_notify_mode it config_mode =
     (case it_notify_mode it of Some mode \<Rightarrow> mode | None \<Rightarrow> config_mode)"

definition FLAKY_MARKER :: string where "FLAKY_MARKER = ''GREEN_FLAKY''"

definition INFRA_BLOCKED_MARKER :: string where "INFRA_BLOCKED_MARKER = ''INFRA-BLOCKED''"

definition SUSPECT_FLAKE_MARKER :: string where "SUSPECT_FLAKE_MARKER = ''SUSPECT-FLAKE''"

definition hold_label :: "item \<Rightarrow> string" where
  "hold_label it = (if it_hold_verdict it = [] then FLAKY_MARKER else it_hold_verdict it)"

definition hold_kind :: "item \<Rightarrow> string" where
  "hold_kind it =
     (if it_hold_verdict it = INFRA_BLOCKED_MARKER then ''held-infra-blocked''
      else if it_hold_verdict it = SUSPECT_FLAKE_MARKER then ''held-suspect-flake''
      else ''held-green-flaky'')"

definition clear_hold :: "item \<Rightarrow> item" where
  "clear_hold it =
     it\<lparr>it_flaky_nodes := [], it_flaky_hold_until := [], it_hold_verdict := [],
        it_held_candidate := None, it_accepted := None\<rparr>"

definition is_flaky_held_at :: "string \<Rightarrow> item \<Rightarrow> bool" where
  "is_flaky_held_at now it \<longleftrightarrow>
     it_status it = Queued \<and> it_flaky_hold_until it \<noteq> [] \<and> now < it_flaky_hold_until it"

definition is_deferred_at :: "string \<Rightarrow> item \<Rightarrow> bool" where
  "is_deferred_at now it \<longleftrightarrow>
     it_status it = Queued \<and> it_next_retry_at it \<noteq> [] \<and> now < it_next_retry_at it"

definition item_log :: "string \<Rightarrow> string \<Rightarrow> string \<Rightarrow> item \<Rightarrow> item" where
  "item_log now kind detail it =
     it\<lparr>it_history := it_history it @ [\<lparr>ev_at = now, ev_kind = kind, ev_detail = detail\<rparr>]\<rparr>"

section \<open>Obligations\<close>

record discharge =
  di_at :: string
  di_commit :: string
  di_exit :: "int option"
  di_results :: test_results
  di_validation_id :: "nat option"

definition discharge_green :: "discharge \<Rightarrow> bool" where
  "discharge_green d \<longleftrightarrow> di_exit d = Some 0 \<and> green (di_results d)"

definition discharge_failed_results :: "discharge \<Rightarrow> test_result list" where
  "discharge_failed_results d = failed_results (di_results d)"

definition discharge_failed_ids :: "discharge \<Rightarrow> test_id list" where
  "discharge_failed_ids d = failed (di_results d)"

record obligation =
  ob_id :: string
  ob_created_at :: string
  ob_landed :: string
  ob_prs :: "int list"
  ob_validated :: validation_claim
  ob_discharged :: "discharge option"
  ob_failed_runs :: "discharge list"

section \<open>Plans\<close>

record planned_batch =
  pb_index :: nat
  pb_prs :: "int list"
  pb_note :: string

record held =
  he_pr :: int
  he_kind :: string
  he_reason :: string
  he_with :: "int list"
  he_paths :: "string list"

record planned_item =
  pi_pr :: int
  pi_head :: string
  pi_priority :: int
  pi_submitted_at :: string
  pi_files :: nat
  pi_conflict_degree :: nat
  pi_prioritized :: bool
  pi_peripheral :: bool
  pi_peripheral_source :: string

record conflict =
  cf_a :: int
  cf_b :: int
  cf_paths :: "string list"

record queue_plan =
  pl_schema :: string
  pl_created_at :: string
  pl_base :: string
  pl_base_sha :: string
  pl_items :: "planned_item list"
  pl_batches :: "planned_batch list"
  pl_held :: "held list"
  pl_conflicts :: "conflict list"
  pl_dependencies :: "(int \<times> int) list"
  pl_suggest_priority :: "int list"
  pl_prior_conflicts :: "(int \<times> int) list"

definition PLAN_SCHEMA :: string where "PLAN_SCHEMA = ''merge-queue-plan/v1''"

section \<open>What a queued change waits on\<close>

record waiting =
  wa_pr :: int
  wa_status :: string
  wa_through :: "int list"

definition waiting_describe :: "waiting \<Rightarrow> string" where
  "waiting_describe w =
     ''waiting on '' @ concat (map (\<lambda>pr. ''#'' @ dec_int pr @ '', which waits on '') (wa_through w))
     @ ''#'' @ dec_int (wa_pr w) @ '' ('' @ wa_status w @ '')''"

definition waiting_named :: "waiting \<Rightarrow> int" where
  "waiting_named w = (case wa_through w of pr # _ \<Rightarrow> pr | [] \<Rightarrow> wa_pr w)"

type_synonym item_map = "(int, item) btree_map"

definition status_at :: "item_map \<Rightarrow> int \<Rightarrow> item_status option" where
  "status_at items pr = map_option it_status (bt_get items pr)"

definition missing_status :: "item_status option \<Rightarrow> string" where
  "missing_status st = (case st of Some s \<Rightarrow> item_status_str s | None \<Rightarrow> ''not in the queue'')"

text \<open>The state of the search: the waits found, the changes seen, and the work still queued.\<close>

record wait_state =
  ws_out :: "waiting list"
  ws_seen :: "int btree_set"
  ws_queue :: "(int list \<times> int list) list"

definition after_of :: "item_map \<Rightarrow> int \<Rightarrow> int list" where
  "after_of items pr = (case bt_get items pr of Some it \<Rightarrow> it_after it | None \<Rightarrow> [])"

definition wait_dep :: "item_map \<Rightarrow> int list \<Rightarrow> int \<Rightarrow> wait_state \<Rightarrow> wait_state" where
  "wait_dep items through dep st =
     (case status_at items dep of
        Some Landed \<Rightarrow> st
      | Some Queued \<Rightarrow>
          if dep \<in> set (ws_seen st) then st
          else st\<lparr>ws_seen := bs_insert dep (ws_seen st),
                  ws_queue := ws_queue st @ [(after_of items dep, through @ [dep])]\<rparr>
      | other \<Rightarrow>
          if list_ex (\<lambda>w. wa_pr w = dep) (ws_out st) then st
          else st\<lparr>ws_out := ws_out st @
                   [\<lparr>wa_pr = dep, wa_status = missing_status other, wa_through = through\<rparr>]\<rparr>)"

definition unseen_queued :: "item_map \<Rightarrow> int list \<Rightarrow> int set" where
  "unseen_queued items seen = {pr \<in> set (bt_keys items). status_at items pr = Some Queued} - set seen"

lemma finite_unseen [simp]: "finite (unseen_queued items seen)"
  by (simp add: unseen_queued_def)

lemma status_at_key: "status_at items pr = Some s \<Longrightarrow> pr \<in> set (bt_keys items)"
  using bt_has_iff_key[of items pr] by (auto simp: status_at_def bt_has_def)

lemma wait_dep_measure:
  "card (unseen_queued items (ws_seen (wait_dep items through dep st))) + length (ws_queue (wait_dep items through dep st))
     \<le> card (unseen_queued items (ws_seen st)) + length (ws_queue st)"
proof (cases "status_at items dep = Some Queued \<and> dep \<notin> set (ws_seen st)")
  case True
  then have "dep \<in> unseen_queued items (ws_seen st)"
    using status_at_key by (simp add: unseen_queued_def)
  moreover have "unseen_queued items (bs_insert dep (ws_seen st)) = unseen_queued items (ws_seen st) - {dep}"
    by (auto simp: unseen_queued_def)
  ultimately have "Suc (card (unseen_queued items (bs_insert dep (ws_seen st)))) = card (unseen_queued items (ws_seen st))"
    using card_Suc_Diff1[of "unseen_queued items (ws_seen st)" dep] by simp
  then show ?thesis using True by (simp add: wait_dep_def)
next
  case False
  then show ?thesis by (auto simp: wait_dep_def split: option.splits item_status.splits)
qed

lemma wait_deps_measure:
  "card (unseen_queued items (ws_seen (fold (wait_dep items through) deps st)))
     + length (ws_queue (fold (wait_dep items through) deps st))
     \<le> card (unseen_queued items (ws_seen st)) + length (ws_queue st)"
proof (induction deps arbitrary: st)
  case (Cons d deps)
  then show ?case using order_trans[OF Cons wait_dep_measure] by simp
qed simp

function wait_loop :: "item_map \<Rightarrow> wait_state \<Rightarrow> wait_state" where
  "wait_loop items st =
     (case ws_queue st of
        [] \<Rightarrow> st
      | (deps, through) # queue \<Rightarrow>
          wait_loop items (fold (wait_dep items through) deps (st\<lparr>ws_queue := queue\<rparr>)))"
  by pat_completeness auto
termination
proof (relation "measure (\<lambda>(items, st). card (unseen_queued items (ws_seen st)) + length (ws_queue st))", goal_cases)
  case (2 items st p queue deps through)
  then show ?case using wait_deps_measure[of items through deps "st\<lparr>ws_queue := queue\<rparr>"] by simp
qed simp

declare wait_loop.simps [simp del]

definition waiting_on :: "int \<Rightarrow> int list \<Rightarrow> item_map \<Rightarrow> waiting list" where
  "waiting_on pr after items =
     ws_out (wait_loop items \<lparr>ws_out = [], ws_seen = [pr], ws_queue = [(after, [])]\<rparr>)"

record waiting_change =
  wc_pr :: int
  wc_waiting_on :: "waiting list"

definition waiting_changes :: "item list \<Rightarrow> waiting_change list" where
  "waiting_changes items =
     (let by_pr = bt_collect (map (\<lambda>it. (it_pr it, it)) items)
      in List.map_filter (\<lambda>it.
           let w = waiting_on (it_pr it) (it_after it) by_pr
           in if w = [] then None else Some \<lparr>wc_pr = it_pr it, wc_waiting_on = w\<rparr>)
         (filter (\<lambda>it. it_status it = Queued) (map snd by_pr)))"

end
