(* ===== verification/Queue_Wait.thy ===== *)
theory Queue_Wait
  imports Queue_Model
begin

text \<open>
  What \<open>waiting_on\<close> reports (\<open>model.rs\<close>): the specification is the reachability of the changes that
  are neither queued nor landed through chains of queued changes, and the breadth-first search is
  shown to report exactly those, each once, each with a chain that explains it, shorter chains first.
\<close>

section \<open>Chains of queued changes\<close>

text \<open>
  \<open>wait_path items pr after through deps\<close>: starting from the dependencies \<open>after\<close> of change \<open>pr\<close>,
  the queued changes \<open>through\<close> lead to the dependencies \<open>deps\<close>.
\<close>

inductive wait_path :: "item_map \<Rightarrow> int \<Rightarrow> int list \<Rightarrow> int list \<Rightarrow> int list \<Rightarrow> bool"
  for items :: item_map and pr :: int and after :: "int list" where
  wait_start: "wait_path items pr after [] after"
| wait_next: "wait_path items pr after (through @ [x]) (after_of items x)"
    if "wait_path items pr after through deps" "x \<in> set deps" "status_at items x = Some Queued" "x \<noteq> pr"

definition wait_edges :: "item_map \<Rightarrow> int \<Rightarrow> (int \<times> int) set" where
  "wait_edges items pr =
     {(x, y). status_at items x = Some Queued \<and> x \<noteq> pr \<and> y \<in> set (after_of items x)}"

definition off_queue :: "item_map \<Rightarrow> int \<Rightarrow> bool" where
  "off_queue items y \<longleftrightarrow> status_at items y \<noteq> Some Queued \<and> status_at items y \<noteq> Some Landed"

lemma wait_path_reach:
  "wait_path items pr after through deps \<Longrightarrow> set deps \<subseteq> (wait_edges items pr)\<^sup>* `` set after"
proof (induction rule: wait_path.induct)
  case (wait_next through deps x)
  have "(x, y) \<in> wait_edges items pr" if "y \<in> set (after_of items x)" for y
    using that wait_next by (simp add: wait_edges_def)
  moreover have "x \<in> (wait_edges items pr)\<^sup>* `` set after" using wait_next by blast
  ultimately show ?case by (auto intro: rtrancl_into_rtrancl)
qed auto

section \<open>The search\<close>

text \<open>
  The invariant: what was found and what is queued has a chain; everything that is named by the
  start or by a change already seen is settled, queued for expansion, or in \<open>rest\<close>, the dependencies
  of the current step that are still to be looked at.
\<close>

definition wait_settled :: "item_map \<Rightarrow> wait_state \<Rightarrow> int \<Rightarrow> bool" where
  "wait_settled items st y \<longleftrightarrow> status_at items y = Some Landed
     \<or> (status_at items y = Some Queued \<and> y \<in> set (ws_seen st))
     \<or> (off_queue items y \<and> y \<in> wa_pr ` set (ws_out st))"

definition explained :: "item_map \<Rightarrow> int \<Rightarrow> int list \<Rightarrow> waiting \<Rightarrow> bool" where
  "explained items pr after w \<longleftrightarrow> off_queue items (wa_pr w)
     \<and> wa_status w = missing_status (status_at items (wa_pr w))
     \<and> (\<exists>deps. wait_path items pr after (wa_through w) deps \<and> wa_pr w \<in> set deps)"

definition named :: "item_map \<Rightarrow> int \<Rightarrow> int list \<Rightarrow> wait_state \<Rightarrow> int \<Rightarrow> bool" where
  "named items pr after st y \<longleftrightarrow> y \<in> set after
     \<or> (\<exists>x \<in> set (ws_seen st). x \<noteq> pr \<and> y \<in> set (after_of items x))"

definition wait_inv :: "item_map \<Rightarrow> int \<Rightarrow> int list \<Rightarrow> int list \<Rightarrow> wait_state \<Rightarrow> bool" where
  "wait_inv items pr after rest st \<longleftrightarrow>
     pr \<in> set (ws_seen st)
     \<and> (\<forall>w \<in> set (ws_out st). explained items pr after w)
     \<and> distinct (map wa_pr (ws_out st))
     \<and> (\<forall>(deps, through) \<in> set (ws_queue st). wait_path items pr after through deps)
     \<and> (\<forall>y. named items pr after st y \<longrightarrow>
          wait_settled items st y \<or> y \<in> set rest \<or> (\<exists>(deps, through) \<in> set (ws_queue st). y \<in> set deps))"

lemma wait_dep_cases:
  obtains (keep) "wait_dep items through d st = st" "wait_settled items st d"
  | (expand) "status_at items d = Some Queued" "d \<notin> set (ws_seen st)"
      "wait_dep items through d st = st\<lparr>ws_seen := bs_insert d (ws_seen st),
         ws_queue := ws_queue st @ [(after_of items d, through @ [d])]\<rparr>"
  | (report) "off_queue items d" "d \<notin> wa_pr ` set (ws_out st)"
      "wait_dep items through d st = st\<lparr>ws_out := ws_out st @
         [\<lparr>wa_pr = d, wa_status = missing_status (status_at items d), wa_through = through\<rparr>]\<rparr>"
proof (cases "status_at items d = Some Queued \<or> status_at items d = Some Landed")
  case True
  then show thesis
    using keep expand by (cases "d \<in> set (ws_seen st)") (auto simp: wait_dep_def wait_settled_def)
next
  case False
  then have off: "off_queue items d" by (simp add: off_queue_def)
  have "wait_dep items through d st =
      (if d \<in> wa_pr ` set (ws_out st) then st else st\<lparr>ws_out := ws_out st @
         [\<lparr>wa_pr = d, wa_status = missing_status (status_at items d), wa_through = through\<rparr>]\<rparr>)"
    using False by (auto simp: wait_dep_def list_ex_iff split: option.splits item_status.splits)
  then show thesis using off keep report
    by (cases "d \<in> wa_pr ` set (ws_out st)") (simp_all add: wait_settled_def)
qed

lemma wait_dep_inv:
  assumes inv: "wait_inv items pr after (d # rest) st"
    and path: "wait_path items pr after through deps" "d \<in> set deps"
  shows "wait_inv items pr after rest (wait_dep items through d st)"
proof (cases rule: wait_dep_cases[of items through d st])
  case keep
  then show ?thesis using inv by (auto simp: wait_inv_def)
next
  case expand
  let ?st = "wait_dep items through d st"
  have ne: "d \<noteq> pr" using expand(2) inv by (auto simp: wait_inv_def)
  have "wait_path items pr after (through @ [d]) (after_of items d)"
    using path expand(1) ne by (rule wait_next)
  moreover have "wait_settled items ?st y \<or> y \<in> set rest \<or> (\<exists>(deps, through) \<in> set (ws_queue ?st). y \<in> set deps)"
    if y: "named items pr after ?st y" for y
  proof -
    consider "named items pr after st y" | "y \<in> set (after_of items d)"
      using y expand(3) by (auto simp: named_def)
    then show ?thesis
    proof cases
      case 1
      then have "wait_settled items st y \<or> y \<in> set (d # rest) \<or> (\<exists>(deps, through) \<in> set (ws_queue st). y \<in> set deps)"
        using inv by (simp add: wait_inv_def)
      then show ?thesis using expand by (auto simp: wait_settled_def)
    qed (use expand(3) in auto)
  qed
  ultimately show ?thesis using inv expand(3) by (auto simp: wait_inv_def)
next
  case report
  let ?st = "wait_dep items through d st"
  have "explained items pr after \<lparr>wa_pr = d, wa_status = missing_status (status_at items d), wa_through = through\<rparr>"
    using path report(1) by (auto simp: explained_def)
  moreover have "named items pr after ?st y \<longleftrightarrow> named items pr after st y" for y
    using report(3) by (simp add: named_def)
  moreover have "wait_settled items st y \<or> y = d \<Longrightarrow> wait_settled items ?st y" for y
    using report by (auto simp: wait_settled_def)
  ultimately show ?thesis using inv report unfolding wait_inv_def by auto
qed

lemma wait_deps_inv:
  assumes "wait_inv items pr after (ds @ rest) st" and "wait_path items pr after through deps" and "set ds \<subseteq> set deps"
  shows "wait_inv items pr after rest (fold (wait_dep items through) ds st)"
  using assms(1,3)
proof (induction ds arbitrary: st)
  case (Cons d ds)
  then have "wait_inv items pr after (ds @ rest) (wait_dep items through d st)"
    using wait_dep_inv[OF _ assms(2), of d "ds @ rest" st] by simp
  then show ?case using Cons by simp
qed simp

lemma wait_loop_inv:
  "wait_inv items pr after [] st \<Longrightarrow>
     wait_inv items pr after [] (wait_loop items st) \<and> ws_queue (wait_loop items st) = []"
proof (induction items st rule: wait_loop.induct)
  case (1 items st)
  show ?case
  proof (cases "ws_queue st")
    case Nil
    then show ?thesis using 1(2) by (subst (1 2) wait_loop.simps) simp
  next
    case (Cons q queue)
    obtain deps through where q: "q = (deps, through)" by (cases q)
    have path: "wait_path items pr after through deps"
      using 1(2) Cons q by (auto simp: wait_inv_def)
    have "wait_inv items pr after deps (st\<lparr>ws_queue := queue\<rparr>)"
      using 1(2) Cons q by (auto simp: wait_inv_def named_def wait_settled_def)
    then have "wait_inv items pr after [] (fold (wait_dep items through) deps (st\<lparr>ws_queue := queue\<rparr>))"
      using wait_deps_inv[of items pr after deps "[]"] path by simp
    then show ?thesis using 1(1)[OF Cons q[symmetric]] Cons q by (subst (1 2) wait_loop.simps) simp
  qed
qed

section \<open>Shorter chains first\<close>

definition wait_levels :: "nat \<Rightarrow> wait_state \<Rightarrow> bool" where
  "wait_levels k st \<longleftrightarrow>
     sorted (map (\<lambda>w. length (wa_through w)) (ws_out st))
     \<and> (\<forall>w \<in> set (ws_out st). length (wa_through w) \<le> k)
     \<and> sorted (map (\<lambda>(deps, through). length through) (ws_queue st))
     \<and> (\<forall>(deps, through) \<in> set (ws_queue st). k \<le> length through \<and> length through \<le> Suc k)"

lemma wait_dep_levels:
  assumes "wait_levels (length through) st"
  shows "wait_levels (length through) (wait_dep items through d st)"
proof (cases rule: wait_dep_cases[of items through d st])
  case expand
  then show ?thesis using assms by (auto simp: wait_levels_def sorted_append)
next
  case report
  then show ?thesis using assms by (auto simp: wait_levels_def sorted_append)
qed (use assms in simp)

lemma wait_deps_levels:
  "wait_levels (length through) st \<Longrightarrow> wait_levels (length through) (fold (wait_dep items through) ds st)"
  by (induction ds arbitrary: st) (simp_all add: wait_dep_levels)

lemma wait_loop_levels: "wait_levels k st \<Longrightarrow> \<exists>k'. wait_levels k' (wait_loop items st)"
proof (induction items st arbitrary: k rule: wait_loop.induct)
  case (1 items st)
  show ?case
  proof (cases "ws_queue st")
    case Nil
    then show ?thesis using 1(2) by (subst wait_loop.simps) auto
  next
    case (Cons q queue)
    obtain deps through where q: "q = (deps, through)" by (cases q)
    have "wait_levels (length through) (st\<lparr>ws_queue := queue\<rparr>)"
      using 1(2) Cons q by (fastforce simp: wait_levels_def)
    from 1(1)[OF Cons q[symmetric] wait_deps_levels[OF this]]
    show ?thesis using Cons q by (subst wait_loop.simps) simp
  qed
qed

section \<open>The report\<close>

text \<open>
  C24: A queued change waits on exactly the changes that are neither queued nor landed and that its
  dependencies reach through queued changes; each is reported once, with its status and a chain of
  queued changes that leads to it, and the chains are reported in order of their length.
\<close>

theorem waiting_on_exact:
  "wa_pr ` set (waiting_on pr after items) =
     {y \<in> (wait_edges items pr)\<^sup>* `` set after. off_queue items y}
   \<and> distinct (map wa_pr (waiting_on pr after items))
   \<and> sorted (map (\<lambda>w. length (wa_through w)) (waiting_on pr after items))
   \<and> list_all (explained items pr after) (waiting_on pr after items)"
proof -
  let ?st = "\<lparr>ws_out = [], ws_seen = [pr], ws_queue = [(after, [])]\<rparr>"
  let ?fin = "wait_loop items ?st"
  have "wait_inv items pr after [] ?st"
    by (auto simp: wait_inv_def named_def wait_start)
  from wait_loop_inv[OF this] have inv: "wait_inv items pr after [] ?fin" and q: "ws_queue ?fin = []" by auto
  have "wait_levels 0 ?st" by (simp add: wait_levels_def)
  then obtain k where lev: "wait_levels k ?fin" using wait_loop_levels by blast
  have named: "named items pr after ?fin y \<Longrightarrow> wait_settled items ?fin y" for y
    using inv q by (simp add: wait_inv_def)
  have "wait_settled items ?fin y" if "(x, y) \<in> (wait_edges items pr)\<^sup>*" "x \<in> set after" for x y
    using that
  proof (induction rule: rtrancl_induct)
    case base
    then show ?case using named by (simp add: named_def)
  next
    case (step y z)
    have "status_at items y = Some Queued" "y \<noteq> pr" "z \<in> set (after_of items y)"
      using step(2) by (simp_all add: wait_edges_def)
    then show ?case using step.IH step.prems named[of z]
      by (auto simp: wait_settled_def named_def off_queue_def)
  qed
  then have all: "y \<in> wa_pr ` set (ws_out ?fin)"
    if "y \<in> (wait_edges items pr)\<^sup>* `` set after" "off_queue items y" for y
    using that by (force simp: wait_settled_def off_queue_def)
  have ex: "explained items pr after w" if "w \<in> set (ws_out ?fin)" for w
    using inv that by (simp add: wait_inv_def)
  then have only: "wa_pr w \<in> (wait_edges items pr)\<^sup>* `` set after \<and> off_queue items (wa_pr w)"
    if "w \<in> set (ws_out ?fin)" for w
    using ex[OF that] wait_path_reach by (fastforce simp: explained_def)
  show ?thesis using inv lev ex all only
    by (auto simp: waiting_on_def list_all_iff wait_inv_def wait_levels_def)
qed

end
