(* ===== verification/Queue_Plan.thy ===== *)
theory Queue_Plan
  imports Queue_Model
begin

text \<open>
  Ordering and chunking of the queue (\<open>merge-queue/src/plan.rs\<close>): \<open>make_plan\<close> in its four stages
  (identity and base checks, dependencies, conflict-aware selection in dependency order, batches),
  with the priority paths of \<open>state.rs\<close>. The probe of the repository is an argument, as in the source.
  The two readings of the clock are the arguments \<open>now\<close> and \<open>created_at\<close>; \<open>debug\<close> is the \<open>{:?}\<close>
  form of a string, which depends on the Unicode tables of the standard library. A map that the code
  indexes (\<open>by_pr[&pr]\<close>, \<open>preds[&pr]\<close>, \<open>degrees[&pr]\<close>) has every number the code indexes it with as
  a key; the model reads a missing key as the default.
\<close>

section \<open>Paths\<close>

definition trim_end_char :: "char \<Rightarrow> string \<Rightarrow> string" where
  "trim_end_char c s = rev (dropWhile (\<lambda>x. x = c) (rev s))"

fun match_parts :: "string list \<Rightarrow> string \<Rightarrow> bool" where
  "match_parts [] rest = (rest = [])"
| "match_parts [part] rest = ends_with rest part"
| "match_parts (part # parts) rest =
     (case split_once_at part rest of Some (_, after) \<Rightarrow> match_parts parts after | None \<Rightarrow> False)"

definition path_matches :: "string \<Rightarrow> string \<Rightarrow> bool" where
  "path_matches pat path =
     (case strip_suffix pat ''/'' of
        Some dir \<Rightarrow> starts_with path (dir @ ''/'')
      | None \<Rightarrow>
          if CHR ''*'' \<notin> set pat then pat = path
          else case split_of [''*''] pat of
              [] \<Rightarrow> path = []
            | part # parts \<Rightarrow>
                (case strip_prefix path part of Some rest \<Rightarrow> match_parts parts rest | None \<Rightarrow> False))"

definition pattern_covers :: "string \<Rightarrow> string \<Rightarrow> bool" where
  "pattern_covers pat path \<longleftrightarrow> path_matches pat path
     \<or> (CHR ''*'' \<notin> set pat \<and> starts_with path (trim_end_char CHR ''/'' pat @ ''/''))"

record priority_config =
  pc_label :: string
  pc_ci_paths :: "string list"

definition DEFAULT_PRIORITY_LABEL :: string where "DEFAULT_PRIORITY_LABEL = ''mq-priority''"

definition priority_label :: "priority_config \<Rightarrow> string option" where
  "priority_label c =
     (if pc_label c = [] then Some DEFAULT_PRIORITY_LABEL
      else if pc_label c = ''-'' then None
      else Some (pc_label c))"

definition labelled :: "priority_config \<Rightarrow> string list \<Rightarrow> bool" where
  "labelled c labels =
     (case priority_label c of
        Some wanted \<Rightarrow> list_ex (\<lambda>l. to_ascii_lowercase l = to_ascii_lowercase wanted) labels
      | None \<Rightarrow> False)"

definition only_ci_paths :: "priority_config \<Rightarrow> string list \<Rightarrow> bool" where
  "only_ci_paths c files \<longleftrightarrow>
     list_all (\<lambda>path. list_ex (\<lambda>pat. pattern_covers pat path) (pc_ci_paths c)) files
     \<and> files \<noteq> [] \<and> pc_ci_paths c \<noteq> []"

section \<open>The probe and the options\<close>

record probe_stats =
  ps_cache_hits :: nat
  ps_cache_misses :: nat
  ps_base_hits :: nat
  ps_base_misses :: nat
  ps_pair_hits :: nat
  ps_pair_misses :: nat
  ps_pairs_skipped :: nat
  ps_pairs_unknown :: nat
  ps_peak_concurrency :: nat

record peripheral_mark =
  pm_peripheral :: bool
  pm_cached :: bool

record probe =
  pr_heads :: "(int, string option) btree_map"
  pr_files :: "(int, string btree_set) btree_map"
  pr_base_conflicts :: "(int, string list) btree_map"
  pr_conflicts :: "conflict list"
  pr_ancestry :: "(int \<times> int) list"
  pr_external :: "(int, held) btree_map"
  pr_ranges :: "(int, string btree_set) btree_map"
  pr_stats :: probe_stats
  pr_peripheral :: "(int, peripheral_mark) btree_map"
  pr_prior :: "(int \<times> int) list"

record plan_options =
  po_max_batch :: nat
  po_priority :: priority_config
  po_peripheral_max_batch :: nat

section \<open>Identity and base checks\<close>

definition short :: "string \<Rightarrow> string" where
  "short sha = take (min (length sha) 10) sha"

definition pr_list :: "int list \<Rightarrow> string" where
  "pr_list prs = str_join '', '' (map (\<lambda>pr. ''#'' @ dec_int pr) prs)"

type_synonym held_map = "(int, held) btree_map"

definition hold :: "held \<Rightarrow> held_map \<Rightarrow> held_map" where
  "hold h m = bt_or_insert (he_pr h) h m"

definition simple_held :: "int \<Rightarrow> string \<Rightarrow> string \<Rightarrow> held" where
  "simple_held pr kind reason = \<lparr>he_pr = pr, he_kind = kind, he_reason = reason, he_with = [], he_paths = []\<rparr>"

definition hold_opt :: "held option \<Rightarrow> held_map \<Rightarrow> held_map" where
  "hold_opt h m = (case h of Some h \<Rightarrow> hold h m | None \<Rightarrow> m)"

definition current_head :: "probe \<Rightarrow> int \<Rightarrow> string option" where
  "current_head p pr = (case bt_get (pr_heads p) pr of Some h \<Rightarrow> h | None \<Rightarrow> None)"

definition identity_hold :: "(string \<Rightarrow> string) \<Rightarrow> string \<Rightarrow> probe \<Rightarrow> item \<Rightarrow> held option" where
  "identity_hold debug base p it =
     (case current_head p (it_pr it) of
        None \<Rightarrow> Some (simple_held (it_pr it) ''head-missing''
          (''head '' @ debug (it_head_ref it) @ '' no longer resolves; resubmit or withdraw''))
      | Some current \<Rightarrow>
          if current \<noteq> it_head it
          then Some (simple_held (it_pr it) ''head-moved''
            (''head moved since submission ('' @ short (it_head it) @ '' -> '' @ short current
             @ ''); resubmit the new head''))
          else case bt_get (pr_base_conflicts p) (it_pr it) of
            Some paths \<Rightarrow>
              if paths = [] then None
              else Some \<lparr>he_pr = it_pr it, he_kind = ''conflicts-with-base'',
                he_reason = ''conflicts with '' @ base @ '' on '' @ str_join '', '' paths
                  @ ''; rebase onto '' @ base @ '' and resubmit'',
                he_with = [], he_paths = paths\<rparr>
          | None \<Rightarrow> None)"

definition flaky_ruling :: "item \<Rightarrow> string" where
  "flaky_ruling it =
     (case (it_held_candidate it, it_accepted it) of
        (Some candidate, Some r) \<Rightarrow>
          ''accepted by '' @ ru_by r @ '': a run lands '' @ short (hd_tip candidate)
          @ '' if the base is still '' @ short (hd_parent candidate)
      | (Some candidate, None) \<Rightarrow>
          ''`merge-queue accept-flaky '' @ str_join '' '' (map dec_int (held_candidate_prs candidate))
          @ '' --by WHO --reason WHY` lands the validated commit '' @ short (hd_tip candidate)
          @ '', and `merge-queue retry '' @ dec_int (it_pr it) @ ''` validates it again''
      | _ \<Rightarrow> ''`merge-queue retry '' @ dec_int (it_pr it) @ ''` returns it to the queue'')"

definition deferral_hold :: "string \<Rightarrow> item \<Rightarrow> held option" where
  "deferral_hold now it =
     (if it_escalated it \<noteq> []
      then Some (simple_held (it_pr it) ''escalated''
        (''escalated to its owner: '' @ it_escalated it @ ''; `merge-queue retry '' @ dec_int (it_pr it)
         @ ''` returns it to the queue''))
      else if is_flaky_held_at now it \<and> it_hold_verdict it = SUSPECT_FLAKE_MARKER
      then Some (simple_held (it_pr it) (hold_kind it)
        (hold_label it @ '': '' @ str_join '', '' (it_flaky_nodes it)
         @ '' timed out or reached no verdict once; they run again beside the run, and it goes back to the queue if they pass (held until ''
         @ it_flaky_hold_until it @ '')''))
      else if is_flaky_held_at now it
      then Some (simple_held (it_pr it) (hold_kind it)
        (''validation was '' @ hold_label it @ '' ('' @ str_join '', '' (it_flaky_nodes it) @ '': ''
         @ (if it_hold_verdict it = INFRA_BLOCKED_MARKER
            then ''the host refused every measurement of them on a run and on its rerun''
            else ''passed only after a retry'')
         @ ''); held for a ruling until '' @ it_flaky_hold_until it @ ''; '' @ flaky_ruling it))
      else if is_deferred_at now it
      then Some (simple_held (it_pr it) ''validation-refused''
        (''validation admission refused to run (''
         @ (if it_last_refusal it = [] then ''retry later'' else it_last_refusal it)
         @ ''); stays queued, retry after '' @ it_next_retry_at it @ '' (refusal ''
         @ dec_nat (it_validation_refusals it) @ '')''))
      else None)"

definition by_pr_of :: "item list \<Rightarrow> item_map" where
  "by_pr_of items = bt_collect (map (\<lambda>it. (it_pr it, it)) items)"

definition carried :: "item list \<Rightarrow> probe \<Rightarrow> item \<Rightarrow> int list" where
  "carried all_items p it =
     (case bt_get (pr_ranges p) (it_pr it) of
        None \<Rightarrow> []
      | Some commits \<Rightarrow> map it_pr (filter (\<lambda>other.
          (it_status other = Ejected \<or> it_status other = Withdrawn)
          \<and> it_pr other \<noteq> it_pr it \<and> it_head other \<in> set commits) all_items))"

definition carried_hold :: "item list \<Rightarrow> probe \<Rightarrow> item \<Rightarrow> held option" where
  "carried_hold all_items p it =
     (case carried all_items p it of
        [] \<Rightarrow> None
      | first # rest \<Rightarrow>
          Some \<lparr>he_pr = it_pr it, he_kind = ''waiting-on-dependency'',
            he_reason = ''contains the commits of #'' @ dec_int first @ '', which is ''
              @ missing_status (status_at (by_pr_of all_items) first)
              @ ''; rebase without them or resubmit #'' @ dec_int first,
            he_with = first # rest, he_paths = []\<rparr>)"

definition queued_items :: "item list \<Rightarrow> item list" where
  "queued_items all_items = filter (\<lambda>it. it_status it = Queued) all_items"

definition direct_holds ::
  "(string \<Rightarrow> string) \<Rightarrow> string \<Rightarrow> string \<Rightarrow> item list \<Rightarrow> probe \<Rightarrow> held_map" where
  "direct_holds debug now base all_items p =
     (let queued = queued_items all_items;
          held = fold (\<lambda>it. hold_opt (identity_hold debug base p it)) queued [];
          held = fold (\<lambda>it. hold_opt (deferral_hold now it)) queued held;
          held = fold (\<lambda>it. hold_opt (bt_get (pr_external p) (it_pr it))) queued held
      in fold (\<lambda>it. hold_opt (carried_hold all_items p it)) queued held)"

section \<open>Dependencies\<close>

type_synonym pred_map = "(int, int btree_set) btree_map"

definition preds_of :: "pred_map \<Rightarrow> int \<Rightarrow> int btree_set" where
  "preds_of m pr = (case bt_get m pr of Some s \<Rightarrow> s | None \<Rightarrow> [])"

definition add_pred :: "int \<Rightarrow> int \<Rightarrow> pred_map \<Rightarrow> pred_map" where
  "add_pred pr dep m = bt_insert pr (bs_insert dep (preds_of m pr)) m"

record dep_state =
  ds_held :: held_map
  ds_preds :: pred_map
  ds_deps :: "(int \<times> int) btree_set"

definition unmet_hold :: "int \<Rightarrow> int \<Rightarrow> item_status option \<Rightarrow> held" where
  "unmet_hold pr dep st =
     \<lparr>he_pr = pr, he_kind = ''waiting-on-dependency'',
      he_reason = ''depends on #'' @ dec_int dep @ '', which is '' @ missing_status st
        @ ''; submit it or drop the dependency'',
      he_with = [dep], he_paths = []\<rparr>"

definition dep_step :: "item_map \<Rightarrow> int \<times> int \<Rightarrow> dep_state \<Rightarrow> dep_state" where
  "dep_step by_pr = (\<lambda>(pr, dep) st.
     case status_at by_pr dep of
       Some Landed \<Rightarrow> st
     | Some Queued \<Rightarrow> st\<lparr>ds_preds := add_pred pr dep (ds_preds st), ds_deps := bs_insert (dep, pr) (ds_deps st)\<rparr>
     | other \<Rightarrow> st\<lparr>ds_held := hold (unmet_hold pr dep other) (ds_held st)\<rparr>)"

definition ancestry_step :: "int btree_set \<Rightarrow> int \<times> int \<Rightarrow> dep_state \<Rightarrow> dep_state" where
  "ancestry_step queued_set = (\<lambda>(before, after) st.
     if before \<in> set queued_set \<and> after \<in> set queued_set
     then st\<lparr>ds_preds := add_pred after before (ds_preds st), ds_deps := bs_insert (before, after) (ds_deps st)\<rparr>
     else st)"

definition queued_set_of :: "item list \<Rightarrow> int btree_set" where
  "queued_set_of all_items = bs_collect (map it_pr (queued_items all_items))"

definition after_pairs :: "item list \<Rightarrow> (int \<times> int) list" where
  "after_pairs all_items = concat (map (\<lambda>it. map (Pair (it_pr it)) (it_after it)) (queued_items all_items))"

definition dependency_state :: "item list \<Rightarrow> probe \<Rightarrow> held_map \<Rightarrow> dep_state" where
  "dependency_state all_items p held =
     (let qs = queued_set_of all_items;
          st = \<lparr>ds_held = held, ds_preds = bt_collect (map (\<lambda>pr. (pr, [])) qs), ds_deps = []\<rparr>;
          st = fold (dep_step (by_pr_of all_items)) (after_pairs all_items) st
      in fold (ancestry_step qs) (pr_ancestry p) st)"

section \<open>Conflict-aware selection in dependency order\<close>

type_synonym conflict_map = "(int, (int, string list) btree_map) btree_map"

definition peers_of :: "conflict_map \<Rightarrow> int \<Rightarrow> (int, string list) btree_map" where
  "peers_of m pr = (case bt_get m pr of Some peers \<Rightarrow> peers | None \<Rightarrow> [])"

definition add_peer :: "int \<Rightarrow> int \<Rightarrow> string list \<Rightarrow> conflict_map \<Rightarrow> conflict_map" where
  "add_peer a b paths m = bt_insert a (bt_insert b paths (peers_of m a)) m"

definition conflict_map_of :: "conflict list \<Rightarrow> conflict_map" where
  "conflict_map_of edges = fold (\<lambda>e m.
     add_peer (cf_b e) (cf_a e) (cf_paths e) (add_peer (cf_a e) (cf_b e) (cf_paths e) m)) edges []"

definition degree_of :: "conflict_map \<Rightarrow> held_map \<Rightarrow> int \<Rightarrow> nat" where
  "degree_of conflicts held pr =
     length (filter (\<lambda>peer. \<not> bt_has held peer) (bt_keys (peers_of conflicts pr)))"

definition push_dep :: "int \<Rightarrow> int btree_set \<times> int list \<Rightarrow> int btree_set \<times> int list" where
  "push_dep dep = (\<lambda>(front, stack).
     if dep \<in> set front then (front, stack) else (bs_insert dep front, dep # stack))"

text \<open>Everything that is a predecessor of something.\<close>

definition all_preds :: "pred_map \<Rightarrow> int set" where
  "all_preds m = (\<Union>(pr, s) \<in> set m. set s)"

lemma preds_of_all: "set (preds_of m pr) \<subseteq> all_preds m"
proof (cases "bt_get m pr")
  case (Some s)
  then have "(pr, s) \<in> set m" by (simp add: bt_get_def map_of_SomeD)
  then show ?thesis using Some by (auto simp: preds_of_def all_preds_def)
qed (simp add: preds_of_def)

lemma push_deps_measure:
  assumes "finite U" and "set deps \<subseteq> U"
  shows "card (U - set (fst (fold push_dep deps (front, stack)))) + length (snd (fold push_dep deps (front, stack)))
    \<le> card (U - set front) + length stack"
  using assms(2)
proof (induction deps arbitrary: front stack)
  case (Cons d deps)
  show ?case
  proof (cases "d \<in> set front")
    case True
    then show ?thesis using Cons by (simp add: push_dep_def)
  next
    case False
    then have "Suc (card (U - set front - {d})) = card (U - set front)"
      using Cons.prems assms(1) by (intro card_Suc_Diff1) auto
    moreover have "U - set (bs_insert d front) = U - set front - {d}" by auto
    ultimately show ?thesis using Cons.IH[of "bs_insert d front" "d # stack"] Cons.prems False
      by (simp add: push_dep_def)
  qed
qed simp

function front_loop :: "pred_map \<Rightarrow> int btree_set \<times> int list \<Rightarrow> int btree_set" where
  "front_loop preds (front, stack) =
     (case stack of
        [] \<Rightarrow> front
      | pr # stack \<Rightarrow> front_loop preds (fold push_dep (preds_of preds pr) (front, stack)))"
  by pat_completeness auto
termination
proof (relation "measure (\<lambda>(preds, front, stack). card (all_preds preds - set front) + length stack)", goal_cases)
  case (2 preds front stack pr rest)
  have "finite (all_preds preds)" by (auto simp: all_preds_def)
  from push_deps_measure[OF this preds_of_all, of pr front rest] 2 show ?case
    by (simp add: case_prod_beta)
qed simp

declare front_loop.simps [simp del]

definition front_of :: "item list \<Rightarrow> pred_map \<Rightarrow> int btree_set" where
  "front_of all_items preds =
     (let front = bs_collect (map it_pr (filter it_prioritized (queued_items all_items)))
      in front_loop preds (front, rev front))"

type_synonym plan_rank = "bool \<times> int \<times> nat \<times> string \<times> int"

definition priority_at :: "item_map \<Rightarrow> int \<Rightarrow> int" where
  "priority_at by_pr pr = (case bt_get by_pr pr of Some it \<Rightarrow> it_priority it | None \<Rightarrow> 0)"

definition submitted_at :: "item_map \<Rightarrow> int \<Rightarrow> string" where
  "submitted_at by_pr pr = (case bt_get by_pr pr of Some it \<Rightarrow> it_submitted_at it | None \<Rightarrow> [])"

definition plan_rank_of :: "item_map \<Rightarrow> int btree_set \<Rightarrow> (int \<Rightarrow> nat) \<Rightarrow> int \<Rightarrow> plan_rank" where
  "plan_rank_of by_pr front degree pr =
     (pr \<notin> set front, priority_at by_pr pr, degree pr, submitted_at by_pr pr, pr)"

definition clashes_of :: "conflict_map \<Rightarrow> int list \<Rightarrow> int \<Rightarrow> (int \<times> string list) list" where
  "clashes_of conflicts selected pr = filter (\<lambda>(peer, paths). peer \<in> set selected) (peers_of conflicts pr)"

definition blocked_hold :: "int \<Rightarrow> int list \<Rightarrow> held" where
  "blocked_hold pr blocked_by =
     \<lparr>he_pr = pr, he_kind = ''waiting-on-dependency'',
      he_reason = ''must land after '' @ pr_list blocked_by @ '', which cannot land this round'',
      he_with = blocked_by, he_paths = []\<rparr>"

definition clash_hold :: "int \<Rightarrow> (int \<times> string list) list \<Rightarrow> held" where
  "clash_hold pr clashes =
     (let peers = map fst clashes; paths = bs_collect (concat (map snd clashes))
      in \<lparr>he_pr = pr, he_kind = ''conflicts-with-queued'',
          he_reason = ''conflicts with '' @ pr_list peers @ '' on '' @ str_join '', '' paths
            @ ''; rebase after '' @ (if length peers = 1 then ''it'' else ''they'') @ '' lands and resubmit'',
          he_with = peers, he_paths = paths\<rparr>)"

definition select_one :: "pred_map \<Rightarrow> conflict_map \<Rightarrow> int \<Rightarrow> int list \<times> held_map \<Rightarrow> int list \<times> held_map" where
  "select_one preds conflicts pr = (\<lambda>(selected, held).
     if bt_has held pr then (selected, held)
     else let blocked_by = filter (\<lambda>dep. dep \<notin> set selected) (preds_of preds pr)
          in if blocked_by \<noteq> [] then (selected, hold (blocked_hold pr blocked_by) held)
             else let clashes = clashes_of conflicts selected pr
                  in if clashes = [] then (selected @ [pr], held)
                     else (selected, hold (clash_hold pr clashes) held))"

text \<open>\<open>min_by_key\<close>: the first of the elements with the least key.\<close>

definition min_by_key :: "('a \<Rightarrow> 'k::linorder) \<Rightarrow> 'a list \<Rightarrow> 'a option" where
  "min_by_key key xs = (if xs = [] then None else Some (arg_min_list key xs))"

definition next_ready :: "pred_map \<Rightarrow> (int \<Rightarrow> plan_rank) \<Rightarrow> int btree_set \<Rightarrow> int btree_set \<Rightarrow> int option" where
  "next_ready preds rnk remaining decided =
     (case min_by_key rnk (filter (\<lambda>pr. set (preds_of preds pr) \<subseteq> set decided) remaining) of
        Some pr \<Rightarrow> Some pr
      | None \<Rightarrow> min_by_key rnk remaining)"

lemma min_by_key_in: "min_by_key key xs = Some x \<Longrightarrow> x \<in> set xs"
  by (auto simp: min_by_key_def arg_min_list_in split: if_splits)

lemma next_ready_in: "next_ready preds rnk remaining decided = Some pr \<Longrightarrow> pr \<in> set remaining"
  by (auto simp: next_ready_def dest!: min_by_key_in split: option.splits)

function select_loop ::
  "pred_map \<Rightarrow> conflict_map \<Rightarrow> (int \<Rightarrow> plan_rank) \<Rightarrow> int btree_set \<Rightarrow> int btree_set \<Rightarrow>
     int list \<times> held_map \<Rightarrow> int list \<times> held_map" where
  "select_loop preds conflicts rnk remaining decided st =
     (case next_ready preds rnk remaining decided of
        None \<Rightarrow> st
      | Some pr \<Rightarrow> select_loop preds conflicts rnk (filter (\<lambda>x. x \<noteq> pr) remaining) (bs_insert pr decided)
          (select_one preds conflicts pr st))"
  by pat_completeness auto
termination
proof (relation "measure (\<lambda>(preds, conflicts, rnk, remaining, decided, st). length remaining)", goal_cases)
  case (2 preds conflicts rnk remaining decided st pr)
  then show ?case using length_filter_less[of pr remaining "\<lambda>x. x \<noteq> pr"] next_ready_in by fastforce
qed simp

declare select_loop.simps [simp del]

section \<open>Batches\<close>

record chunk_state =
  ch_batches :: "planned_batch list"
  ch_current :: "int list"
  ch_peripheral :: bool

definition close_batch :: "string \<Rightarrow> chunk_state \<Rightarrow> chunk_state" where
  "close_batch note st =
     (if ch_current st = [] then st
      else st\<lparr>ch_batches := ch_batches st @
                [\<lparr>pb_index = length (ch_batches st), pb_prs = ch_current st, pb_note = note\<rparr>],
              ch_current := []\<rparr>)"

definition alone :: "item_map \<Rightarrow> int \<Rightarrow> bool" where
  "alone by_pr pr = (case bt_get by_pr pr of
     Some it \<Rightarrow> it_solo it \<or> it_exact it \<or> it_prioritized it | None \<Rightarrow> False)"

definition alone_note :: "item_map \<Rightarrow> int \<Rightarrow> string" where
  "alone_note by_pr pr = (case bt_get by_pr pr of
     Some it \<Rightarrow> if it_exact it then ''exact'' else if it_prioritized it then ''priority'' else ''solo''
   | None \<Rightarrow> [])"

definition is_peripheral :: "probe \<Rightarrow> int \<Rightarrow> bool" where
  "is_peripheral p pr = (case bt_get (pr_peripheral p) pr of Some mark \<Rightarrow> pm_peripheral mark | None \<Rightarrow> False)"

definition chunk_step :: "item_map \<Rightarrow> probe \<Rightarrow> nat \<Rightarrow> nat \<Rightarrow> int \<Rightarrow> chunk_state \<Rightarrow> chunk_state" where
  "chunk_step by_pr p max_batch peripheral_limit pr st =
     (if alone by_pr pr
      then close_batch (alone_note by_pr pr) ((close_batch [] st)\<lparr>ch_current := [pr]\<rparr>)
      else
        let peripheral = is_peripheral p pr;
            st = (if ch_current st \<noteq> [] \<and> peripheral \<noteq> ch_peripheral st
                  then close_batch (if ch_peripheral st then ''peripheral'' else []) st else st);
            st = (if ch_current st = [] then st\<lparr>ch_peripheral := peripheral\<rparr> else st);
            st = st\<lparr>ch_current := ch_current st @ [pr]\<rparr>;
            limit = (if peripheral then peripheral_limit else max_batch)
        in if limit \<le> length (ch_current st)
           then close_batch (if peripheral then ''peripheral'' else ''max-batch'') st
           else st)"

definition chunk_batches :: "item_map \<Rightarrow> probe \<Rightarrow> nat \<Rightarrow> nat \<Rightarrow> int list \<Rightarrow> planned_batch list" where
  "chunk_batches by_pr p max_batch peripheral_limit selected =
     ch_batches (close_batch [] (fold (chunk_step by_pr p max_batch peripheral_limit) selected
       \<lparr>ch_batches = [], ch_current = [], ch_peripheral = False\<rparr>))"

section \<open>The plan\<close>

definition planned_item_of :: "probe \<Rightarrow> (int \<Rightarrow> nat) \<Rightarrow> item \<Rightarrow> planned_item" where
  "planned_item_of p degree it =
     \<lparr>pi_pr = it_pr it,
      pi_head = (case current_head p (it_pr it) of Some h \<Rightarrow> h | None \<Rightarrow> []),
      pi_priority = it_priority it,
      pi_submitted_at = it_submitted_at it,
      pi_files = (case bt_get (pr_files p) (it_pr it) of Some fs \<Rightarrow> length fs | None \<Rightarrow> 0),
      pi_conflict_degree = degree (it_pr it),
      pi_prioritized = it_prioritized it,
      pi_peripheral = is_peripheral p (it_pr it),
      pi_peripheral_source = (case bt_get (pr_peripheral p) (it_pr it) of
          Some mark \<Rightarrow> if pm_cached mark then ''cache'' else ''hook'' | None \<Rightarrow> [])\<rparr>"

definition suggest_priority :: "plan_options \<Rightarrow> probe \<Rightarrow> item list \<Rightarrow> int list" where
  "suggest_priority options p queued =
     map it_pr (filter (\<lambda>it. \<not> it_prioritized it \<and>
       (case bt_get (pr_files p) (it_pr it) of
          Some fs \<Rightarrow> only_ci_paths (po_priority options) fs | None \<Rightarrow> False)) queued)"

definition make_plan ::
  "(string \<Rightarrow> string) \<Rightarrow> string \<Rightarrow> string \<Rightarrow> item list \<Rightarrow> string \<Rightarrow> string \<Rightarrow> probe \<Rightarrow> plan_options \<Rightarrow> queue_plan" where
  "make_plan debug now created_at all_items base base_sha p options =
     (let max_batch = max (po_max_batch options) 1;
          by_pr = by_pr_of all_items;
          queued = queued_items all_items;
          ds = dependency_state all_items p (direct_holds debug now base all_items p);
          conflicts = conflict_map_of (pr_conflicts p);
          degree = degree_of conflicts (ds_held ds);
          front = front_of all_items (ds_preds ds);
          (selected, held) = select_loop (ds_preds ds) conflicts (plan_rank_of by_pr front degree)
            (queued_set_of all_items) [] ([], ds_held ds)
      in \<lparr>pl_schema = PLAN_SCHEMA,
          pl_created_at = created_at,
          pl_base = base,
          pl_base_sha = base_sha,
          pl_items = map (planned_item_of p degree) queued,
          pl_batches = chunk_batches by_pr p max_batch (max (po_peripheral_max_batch options) max_batch) selected,
          pl_held = map snd held,
          pl_conflicts = pr_conflicts p,
          pl_dependencies = ds_deps ds,
          pl_suggest_priority = suggest_priority options p queued,
          pl_prior_conflicts = pr_prior p\<rparr>)"

end
