(* ===== verification/Queue_Plan_Spec.thy ===== *)
theory Queue_Plan_Spec
  imports Queue_Plan
begin

text \<open>
  What a plan of the merge queue promises. The specification is stated over the inputs: which changes
  are ready (\<open>item_ready\<close>), what must land before what (\<open>plan_deps\<close>), and which pairs conflict
  (\<open>plan_conflicts\<close>); \<open>landing\<close> is the order in which the batches of a plan land.
\<close>

definition landing :: "queue_plan \<Rightarrow> int list" where
  "landing plan = concat (map pb_prs (pl_batches plan))"

definition item_ready :: "string \<Rightarrow> item list \<Rightarrow> probe \<Rightarrow> item \<Rightarrow> bool" where
  "item_ready now all_items p it \<longleftrightarrow>
     current_head p (it_pr it) = Some (it_head it)
     \<and> bt_get (pr_base_conflicts p) (it_pr it) \<in> {None, Some []}
     \<and> it_escalated it = [] \<and> \<not> is_flaky_held_at now it \<and> \<not> is_deferred_at now it
     \<and> bt_get (pr_external p) (it_pr it) = None
     \<and> carried all_items p it = []
     \<and> (\<forall>dep \<in> set (it_after it). status_at (by_pr_of all_items) dep \<in> {Some Landed, Some Queued})"

definition change_ready :: "string \<Rightarrow> item list \<Rightarrow> probe \<Rightarrow> int \<Rightarrow> bool" where
  "change_ready now all_items p pr \<longleftrightarrow> pr \<in> set (queued_set_of all_items)
     \<and> (\<forall>it \<in> set (queued_items all_items). it_pr it = pr \<longrightarrow> item_ready now all_items p it)"

definition plan_deps :: "item list \<Rightarrow> probe \<Rightarrow> (int \<times> int) set" where
  "plan_deps all_items p =
     {(dep, pr). (pr, dep) \<in> set (after_pairs all_items) \<and> status_at (by_pr_of all_items) dep = Some Queued}
     \<union> {(before, after). (before, after) \<in> set (pr_ancestry p)
          \<and> before \<in> set (queued_set_of all_items) \<and> after \<in> set (queued_set_of all_items)}"

definition plan_conflicts :: "probe \<Rightarrow> (int \<times> int) set" where
  "plan_conflicts p = (\<Union>e \<in> set (pr_conflicts p). {(cf_a e, cf_b e), (cf_b e, cf_a e)})"

text \<open>A hold decided outside the repository is filed under the change it holds.\<close>

definition external_ok :: "probe \<Rightarrow> bool" where
  "external_ok p \<longleftrightarrow> list_all (\<lambda>(pr, h). he_pr h = pr) (pr_external p)"

section \<open>The holds before selection\<close>

lemma bt_has_hold: "bt_ok m \<Longrightarrow> bt_has (hold h m) k \<longleftrightarrow> k = he_pr h \<or> bt_has m k"
  by (auto simp: hold_def bt_has_def bt_get_or_insert)

lemma bt_ok_hold [bt_invar]: "bt_ok m \<Longrightarrow> bt_ok (hold h m)"
  by (simp add: hold_def bt_ok_or_insert)

lemma bt_ok_hold_opt [bt_invar]: "bt_ok m \<Longrightarrow> bt_ok (hold_opt h m)"
  by (auto simp: hold_opt_def bt_ok_hold split: option.splits)

lemma hold_fold:
  assumes "bt_ok m"
  shows "bt_ok (fold (\<lambda>x. hold_opt (f x)) xs m)"
    and "bt_has (fold (\<lambda>x. hold_opt (f x)) xs m) k \<longleftrightarrow>
      bt_has m k \<or> (\<exists>x \<in> set xs. \<exists>h. f x = Some h \<and> he_pr h = k)"
proof -
  have "bt_ok (fold (\<lambda>x. hold_opt (f x)) xs m) \<and> (bt_has (fold (\<lambda>x. hold_opt (f x)) xs m) k \<longleftrightarrow>
      bt_has m k \<or> (\<exists>x \<in> set xs. \<exists>h. f x = Some h \<and> he_pr h = k))"
    using assms
  proof (induction xs arbitrary: m)
    case (Cons x xs)
    then have "bt_ok (hold_opt (f x) m)" by (simp add: bt_ok_hold_opt)
    from Cons.IH[OF this] show ?case using Cons.prems
      by (cases "f x") (auto simp: hold_opt_def bt_has_hold)
  qed simp
  then show "bt_ok (fold (\<lambda>x. hold_opt (f x)) xs m)"
    and "bt_has (fold (\<lambda>x. hold_opt (f x)) xs m) k \<longleftrightarrow>
      bt_has m k \<or> (\<exists>x \<in> set xs. \<exists>h. f x = Some h \<and> he_pr h = k)" by auto
qed

lemma identity_hold_pr: "identity_hold debug base p it = Some h \<Longrightarrow> he_pr h = it_pr it"
  by (auto simp: identity_hold_def simple_held_def split: option.splits if_splits)

lemma identity_hold_None:
  "identity_hold debug base p it = None \<longleftrightarrow> current_head p (it_pr it) = Some (it_head it)
     \<and> bt_get (pr_base_conflicts p) (it_pr it) \<in> {None, Some []}"
  by (auto simp: identity_hold_def split: option.splits)

lemma deferral_hold_pr: "deferral_hold now it = Some h \<Longrightarrow> he_pr h = it_pr it"
  by (auto simp: deferral_hold_def simple_held_def split: if_splits)

lemma deferral_hold_None:
  "deferral_hold now it = None \<longleftrightarrow>
     it_escalated it = [] \<and> \<not> is_flaky_held_at now it \<and> \<not> is_deferred_at now it"
  by (auto simp: deferral_hold_def)

lemma carried_hold_pr: "carried_hold all_items p it = Some h \<Longrightarrow> he_pr h = it_pr it"
  by (auto simp: carried_hold_def split: list.splits)

lemma carried_hold_None: "carried_hold all_items p it = None \<longleftrightarrow> carried all_items p it = []"
  by (simp add: carried_hold_def split: list.splits)

lemma external_hold_pr: "external_ok p \<Longrightarrow> bt_get (pr_external p) k = Some h \<Longrightarrow> he_pr h = k"
  by (auto simp: external_ok_def list_all_iff bt_get_def dest: map_of_SomeD)

definition held_alone :: "(string \<Rightarrow> string) \<Rightarrow> string \<Rightarrow> string \<Rightarrow> item list \<Rightarrow> probe \<Rightarrow> item \<Rightarrow> bool" where
  "held_alone debug now base all_items p it \<longleftrightarrow>
     identity_hold debug base p it \<noteq> None \<or> deferral_hold now it \<noteq> None
     \<or> bt_get (pr_external p) (it_pr it) \<noteq> None \<or> carried_hold all_items p it \<noteq> None"

lemma hold_fold_own:
  assumes "bt_ok m" and "\<And>it h. f it = Some h \<Longrightarrow> he_pr h = it_pr it"
  shows "bt_has (fold (\<lambda>it. hold_opt (f it)) its m) k \<longleftrightarrow>
    bt_has m k \<or> (\<exists>it \<in> set its. it_pr it = k \<and> f it \<noteq> None)"
  unfolding hold_fold(2)[OF assms(1)] using assms(2) by fastforce

lemma direct_holds_iff:
  assumes "external_ok p"
  shows "bt_has (direct_holds debug now base all_items p) k \<longleftrightarrow>
    (\<exists>it \<in> set (queued_items all_items). it_pr it = k \<and> held_alone debug now base all_items p it)"
proof -
  have ext: "\<And>it h. bt_get (pr_external p) (it_pr it) = Some h \<Longrightarrow> he_pr h = it_pr it"
    using external_hold_pr[OF assms] by blast
  show ?thesis
    unfolding direct_holds_def Let_def held_alone_def
    by (simp add: hold_fold(1) hold_fold_own[OF _ carried_hold_pr] hold_fold_own[OF _ ext]
        hold_fold_own[OF _ deferral_hold_pr] hold_fold_own[OF _ identity_hold_pr])
      (auto simp: bt_has_def)
qed

lemma bt_ok_direct_holds: "bt_ok (direct_holds debug now base all_items p)"
  unfolding direct_holds_def Let_def by (simp add: hold_fold(1))

section \<open>Dependencies\<close>

definition dep_inv :: "held_map \<Rightarrow> (int \<times> int) set \<Rightarrow> (int \<times> int) set \<Rightarrow> dep_state \<Rightarrow> bool" where
  "dep_inv held unmet deps st \<longleftrightarrow>
     bt_ok (ds_held st) \<and> bt_ok (ds_preds st)
     \<and> (\<forall>k. bt_has (ds_held st) k \<longleftrightarrow> bt_has held k \<or> (\<exists>dep. (k, dep) \<in> unmet))
     \<and> (\<forall>pr dep. dep \<in> set (preds_of (ds_preds st) pr) \<longleftrightarrow> (dep, pr) \<in> deps)
     \<and> bs_ok (ds_deps st) \<and> set (ds_deps st) = deps"

lemma preds_of_add:
  "bt_ok m \<Longrightarrow> set (preds_of (add_pred pr dep m) k) =
     (if k = pr then insert dep (set (preds_of m pr)) else set (preds_of m k))"
  by (auto simp: preds_of_def add_pred_def bt_get_insert)

lemma bt_ok_add_pred [bt_invar]: "bt_ok m \<Longrightarrow> bt_ok (add_pred pr dep m)"
  by (simp add: add_pred_def bt_ok_insert)

lemma dep_inv_add:
  "dep_inv held unmet deps st \<Longrightarrow>
     dep_inv held unmet (insert (dep, pr) deps)
       (st\<lparr>ds_preds := add_pred pr dep (ds_preds st), ds_deps := bs_insert (dep, pr) (ds_deps st)\<rparr>)"
  by (auto simp: dep_inv_def preds_of_add bt_ok_add_pred bs_ok_insert split: if_splits)

lemma dep_inv_unmet:
  "dep_inv held unmet deps st \<Longrightarrow>
     dep_inv held (insert (pr, dep) unmet) deps (st\<lparr>ds_held := hold (unmet_hold pr dep s) (ds_held st)\<rparr>)"
  by (auto simp: dep_inv_def bt_has_hold bt_ok_hold unmet_hold_def)

definition is_unmet :: "item_map \<Rightarrow> int \<Rightarrow> bool" where
  "is_unmet by_pr dep \<longleftrightarrow> status_at by_pr dep \<notin> {Some Landed, Some Queued}"

lemma dep_steps_inv:
  assumes "dep_inv held unmet deps st"
  shows "dep_inv held (unmet \<union> {(pr, dep). (pr, dep) \<in> set pairs \<and> is_unmet by_pr dep})
    (deps \<union> {(dep, pr). (pr, dep) \<in> set pairs \<and> status_at by_pr dep = Some Queued})
    (fold (dep_step by_pr) pairs st)"
  using assms
proof (induction pairs arbitrary: st unmet deps)
  case (Cons pd pairs)
  obtain pr dep where pd: "pd = (pr, dep)" by (cases pd)
  consider (landed) "status_at by_pr dep = Some Landed" | (queued) "status_at by_pr dep = Some Queued"
    | (other) "is_unmet by_pr dep" by (auto simp: is_unmet_def)
  then show ?case
  proof cases
    case landed
    have eq: "{(p, d). (p, d) \<in> set (pd # pairs) \<and> is_unmet by_pr d} = {(p, d). (p, d) \<in> set pairs \<and> is_unmet by_pr d}"
      "{(d, p). (p, d) \<in> set (pd # pairs) \<and> status_at by_pr d = Some Queued} = {(d, p). (p, d) \<in> set pairs \<and> status_at by_pr d = Some Queued}"
      using landed by (auto simp: pd is_unmet_def)
    show ?thesis unfolding eq using Cons landed by (simp add: pd dep_step_def)
  next
    case queued
    have eq: "{(p, d). (p, d) \<in> set (pd # pairs) \<and> is_unmet by_pr d} = {(p, d). (p, d) \<in> set pairs \<and> is_unmet by_pr d}"
      "deps \<union> {(d, p). (p, d) \<in> set (pd # pairs) \<and> status_at by_pr d = Some Queued}
        = insert (dep, pr) deps \<union> {(d, p). (p, d) \<in> set pairs \<and> status_at by_pr d = Some Queued}"
      using queued by (auto simp: pd is_unmet_def)
    show ?thesis unfolding eq using Cons.IH[OF dep_inv_add[OF Cons.prems, of dep pr]] queued
      by (simp add: pd dep_step_def)
  next
    case other
    have eq: "unmet \<union> {(p, d). (p, d) \<in> set (pd # pairs) \<and> is_unmet by_pr d}
        = insert (pr, dep) unmet \<union> {(p, d). (p, d) \<in> set pairs \<and> is_unmet by_pr d}"
      "{(d, p). (p, d) \<in> set (pd # pairs) \<and> status_at by_pr d = Some Queued} = {(d, p). (p, d) \<in> set pairs \<and> status_at by_pr d = Some Queued}"
      using other by (auto simp: pd is_unmet_def)
    have "dep_step by_pr pd st = st\<lparr>ds_held := hold (unmet_hold pr dep (status_at by_pr dep)) (ds_held st)\<rparr>"
      using other by (auto simp: pd dep_step_def is_unmet_def split: option.splits item_status.splits)
    then show ?thesis unfolding eq using Cons.IH[OF dep_inv_unmet[OF Cons.prems, of pr dep "status_at by_pr dep"]]
      by simp
  qed
qed simp

lemma ancestry_steps_inv:
  assumes "dep_inv held unmet deps st"
  shows "dep_inv held unmet
    (deps \<union> {(b, a). (b, a) \<in> set pairs \<and> b \<in> set qs \<and> a \<in> set qs}) (fold (ancestry_step qs) pairs st)"
  using assms
proof (induction pairs arbitrary: st deps)
  case (Cons ba pairs)
  obtain b a where ba: "ba = (b, a)" by (cases ba)
  show ?case
  proof (cases "b \<in> set qs \<and> a \<in> set qs")
    case True
    then have eq: "deps \<union> {(b, a). (b, a) \<in> set (ba # pairs) \<and> b \<in> set qs \<and> a \<in> set qs}
        = insert (b, a) deps \<union> {(b, a). (b, a) \<in> set pairs \<and> b \<in> set qs \<and> a \<in> set qs}" by (auto simp: ba)
    show ?thesis unfolding eq using Cons.IH[OF dep_inv_add[OF Cons.prems, of b a]] True
      by (simp add: ba ancestry_step_def)
  next
    case False
    then have eq: "{(b, a). (b, a) \<in> set (ba # pairs) \<and> b \<in> set qs \<and> a \<in> set qs}
        = {(b, a). (b, a) \<in> set pairs \<and> b \<in> set qs \<and> a \<in> set qs}" by (auto simp: ba)
    have "ancestry_step qs ba st = st" using False by (auto simp: ba ancestry_step_def)
    then show ?thesis unfolding eq using Cons.IH[OF Cons.prems] by simp
  qed
qed simp

lemma dependency_state_inv:
  assumes "bt_ok held"
  shows "dep_inv held {(pr, dep). (pr, dep) \<in> set (after_pairs all_items) \<and> is_unmet (by_pr_of all_items) dep}
    (plan_deps all_items p) (dependency_state all_items p held)"
proof -
  let ?qs = "queued_set_of all_items"
  have "preds_of (bt_collect (map (\<lambda>pr. (pr, [])) ?qs)) k = []" for k
    by (auto simp: preds_of_def bt_get_collect split: option.splits dest!: map_of_SomeD)
  then have "dep_inv held {} {} \<lparr>ds_held = held, ds_preds = bt_collect (map (\<lambda>pr. (pr, [])) ?qs), ds_deps = []\<rparr>"
    using assms by (simp add: dep_inv_def)
  from dep_steps_inv[OF this, of "after_pairs all_items" "by_pr_of all_items"]
  have "dep_inv held {(pr, dep). (pr, dep) \<in> set (after_pairs all_items) \<and> is_unmet (by_pr_of all_items) dep}
      {(dep, pr). (pr, dep) \<in> set (after_pairs all_items) \<and> status_at (by_pr_of all_items) dep = Some Queued}
      (fold (dep_step (by_pr_of all_items)) (after_pairs all_items)
        \<lparr>ds_held = held, ds_preds = bt_collect (map (\<lambda>pr. (pr, [])) ?qs), ds_deps = []\<rparr>)" by simp
  from ancestry_steps_inv[OF this, of "pr_ancestry p" ?qs]
  show ?thesis by (simp add: dependency_state_def Let_def plan_deps_def)
qed

lemma after_pairs_iff:
  "(pr, dep) \<in> set (after_pairs all_items) \<longleftrightarrow>
     (\<exists>it \<in> set (queued_items all_items). it_pr it = pr \<and> dep \<in> set (it_after it))"
  by (auto simp: after_pairs_def)

lemma plan_held_iff:
  assumes "external_ok p" and "pr \<in> set (queued_set_of all_items)"
  shows "bt_has (ds_held (dependency_state all_items p (direct_holds debug now base all_items p))) pr
    \<longleftrightarrow> \<not> change_ready now all_items p pr"
proof -
  have "item_ready now all_items p it \<longleftrightarrow> \<not> held_alone debug now base all_items p it
      \<and> (\<forall>dep \<in> set (it_after it). \<not> is_unmet (by_pr_of all_items) dep)" for it
    by (auto simp: item_ready_def held_alone_def identity_hold_None[of debug base] deferral_hold_None
        carried_hold_None is_unmet_def simp del: not_None_eq)
  then show ?thesis
    using dependency_state_inv[OF bt_ok_direct_holds, of debug now base all_items p all_items p] assms
    by (auto simp: dep_inv_def direct_holds_iff change_ready_def after_pairs_iff)
qed

section \<open>Conflicts\<close>

definition peer_inv :: "(int \<times> int) set \<Rightarrow> conflict_map \<Rightarrow> bool" where
  "peer_inv E m \<longleftrightarrow> bt_ok m \<and> (\<forall>x. bt_ok (peers_of m x))
     \<and> (\<forall>x y. y \<in> set (bt_keys (peers_of m x)) \<longleftrightarrow> (x, y) \<in> E)"

lemma peer_inv_add:
  assumes "peer_inv E m"
  shows "peer_inv (insert (a, b) E) (add_peer a b paths m)"
proof -
  have "peers_of (add_peer a b paths m) x = (if x = a then bt_insert b paths (peers_of m a) else peers_of m x)" for x
    using assms by (simp add: peers_of_def add_peer_def peer_inv_def bt_get_insert)
  then show ?thesis using assms bt_insert_keys[of b paths "peers_of m a"]
    by (auto simp: peer_inv_def add_peer_def bt_ok_insert bt_keys_def)
qed

lemma conflict_map_inv: "peer_inv (plan_conflicts p) (conflict_map_of (pr_conflicts p))"
proof -
  have "peer_inv (E \<union> (\<Union>e \<in> set es. {(cf_a e, cf_b e), (cf_b e, cf_a e)}))
      (fold (\<lambda>e m. add_peer (cf_b e) (cf_a e) (cf_paths e) (add_peer (cf_a e) (cf_b e) (cf_paths e) m)) es m)"
    if "peer_inv E m" for E m es using that
  proof (induction es arbitrary: E m)
    case (Cons e es)
    have eq: "E \<union> (\<Union>e \<in> set (e # es). {(cf_a e, cf_b e), (cf_b e, cf_a e)})
        = insert (cf_b e, cf_a e) (insert (cf_a e, cf_b e) E) \<union> (\<Union>e \<in> set es. {(cf_a e, cf_b e), (cf_b e, cf_a e)})"
      by auto
    show ?case unfolding eq
      using Cons.IH[OF peer_inv_add[OF peer_inv_add[OF Cons.prems]]] by simp
  qed simp
  moreover have "peer_inv {} []" by (simp add: peer_inv_def peers_of_def bt_keys_def)
  ultimately have "peer_inv ({} \<union> (\<Union>e \<in> set (pr_conflicts p). {(cf_a e, cf_b e), (cf_b e, cf_a e)}))
      (conflict_map_of (pr_conflicts p))" unfolding conflict_map_of_def by blast
  then show ?thesis by (simp add: plan_conflicts_def)
qed

lemma plan_conflicts_sym: "(x, y) \<in> plan_conflicts p \<longleftrightarrow> (y, x) \<in> plan_conflicts p"
  by (auto simp: plan_conflicts_def)

section \<open>Selection\<close>

text \<open>
  The invariant of the selection loop, over the predecessors \<open>D\<close> and the conflicts \<open>E\<close>: the selected
  changes are distinct, unheld and decided, each comes after all its predecessors, and no two of
  them conflict.
\<close>

definition select_inv :: "pred_map \<Rightarrow> (int \<times> int) set \<Rightarrow> int btree_set \<Rightarrow> int btree_set \<Rightarrow> int list \<Rightarrow> held_map \<Rightarrow> bool" where
  "select_inv preds E remaining decided selected held \<longleftrightarrow>
     bt_ok held \<and> distinct selected \<and> set selected \<subseteq> set decided \<and> set decided \<inter> set remaining = {}
     \<and> (\<forall>x \<in> set decided. x \<in> set selected \<longleftrightarrow> \<not> bt_has held x)
     \<and> (\<forall>i < length selected. set (preds_of preds (selected ! i)) \<subseteq> set (take i selected))
     \<and> (\<forall>x \<in> set selected. \<forall>y \<in> set selected. x \<noteq> y \<longrightarrow> (x, y) \<notin> E)"

text \<open>The three things that can happen to the change that is looked at.\<close>

lemma select_one_cases:
  assumes "peer_inv E conflicts"
  obtains (held) "bt_has held pr" "select_one preds conflicts pr (selected, held) = (selected, held)"
  | (blocked) h where "\<not> bt_has held pr" "\<not> set (preds_of preds pr) \<subseteq> set selected" "he_pr h = pr"
      "select_one preds conflicts pr (selected, held) = (selected, hold h held)"
  | (clash) h y where "\<not> bt_has held pr" "y \<in> set selected" "(pr, y) \<in> E" "he_pr h = pr"
      "select_one preds conflicts pr (selected, held) = (selected, hold h held)"
  | (select) "\<not> bt_has held pr" "set (preds_of preds pr) \<subseteq> set selected" "\<forall>y \<in> set selected. (pr, y) \<notin> E"
      "select_one preds conflicts pr (selected, held) = (selected @ [pr], held)"
proof -
  have clash_iff: "clashes_of conflicts selected pr = [] \<longleftrightarrow> (\<forall>y \<in> set selected. (pr, y) \<notin> E)"
    using assms by (auto simp: clashes_of_def filter_empty_conv peer_inv_def bt_keys_def) force+
  have blocked_iff: "filter (\<lambda>dep. dep \<notin> set selected) (preds_of preds pr) = []
      \<longleftrightarrow> set (preds_of preds pr) \<subseteq> set selected"
    by (auto simp: filter_empty_conv)
  show thesis
  proof (cases "bt_has held pr")
    case True
    then show thesis using held by (simp add: select_one_def)
  next
    case unheld: False
    show thesis
    proof (cases "set (preds_of preds pr) \<subseteq> set selected")
      case False
      then show thesis using unheld blocked_iff blocked[of "blocked_hold pr (filter (\<lambda>dep. dep \<notin> set selected) (preds_of preds pr))"]
        by (simp add: select_one_def Let_def blocked_hold_def)
    next
      case True
      show thesis
      proof (cases "clashes_of conflicts selected pr = []")
        case True
        then show thesis using unheld \<open>set (preds_of preds pr) \<subseteq> set selected\<close> blocked_iff clash_iff select
          by (simp add: select_one_def Let_def)
      next
        case False
        then obtain y where "y \<in> set selected" "(pr, y) \<in> E" using clash_iff by auto
        then show thesis using unheld True False blocked_iff clash[of y "clash_hold pr (clashes_of conflicts selected pr)"]
          by (simp add: select_one_def Let_def clash_hold_def)
      qed
    qed
  qed
qed

lemma select_one_inv:
  assumes inv: "select_inv preds E remaining decided selected held"
    and E: "peer_inv E conflicts" "sym E" and pr: "pr \<in> set remaining"
    and one: "select_one preds conflicts pr (selected, held) = (selected', held')"
  shows "select_inv preds E (filter (\<lambda>x. x \<noteq> pr) remaining) (bs_insert pr decided) selected' held'
    \<and> prefix selected selected' \<and> (\<forall>x. x \<noteq> pr \<longrightarrow> bt_has held' x = bt_has held x)"
proof -
  have pr': "pr \<notin> set decided" "pr \<notin> set selected" using inv pr by (auto simp: select_inv_def)
  have ok: "bt_ok held" using inv by (simp add: select_inv_def)
  from E(1) show ?thesis
  proof (cases rule: select_one_cases[of E conflicts held pr preds selected])
    case held
    then show ?thesis using inv one pr' unfolding select_inv_def by auto
  next
    case (blocked h)
    then show ?thesis using inv one pr' ok unfolding select_inv_def by (auto simp: bt_has_hold bt_ok_hold)
  next
    case (clash h y)
    then show ?thesis using inv one pr' ok unfolding select_inv_def by (auto simp: bt_has_hold bt_ok_hold)
  next
    case select
    have "set (preds_of preds ((selected @ [pr]) ! i)) \<subseteq> set (take i (selected @ [pr]))"
      if "i < length (selected @ [pr])" for i
      using that inv select(2) by (cases "i < length selected") (auto simp: select_inv_def nth_append less_Suc_eq)
    then have ord: "\<forall>i < length (selected @ [pr]). set (preds_of preds ((selected @ [pr]) ! i))
        \<subseteq> set (take i (selected @ [pr]))" by blast
    have "(x, y) \<notin> E" if "x \<in> set (selected @ [pr])" "y \<in> set (selected @ [pr])" "x \<noteq> y" for x y
      using that inv select(3) E(2) by (auto simp: select_inv_def dest: symD)
    then have ind: "\<forall>x \<in> set (selected @ [pr]). \<forall>y \<in> set (selected @ [pr]). x \<noteq> y \<longrightarrow> (x, y) \<notin> E" by blast
    have rest: "distinct (selected @ [pr])" "set (selected @ [pr]) \<subseteq> set (bs_insert pr decided)"
      "set (bs_insert pr decided) \<inter> set (filter (\<lambda>x. x \<noteq> pr) remaining) = {}"
      "\<forall>x \<in> set (bs_insert pr decided). x \<in> set (selected @ [pr]) \<longleftrightarrow> \<not> bt_has held x"
      using inv pr' select(1) by (auto simp: select_inv_def)
    have "select_inv preds E (filter (\<lambda>x. x \<noteq> pr) remaining) (bs_insert pr decided) (selected @ [pr]) held"
      unfolding select_inv_def by (intro conjI ok rest ord ind)
    then show ?thesis using one select(4) by auto
  qed
qed

lemma next_ready_None: "next_ready preds rnk remaining decided = None \<longleftrightarrow> remaining = []"
  by (auto simp: next_ready_def min_by_key_def split: option.splits if_splits)

text \<open>As long as some remaining change has all its predecessors decided, the next one is the least such.\<close>

lemma next_ready_least:
  assumes "next_ready preds rnk remaining decided = Some pr"
    and "r \<in> set remaining" "set (preds_of preds r) \<subseteq> set decided"
  shows "set (preds_of preds pr) \<subseteq> set decided \<and> rnk pr \<le> rnk r"
proof -
  let ?rs = "filter (\<lambda>pr. set (preds_of preds pr) \<subseteq> set decided) remaining"
  have ne: "?rs \<noteq> []" using assms(2,3) by (auto simp: filter_empty_conv)
  then have pr: "pr = arg_min_list rnk ?rs" using assms(1) by (simp add: next_ready_def min_by_key_def)
  have "pr \<in> set ?rs" unfolding pr using ne by (rule arg_min_list_in)
  moreover have "rnk pr = Min (rnk ` set ?rs)" unfolding pr using ne by (rule f_arg_min_list_f)
  moreover have "rnk r \<in> rnk ` set ?rs" using assms(2,3) by auto
  ultimately show ?thesis by simp
qed

lemma select_loop_step:
  "next_ready preds rnk remaining decided = Some pr \<Longrightarrow>
     select_loop preds conflicts rnk remaining decided st =
       select_loop preds conflicts rnk (filter (\<lambda>x. x \<noteq> pr) remaining) (bs_insert pr decided)
         (select_one preds conflicts pr st)"
  by (subst select_loop.simps) simp

lemma select_loop_done: "select_loop preds conflicts rnk [] decided st = st"
  by (subst select_loop.simps) (simp add: next_ready_def min_by_key_def)

text \<open>Induction over the selection loop: the change looked at, and the rest.\<close>

lemma select_loop_induct [case_names stop step]:
  assumes "\<And>decided st. P [] decided st"
    and "\<And>remaining decided st pr. pr \<in> set remaining \<Longrightarrow> next_ready preds rnk remaining decided = Some pr \<Longrightarrow>
      P (filter (\<lambda>x. x \<noteq> pr) remaining) (bs_insert pr decided) (select_one preds conflicts pr st) \<Longrightarrow>
      P remaining decided st"
  shows "P remaining decided st"
proof (induction "length remaining" arbitrary: remaining decided st rule: less_induct)
  case less
  show ?case
  proof (cases "next_ready preds rnk remaining decided")
    case None
    then show ?thesis using assms(1) by (simp add: next_ready_None)
  next
    case (Some pr)
    then have pr: "pr \<in> set remaining" by (rule next_ready_in)
    then have "length (filter (\<lambda>x. x \<noteq> pr) remaining) < length remaining"
      using length_filter_less[of pr remaining "\<lambda>x. x \<noteq> pr"] by simp
    then show ?thesis using assms(2)[OF pr Some] less by blast
  qed
qed

lemma select_loop_inv:
  assumes "peer_inv E conflicts" "sym E"
    and "select_inv preds E remaining decided (fst st) (snd st)"
    and "select_loop preds conflicts rnk remaining decided st = (selected', held')"
  shows "\<exists>decided'. select_inv preds E [] decided' selected' held' \<and> set decided' = set decided \<union> set remaining
    \<and> prefix (fst st) selected' \<and> (\<forall>x. x \<notin> set remaining \<longrightarrow> bt_has held' x = bt_has (snd st) x)"
  using assms(3,4)
proof (induction remaining decided st rule: select_loop_induct[of _ preds rnk conflicts])
  case (stop decided st)
  then show ?case by (auto simp: select_loop_done)
next
  case (step remaining decided st pr)
  obtain s h where st: "st = (s, h)" by (cases st)
  obtain s1 h1 where one: "select_one preds conflicts pr (s, h) = (s1, h1)" by fastforce
  from select_one_inv[OF _ assms(1,2) step(1) one, of decided] step(4)
  have 1: "select_inv preds E (filter (\<lambda>x. x \<noteq> pr) remaining) (bs_insert pr decided) s1 h1"
    "prefix s s1" "\<forall>x. x \<noteq> pr \<longrightarrow> bt_has h1 x = bt_has h x" by (auto simp: st)
  from step(3) 1(1) step(5) obtain d where d: "select_inv preds E [] d selected' held'"
    "set d = set (bs_insert pr decided) \<union> set (filter (\<lambda>x. x \<noteq> pr) remaining)" "prefix s1 selected'"
    "\<forall>x. x \<notin> set (filter (\<lambda>x. x \<noteq> pr) remaining) \<longrightarrow> bt_has held' x = bt_has h1 x"
    by (auto simp: st one select_loop_step[OF step(2)])
  have "set d = set decided \<union> set remaining" using d(2) step(1) by auto
  moreover have "bt_has held' x = bt_has h x" if "x \<notin> set remaining" for x
    using that d(4) 1(3) step(1) by auto
  ultimately show ?case using d(1,3) 1(2) st by (auto intro: prefix_order.trans)
qed

text \<open>When every remaining change waits on one that is not selected, nothing more is selected.\<close>

lemma select_loop_stuck:
  assumes "peer_inv E conflicts"
    and "\<forall>x \<in> set remaining. \<not> set (preds_of preds x) \<subseteq> set (fst st)"
  shows "fst (select_loop preds conflicts rnk remaining decided st) = fst st"
  using assms(2)
proof (induction remaining decided st rule: select_loop_induct[of _ preds rnk conflicts])
  case (stop decided st)
  then show ?case by (simp add: select_loop_done)
next
  case (step remaining decided st pr)
  obtain s h where st: "st = (s, h)" by (cases st)
  have "\<not> set (preds_of preds pr) \<subseteq> set s" using step(1,4) by (simp add: st)
  with assms(1) have "fst (select_one preds conflicts pr st) = s"
    by (cases rule: select_one_cases[of E conflicts h pr preds s]) (simp_all add: st)
  then show ?case using step(3,4) by (simp add: select_loop_step[OF step(2)] st)
qed

text \<open>
  A change that is not selected although it was not held before has a cause that still holds at the
  end: a predecessor that is not selected, or a conflict with a selected change.
\<close>

lemma select_loop_cause:
  assumes E: "peer_inv E conflicts" "sym E"
    and "select_inv preds E remaining decided (fst st) (snd st)"
    and "select_loop preds conflicts rnk remaining decided st = (selected', held')"
    and "x \<in> set remaining" "x \<notin> set selected'" "\<not> bt_has (snd st) x"
  shows "\<not> set (preds_of preds x) \<subseteq> set selected' \<or> (\<exists>y \<in> set selected'. (x, y) \<in> E)"
  using assms(3-)
proof (induction remaining decided st rule: select_loop_induct[of _ preds rnk conflicts])
  case (step remaining decided st pr)
  obtain s h where st: "st = (s, h)" by (cases st)
  obtain s1 h1 where one: "select_one preds conflicts pr (s, h) = (s1, h1)" by fastforce
  have inv: "select_inv preds E remaining decided s h" using step(4) by (simp add: st)
  note one_inv = select_one_inv[OF inv E step(1) one]
  have loop: "select_loop preds conflicts rnk (filter (\<lambda>x. x \<noteq> pr) remaining) (bs_insert pr decided) (s1, h1)
      = (selected', held')" using step(5) by (simp add: st one select_loop_step[OF step(2)])
  show ?case
  proof (cases "x = pr")
    case False
    then show ?thesis using step(3) step(6-8) one_inv loop by (simp add: st one)
  next
    case True
    obtain d where d: "select_inv preds E [] d selected' held'" "prefix s1 selected'"
      "set d = set (bs_insert pr decided) \<union> set (filter (\<lambda>x. x \<noteq> pr) remaining)"
      "\<forall>x. x \<notin> set (filter (\<lambda>x. x \<noteq> pr) remaining) \<longrightarrow> bt_has held' x = bt_has h1 x"
      using select_loop_inv[OF E _ loop] one_inv by auto
    have unheld: "\<not> bt_has h pr" using step(8) True by (simp add: st)
    from E(1) show ?thesis
    proof (cases rule: select_one_cases[of E conflicts h pr preds s])
      case (clash g y)
      then show ?thesis using True one d(2) set_mono_prefix by fastforce
    next
      case select
      then show ?thesis using True one d(2) step(7) set_mono_prefix by fastforce
    next
      case (blocked g)
      then obtain dep where dep: "dep \<in> set (preds_of preds pr)" "dep \<notin> set s" by auto
      have s1: "s1 = s" using blocked one by simp
      have "dep \<notin> set selected'"
      proof (cases "\<exists>r \<in> set remaining. set (preds_of preds r) \<subseteq> set decided")
        case True
        then have "set (preds_of preds pr) \<subseteq> set decided" using next_ready_least[OF step(2)] by blast
        then have "dep \<in> set decided" using dep by auto
        then have "bt_has h dep" "dep \<notin> set remaining" using inv dep(2) by (auto simp: select_inv_def)
        then have "bt_has held' dep" using d(4) one_inv step(1) by (metis filter_is_subset subsetD)
        then show ?thesis using d(1) by (auto simp: select_inv_def)
      next
        case False
        have "set s \<subseteq> set decided" using inv by (simp add: select_inv_def)
        then have "\<forall>r \<in> set (filter (\<lambda>x. x \<noteq> pr) remaining). \<not> set (preds_of preds r) \<subseteq> set (fst (s, h1))"
          using False by auto
        from select_loop_stuck[OF E(1) this, of rnk "bs_insert pr decided"] loop s1
        show ?thesis using dep(2) by simp
      qed
      then show ?thesis using dep(1) True by auto
    qed (use unheld in simp)
  qed
qed (simp add: select_loop_done)

section \<open>Batches\<close>

text \<open>
  A batch is one change that asked for a batch of its own, or changes that did not, all peripheral or
  all binary-touching, and no more of them than the limit of their kind.
\<close>

definition batch_shape :: "item_map \<Rightarrow> probe \<Rightarrow> nat \<Rightarrow> nat \<Rightarrow> int list \<Rightarrow> bool" where
  "batch_shape by_pr p max_batch peripheral_limit prs \<longleftrightarrow>
     (\<exists>pr. prs = [pr] \<and> alone by_pr pr)
     \<or> (prs \<noteq> [] \<and> list_all (\<lambda>pr. \<not> alone by_pr pr) prs
        \<and> (list_all (is_peripheral p) prs \<and> length prs \<le> peripheral_limit
           \<or> list_all (\<lambda>pr. \<not> is_peripheral p pr) prs \<and> length prs \<le> max_batch))"

definition open_shape :: "item_map \<Rightarrow> probe \<Rightarrow> nat \<Rightarrow> nat \<Rightarrow> chunk_state \<Rightarrow> bool" where
  "open_shape by_pr p max_batch peripheral_limit st \<longleftrightarrow>
     list_all (\<lambda>pr. \<not> alone by_pr pr \<and> is_peripheral p pr = ch_peripheral st) (ch_current st)
     \<and> length (ch_current st) \<le> (if ch_peripheral st then peripheral_limit else max_batch)"

definition chunk_inv :: "item_map \<Rightarrow> probe \<Rightarrow> nat \<Rightarrow> nat \<Rightarrow> int list \<Rightarrow> chunk_state \<Rightarrow> bool" where
  "chunk_inv by_pr p max_batch peripheral_limit done_prs st \<longleftrightarrow>
     concat (map pb_prs (ch_batches st)) @ ch_current st = done_prs
     \<and> map pb_index (ch_batches st) = [0 ..< length (ch_batches st)]
     \<and> list_all (\<lambda>b. batch_shape by_pr p max_batch peripheral_limit (pb_prs b)) (ch_batches st)"

lemma close_batch_inv:
  assumes "chunk_inv by_pr p m l xs st"
    and "ch_current st \<noteq> [] \<Longrightarrow> batch_shape by_pr p m l (ch_current st)"
  shows "chunk_inv by_pr p m l xs (close_batch note st) \<and> ch_current (close_batch note st) = []"
  using assms by (auto simp: close_batch_def chunk_inv_def)

lemma open_shape_batch:
  "open_shape by_pr p m l st \<Longrightarrow> ch_current st \<noteq> [] \<Longrightarrow> batch_shape by_pr p m l (ch_current st)"
  by (cases "ch_peripheral st") (auto simp: open_shape_def batch_shape_def list_all_iff)

lemma chunk_inv_push:
  "chunk_inv by_pr p m l xs st \<Longrightarrow>
     chunk_inv by_pr p m l (xs @ [pr]) (st\<lparr>ch_current := ch_current st @ [pr]\<rparr>)"
  by (auto simp: chunk_inv_def)

text \<open>Between two changes the open batch is within its limit and can still take one more.\<close>

definition open_room :: "nat \<Rightarrow> nat \<Rightarrow> chunk_state \<Rightarrow> bool" where
  "open_room m l st \<longleftrightarrow> length (ch_current st) < (if ch_peripheral st then l else m)"

lemma chunk_step_inv:
  assumes inv: "chunk_inv by_pr p m l xs st" and opn: "open_shape by_pr p m l st" "open_room m l st"
    and lim: "0 < m" "0 < l"
  shows "chunk_inv by_pr p m l (xs @ [pr]) (chunk_step by_pr p m l pr st)
    \<and> open_shape by_pr p m l (chunk_step by_pr p m l pr st) \<and> open_room m l (chunk_step by_pr p m l pr st)"
proof (cases "alone by_pr pr")
  case True
  let ?c = "close_batch [] st"
  have c: "chunk_inv by_pr p m l xs ?c" "ch_current ?c = []"
    using close_batch_inv[OF inv, of "[]"] open_shape_batch[OF opn(1)] by auto
  have "chunk_inv by_pr p m l (xs @ [pr]) (?c\<lparr>ch_current := [pr]\<rparr>)"
    using chunk_inv_push[OF c(1), of pr] c(2) by simp
  from close_batch_inv[OF this] have "chunk_inv by_pr p m l (xs @ [pr]) (chunk_step by_pr p m l pr st)
      \<and> ch_current (chunk_step by_pr p m l pr st) = []"
    using True by (auto simp: chunk_step_def batch_shape_def)
  then show ?thesis using lim by (auto simp: open_shape_def open_room_def)
next
  case False
  let ?per = "is_peripheral p pr"
  let ?limit = "if ?per then l else m"
  define s1 where "s1 = (if ch_current st \<noteq> [] \<and> ?per \<noteq> ch_peripheral st
      then close_batch (if ch_peripheral st then ''peripheral'' else []) st else st)"
  define s2 where "s2 = (if ch_current s1 = [] then s1\<lparr>ch_peripheral := ?per\<rparr> else s1)"
  define s3 where "s3 = s2\<lparr>ch_current := ch_current s2 @ [pr]\<rparr>"
  have step: "chunk_step by_pr p m l pr st = (if ?limit \<le> length (ch_current s3)
      then close_batch (if ?per then ''peripheral'' else ''max-batch'') s3 else s3)"
    using False unfolding chunk_step_def s1_def s2_def s3_def by (simp add: Let_def)
  have 1: "chunk_inv by_pr p m l xs s1 \<and> (ch_current s1 \<noteq> [] \<longrightarrow> s1 = st \<and> ?per = ch_peripheral st)"
    using inv close_batch_inv[OF inv] open_shape_batch[OF opn(1)] by (simp add: s1_def)
  have 2: "chunk_inv by_pr p m l xs s2" "ch_peripheral s2 = ?per"
    "list_all (\<lambda>pr. \<not> alone by_pr pr \<and> is_peripheral p pr = ?per) (ch_current s2)"
    "length (ch_current s2) < ?limit"
    using 1 opn lim by (auto simp: s2_def chunk_inv_def open_shape_def open_room_def)
  have 3: "chunk_inv by_pr p m l (xs @ [pr]) s3" unfolding s3_def by (rule chunk_inv_push[OF 2(1)])
  have 4: "open_shape by_pr p m l s3" using 2 False by (auto simp: s3_def open_shape_def)
  show ?thesis
  proof (cases "?limit \<le> length (ch_current s3)")
    case True
    then show ?thesis using close_batch_inv[OF 3] open_shape_batch[OF 4] lim
      by (auto simp: step open_shape_def open_room_def)
  next
    case False
    then show ?thesis using 2 3 4 by (auto simp: step s3_def open_room_def)
  qed
qed

lemma chunk_batches_inv:
  assumes "0 < m" "0 < l"
  shows "concat (map pb_prs (chunk_batches by_pr p m l xs)) = xs
    \<and> map pb_index (chunk_batches by_pr p m l xs) = [0 ..< length (chunk_batches by_pr p m l xs)]
    \<and> list_all (\<lambda>b. batch_shape by_pr p m l (pb_prs b)) (chunk_batches by_pr p m l xs)"
proof -
  let ?st = "\<lparr>ch_batches = [], ch_current = [], ch_peripheral = False\<rparr>"
  have "chunk_inv by_pr p m l (ys @ xs) (fold (chunk_step by_pr p m l) xs st)
      \<and> open_shape by_pr p m l (fold (chunk_step by_pr p m l) xs st)"
    if "chunk_inv by_pr p m l ys st" "open_shape by_pr p m l st" "open_room m l st" for ys st
    using that
  proof (induction xs arbitrary: ys st)
    case (Cons x xs)
    from chunk_step_inv[OF Cons.prems assms, of x] Cons.IH[of "ys @ [x]"] show ?case by simp
  qed simp
  from this[of "[]" ?st] assms
  have inv: "chunk_inv by_pr p m l xs (fold (chunk_step by_pr p m l) xs ?st)"
    and opn: "open_shape by_pr p m l (fold (chunk_step by_pr p m l) xs ?st)"
    by (auto simp: chunk_inv_def open_shape_def open_room_def)
  from close_batch_inv[OF inv open_shape_batch[OF opn], of "[]"] show ?thesis
    by (auto simp: chunk_batches_def chunk_inv_def)
qed

section \<open>The plan as a whole\<close>

definition plan_ds :: "(string \<Rightarrow> string) \<Rightarrow> string \<Rightarrow> string \<Rightarrow> item list \<Rightarrow> probe \<Rightarrow> dep_state" where
  "plan_ds debug now base all_items p = dependency_state all_items p (direct_holds debug now base all_items p)"

definition plan_key :: "(string \<Rightarrow> string) \<Rightarrow> string \<Rightarrow> string \<Rightarrow> item list \<Rightarrow> probe \<Rightarrow> int \<Rightarrow> plan_rank" where
  "plan_key debug now base all_items p =
     (let ds = plan_ds debug now base all_items p
      in plan_rank_of (by_pr_of all_items) (front_of all_items (ds_preds ds))
           (degree_of (conflict_map_of (pr_conflicts p)) (ds_held ds)))"

definition plan_selection :: "(string \<Rightarrow> string) \<Rightarrow> string \<Rightarrow> string \<Rightarrow> item list \<Rightarrow> probe \<Rightarrow> int list \<times> held_map" where
  "plan_selection debug now base all_items p =
     (let ds = plan_ds debug now base all_items p
      in select_loop (ds_preds ds) (conflict_map_of (pr_conflicts p)) (plan_key debug now base all_items p)
           (queued_set_of all_items) [] ([], ds_held ds))"

lemma make_plan_parts:
  "landing (make_plan debug now created_at all_items base base_sha p options)
     = fst (plan_selection debug now base all_items p)"
  "pl_held (make_plan debug now created_at all_items base base_sha p options)
     = map snd (snd (plan_selection debug now base all_items p))"
  "pl_batches (make_plan debug now created_at all_items base base_sha p options)
     = chunk_batches (by_pr_of all_items) p (max (po_max_batch options) 1)
         (max (po_peripheral_max_batch options) (max (po_max_batch options) 1))
         (fst (plan_selection debug now base all_items p))"
  using chunk_batches_inv[of "max (po_max_batch options) 1"
      "max (po_peripheral_max_batch options) (max (po_max_batch options) 1)"]
  by (simp_all add: make_plan_def landing_def plan_selection_def plan_key_def plan_ds_def Let_def
      case_prod_beta)

lemma plan_ds_inv:
  "dep_inv (direct_holds debug now base all_items p)
     {(pr, dep). (pr, dep) \<in> set (after_pairs all_items) \<and> is_unmet (by_pr_of all_items) dep}
     (plan_deps all_items p) (plan_ds debug now base all_items p)"
  unfolding plan_ds_def by (rule dependency_state_inv[OF bt_ok_direct_holds])

lemma plan_preds:
  "dep \<in> set (preds_of (ds_preds (plan_ds debug now base all_items p)) pr) \<longleftrightarrow> (dep, pr) \<in> plan_deps all_items p"
  using plan_ds_inv by (simp add: dep_inv_def)

lemma select_inv_start:
  "select_inv (ds_preds (plan_ds debug now base all_items p)) (plan_conflicts p) (queued_set_of all_items) []
     [] (ds_held (plan_ds debug now base all_items p))"
  using plan_ds_inv[of debug now base all_items p] by (simp add: select_inv_def dep_inv_def)

lemma sym_plan_conflicts: "sym (plan_conflicts p)"
  using plan_conflicts_sym by (auto intro: symI)

text \<open>What selection leaves behind: the invariant with nothing remaining.\<close>

lemma plan_selection_inv:
  obtains decided where
    "select_inv (ds_preds (plan_ds debug now base all_items p)) (plan_conflicts p) [] decided
       (fst (plan_selection debug now base all_items p)) (snd (plan_selection debug now base all_items p))"
    "set decided = set (queued_set_of all_items)"
    "\<And>x. x \<notin> set (queued_set_of all_items) \<Longrightarrow>
       bt_has (snd (plan_selection debug now base all_items p)) x \<longleftrightarrow> bt_has (ds_held (plan_ds debug now base all_items p)) x"
  using select_loop_inv[OF conflict_map_inv sym_plan_conflicts, of _ p "queued_set_of all_items" "[]"
      "([], ds_held (plan_ds debug now base all_items p))" "plan_key debug now base all_items p"
      "fst (plan_selection debug now base all_items p)" "snd (plan_selection debug now base all_items p)"]
    select_inv_start
  by (fastforce simp: plan_selection_def Let_def)

end
