(* ===== verification/Queue_Plan_Properties.thy ===== *)
theory Queue_Plan_Properties
  imports Queue_Plan_Spec
begin

text \<open>
  The properties of a plan of the merge queue (\<open>merge-queue/src/plan.rs\<close>): which changes land, in
  which order, in which batches, which are held, and which of two conflicting changes wins.
\<close>

section \<open>Holds are kept\<close>

definition held_keyed :: "held_map \<Rightarrow> bool" where
  "held_keyed m \<longleftrightarrow> (\<forall>k h. bt_get m k = Some h \<longrightarrow> he_pr h = k)"

lemma held_keyed_hold: "bt_ok m \<Longrightarrow> held_keyed m \<Longrightarrow> held_keyed (hold h m)"
  by (auto simp: held_keyed_def hold_def bt_get_or_insert split: if_splits)

lemma held_keyed_fold:
  "bt_ok m \<Longrightarrow> held_keyed m \<Longrightarrow> held_keyed (fold (\<lambda>x. hold_opt (f x)) xs m)"
proof (induction xs arbitrary: m)
  case (Cons x xs)
  then show ?case
    by (cases "f x") (simp_all add: hold_opt_def held_keyed_hold bt_ok_hold)
qed simp

lemma held_keyed_Nil [simp]: "held_keyed []"
  by (simp add: held_keyed_def)

lemma held_keyed_direct: "held_keyed (direct_holds debug now base all_items p)"
  unfolding direct_holds_def Let_def by (simp add: held_keyed_fold hold_fold(1))

lemma held_keyed_dep_step:
  "bt_ok (ds_held st) \<Longrightarrow> held_keyed (ds_held st) \<Longrightarrow>
     bt_ok (ds_held (dep_step by_pr pd st)) \<and> held_keyed (ds_held (dep_step by_pr pd st))"
  by (cases pd) (auto simp: dep_step_def held_keyed_hold bt_ok_hold split: option.splits item_status.splits)

lemma held_keyed_dep_steps:
  "bt_ok (ds_held st) \<Longrightarrow> held_keyed (ds_held st) \<Longrightarrow> held_keyed (ds_held (fold (dep_step by_pr) pairs st))"
proof (induction pairs arbitrary: st)
  case (Cons pd pairs)
  then show ?case using held_keyed_dep_step[of st by_pr pd] by simp
qed simp

lemma ancestry_steps_held: "ds_held (fold (ancestry_step qs) pairs st) = ds_held st"
  by (induction pairs arbitrary: st) (auto simp: ancestry_step_def split: if_splits)

lemma held_keyed_ds: "held_keyed (ds_held (plan_ds debug now base all_items p))"
  unfolding plan_ds_def dependency_state_def Let_def ancestry_steps_held
  by (rule held_keyed_dep_steps) (simp_all add: bt_ok_direct_holds held_keyed_direct)

lemma select_one_held:
  assumes "peer_inv E conflicts" and "bt_ok (snd st)" "held_keyed (snd st)"
  shows "bt_ok (snd (select_one preds conflicts pr st)) \<and> held_keyed (snd (select_one preds conflicts pr st))
    \<and> (\<forall>x. bt_has (snd st) x \<longrightarrow> bt_has (snd (select_one preds conflicts pr st)) x)"
proof -
  obtain s h where st: "st = (s, h)" by (cases st)
  from assms(1) show ?thesis
    by (cases rule: select_one_cases[of E conflicts h pr preds s])
      (use assms(2,3) in \<open>simp_all add: st held_keyed_hold bt_ok_hold bt_has_hold\<close>)
qed

lemma select_loop_held:
  assumes "peer_inv E conflicts" and "bt_ok (snd st)" "held_keyed (snd st)"
  shows "held_keyed (snd (select_loop preds conflicts rnk remaining decided st))
    \<and> (\<forall>x. bt_has (snd st) x \<longrightarrow> bt_has (snd (select_loop preds conflicts rnk remaining decided st)) x)"
  using assms(2,3)
proof (induction remaining decided st rule: select_loop_induct[of _ preds rnk conflicts])
  case (stop decided st)
  then show ?case by (simp add: select_loop_done)
next
  case (step remaining decided st pr)
  then show ?case using select_one_held[OF assms(1) step(4,5), of preds pr]
    by (simp add: select_loop_step[OF step(2)])
qed

lemma plan_selection_held:
  "held_keyed (snd (plan_selection debug now base all_items p))"
  "bt_has (ds_held (plan_ds debug now base all_items p)) x \<Longrightarrow> bt_has (snd (plan_selection debug now base all_items p)) x"
proof -
  have "bt_ok (ds_held (plan_ds debug now base all_items p))"
    using plan_ds_inv[of debug now base all_items p] by (simp add: dep_inv_def)
  then have "held_keyed (snd (plan_selection debug now base all_items p))
      \<and> (\<forall>x. bt_has (ds_held (plan_ds debug now base all_items p)) x \<longrightarrow>
            bt_has (snd (plan_selection debug now base all_items p)) x)"
    using select_loop_held[OF conflict_map_inv[of p], of "([], ds_held (plan_ds debug now base all_items p))"]
      held_keyed_ds unfolding plan_selection_def Let_def by simp
  then show "held_keyed (snd (plan_selection debug now base all_items p))"
    and "bt_has (ds_held (plan_ds debug now base all_items p)) x \<Longrightarrow>
      bt_has (snd (plan_selection debug now base all_items p)) x" by auto
qed

lemma plan_held_ready:
  "external_ok p \<Longrightarrow> pr \<in> set (queued_set_of all_items) \<Longrightarrow>
     bt_has (ds_held (plan_ds debug now base all_items p)) pr \<longleftrightarrow> \<not> change_ready now all_items p pr"
  unfolding plan_ds_def by (rule plan_held_iff)

section \<open>What lands\<close>

lemma plan_landing_inv:
  obtains decided where
    "select_inv (ds_preds (plan_ds debug now base all_items p)) (plan_conflicts p) [] decided
       (landing (make_plan debug now created_at all_items base base_sha p options))
       (snd (plan_selection debug now base all_items p))"
    "set decided = set (queued_set_of all_items)"
  using plan_selection_inv[of debug now base all_items p] by (metis make_plan_parts(1))

lemma landed_is_ready:
  assumes "external_ok p" and "x \<in> set L"
    and L: "L = landing (make_plan debug now created_at all_items base base_sha p options)"
  shows "change_ready now all_items p x
    \<and> (\<forall>dep. (dep, x) \<in> plan_deps all_items p \<longrightarrow> dep \<in> set L)
    \<and> (\<forall>y \<in> set L. y \<noteq> x \<longrightarrow> (x, y) \<notin> plan_conflicts p)"
proof -
  let ?ds = "plan_ds debug now base all_items p" and ?sel = "plan_selection debug now base all_items p"
  obtain decided where inv: "select_inv (ds_preds ?ds) (plan_conflicts p) [] decided L (snd ?sel)"
    and dec: "set decided = set (queued_set_of all_items)"
    unfolding L by (rule plan_landing_inv)
  have q: "x \<in> set (queued_set_of all_items)" and unheld: "\<not> bt_has (snd ?sel) x"
    using assms(2) inv dec by (auto simp: select_inv_def)
  have ready: "change_ready now all_items p x"
    using plan_held_ready[OF assms(1) q] plan_selection_held(2) unheld by blast
  obtain i where i: "i < length L" "x = L ! i" using assms(2) by (auto simp: in_set_conv_nth)
  have "set (preds_of (ds_preds ?ds) x) \<subseteq> set (take i L)" using inv i by (simp add: select_inv_def)
  then have "dep \<in> set L" if "(dep, x) \<in> plan_deps all_items p" for dep
    using that plan_preds[of dep debug now base all_items p x] set_take_subset by fast
  moreover have "(x, y) \<notin> plan_conflicts p" if "y \<in> set L" "y \<noteq> x" for y
    using inv assms(2) that by (auto simp: select_inv_def)
  ultimately show ?thesis using ready by blast
qed

lemma ready_lands:
  assumes "external_ok p" and ready: "change_ready now all_items p x"
    and L: "L = landing (make_plan debug now created_at all_items base base_sha p options)"
    and deps: "\<And>dep. (dep, x) \<in> plan_deps all_items p \<Longrightarrow> dep \<in> set L"
    and free: "\<And>y. y \<in> set L \<Longrightarrow> y \<noteq> x \<Longrightarrow> (x, y) \<notin> plan_conflicts p"
  shows "x \<in> set L"
proof (rule ccontr)
  let ?ds = "plan_ds debug now base all_items p" and ?sel = "plan_selection debug now base all_items p"
  assume x: "x \<notin> set L"
  have q: "x \<in> set (queued_set_of all_items)" using ready by (simp add: change_ready_def)
  have unheld: "\<not> bt_has (snd ([]::int list, ds_held ?ds)) x"
    using plan_held_ready[OF assms(1) q] ready by simp
  have loop: "select_loop (ds_preds ?ds) (conflict_map_of (pr_conflicts p)) (plan_key debug now base all_items p)
      (queued_set_of all_items) [] ([], ds_held ?ds) = (L, snd ?sel)"
    by (simp add: L make_plan_parts plan_selection_def Let_def)
  have start: "select_inv (ds_preds ?ds) (plan_conflicts p) (queued_set_of all_items) []
      (fst ([]::int list, ds_held ?ds)) (snd ([]::int list, ds_held ?ds))"
    using select_inv_start by simp
  have preds: "set (preds_of (ds_preds ?ds) x) \<subseteq> set L"
    using deps plan_preds[of _ debug now base all_items p x] by blast
  from select_loop_cause[OF conflict_map_inv sym_plan_conflicts start loop q x unheld] preds
  obtain y where "y \<in> set L" "(x, y) \<in> plan_conflicts p" by blast
  then show False using free x by metis
qed

text \<open>
  C4: A change is in the plan exactly when it is queued and ready (its head is the submitted one and
  merges with the base, nothing holds or defers it, it carries no ejected or withdrawn commits, every
  change it names is queued or landed), everything it must land after is in the plan, and it conflicts
  with nothing in the plan: the plan is a maximal conflict-free, dependency-closed set of ready changes.
\<close>

theorem plan_exact:
  fixes debug :: "string \<Rightarrow> string" and now created_at base base_sha :: string
    and all_items :: "item list" and p :: probe and options :: plan_options
  assumes "external_ok p"
  defines "L \<equiv> landing (make_plan debug now created_at all_items base base_sha p options)"
  shows "x \<in> set L \<longleftrightarrow> change_ready now all_items p x
    \<and> (\<forall>dep. (dep, x) \<in> plan_deps all_items p \<longrightarrow> dep \<in> set L)
    \<and> (\<forall>y \<in> set L. y \<noteq> x \<longrightarrow> (x, y) \<notin> plan_conflicts p)"
  using landed_is_ready[OF assms(1) _ meta_eq_to_obj_eq[OF L_def]]
    ready_lands[OF assms(1) _ meta_eq_to_obj_eq[OF L_def]]
  by blast

text \<open>
  C5: The landing order is safe: no change is planned twice, everything a change must land after comes
  before it, and no two planned changes conflict; the held changes are exactly the queued changes that
  are not planned, each reported once, in ascending order.
\<close>

theorem plan_order_safe:
  fixes debug :: "string \<Rightarrow> string" and now created_at base base_sha :: string
    and all_items :: "item list" and p :: probe and options :: plan_options
  assumes "external_ok p"
  defines "plan \<equiv> make_plan debug now created_at all_items base base_sha p options"
  shows "distinct (landing plan)
    \<and> (\<forall>i < length (landing plan). \<forall>dep. (dep, landing plan ! i) \<in> plan_deps all_items p \<longrightarrow>
         dep \<in> set (take i (landing plan)))
    \<and> sorted_wrt (\<lambda>x y. (x, y) \<notin> plan_conflicts p \<and> (y, x) \<notin> plan_conflicts p) (landing plan)
    \<and> map he_pr (pl_held plan) = sorted_list_of_set (set (queued_set_of all_items) - set (landing plan))"
proof -
  let ?ds = "plan_ds debug now base all_items p" and ?sel = "plan_selection debug now base all_items p"
  have L: "landing plan = fst ?sel" and H: "pl_held plan = map snd (snd ?sel)"
    by (simp_all add: plan_def make_plan_parts)
  obtain decided where inv: "select_inv (ds_preds ?ds) (plan_conflicts p) [] decided (landing plan) (snd ?sel)"
    and dec: "set decided = set (queued_set_of all_items)"
    and out: "\<And>x. x \<notin> set (queued_set_of all_items) \<Longrightarrow> bt_has (snd ?sel) x \<longleftrightarrow> bt_has (ds_held ?ds) x"
    using plan_selection_inv[of debug now base all_items p] L by metis
  have ok: "bt_ok (snd ?sel)" and dist: "distinct (landing plan)" using inv by (auto simp: select_inv_def)
  have ord: "dep \<in> set (take i (landing plan))"
    if "i < length (landing plan)" "(dep, landing plan ! i) \<in> plan_deps all_items p" for i dep
  proof -
    have "set (preds_of (ds_preds ?ds) (landing plan ! i)) \<subseteq> set (take i (landing plan))"
      using inv that(1) by (simp add: select_inv_def)
    then show ?thesis using that(2) plan_preds[of dep debug now base all_items p] by blast
  qed
  have "(landing plan ! i, landing plan ! j) \<notin> plan_conflicts p" if "i < j" "j < length (landing plan)" for i j
  proof -
    have "landing plan ! i \<noteq> landing plan ! j" using dist that by (simp add: nth_eq_iff_index_eq)
    then show ?thesis using inv that by (simp add: select_inv_def)
  qed
  then have free: "sorted_wrt (\<lambda>x y. (x, y) \<notin> plan_conflicts p \<and> (y, x) \<notin> plan_conflicts p) (landing plan)"
    using plan_conflicts_sym by (auto simp: sorted_wrt_iff_nth_less)
  have "he_pr h = k" if "(k, h) \<in> set (snd ?sel)" for k h
    using plan_selection_held(1)[of debug now base all_items p] that btm.entries_mem[OF ok, of k h]
    by (simp add: held_keyed_def)
  then have keys: "map he_pr (pl_held plan) = bt_keys (snd ?sel)" by (auto simp: H bt_keys_def)
  have none_out: "\<not> bt_has (ds_held ?ds) x" if "x \<notin> set (queued_set_of all_items)" for x
    using that plan_ds_inv[of debug now base all_items p] direct_holds_iff[OF assms(1), of debug now base all_items x]
    by (auto simp: dep_inv_def after_pairs_iff queued_set_of_def)
  have "set (bt_keys (snd ?sel)) = set (queued_set_of all_items) - set (landing plan)"
    using inv dec out none_out by (auto simp: select_inv_def bt_has_iff_key[symmetric])
  moreover have "sorted_wrt (<) (bt_keys (snd ?sel))" using ok by (rule bt_keys_sorted)
  ultimately have "map he_pr (pl_held plan) = sorted_list_of_set (set (queued_set_of all_items) - set (landing plan))"
    using keys by (metis sorted_list_of_set.idem_if_sorted_distinct strict_sorted_iff)
  then show ?thesis using dist ord free by blast
qed


section \<open>Who wins a conflict\<close>

lemma select_loop_prefix:
  assumes "peer_inv E conflicts"
  shows "prefix (fst st) (fst (select_loop preds conflicts rnk remaining decided st))"
proof (induction remaining decided st rule: select_loop_induct[of _ preds rnk conflicts])
  case (stop decided st)
  then show ?case by (simp add: select_loop_done)
next
  case (step remaining decided st pr)
  obtain s h where st: "st = (s, h)" by (cases st)
  from assms have "prefix s (fst (select_one preds conflicts pr st))"
    by (cases rule: select_one_cases[of E conflicts h pr preds s]) (simp_all add: st)
  from prefix_order.trans[OF this step(3)] show ?case by (simp add: select_loop_step[OF step(2)] st)
qed

lemma select_loop_winner:
  assumes E: "peer_inv E conflicts" and x: "set (preds_of preds x) = {}" "\<not> bt_has (snd st) x"
    and "x \<in> set remaining" "\<forall>y \<in> set (fst st). (x, y) \<notin> E"
    and "\<And>y. (x, y) \<in> E \<Longrightarrow> y \<in> set remaining \<Longrightarrow> y \<noteq> x \<Longrightarrow> rnk x < rnk y" and "bt_ok (snd st)"
  shows "x \<in> set (fst (select_loop preds conflicts rnk remaining decided st))"
  using x(2) assms(4-)
proof (induction remaining decided st rule: select_loop_induct[of _ preds rnk conflicts])
  case (step remaining decided st pr)
  obtain s h where st: "st = (s, h)" by (cases st)
  have pr: "rnk pr \<le> rnk x" using next_ready_least[OF step(2) step(5)] x(1) by simp
  have ok: "bt_ok h" using step(8) by (simp add: st)
  show ?case
  proof (cases "pr = x")
    case True
    from E have "select_one preds conflicts pr st = (s @ [x], h)"
      by (cases rule: select_one_cases[of E conflicts h pr preds s])
        (use step(4,6) x(1) in \<open>auto simp: st True\<close>)
    then show ?thesis
      using select_loop_prefix[OF E, of "(s @ [x], h)" preds rnk "filter (\<lambda>x. x \<noteq> pr) remaining" "bs_insert pr decided"]
      by (auto simp: select_loop_step[OF step(2)] prefix_def)
  next
    case False
    then have free: "(x, pr) \<notin> E" using step(7)[of pr] step(1) pr by auto
    from E have "\<not> bt_has (snd (select_one preds conflicts pr st)) x
        \<and> (\<forall>y \<in> set (fst (select_one preds conflicts pr st)). (x, y) \<notin> E)
        \<and> bt_ok (snd (select_one preds conflicts pr st))"
      by (cases rule: select_one_cases[of E conflicts h pr preds s])
        (use step(4,6,8) False free ok in \<open>auto simp: st bt_has_hold bt_ok_hold\<close>)
    then show ?thesis using step(3) step(5,7) False by (simp add: select_loop_step[OF step(2)])
  qed
qed simp

text \<open>
  C21: Priority decides conflicts: a ready change that must land after nothing is in the plan whenever
  it ranks before every queued change it conflicts with, where the rank is: being a priority change or
  one that a priority change must land after, then the numeric priority, the number of unheld changes
  it conflicts with, the submission time, and the change number.
\<close>

theorem plan_priority_wins:
  fixes debug :: "string \<Rightarrow> string" and now created_at base base_sha :: string
    and all_items :: "item list" and p :: probe and options :: plan_options
  assumes "external_ok p" and "change_ready now all_items p x"
    and "\<And>dep. (dep, x) \<notin> plan_deps all_items p"
    and "\<And>y. (x, y) \<in> plan_conflicts p \<Longrightarrow> y \<in> set (queued_set_of all_items) \<Longrightarrow> y \<noteq> x \<Longrightarrow>
      plan_key debug now base all_items p x < plan_key debug now base all_items p y"
  shows "x \<in> set (landing (make_plan debug now created_at all_items base base_sha p options))"
proof -
  let ?ds = "plan_ds debug now base all_items p"
  have q: "x \<in> set (queued_set_of all_items)" using assms(2) by (simp add: change_ready_def)
  have unheld: "\<not> bt_has (ds_held ?ds) x" using plan_held_ready[OF assms(1) q] assms(2) by simp
  have preds: "set (preds_of (ds_preds ?ds) x) = {}"
    unfolding set_eq_iff plan_preds using assms(3) by simp
  have ok: "bt_ok (ds_held ?ds)" using plan_ds_inv[of debug now base all_items p] by (simp add: dep_inv_def)
  have "x \<in> set (fst (select_loop (ds_preds ?ds) (conflict_map_of (pr_conflicts p))
      (plan_key debug now base all_items p) (queued_set_of all_items) [] ([], ds_held ?ds)))"
    by (rule select_loop_winner[OF conflict_map_inv[of p] preds]) (simp_all add: unheld q ok assms(4))
  then show ?thesis by (simp add: make_plan_parts plan_selection_def Let_def)
qed

section \<open>A small queue\<close>

text \<open>Change 2 must land after change 1; changes 1 and 3 conflict, and 1 has the better priority.\<close>

definition sample_item :: "int \<Rightarrow> int \<Rightarrow> int list \<Rightarrow> item" where
  "sample_item pr priority after =
     \<lparr>it_pr = pr, it_head_ref = ''b'', it_head = ''c'' @ dec_int pr, it_priority = priority,
      it_submitted_at = ''2024-01-01T00:00:00Z'', it_submitted_by = [], it_notify = [], it_shepherd = [],
      it_notify_mode = None,
      it_notify_delivery = \<lparr>nd_key = [], nd_attempts = 0, nd_delivered = False, nd_last_error = []\<rparr>,
      it_title = [], it_after = after, it_solo = False, it_prioritized = False, it_exact = False,
      it_requires = [], it_claim = None, it_source = [], it_close_pending = False,
      it_validation_refusals = 0, it_suspect_reruns = 0, it_next_retry_at = [], it_last_refusal = [],
      it_flaky_nodes = [], it_flaky_hold_until = [], it_hold_verdict = [], it_held_candidate = None,
      it_accepted = None, it_escalated = [], it_deciding_report = [], it_deciding_failed = [],
      it_status = Queued, it_landed_as = [], it_history = []\<rparr>"

definition sample_items :: "item list" where
  "sample_items = [sample_item 1 0 [], sample_item 2 0 [1], sample_item 3 5 []]"

definition sample_probe :: probe where
  "sample_probe = \<lparr>pr_heads = [(1, Some ''c1''), (2, Some ''c2''), (3, Some ''c3'')], pr_files = [],
     pr_base_conflicts = [], pr_conflicts = [\<lparr>cf_a = 1, cf_b = 3, cf_paths = [''f'']\<rparr>], pr_ancestry = [],
     pr_external = [], pr_ranges = [],
     pr_stats = \<lparr>ps_cache_hits = 0, ps_cache_misses = 0, ps_base_hits = 0, ps_base_misses = 0, ps_pair_hits = 0,
       ps_pair_misses = 0, ps_pairs_skipped = 0, ps_pairs_unknown = 0, ps_peak_concurrency = 0\<rparr>,
     pr_peripheral = [], pr_prior = []\<rparr>"

definition sample_options :: plan_options where
  "sample_options = \<lparr>po_max_batch = 4, po_priority = \<lparr>pc_label = [], pc_ci_paths = []\<rparr>, po_peripheral_max_batch = 0\<rparr>"

abbreviation sample_plan :: queue_plan where
  "sample_plan \<equiv> make_plan (\<lambda>s. s) ''2024'' ''2024'' sample_items ''main'' ''b0'' sample_probe sample_options"

lemma sample_landing: "landing sample_plan = [1, 2]"
  by code_simp

lemma sample_external: "external_ok sample_probe"
  by code_simp

theorem plan_exact_witness: "2 \<in> set (landing sample_plan) \<and> change_ready ''2024'' sample_items sample_probe 2"
  using plan_exact[OF sample_external, of 2 "\<lambda>s. s" "''2024''" "''2024''" sample_items "''main''" "''b0''" sample_options]
  by (simp add: sample_landing)

theorem plan_order_safe_witness:
  "map he_pr (pl_held sample_plan) = sorted_list_of_set (set (queued_set_of sample_items) - {1, 2})"
  using plan_order_safe[OF sample_external, of "\<lambda>s. s" "''2024''" "''2024''" sample_items "''main''" "''b0''" sample_options]
  by (simp add: sample_landing)

theorem plan_priority_wins_witness: "1 \<in> set (landing sample_plan)"
proof (rule plan_priority_wins[OF sample_external])
  show "change_ready ''2024'' sample_items sample_probe 1" by code_simp
  show "(dep, 1) \<notin> plan_deps sample_items sample_probe" for dep
    by (simp add: plan_deps_def after_pairs_def queued_items_def sample_items_def sample_item_def sample_probe_def)
  have "plan_key (\<lambda>s. s) ''2024'' ''main'' sample_items sample_probe 1
      < plan_key (\<lambda>s. s) ''2024'' ''main'' sample_items sample_probe 3" by code_simp
  then show "plan_key (\<lambda>s. s) ''2024'' ''main'' sample_items sample_probe 1
      < plan_key (\<lambda>s. s) ''2024'' ''main'' sample_items sample_probe y"
    if "(1, y) \<in> plan_conflicts sample_probe" "y \<noteq> 1" for y
    using that by (auto simp: plan_conflicts_def sample_probe_def)
qed

end
