(* ===== verification/Queue_Front.thy ===== *)
theory Queue_Front
  imports Queue_Plan_Spec
begin

text \<open>
  The front of the queue and the path patterns (\<open>plan.rs\<close>, \<open>state.rs\<close>): the stack loop that collects
  the front is a propagation loop in the sense of \<open>closure_loop\<close>, and the greedy matching of
  \<open>path_matches\<close> decides the declarative reading of a pattern.
\<close>

section \<open>The front of the queue\<close>

lemma push_deps_sets:
  "set (fst (fold push_dep deps (front, stack))) = set front \<union> set deps"
  "set (snd (fold push_dep deps (front, stack))) = set stack \<union> (set deps - set front)"
proof (induction deps arbitrary: front stack)
  case (Cons d deps)
  {
    case 1
    then show ?case using Cons(1)[of "bs_insert d front" "d # stack"] Cons(1)[of front stack]
      by (auto simp: push_dep_def)
  next
    case 2
    then show ?case using Cons(2)[of "bs_insert d front" "d # stack"] Cons(2)[of front stack]
      by (auto simp: push_dep_def)
  }
qed simp_all

lemma front_loop_closure:
  assumes "set stack \<subseteq> set front" and "\<forall>x \<in> set front - set stack. set (preds_of preds x) \<subseteq> set front"
  shows "set front \<subseteq> set (front_loop preds (front, stack))
    \<and> (\<forall>x \<in> set (front_loop preds (front, stack)). set (preds_of preds x) \<subseteq> set (front_loop preds (front, stack)))
    \<and> (\<forall>C. set front \<subseteq> C \<and> (\<forall>x \<in> C. set (preds_of preds x) \<subseteq> C) \<longrightarrow> set (front_loop preds (front, stack)) \<subseteq> C)"
  using assms
proof (induction preds "(front, stack)" arbitrary: front stack rule: front_loop.induct)
  case (1 preds front stack)
  show ?case
  proof (cases stack)
    case Nil
    then show ?thesis using 1(3) by (simp add: front_loop.simps)
  next
    case (Cons x rest)
    obtain f s where fs: "fold push_dep (preds_of preds x) (front, rest) = (f, s)" by fastforce
    have f: "set f = set front \<union> set (preds_of preds x)" and s: "set s = set rest \<union> (set (preds_of preds x) - set front)"
      using push_deps_sets[of "preds_of preds x" front rest] fs by simp_all
    have sub: "set s \<subseteq> set f" using 1(2) Cons f s by auto
    have closed: "\<forall>y \<in> set f - set s. set (preds_of preds y) \<subseteq> set f"
    proof
      fix y assume y: "y \<in> set f - set s"
      then have "y = x \<or> y \<in> set front - set stack" using f s Cons by auto
      then show "set (preds_of preds y) \<subseteq> set f" using 1(3) f by auto
    qed
    have x: "x \<in> set front" using 1(2) Cons by simp
    have step: "front_loop preds (front, stack) = front_loop preds (f, s)"
      using Cons fs by (subst front_loop.simps) simp
    note IH = 1(1)[OF Cons fs sub closed]
    have "set front \<subseteq> set (front_loop preds (f, s))" using IH f by (metis Un_subset_iff)
    moreover have "set f \<subseteq> C" if "set front \<subseteq> C" "\<forall>x \<in> C. set (preds_of preds x) \<subseteq> C" for C
      using that f x by (metis Un_least subsetD)
    ultimately show ?thesis unfolding step using IH by (metis (no_types, lifting))
  qed
qed

definition prioritized_set :: "item list \<Rightarrow> int set" where
  "prioritized_set all_items = it_pr ` {it \<in> set (queued_items all_items). it_prioritized it}"

definition pred_edges :: "pred_map \<Rightarrow> (int \<times> int) set" where
  "pred_edges preds = {(x, dep). dep \<in> set (preds_of preds x)}"

lemma front_of_closure:
  "prioritized_set all_items \<subseteq> set (front_of all_items preds)"
  "\<lbrakk>(x, y) \<in> pred_edges preds; x \<in> set (front_of all_items preds)\<rbrakk> \<Longrightarrow> y \<in> set (front_of all_items preds)"
  "\<lbrakk>prioritized_set all_items \<subseteq> C; \<And>x y. \<lbrakk>(x, y) \<in> pred_edges preds; x \<in> C\<rbrakk> \<Longrightarrow> y \<in> C\<rbrakk>
    \<Longrightarrow> set (front_of all_items preds) \<subseteq> C"
proof -
  let ?f = "bs_collect (map it_pr (filter it_prioritized (queued_items all_items)))"
  have f: "set ?f = prioritized_set all_items" by (auto simp: prioritized_set_def)
  have loop: "front_of all_items preds = front_loop preds (?f, rev ?f)" by (simp only: front_of_def Let_def)
  have c: "prioritized_set all_items \<subseteq> set (front_of all_items preds)
      \<and> (\<forall>x \<in> set (front_of all_items preds). set (preds_of preds x) \<subseteq> set (front_of all_items preds))
      \<and> (\<forall>C. prioritized_set all_items \<subseteq> C \<and> (\<forall>x \<in> C. set (preds_of preds x) \<subseteq> C) \<longrightarrow> set (front_of all_items preds) \<subseteq> C)"
    using front_loop_closure[of "rev ?f" ?f preds] unfolding loop[symmetric] f set_rev by simp
  show "prioritized_set all_items \<subseteq> set (front_of all_items preds)" using c by simp
  show "\<lbrakk>(x, y) \<in> pred_edges preds; x \<in> set (front_of all_items preds)\<rbrakk> \<Longrightarrow> y \<in> set (front_of all_items preds)"
    using c by (auto simp: pred_edges_def)
  show "\<lbrakk>prioritized_set all_items \<subseteq> C; \<And>x y. \<lbrakk>(x, y) \<in> pred_edges preds; x \<in> C\<rbrakk> \<Longrightarrow> y \<in> C\<rbrakk>
      \<Longrightarrow> set (front_of all_items preds) \<subseteq> C"
    using c unfolding pred_edges_def by blast
qed

interpretation front: closure_loop "\<lambda>_. True" "\<lambda>(all_items, preds). pred_edges preds"
  "\<lambda>(all_items, preds). prioritized_set all_items" "\<lambda>(all_items, preds). set (front_of all_items preds)"
proof (unfold_locales, goal_cases)
  case (1 i)
  then show ?case using front_of_closure(1) by (cases i) simp
next
  case (2 i x y)
  then show ?case using front_of_closure(2) by (cases i) simp
next
  case (3 i C)
  then show ?case using front_of_closure(3) by (cases i) simp
qed

text \<open>
  The front of the queue is exactly the queued priority changes and everything that one of them
  must land after, directly or through other changes.
\<close>

theorem front_exact:
  "x \<in> set (front_of all_items (ds_preds (plan_ds debug now base all_items p))) \<longleftrightarrow>
     (\<exists>y \<in> prioritized_set all_items. (x, y) \<in> (plan_deps all_items p)\<^sup>*)"
proof -
  have "pred_edges (ds_preds (plan_ds debug now base all_items p)) = (plan_deps all_items p)\<inverse>"
    by (auto simp: pred_edges_def plan_preds)
  then show ?thesis
    using front.marked_iff[of x "(all_items, ds_preds (plan_ds debug now base all_items p))"]
    by (simp add: rtrancl_converse)
qed

section \<open>Path patterns\<close>

lemma split_from_not_Nil: "split_from skip ws s \<noteq> []"
  by (induction skip ws s rule: split_from.induct) (auto split: option.splits list.splits)

text \<open>
  The declarative reading of the parts of a pattern after the first: the text is any filler, the part,
  any filler, the next part, and so on, and ends with the last part.
\<close>

fun fits :: "string list \<Rightarrow> string \<Rightarrow> bool" where
  "fits [] s \<longleftrightarrow> s = []"
| "fits (part # parts) s \<longleftrightarrow> (\<exists>filler rest. s = filler @ part @ rest \<and> fits parts rest)"

lemma split_once_at_first:
  "split_once_at pat s = Some (a, b) \<Longrightarrow> s = a @ pat @ b \<and> (\<forall>w r. s = w @ pat @ r \<longrightarrow> suffix r b)"
proof (induction s arbitrary: a)
  case Nil
  then show ?case by (auto split: if_splits)
next
  case (Cons c s)
  show ?case
  proof (cases "prefix pat (c # s)")
    case True
    then obtain t where t: "c # s = pat @ t" by (auto simp: prefix_def)
    have "split_once_at pat (c # s) = Some ([], drop (length pat) (c # s))" using True by simp
    then have ab: "a = []" "b = t" using Cons.prems by (simp_all add: t)
    have "suffix r t" if "c # s = w @ pat @ r" for w r
    proof -
      have eq: "w @ pat @ r = pat @ t" using that t by simp
      then have "length w + length r = length t" by (metis add_left_cancel add.left_commute length_append)
      moreover have "suffix r (w @ pat @ r)" by (simp add: suffix_def)
      then have "suffix r (pat @ t)" using eq by simp
      moreover have "suffix t (pat @ t)" by (simp add: suffix_def)
      ultimately have "suffix r (pat @ t)" "suffix t (pat @ t)" "length r \<le> length t" by simp_all
      then show ?thesis using suffix_length_suffix by blast
    qed
    then show ?thesis using ab t by auto
  next
    case False
    then obtain a' where a: "a = c # a'" "split_once_at pat s = Some (a', b)" using Cons.prems by auto
    from Cons.IH[OF a(2)] have IH: "s = a' @ pat @ b" "\<And>w r. s = w @ pat @ r \<Longrightarrow> suffix r b" by auto
    have "suffix r b" if "c # s = w @ pat @ r" for w r
      using that False IH(2) by (cases w) (auto simp: prefix_def)
    then show ?thesis using a IH(1) by auto
  qed
qed

lemma fits_suffix: "parts \<noteq> [] \<Longrightarrow> fits parts r \<Longrightarrow> suffix r b \<Longrightarrow> fits parts b"
  by (cases parts) (auto simp: suffix_def, metis append_assoc)

lemma match_parts_fits: "match_parts parts s \<longleftrightarrow> fits parts s"
proof (induction parts s rule: match_parts.induct)
  case (2 part rest)
  then show ?case by (auto simp: suffix_def)
next
  case (3 part q parts rest)
  show ?case
  proof (cases "split_once_at part rest")
    case None
    then have "\<not> sublist part rest" by (simp add: split_once_at_None str_contains_iff)
    then show ?thesis using None by (auto simp: sublist_def)
  next
    case (Some ab)
    obtain a b where ab: "split_once_at part rest = Some (a, b)" using Some by (cases ab) simp
    have split: "rest = a @ part @ b" "\<And>w r. rest = w @ part @ r \<Longrightarrow> suffix r b"
      using split_once_at_first[OF ab] by auto
    have "fits (part # q # parts) rest \<longleftrightarrow> fits (q # parts) b"
      using split fits_suffix[of "q # parts" _ b] by (metis fits.simps(2) list.distinct(1))
    then show ?thesis using 3[OF ab refl] ab by simp
  qed
qed simp

text \<open>
  Matching a path against a pattern with wildcards is exact: the leftmost matching of the parts
  accepts a path exactly when some choice of fillers for the wildcards spells it; a pattern that ends
  with a slash accepts exactly what is below that directory, and any other one only itself.
\<close>

theorem path_matches_exact:
  "path_matches pat path \<longleftrightarrow>
     (if suffix ''/'' pat then prefix pat path
      else if CHR ''*'' \<notin> set pat then path = pat
      else (\<exists>rest. path = hd (split_of [''*''] pat) @ rest \<and> fits (tl (split_of [''*''] pat)) rest))"
proof (cases "strip_suffix pat ''/''")
  case (Some dir)
  then have "pat = dir @ ''/''" by (simp add: strip_suffix_Some)
  then show ?thesis by (simp add: path_matches_def)
next
  case None
  then have no: "\<not> suffix ''/'' pat" by (simp add: strip_suffix_def split: if_splits)
  obtain part parts where ps: "split_of [''*''] pat = part # parts"
    by (cases "split_of [''*''] pat") (simp_all add: split_of_def split_from_not_Nil)
  have "(case strip_prefix path part of Some rest \<Rightarrow> match_parts parts rest | None \<Rightarrow> False)
      \<longleftrightarrow> (\<exists>rest. path = part @ rest \<and> fits parts rest)"
    by (auto simp: match_parts_fits strip_prefix_Some split: option.splits)
  then show ?thesis using None no ps by (auto simp: path_matches_def)
qed

end
