(* ===== verification/Queue_Render.thy ===== *)
theory Queue_Render
  imports Planner_Schedule Queue_Plan
begin

text \<open>
  Conflict clusters and the rendering of a plan (end of \<open>merge-queue/src/plan.rs\<close>). The clusters use
  the component builder of the landing planner (\<open>connected_components\<close>).
\<close>

definition clusters :: "queue_plan \<Rightarrow> int list list" where
  "clusters plan =
     filter (\<lambda>component. 1 < length component)
       (connected_components (map pi_pr (pl_items plan))
         (map (\<lambda>e. \<lparr>ce_a = cf_a e, ce_b = cf_b e, ce_paths = cf_paths e\<rparr>) (pl_conflicts plan)))"

definition render_member :: "(int, planned_item) btree_map \<Rightarrow> int \<Rightarrow> string" where
  "render_member by_pr pr =
     (case bt_get by_pr pr of
        Some it \<Rightarrow> ''#'' @ dec_int pr @ '' ('' @ (if pi_prioritized it then ''priority, '' else [])
          @ ''p'' @ dec_int (pi_priority it) @ '', '' @ dec_nat (pi_files it) @ '' files)''
      | None \<Rightarrow> [])"

definition render_batch :: "(int, planned_item) btree_map \<Rightarrow> planned_batch \<Rightarrow> string" where
  "render_batch by_pr b =
     ''  batch '' @ dec_nat (pb_index b + 1) @ '': '' @ str_join '', '' (map (render_member by_pr) (pb_prs b))
     @ (if pb_note b = [] then [] else ''  ['' @ pb_note b @ '']'') @ [CHR 0x0A]"

definition render_plan :: "queue_plan \<Rightarrow> string" where
  "render_plan plan =
     (let by_pr = bt_collect (map (\<lambda>it. (pi_pr it, it)) (pl_items plan))
      in ''Plan for '' @ pl_base plan @ '' @ '' @ short (pl_base_sha plan) @ '': ''
         @ dec_nat (length (pl_items plan)) @ '' queued, ''
         @ dec_nat (sum_list (map (\<lambda>b. length (pb_prs b)) (pl_batches plan))) @ '' landable in ''
         @ dec_nat (length (pl_batches plan)) @ '' batch(es), '' @ dec_nat (length (pl_held plan)) @ '' held''
         @ [CHR 0x0A]
         @ concat (map (render_batch by_pr) (pl_batches plan))
         @ (if pl_held plan = [] then [] else
              ''Held:'' @ [CHR 0x0A] @ concat (map (\<lambda>h. ''  #'' @ dec_int (he_pr h) @ '' '' @ he_kind h
                @ '': '' @ he_reason h @ [CHR 0x0A]) (pl_held plan)))
         @ (if clusters plan = [] then [] else
              ''Conflict clusters:'' @ [CHR 0x0A]
              @ concat (map (\<lambda>c. ''  '' @ pr_list c @ [CHR 0x0A]) (clusters plan)))
         @ (if pl_suggest_priority plan = [] then [] else
              ''Suggested priority label (changes only CI paths; never applied by the queue): ''
              @ pr_list (pl_suggest_priority plan) @ [CHR 0x0A]))"

definition plan_edges :: "queue_plan \<Rightarrow> conflict_edge list" where
  "plan_edges plan = map (\<lambda>e. \<lparr>ce_a = cf_a e, ce_b = cf_b e, ce_paths = cf_paths e\<rparr>) (pl_conflicts plan)"

text \<open>
  The clusters of a plan are exactly the classes with at least two members of the relation
  "connected by conflicts between queued changes": a cluster is such a class in ascending order, and
  two different queued changes that conflict are in one cluster.
\<close>

theorem clusters_exact:
  fixes plan :: queue_plan
  defines "R \<equiv> conflict_rel (set (map pi_pr (pl_items plan))) (plan_edges plan)"
  shows "(\<forall>c \<in> set (clusters plan). 2 \<le> length c \<and> sorted_wrt (<) c \<and> (\<forall>x \<in> set c. set c = R\<^sup>* `` {x}))
    \<and> distinct (concat (clusters plan))
    \<and> (\<forall>x y. (x, y) \<in> R \<and> x \<noteq> y \<longrightarrow> (\<exists>c \<in> set (clusters plan). x \<in> set c \<and> y \<in> set c))"
proof -
  let ?comps = "connected_components (map pi_pr (pl_items plan)) (plan_edges plan)"
  have cl: "clusters plan = filter (\<lambda>c. 1 < length c) ?comps" by (simp add: clusters_def plan_edges_def)
  note facts = connected_components_facts[of "map pi_pr (pl_items plan)" "plan_edges plan", folded R_def]
  have big: "\<exists>c \<in> set (clusters plan). x \<in> set c \<and> y \<in> set c" if xy: "(x, y) \<in> R" "x \<noteq> y" for x y
  proof -
    have "x \<in> set (concat ?comps)" using xy facts by (auto simp: R_def conflict_rel_def)
    then obtain c where c: "c \<in> set ?comps" "x \<in> set c" by auto
    then have "set c = R\<^sup>* `` {x}" using facts by blast
    then have y: "y \<in> set c" using xy(1) by auto
    have "\<not> length c \<le> 1"
    proof
      assume "length c \<le> 1"
      then obtain z where "c = [z]" using c(2) by (cases c) auto
      then show False using c(2) y xy(2) by auto
    qed
    then show ?thesis using c y by (auto simp: cl)
  qed
  have "distinct (concat (filter P cs))" if "distinct (concat cs)" for P and cs :: "int list list"
    using that by (induction cs) auto
  then have "distinct (concat (clusters plan))" using facts by (simp add: cl)
  moreover have "\<forall>c \<in> set (clusters plan). 2 \<le> length c \<and> sorted_wrt (<) c \<and> (\<forall>x \<in> set c. set c = R\<^sup>* `` {x})"
    using facts unfolding cl by auto
  ultimately show ?thesis using big by blast
qed

definition sample_clusters_plan :: queue_plan where
  "sample_clusters_plan =
     (let row = (\<lambda>pr. \<lparr>pi_pr = pr, pi_head = ''c'', pi_priority = 0, pi_submitted_at = [], pi_files = 1,
            pi_conflict_degree = 1, pi_prioritized = False, pi_peripheral = False, pi_peripheral_source = []\<rparr>)
      in \<lparr>pl_schema = PLAN_SCHEMA, pl_created_at = [], pl_base = ''main'', pl_base_sha = ''b0'',
          pl_items = map row [1, 2, 3], pl_batches = [], pl_held = [],
          pl_conflicts = [\<lparr>cf_a = 1, cf_b = 3, cf_paths = [''f'']\<rparr>], pl_dependencies = [],
          pl_suggest_priority = [], pl_prior_conflicts = []\<rparr>)"

theorem clusters_exact_witness:
  "clusters sample_clusters_plan = [[1, 3]]
   \<and> set [1, 3] = (conflict_rel {1, 2, 3} (plan_edges sample_clusters_plan))\<^sup>* `` {1}"
proof -
  have c: "clusters sample_clusters_plan = [[1, 3]]" by code_simp
  have items: "set (map pi_pr (pl_items sample_clusters_plan)) = {1, 2, 3}"
    by (simp add: sample_clusters_plan_def Let_def)
  have "set [1, 3] = (conflict_rel {1, 2, 3} (plan_edges sample_clusters_plan))\<^sup>* `` {1}"
    using clusters_exact[of sample_clusters_plan] unfolding c items by simp
  with c show ?thesis by (rule conjI)
qed

end
