(* ===== verification/Queue_Recount.thy ===== *)
theory Queue_Recount
  imports Queue_Tests
begin

text \<open>
  Recounting the generated count pins of a merged batch (\<open>merge-queue/src/recount.rs\<close>): the scanner of
  the pin file, the deltas of a change, declared decreases, the values of the batch, and the rewriting
  of the numbers. A text is its bytes; the scanner's index is the length of what it has consumed, so a
  loop over an index is a recursion over the rest of the text. Counts are \<open>u64\<close> (\<open>nat\<close>), deltas are
  \<open>i64\<close> (\<open>int\<close> with the wrap-around of a release build); refusals are constructors of \<open>recount_error\<close>.
\<close>

section \<open>The pin file\<close>

definition PIN_PATH :: string where
  "PIN_PATH = ''ci/manifest-plan/src/validation_dag_static.rs''"

record pin =
  pin_name :: string
  pin_value :: nat

record pin_file =
  pf_pins :: "pin list"
  pf_spans :: "(nat \<times> nat) list"

abbreviation quote_char :: char where "quote_char \<equiv> CHR 0x22"

abbreviation backslash_char :: char where "backslash_char \<equiv> CHR 0x5C"

definition is_ascii_whitespace :: "char \<Rightarrow> bool" where
  "is_ascii_whitespace c \<longleftrightarrow> c \<in> {CHR 0x20, CHR 0x09, CHR 0x0A, CHR 0x0C, CHR 0x0D}"

definition is_u64 :: "nat \<Rightarrow> bool" where
  "is_u64 n \<longleftrightarrow> int n < 18446744073709551616"

definition parse_u64_or_zero :: "string \<Rightarrow> nat" where
  "parse_u64_or_zero s = (case parse_digits s of Some n \<Rightarrow> if is_u64 n then n else 0 | None \<Rightarrow> 0)"

text \<open>The length of the name up to its closing quote; a backslash takes the next byte with it.\<close>

fun scan_name :: "string \<Rightarrow> nat option" where
  "scan_name [] = None"
| "scan_name (c # s) =
     (if c = quote_char then Some 0
      else if c = backslash_char then
        (case s of [] \<Rightarrow> None | _ # s' \<Rightarrow> map_option (\<lambda>n. n + 2) (scan_name s'))
      else map_option Suc (scan_name s))"

text \<open>After the closing quote: a comma, white space, digits and a closing parenthesis.\<close>

definition scan_count :: "string \<Rightarrow> (nat \<times> nat) option" where
  "scan_count s =
     (case s of
        [] \<Rightarrow> None
      | c # s \<Rightarrow>
          if c \<noteq> CHR '','' then None
          else let ws = takeWhile is_ascii_whitespace s;
                   ds = takeWhile is_ascii_digit (dropWhile is_ascii_whitespace s);
                   rest = dropWhile is_ascii_digit (dropWhile is_ascii_whitespace s)
               in if ds = [] \<or> rest = [] \<or> hd rest \<noteq> CHR '')'' then None
                  else Some (length ws, length ds))"

text \<open>An entry at the start of the text: its name, where its number is and how long, and where it ends.\<close>

definition parse_one :: "string \<Rightarrow> (string \<times> nat \<times> nat \<times> nat) option" where
  "parse_one s =
     (let body = drop 2 s
      in case scan_name body of
           None \<Rightarrow> None
         | Some n \<Rightarrow> (case scan_count (drop (n + 1) body) of
             None \<Rightarrow> None
           | Some (w, d) \<Rightarrow>
               let num_at = 2 + n + 1 + 1 + w in Some (take n body, num_at, d, num_at + d + 1)))"

definition opens_entry :: "string \<Rightarrow> bool" where
  "opens_entry s \<longleftrightarrow> prefix [CHR ''('', quote_char] s"

function scan_pins :: "nat \<Rightarrow> string \<Rightarrow> (pin \<times> nat \<times> nat) list" where
  "scan_pins i s =
     (if length s < 2 then []
      else case (if opens_entry s then parse_one s else None) of
          Some (name, num_at, num_len, next_at) \<Rightarrow>
            (\<lparr>pin_name = name, pin_value = parse_u64_or_zero (take num_len (drop num_at s))\<rparr>,
             i + num_at, i + num_at + num_len) # scan_pins (i + next_at) (drop next_at s)
        | None \<Rightarrow> scan_pins (i + 1) (drop 1 s))"
  by pat_completeness auto
termination
proof (relation "measure (\<lambda>(i, s). length s)", goal_cases)
  case (3 i s p name q num_at r num_len next_at)
  then have "0 < next_at" by (auto simp: parse_one_def Let_def split: option.splits prod.splits if_splits)
  with 3 show ?case by simp
qed auto

declare scan_pins.simps [simp del]

definition parse_pins :: "string \<Rightarrow> pin_file" where
  "parse_pins text = \<lparr>pf_pins = map fst (scan_pins 0 text), pf_spans = map snd (scan_pins 0 text)\<rparr>"

section \<open>Keys\<close>

type_synonym pin_key = "string \<times> nat"

fun keys_from :: "(string, nat) btree_map \<Rightarrow> pin list \<Rightarrow> pin_key list" where
  "keys_from seen [] = []"
| "keys_from seen (p # pins) =
     (let index = (case bt_get seen (pin_name p) of Some n \<Rightarrow> n | None \<Rightarrow> 0)
      in (pin_name p, index) # keys_from (bt_insert (pin_name p) (index + 1) seen) pins)"

definition pin_keys :: "pin list \<Rightarrow> pin_key list" where
  "pin_keys pins = keys_from [] pins"

definition by_key :: "pin list \<Rightarrow> (pin_key, nat) btree_map" where
  "by_key pins = bt_collect (zip (pin_keys pins) (map pin_value pins))"

definition has_conflict_markers :: "string \<Rightarrow> bool" where
  "has_conflict_markers text =
     list_ex (\<lambda>line. starts_with line ''<<<<<<< '' \<or> starts_with line ''>>>>>>> '') (str_lines text)"

definition pin_values :: "string option \<Rightarrow> (pin_key, nat) btree_map" where
  "pin_values text = (case text of Some t \<Rightarrow> by_key (pf_pins (parse_pins t)) | None \<Rightarrow> [])"

section \<open>The deltas of a change\<close>

datatype pin_version = AtBase | AtMergeBase | AtHead

datatype recount_error =
    PinFileMissing pin_version
  | OccurrenceMismatch string nat nat nat
  | DecreaseMismatch pin_key int nat
  | DecreaseUndeclared pin_key int "string list"

type_synonym pin_deltas = "(pin_key, int) btree_map"

definition u64_as_i64 :: "nat \<Rightarrow> int" where
  "u64_as_i64 n = wrap64 (int n)"

definition add_name :: "pin \<Rightarrow> string list \<Rightarrow> string list" where
  "add_name p names = (if pin_name p \<in> set names then names else names @ [pin_name p])"

definition occurrence_count :: "string \<Rightarrow> pin list \<Rightarrow> nat" where
  "occurrence_count name pins = length (filter (\<lambda>p. pin_name p = name) pins)"

definition occurrences :: "string \<Rightarrow> (pin_key, nat) btree_map \<Rightarrow> nat \<Rightarrow> nat list" where
  "occurrences name m n =
     map (\<lambda>index. case bt_get m (name, index) of Some v \<Rightarrow> v | None \<Rightarrow> 0) [0 ..< n]"

definition insert_all :: "(pin_key \<times> int) list \<Rightarrow> pin_deltas \<Rightarrow> pin_deltas" where
  "insert_all kvs m = fold (\<lambda>(k, v). bt_insert k v) kvs m"

definition name_deltas ::
  "pin list \<Rightarrow> pin list \<Rightarrow> pin list \<Rightarrow> string \<Rightarrow> recount_error + (pin_key \<times> int) list" where
  "name_deltas base_pins mb_pins head_pins name =
     (let b = occurrence_count name base_pins; m = occurrence_count name mb_pins;
          h = occurrence_count name head_pins;
          mb_values = occurrences name (by_key mb_pins) m;
          head_values = occurrences name (by_key head_pins) h
      in if m = h \<and> mb_values = head_values then Inr []
         else if b = m \<and> m = h
         then Inr (filter (\<lambda>(k, delta). delta \<noteq> 0)
           (map (\<lambda>(index, mb_value, head_value).
               ((name, index), wrap64 (u64_as_i64 head_value - u64_as_i64 mb_value)))
             (zip [0 ..< h] (zip mb_values head_values))))
         else if b = 0 \<and> m = 0
         then Inr (map (\<lambda>(index, head_value). ((name, index), u64_as_i64 head_value)) (zip [0 ..< h] head_values))
         else Inl (OccurrenceMismatch name b m h))"

fun delta_loop ::
  "pin list \<Rightarrow> pin list \<Rightarrow> pin list \<Rightarrow> string list \<Rightarrow> pin_deltas \<Rightarrow> recount_error + pin_deltas" where
  "delta_loop base_pins mb_pins head_pins [] deltas = Inr deltas"
| "delta_loop base_pins mb_pins head_pins (name # names) deltas =
     (case name_deltas base_pins mb_pins head_pins name of
        Inl e \<Rightarrow> Inl e
      | Inr kvs \<Rightarrow> delta_loop base_pins mb_pins head_pins names (insert_all kvs deltas))"

definition pin_deltas_of :: "pin list \<Rightarrow> pin list \<Rightarrow> pin list \<Rightarrow> recount_error + pin_deltas" where
  "pin_deltas_of base_pins mb_pins head_pins =
     delta_loop base_pins mb_pins head_pins (fold add_name (base_pins @ mb_pins @ head_pins) []) []"

definition change_deltas ::
  "string option \<Rightarrow> string option \<Rightarrow> string option \<Rightarrow> recount_error + pin_deltas" where
  "change_deltas base mergebase head =
     (let text = (\<lambda>t. case t of Some t \<Rightarrow> t | None \<Rightarrow> [])
      in if text head = text mergebase then Inr []
         else case (base, mergebase, head) of
            (Some b, Some m, Some h) \<Rightarrow>
              pin_deltas_of (pf_pins (parse_pins b)) (pf_pins (parse_pins m)) (pf_pins (parse_pins h))
          | _ \<Rightarrow> Inl (PinFileMissing
              (if base = None then AtBase else if mergebase = None then AtMergeBase else AtHead)))"

section \<open>Declared decreases\<close>

definition DECREASE_TRAILER :: string where "DECREASE_TRAILER = ''Count-Pin-Decrease''"

record decrease =
  dc_name :: string
  dc_occurrence :: nat
  dc_amount :: nat
  dc_reason :: string

text \<open>\<open>splitn(3, char::is_whitespace)\<close>: the text before the first and the second white-space character.\<close>

fun cut_white :: "nat \<Rightarrow> string \<Rightarrow> string \<times> string option" where
  "cut_white skip [] = ([], if skip = 0 then None else Some [])"
| "cut_white skip (c # s) =
     (if 0 < skip then (if skip = 1 then ([], Some s) else cut_white (skip - 1) s)
      else case first_match unicode_whitespace (c # s) of
        Some w \<Rightarrow> (if length w = 1 then ([], Some s) else cut_white (length w - 1) s)
      | None \<Rightarrow> (case cut_white 0 s of (p, r) \<Rightarrow> (c # p, r)))"

definition splitn3 :: "string \<Rightarrow> string \<times> (string \<times> string option) option" where
  "splitn3 s =
     (case cut_white 0 s of
        (a, None) \<Rightarrow> (a, None)
      | (a, Some r) \<Rightarrow> (case cut_white 0 r of (b, rest) \<Rightarrow> (a, Some (b, rest))))"

text \<open>\<open>rsplit_once(':')\<close>: at the last colon.\<close>

definition rsplit_once :: "char \<Rightarrow> string \<Rightarrow> (string \<times> string) option" where
  "rsplit_once d s = map_option (\<lambda>(a, b). (rev b, rev a)) (split_once d (rev s))"

text \<open>\<open>str::parse::<usize>\<close>: an optional plus sign, at least one digit, a value of 64 bits.\<close>

definition parse_usize :: "string \<Rightarrow> nat option" where
  "parse_usize s =
     (let ds = (case s of c # r \<Rightarrow> if c = CHR ''+'' then r else s | [] \<Rightarrow> s)
      in case parse_digits ds of Some n \<Rightarrow> if is_u64 n then Some n else None | None \<Rightarrow> None)"

definition parse_decrease :: "string \<Rightarrow> decrease option" where
  "parse_decrease v =
     (case splitn3 (str_trim v) of
        (pn, Some (amount, Some reason)) \<Rightarrow>
          if str_trim reason = [] then None
          else let (name, occurrence) = (case rsplit_once CHR '':'' pn of
                       Some (name, index) \<Rightarrow> (name, parse_usize index)
                     | None \<Rightarrow> (pn, Some 0))
               in (case (occurrence, parse_i64 amount) of
                     (Some occurrence, Some amount) \<Rightarrow>
                       if amount \<noteq> 0 \<and> name \<noteq> [] then
                         Some \<lparr>dc_name = name, dc_occurrence = occurrence, dc_amount = nat \<bar>amount\<bar>,
                               dc_reason = str_trim reason\<rparr>
                       else None
                   | _ \<Rightarrow> None)
      | _ \<Rightarrow> None)"

definition trailer_step :: "string \<Rightarrow> decrease list \<times> string list \<Rightarrow> decrease list \<times> string list" where
  "trailer_step line = (\<lambda>(declared, unreadable).
     case split_once CHR '':'' line of
       None \<Rightarrow> (declared, unreadable)
     | Some (key, v) \<Rightarrow>
         if to_ascii_lowercase (str_trim key) \<noteq> to_ascii_lowercase DECREASE_TRAILER then (declared, unreadable)
         else case parse_decrease v of
             Some d \<Rightarrow> (declared @ [d], unreadable)
           | None \<Rightarrow> (declared, unreadable @ [line]))"

definition declared_decreases :: "string \<Rightarrow> decrease list \<times> string list" where
  "declared_decreases message = fold trailer_step (map str_trim (str_lines message)) ([], [])"

definition subtract_one :: "pin_key \<times> int \<Rightarrow> pin_deltas \<Rightarrow> pin_deltas" where
  "subtract_one = (\<lambda>(k, d) m.
     bt_insert k (wrap64 ((case bt_get m k of Some v \<Rightarrow> v | None \<Rightarrow> 0) - d)) m)"

definition subtract :: "pin_deltas \<Rightarrow> pin_deltas \<Rightarrow> pin_deltas" where
  "subtract delta earlier = filter (\<lambda>(k, d). d \<noteq> 0) (fold subtract_one earlier delta)"

definition declared_for :: "decrease list \<Rightarrow> pin_key \<Rightarrow> decrease option" where
  "declared_for declared k =
     find (\<lambda>d. dc_name d = fst k \<and> dc_occurrence d = snd k) declared"

fun check_decreases ::
  "pin_deltas \<Rightarrow> decrease list \<Rightarrow> string list \<Rightarrow> decrease list \<Rightarrow> recount_error + decrease list" where
  "check_decreases [] declared unreadable honoured = Inr honoured"
| "check_decreases ((k, d) # delta) declared unreadable honoured =
     (if 0 \<le> d then check_decreases delta declared unreadable honoured
      else case declared_for declared k of
          Some dc \<Rightarrow>
            if dc_amount dc = nat \<bar>d\<bar> then check_decreases delta declared unreadable (honoured @ [dc])
            else Inl (DecreaseMismatch k d (dc_amount dc))
        | None \<Rightarrow> Inl (DecreaseUndeclared k d unreadable))"

section \<open>The values of the batch\<close>

definition add_delta :: "pin_key \<times> int \<Rightarrow> (pin_key, int) btree_map \<Rightarrow> (pin_key, int) btree_map" where
  "add_delta = (\<lambda>(k, d) m.
     bt_insert k (wrap64 ((case bt_get m k of Some v \<Rightarrow> v | None \<Rightarrow> 0) + d)) m)"

definition candidate_values :: "pin list \<Rightarrow> pin_deltas list \<Rightarrow> (pin_key, nat) btree_map" where
  "candidate_values base_pins deltas =
     map (\<lambda>(k, v). (k, nat (max v 0)))
       (fold (fold add_delta) deltas (map (\<lambda>(k, v). (k, u64_as_i64 v)) (by_key base_pins)))"

definition replace_range :: "nat \<times> nat \<Rightarrow> string \<Rightarrow> string \<Rightarrow> string" where
  "replace_range = (\<lambda>(a, b) new s. take a s @ new @ drop b s)"

definition rewrite_entry ::
  "(pin_key, nat) btree_map \<Rightarrow> pin_key \<times> nat \<times> nat \<Rightarrow> string \<Rightarrow> string" where
  "rewrite_entry vals = (\<lambda>(k, span) out.
     case bt_get vals k of Some v \<Rightarrow> replace_range span (dec_nat v) out | None \<Rightarrow> out)"

definition rewrite_pins :: "string \<Rightarrow> (pin_key, nat) btree_map \<Rightarrow> string" where
  "rewrite_pins text vals =
     (let parsed = parse_pins text
      in fold (rewrite_entry vals) (rev (zip (pin_keys (pf_pins parsed)) (pf_spans parsed))) text)"

end
