(* ===== verification/Queue_Recount_Spec.thy ===== *)
theory Queue_Recount_Spec
  imports Queue_Recount
begin

text \<open>
  What recounting promises (\<open>merge-queue/src/recount.rs\<close>): the values of a batch are the base values
  plus the sum of the changes' deltas, in any order; the deltas of a change are what it did to each
  pin; an undeclared decrease is refused.
\<close>

section \<open>Wrapped sums\<close>

lemma wrap64_mod: "x mod 18446744073709551616 = y mod 18446744073709551616 \<Longrightarrow> wrap64 x = wrap64 y"
  unfolding wrap64_def by (drule mod_add_cong[OF _ refl, of _ _ _ 9223372036854775808]) simp

lemma wrap64_add_left [simp]: "wrap64 (wrap64 x + y) = wrap64 (x + y)"
proof (rule wrap64_mod)
  have "(wrap64 x + y) mod 18446744073709551616 =
      ((x + 9223372036854775808) mod 18446744073709551616 + (y - 9223372036854775808)) mod 18446744073709551616"
    by (simp add: wrap64_def algebra_simps)
  also have "\<dots> = ((x + 9223372036854775808) + (y - 9223372036854775808)) mod 18446744073709551616"
    by (rule mod_add_left_eq)
  finally show "(wrap64 x + y) mod 18446744073709551616 = (x + y) mod 18446744073709551616" by simp
qed

definition or_zero :: "'a::zero option \<Rightarrow> 'a" where
  "or_zero x = (case x of Some v \<Rightarrow> v | None \<Rightarrow> 0)"

definition delta_sum :: "pin_key \<Rightarrow> (pin_key \<times> int) list \<Rightarrow> int" where
  "delta_sum k kds = sum_list (map snd (filter (\<lambda>(k', d). k' = k) kds))"

lemma add_delta_get:
  "bt_ok m \<Longrightarrow> bt_get (add_delta (k', d) m) k =
     (if k = k' then Some (wrap64 (or_zero (bt_get m k) + d)) else bt_get m k)"
  by (simp add: add_delta_def bt_get_insert or_zero_def)

lemma bt_ok_add_delta [bt_invar]: "bt_ok m \<Longrightarrow> bt_ok (add_delta kd m)"
  by (cases kd) (simp add: add_delta_def bt_ok_insert)

definition wrapped :: "(pin_key, int) btree_map \<Rightarrow> bool" where
  "wrapped m \<longleftrightarrow> (\<forall>k v. bt_get m k = Some v \<longrightarrow> wrap64 v = v)"

lemma add_deltas_get:
  assumes "bt_ok m" and "wrapped m"
  shows "bt_ok (fold add_delta kds m)
    \<and> bt_get (fold add_delta kds m) k =
       (if bt_has m k \<or> k \<in> fst ` set kds then Some (wrap64 (or_zero (bt_get m k) + delta_sum k kds)) else None)"
  using assms
proof (induction kds arbitrary: m)
  case Nil
  then show ?case by (cases "bt_get m k") (simp_all add: bt_has_def or_zero_def delta_sum_def wrapped_def del: split_paired_All)
next
  case (Cons kd kds)
  obtain k' d where kd: "kd = (k', d)" by (cases kd)
  let ?m = "add_delta kd m"
  have get: "bt_get ?m x = (if x = k' then Some (wrap64 (or_zero (bt_get m x) + d)) else bt_get m x)" for x
    using Cons.prems(1) by (simp add: kd add_delta_get)
  have "wrapped ?m" using Cons.prems(2) unfolding wrapped_def get by (auto split: if_splits)
  from Cons.IH[of ?m, OF bt_ok_add_delta[OF Cons.prems(1)] this]
  have IH: "bt_ok (fold add_delta kds ?m)"
    "bt_get (fold add_delta kds ?m) k =
       (if bt_has ?m k \<or> k \<in> fst ` set kds then Some (wrap64 (or_zero (bt_get ?m k) + delta_sum k kds)) else None)"
    by blast+
  show ?case
  proof (cases "k = k'")
    case True
    then have "or_zero (bt_get ?m k) = wrap64 (or_zero (bt_get m k) + d)" by (simp add: get or_zero_def)
    then show ?thesis using IH True get[of k]
      by (simp add: kd bt_has_def delta_sum_def add.assoc)
  next
    case False
    then show ?thesis using IH get[of k] by (auto simp: kd bt_has_def delta_sum_def)
  qed
qed

lemma bt_get_map_value: "bt_get (map (\<lambda>(k, v). (k, f v)) m) k = map_option f (bt_get m k)"
  by (induction m) (auto simp: bt_get_def)

lemma bt_ok_map_value: "bt_ok (map (\<lambda>(k, v). (k, f v)) m) \<longleftrightarrow> bt_ok m"
  by (simp add: bt_ok_def comp_def case_prod_beta)

lemma bt_ok_by_key [simp]: "bt_ok (by_key pins)"
  by (simp add: by_key_def)

lemma fold_concat: "fold (fold f) xss x = fold f (concat xss) x"
  by (induction xss arbitrary: x) simp_all

lemma delta_sum_ok: "bt_ok d \<Longrightarrow> delta_sum k d = or_zero (bt_get d k)"
proof (induction d)
  case Nil
  then show ?case by (simp add: delta_sum_def or_zero_def)
next
  case (Cons kd d)
  obtain k' v where kd: "kd = (k', v)" by (cases kd)
  have d: "bt_ok d" "\<forall>x \<in> fst ` set d. k' < x" using Cons.prems by (auto simp: bt_ok_def kd)
  show ?case
  proof (cases "k' = k")
    case True
    then have "k \<notin> fst ` set d" using d(2) by auto
    then have "filter (\<lambda>(k', d). k' = k) d = []" by (force simp: filter_empty_conv)
    then show ?thesis using True by (simp add: kd delta_sum_def or_zero_def bt_get_def)
  next
    case False
    then show ?thesis using Cons.IH[OF d(1)] by (simp add: kd delta_sum_def bt_get_def)
  qed
qed

lemma delta_sum_concat: "delta_sum k (concat ds) = (\<Sum>d\<leftarrow>ds. delta_sum k d)"
  by (induction ds) (simp_all add: delta_sum_def)

lemma candidate_get:
  assumes "list_all bt_ok ds"
  shows "bt_get (candidate_values base_pins ds) k =
    (if bt_has (by_key base_pins) k \<or> list_ex (\<lambda>d. bt_has d k) ds
     then Some (nat (max (wrap64 (int (or_zero (bt_get (by_key base_pins) k)) + (\<Sum>d\<leftarrow>ds. or_zero (bt_get d k)))) 0))
     else None)"
proof -
  let ?m = "map (\<lambda>(k, v). (k, u64_as_i64 v)) (by_key base_pins)"
  have m: "bt_get ?m x = map_option u64_as_i64 (bt_get (by_key base_pins) x)" for x by (rule bt_get_map_value)
  have "wrapped ?m" unfolding wrapped_def m by (auto simp: u64_as_i64_def)
  from add_deltas_get[of ?m, OF _ this, of "concat ds" k]
  have get: "bt_get (fold add_delta (concat ds) ?m) k =
      (if bt_has ?m k \<or> k \<in> fst ` set (concat ds)
       then Some (wrap64 (or_zero (bt_get ?m k) + delta_sum k (concat ds))) else None)"
    by (simp add: bt_ok_map_value)
  have "or_zero (bt_get ?m k) = wrap64 (int (or_zero (bt_get (by_key base_pins) k)))"
    unfolding m by (cases "bt_get (by_key base_pins) k") (simp_all add: or_zero_def u64_as_i64_def i64_defs)
  moreover have "delta_sum k (concat ds) = (\<Sum>d\<leftarrow>ds. or_zero (bt_get d k))"
    using assms delta_sum_ok[of _ k]
    by (auto simp: delta_sum_concat list_all_iff intro!: arg_cong[of _ _ sum_list])
  moreover have "k \<in> fst ` set (concat ds) \<longleftrightarrow> list_ex (\<lambda>d. bt_has d k) ds"
    by (auto simp: list_ex_iff bt_has_iff_key bt_keys_def)
  moreover have "bt_has ?m k \<longleftrightarrow> bt_has (by_key base_pins) k" by (simp add: bt_has_def m)
  ultimately show ?thesis
    unfolding candidate_values_def bt_get_map_value fold_concat get by simp
qed

lemma bt_ok_candidate: "list_all bt_ok ds \<Longrightarrow> bt_ok (candidate_values base_pins ds)"
proof -
  let ?m = "map (\<lambda>(k, v). (k, u64_as_i64 v)) (by_key base_pins)"
  have "wrapped ?m" unfolding wrapped_def bt_get_map_value by (auto simp: u64_as_i64_def)
  from add_deltas_get[of ?m, OF _ this, of "concat ds"] show ?thesis
    by (simp add: candidate_values_def bt_ok_map_value fold_concat)
qed

text \<open>
  The values of a batch: every pin of the base and every pin that a change touches has the base
  value plus the sum of the changes' deltas (in 64 bits, and not below zero), nothing else has a
  value, and the order of the changes does not matter.
\<close>

theorem candidate_values_exact:
  assumes "list_all bt_ok ds"
  shows "bt_get (candidate_values base_pins ds) k =
      (if bt_has (by_key base_pins) k \<or> list_ex (\<lambda>d. bt_has d k) ds
       then Some (nat (max (wrap64 (int (or_zero (bt_get (by_key base_pins) k)) + (\<Sum>d\<leftarrow>ds. or_zero (bt_get d k)))) 0))
       else None)
    \<and> (mset ds' = mset ds \<longrightarrow> candidate_values base_pins ds' = candidate_values base_pins ds)"
proof (intro conjI impI)
  show "bt_get (candidate_values base_pins ds) k =
      (if bt_has (by_key base_pins) k \<or> list_ex (\<lambda>d. bt_has d k) ds
       then Some (nat (max (wrap64 (int (or_zero (bt_get (by_key base_pins) k)) + (\<Sum>d\<leftarrow>ds. or_zero (bt_get d k)))) 0))
       else None)"
    by (rule candidate_get[OF assms])
  assume perm: "mset ds' = mset ds"
  have set: "set ds' = set ds" using perm by (rule mset_eq_setD)
  then have ok': "list_all bt_ok ds'" using assms by (simp add: list_all_iff)
  have "(\<Sum>d\<leftarrow>ds'. or_zero (bt_get d x)) = (\<Sum>d\<leftarrow>ds. or_zero (bt_get d x))" for x :: pin_key
    using perm by (simp only: sum_mset_sum_list[symmetric] mset_map)
  then have "bt_get (candidate_values base_pins ds') = bt_get (candidate_values base_pins ds)"
    by (intro ext) (simp only: candidate_get[OF assms] candidate_get[OF ok'] list_ex_iff set)
  then show "candidate_values base_pins ds' = candidate_values base_pins ds"
    by (rule btm.entries_unique[OF bt_ok_candidate[OF ok'] bt_ok_candidate[OF assms]])
qed

theorem candidate_values_exact_witness:
  "bt_get (candidate_values [\<lparr>pin_name = ''a'', pin_value = 10\<rparr>] [[((''a'', 0), 2)], [((''a'', 0), 3)]]) (''a'', 0) = Some 15"
proof -
  have "list_all bt_ok [[((''a'', 0::nat), 2::int)], [((''a'', 0), 3)]]" by (simp add: bt_ok_def)
  note exact = candidate_values_exact[OF this, of "[\<lparr>pin_name = ''a'', pin_value = 10\<rparr>]" "(''a'', 0)"]
  have "bt_get (by_key [\<lparr>pin_name = ''a'', pin_value = 10\<rparr>]) (''a'', 0) = Some 10" by code_simp
  then show ?thesis unfolding exact[THEN conjunct1] by (simp add: bt_has_def or_zero_def bt_get_def wrap64_def)
qed

section \<open>Declared decreases\<close>

lemma check_decreases_acc:
  "check_decreases delta declared unreadable honoured = Inr hs \<longleftrightarrow>
     list_all (\<lambda>(k, d). d < 0 \<longrightarrow> (\<exists>dc. declared_for declared k = Some dc \<and> dc_amount dc = nat (- d))) delta
     \<and> hs = honoured @ List.map_filter (\<lambda>(k, d). if d < 0 then declared_for declared k else None) delta"
proof (induction delta declared unreadable honoured rule: check_decreases.induct)
  case (2 k d delta declared unreadable honoured)
  show ?case
  proof (cases "0 \<le> d")
    case True
    then show ?thesis using 2(1) by (simp add: List.map_filter_simps)
  next
    case False
    show ?thesis
    proof (cases "declared_for declared k")
      case None
      then show ?thesis using False by simp
    next
      case (Some dc)
      then show ?thesis using False 2(2)[OF False Some] by (auto simp: List.map_filter_simps)
    qed
  qed
qed (auto simp: List.map_filter_simps)

text \<open>The first declaration for a pin: its name and its occurrence are those of the pin, and none before it is for the same pin.\<close>

definition first_declaration :: "decrease list \<Rightarrow> pin_key \<Rightarrow> decrease \<Rightarrow> bool" where
  "first_declaration declared k dc \<longleftrightarrow> (\<exists>i < length declared. declared ! i = dc \<and> (dc_name dc, dc_occurrence dc) = k
     \<and> (\<forall>j < i. (dc_name (declared ! j), dc_occurrence (declared ! j)) \<noteq> k))"

lemma declared_for_first: "declared_for declared k = Some dc \<longleftrightarrow> first_declaration declared k dc"
  unfolding declared_for_def find_Some_iff first_declaration_def by (cases k) auto

lemma honoured_iff:
  "list_all (\<lambda>(k, d). d < 0 \<longrightarrow> (\<exists>dc. declared_for declared k = Some dc \<and> dc_amount dc = nat (- d))) delta
     \<and> hs = List.map_filter (\<lambda>(k, d). if d < 0 then declared_for declared k else None) delta \<longleftrightarrow>
   list_all2 (\<lambda>(k, d) dc. declared_for declared k = Some dc \<and> dc_amount dc = nat (- d)) (filter (\<lambda>(k, d). d < 0) delta) hs"
proof (induction delta arbitrary: hs)
  case (Cons kd delta)
  obtain k d where kd: "kd = (k, d)" by (cases kd)
  show ?case
  proof (cases "d < 0 \<and> declared_for declared k \<noteq> None")
    case True
    then obtain dc where "declared_for declared k = Some dc" by auto
    then show ?thesis using True Cons.IH[of "tl hs"]
      by (cases hs) (auto simp: kd List.map_filter_simps)
  next
    case False
    then show ?thesis using Cons.IH[of hs] by (cases hs) (auto simp: kd List.map_filter_simps)
  qed
qed (auto simp: List.map_filter_simps)

text \<open>
  C19: A change is accepted exactly when for each decrease it makes, in the order of the pins, the first
  declaration of its head commit for exactly that pin (its name and its occurrence) has exactly that amount; the
  declarations it honours are those. A change without a decrease needs no declaration.
\<close>

theorem decreases_exact:
  "check_decreases delta declared unreadable [] = Inr hs \<longleftrightarrow>
     list_all2 (\<lambda>(k, d) dc. first_declaration declared k dc \<and> dc_amount dc = nat (- d)) (filter (\<lambda>(k, d). d < 0) delta) hs"
  using check_decreases_acc[of delta declared unreadable "[]" hs] honoured_iff[of declared delta hs]
  by (simp add: declared_for_first)

theorem decreases_exact_witness:
  "check_decreases [((''a'', 0), - 2)] [\<lparr>dc_name = ''a'', dc_occurrence = 0, dc_amount = 2, dc_reason = ''r''\<rparr>] [] []
     = Inr [\<lparr>dc_name = ''a'', dc_occurrence = 0, dc_amount = 2, dc_reason = ''r''\<rparr>]"
  unfolding decreases_exact by (simp add: first_declaration_def)

section \<open>Occurrences by key\<close>

definition values_of :: "string \<Rightarrow> pin list \<Rightarrow> nat list" where
  "values_of name pins = map pin_value (filter (\<lambda>p. pin_name p = name) pins)"

definition seen_count :: "(string, nat) btree_map \<Rightarrow> string \<Rightarrow> nat" where
  "seen_count seen name = or_zero (bt_get seen name)"

lemma keys_from_Cons:
  "keys_from seen (p # pins) = (pin_name p, seen_count seen (pin_name p)) #
     keys_from (bt_insert (pin_name p) (Suc (seen_count seen (pin_name p))) seen) pins"
  by (simp add: seen_count_def or_zero_def Let_def)

lemma seen_count_insert:
  "bt_ok seen \<Longrightarrow> seen_count (bt_insert n c seen) name = (if name = n then c else seen_count seen name)"
  by (simp add: seen_count_def bt_get_insert or_zero_def)

lemma keys_from_mem:
  "bt_ok seen \<Longrightarrow> (name, i) \<in> set (keys_from seen pins) \<longleftrightarrow>
     seen_count seen name \<le> i \<and> i < seen_count seen name + length (values_of name pins)"
proof (induction pins arbitrary: seen)
  case Nil
  then show ?case by (simp add: values_of_def)
next
  case (Cons p pins)
  have "bt_ok (bt_insert (pin_name p) (Suc (seen_count seen (pin_name p))) seen)"
    using Cons.prems by (rule bt_ok_insert)
  from Cons.IH[OF this] show ?case unfolding keys_from_Cons
    using Cons.prems by (auto simp: seen_count_insert values_of_def)
qed

lemma length_keys_from [simp]: "length (keys_from seen pins) = length pins"
  by (induction pins arbitrary: seen) (simp_all add: Let_def)

lemma keys_from_distinct: "bt_ok seen \<Longrightarrow> distinct (keys_from seen pins)"
proof (induction pins arbitrary: seen)
  case (Cons p pins)
  let ?seen = "bt_insert (pin_name p) (Suc (seen_count seen (pin_name p))) seen"
  have ok: "bt_ok ?seen" using Cons.prems by (rule bt_ok_insert)
  then show ?case unfolding keys_from_Cons
    using Cons.IH[OF ok] Cons.prems by (simp add: keys_from_mem[OF ok] seen_count_insert)
qed simp

lemma keys_from_value:
  "bt_ok seen \<Longrightarrow> i < length (values_of name pins) \<Longrightarrow>
     ((name, seen_count seen name + i), values_of name pins ! i) \<in> set (zip (keys_from seen pins) (map pin_value pins))"
proof (induction pins arbitrary: seen i)
  case Nil
  then show ?case by (simp add: values_of_def)
next
  case (Cons p pins)
  let ?seen = "bt_insert (pin_name p) (Suc (seen_count seen (pin_name p))) seen"
  have ok: "bt_ok ?seen" using Cons.prems(1) by (rule bt_ok_insert)
  have vals: "values_of name (p # pins) = (if pin_name p = name then pin_value p # values_of name pins else values_of name pins)"
    by (simp add: values_of_def)
  show ?case
  proof (cases "pin_name p = name \<and> i = 0")
    case True
    then show ?thesis unfolding keys_from_Cons by (simp add: vals)
  next
    case False
    define j where "j = (if pin_name p = name then i - 1 else i)"
    have j: "j < length (values_of name pins)" "values_of name (p # pins) ! i = values_of name pins ! j"
      "seen_count seen name + i = seen_count ?seen name + j"
      using Cons.prems False by (auto simp: j_def vals seen_count_insert nth_Cons' split: if_splits)
    show ?thesis unfolding keys_from_Cons using Cons.IH[OF ok j(1)] by (simp add: j(2,3))
  qed
qed

lemma by_key_get:
  "bt_get (by_key pins) (name, i) =
     (if i < length (values_of name pins) then Some (values_of name pins ! i) else None)"
proof -
  let ?kvs = "zip (pin_keys pins) (map pin_value pins)"
  have len: "map fst ?kvs = pin_keys pins" by (simp add: pin_keys_def)
  have dist: "distinct (map fst ?kvs)" by (simp add: pin_keys_def keys_from_distinct)
  show ?thesis
  proof (cases "i < length (values_of name pins)")
    case True
    have "((name, i), values_of name pins ! i) \<in> set ?kvs"
      using keys_from_value[of "[]" i name pins] True by (simp add: pin_keys_def seen_count_def or_zero_def)
    then show ?thesis using True bt_get_collect_distinct[OF dist] by (simp add: by_key_def)
  next
    case False
    then have "(name, i) \<notin> set (pin_keys pins)"
      using keys_from_mem[of "[]" name i pins] by (simp add: pin_keys_def seen_count_def or_zero_def)
    then have "\<not> bt_has (by_key pins) (name, i)"
      unfolding by_key_def bt_has_collect using len by (metis list.set_map)
    then show ?thesis using False by (simp add: bt_has_def)
  qed
qed

lemma occurrences_values: "occurrences name (by_key pins) (occurrence_count name pins) = values_of name pins"
  by (rule nth_equalityI) (simp_all add: occurrences_def occurrence_count_def by_key_get values_of_def)

lemma occurrence_count_length: "occurrence_count name pins = length (values_of name pins)"
  by (simp add: occurrence_count_def values_of_def)

section \<open>The deltas of a change\<close>

text \<open>What a change did to one pin, from the values of its occurrences at the three versions.\<close>

definition delta_spec :: "nat list \<Rightarrow> nat list \<Rightarrow> nat list \<Rightarrow> nat \<Rightarrow> int option" where
  "delta_spec B M H i =
     (if M = H then None
      else if length H \<le> i then None
      else if M = [] then Some (u64_as_i64 (H ! i))
      else if wrap64 (u64_as_i64 (H ! i) - u64_as_i64 (M ! i)) = 0 then None
      else Some (wrap64 (u64_as_i64 (H ! i) - u64_as_i64 (M ! i))))"

definition delta_accepted :: "nat list \<Rightarrow> nat list \<Rightarrow> nat list \<Rightarrow> bool" where
  "delta_accepted B M H \<longleftrightarrow> M = H \<or> length B = length M \<and> length M = length H \<or> B = [] \<and> M = []"

lemma map_of_zip_upt:
  "map_of (map (\<lambda>(i, x). ((name, i), f x)) (zip [0 ..< length xs] xs)) (n, i) =
     (if n = name \<and> i < length xs then Some (f (xs ! i)) else None)"
proof -
  let ?l = "map (\<lambda>(i, x). ((name, i), f x)) (zip [0 ..< length xs] xs)"
  have eq: "?l = map (\<lambda>i. ((name, i), f (xs ! i))) [0 ..< length xs]"
    by (rule nth_equalityI) simp_all
  have "map_of (map (\<lambda>i. ((name, i), f (xs ! i))) is) (n, i) =
      (if n = name \<and> i \<in> set is then Some (f (xs ! i)) else None)" for "is"
    by (induction "is") auto
  then show ?thesis unfolding eq by simp
qed

lemma map_of_filter_snd:
  "distinct (map fst kvs) \<Longrightarrow>
     map_of (filter (\<lambda>(k, v). P v) kvs) k = (case map_of kvs k of Some v \<Rightarrow> if P v then Some v else None | None \<Rightarrow> None)"
proof (induction kvs)
  case (Cons kv kvs)
  obtain k' v where kv: "kv = (k', v)" by (cases kv)
  have "k' \<notin> fst ` set kvs" using Cons.prems by (simp add: kv)
  then have "map_of kvs k' = None" by (simp add: map_of_eq_None_iff)
  then show ?case using Cons by (auto simp: kv)
qed simp

lemma name_deltas_eq:
  fixes B M H :: "pin list" and name :: string
  defines "b \<equiv> values_of name B" and "m \<equiv> values_of name M" and "h \<equiv> values_of name H"
  shows "name_deltas B M H name =
      (if m = h then Inr []
       else if length b = length m \<and> length m = length h
       then Inr (filter (\<lambda>(k, delta). delta \<noteq> 0)
         (map (\<lambda>(index, m, h). ((name, index), wrap64 (u64_as_i64 h - u64_as_i64 m))) (zip [0 ..< length h] (zip m h))))
       else if b = [] \<and> m = []
       then Inr (map (\<lambda>(index, h). ((name, index), u64_as_i64 h)) (zip [0 ..< length h] h))
       else Inl (OccurrenceMismatch name (length b) (length m) (length h)))"
  unfolding name_deltas_def Let_def occurrences_values b_def m_def h_def
  by (auto simp: occurrence_count_length)

lemma name_deltas_Inl:
  assumes "\<not> delta_accepted (values_of name B) (values_of name M) (values_of name H)"
  shows "name_deltas B M H name = Inl (OccurrenceMismatch name (length (values_of name B))
    (length (values_of name M)) (length (values_of name H)))"
  using assms unfolding name_deltas_eq delta_accepted_def by (simp split: if_splits)

lemma changed_pairs:
  assumes "length mv = length hv"
  shows "map (\<lambda>(index, m, h). ((name, index), g m h)) (zip [0 ..< length hv] (zip mv hv))
    = map (\<lambda>(i, x). ((name, i), case x of (m, h) \<Rightarrow> g m h)) (zip [0 ..< length (zip mv hv)] (zip mv hv))"
  using assms by (intro map_cong) (auto simp: case_prod_beta)

lemma map_fst_zip_upt: "map fst (map (\<lambda>(i, x). ((name, i), f x)) (zip [0 ..< length xs] xs)) = map (Pair name) [0 ..< length xs]"
  by (rule nth_equalityI) simp_all

lemma distinct_Pair_upt: "distinct (map (Pair name) [0 ..< n])"
  by (simp add: distinct_map inj_on_def)

lemma name_deltas_Inr:
  assumes "delta_accepted (values_of name B) (values_of name M) (values_of name H)"
  obtains kvs where "name_deltas B M H name = Inr kvs" "distinct (map fst kvs)"
    "\<forall>n i. map_of kvs (n, i) = (if n = name
       then delta_spec (values_of name B) (values_of name M) (values_of name H) i else None)"
proof -
  let ?b = "values_of name B" and ?m = "values_of name M" and ?h = "values_of name H"
  note nd = name_deltas_eq[of B M H name]
  consider (same) "?m = ?h" | (changed) "?m \<noteq> ?h" "length ?b = length ?m" "length ?m = length ?h"
    | (new) "?m \<noteq> ?h" "?b = []" "?m = []" using assms unfolding delta_accepted_def by blast
  then show thesis
  proof cases
    case same
    then show thesis using that[of "[]"] nd by (simp add: delta_spec_def)
  next
    case changed
    let ?pairs = "map (\<lambda>(index, m, h). ((name, index), wrap64 (u64_as_i64 h - u64_as_i64 m))) (zip [0 ..< length ?h] (zip ?m ?h))"
    note eq = changed_pairs[OF changed(3), of name "\<lambda>m h. wrap64 (u64_as_i64 h - u64_as_i64 m)"]
    have dist: "distinct (map fst ?pairs)" unfolding eq map_fst_zip_upt by (rule distinct_Pair_upt)
    have "map_of (filter (\<lambda>(k, delta). delta \<noteq> 0) ?pairs) (n, i)
        = (if n = name then delta_spec ?b ?m ?h i else None)" for n i
    proof -
      have "?h \<noteq> []" "?m \<noteq> []" using changed by auto
      then show ?thesis unfolding map_of_filter_snd[OF dist] unfolding eq map_of_zip_upt
        using changed by (auto simp: delta_spec_def)
    qed
    moreover have "distinct (map fst (filter (\<lambda>(k, delta). delta \<noteq> 0) ?pairs))"
      using dist by (rule distinct_map_filter)
    ultimately show thesis using that nd changed by simp
  next
    case new
    have "map_of (map (\<lambda>(index, h). ((name, index), u64_as_i64 h)) (zip [0 ..< length ?h] ?h)) (n, i)
        = (if n = name then delta_spec ?b ?m ?h i else None)" for n i
      unfolding map_of_zip_upt using new by (auto simp: delta_spec_def)
    moreover have "distinct (map fst (map (\<lambda>(index, h). ((name, index), u64_as_i64 h)) (zip [0 ..< length ?h] ?h)))"
      unfolding map_fst_zip_upt by (rule distinct_Pair_upt)
    ultimately show thesis using that nd new by simp
  qed
qed

lemma insert_all_get:
  assumes "bt_ok m" and "distinct (map fst kvs)"
  shows "bt_ok (insert_all kvs m)"
    and "bt_get (insert_all kvs m) k = (case map_of kvs k of Some v \<Rightarrow> Some v | None \<Rightarrow> bt_get m k)"
proof -
  show "bt_ok (insert_all kvs m)" unfolding insert_all_def by (rule btm.invar_fold[OF assms(1)])
  show "bt_get (insert_all kvs m) k = (case map_of kvs k of Some v \<Rightarrow> Some v | None \<Rightarrow> bt_get m k)"
    unfolding insert_all_def btm.get_fold[OF assms(1)] map_of_rev[OF assms(2)]
    by (simp add: map_add_def)
qed

definition spec_at :: "pin list \<Rightarrow> pin list \<Rightarrow> pin list \<Rightarrow> string \<Rightarrow> nat \<Rightarrow> int option" where
  "spec_at B M H name i = delta_spec (values_of name B) (values_of name M) (values_of name H) i"

definition accepted_at :: "pin list \<Rightarrow> pin list \<Rightarrow> pin list \<Rightarrow> string \<Rightarrow> bool" where
  "accepted_at B M H name = delta_accepted (values_of name B) (values_of name M) (values_of name H)"

lemma delta_loop_spec:
  assumes "bt_ok acc" and "distinct names"
  shows "case delta_loop B M H names acc of
      Inr d \<Rightarrow> list_all (accepted_at B M H) names \<and> bt_ok d
        \<and> (\<forall>n i. bt_get d (n, i) = (if n \<in> set names \<and> spec_at B M H n i \<noteq> None then spec_at B M H n i else bt_get acc (n, i)))
    | Inl e \<Rightarrow> (\<exists>name \<in> set names. \<not> accepted_at B M H name \<and> e = OccurrenceMismatch name
        (length (values_of name B)) (length (values_of name M)) (length (values_of name H)))"
  using assms
proof (induction names arbitrary: acc)
  case (Cons name names)
  show ?case
  proof (cases "accepted_at B M H name")
    case False
    then show ?thesis using name_deltas_Inl[of name B M H] by (simp add: accepted_at_def)
  next
    case True
    then obtain kvs where kvs: "name_deltas B M H name = Inr kvs" "distinct (map fst kvs)"
      "\<forall>n i. map_of kvs (n, i) = (if n = name then spec_at B M H name i else None)"
      using name_deltas_Inr[of name B M H] unfolding accepted_at_def spec_at_def by blast
    note ins = insert_all_get[OF Cons.prems(1) kvs(2)]
    have get: "bt_get (insert_all kvs acc) (n, i) =
        (if n = name \<and> spec_at B M H name i \<noteq> None then spec_at B M H name i else bt_get acc (n, i))" for n i
      unfolding ins(2) using kvs(3) by (auto split: option.splits)
    have dist: "distinct names" and nn: "name \<notin> set names" using Cons.prems(2) by auto
    show ?thesis using Cons.IH[OF ins(1) dist] True nn
      by (auto simp: kvs(1) get split: sum.splits)
  qed
qed simp

lemma add_names: "distinct names \<Longrightarrow>
  distinct (fold add_name pins names) \<and> set (fold add_name pins names) = set names \<union> pin_name ` set pins"
proof (induction pins arbitrary: names)
  case (Cons p pins)
  have "distinct (add_name p names)" using Cons.prems by (simp add: add_name_def)
  from Cons.IH[OF this] show ?case by (auto simp: add_name_def)
qed simp

lemma values_of_other: "name \<notin> pin_name ` set pins \<Longrightarrow> values_of name pins = []"
  by (auto simp: values_of_def filter_empty_conv)

lemma pin_deltas_spec:
  "case pin_deltas_of B M H of
      Inr d \<Rightarrow> (\<forall>name. accepted_at B M H name) \<and> bt_ok d \<and> (\<forall>n i. bt_get d (n, i) = spec_at B M H n i)
    | Inl e \<Rightarrow> (\<exists>name. \<not> accepted_at B M H name \<and> e = OccurrenceMismatch name
        (length (values_of name B)) (length (values_of name M)) (length (values_of name H)))"
proof -
  let ?names = "fold add_name (B @ M @ H) []"
  have names: "distinct ?names" "set ?names = pin_name ` set (B @ M @ H)"
    using add_names[of "[]" "B @ M @ H"] by auto
  have out: "accepted_at B M H n \<and> spec_at B M H n i = None" if "n \<notin> set ?names" for n i
  proof -
    have "values_of n B = []" "values_of n M = []" "values_of n H = []"
      using that names(2) by (auto intro!: values_of_other)
    then show ?thesis by (simp add: accepted_at_def spec_at_def delta_accepted_def delta_spec_def)
  qed
  show ?thesis
  proof (cases "pin_deltas_of B M H")
    case (Inl e)
    then show ?thesis using delta_loop_spec[OF bt_ok_Nil names(1), of B M H]
      by (auto simp: pin_deltas_of_def)
  next
    case (Inr d)
    then have d: "list_all (accepted_at B M H) ?names" "bt_ok d"
      "\<And>n i. bt_get d (n, i) = (if n \<in> set ?names \<and> spec_at B M H n i \<noteq> None then spec_at B M H n i else None)"
      using delta_loop_spec[OF bt_ok_Nil names(1), of B M H] by (simp_all add: pin_deltas_of_def)
    have "accepted_at B M H n" for n
      using d(1) out[of n] by (cases "n \<in> set ?names") (simp_all add: list_all_iff)
    moreover have "bt_get d (n, i) = spec_at B M H n i" for n i
      using d(3)[of n i] out[of n i] by (cases "n \<in> set ?names"; cases "spec_at B M H n i") simp_all
    ultimately show ?thesis using Inr d(2) by auto
  qed
qed

text \<open>
  C18: The deltas of a change are exactly what it did to each pin: nothing for a pin it left as it was
  at its merge base (whatever the base did to it since), the difference for a pin whose occurrences
  are counted alike at all three versions, the head's value for a pin that is new in the head. The
  change is refused exactly when some pin fits none of these, with the three occurrence counts of a
  pin that does not.
\<close>

theorem deltas_exact:
  "case pin_deltas_of B M H of
      Inr d \<Rightarrow> (\<forall>name. delta_accepted (values_of name B) (values_of name M) (values_of name H))
        \<and> (\<forall>name i. bt_get d (name, i) = delta_spec (values_of name B) (values_of name M) (values_of name H) i)
    | Inl e \<Rightarrow> (\<exists>name. \<not> delta_accepted (values_of name B) (values_of name M) (values_of name H)
        \<and> e = OccurrenceMismatch name (length (values_of name B)) (length (values_of name M)) (length (values_of name H)))"
  using pin_deltas_spec[of B M H] by (simp add: accepted_at_def spec_at_def split: sum.splits)

section \<open>A change on the current base\<close>

definition small_pins :: "pin list \<Rightarrow> bool" where
  "small_pins pins \<longleftrightarrow> list_all (\<lambda>p. int (pin_value p) \<le> i64_max) pins"

lemma small_values: "small_pins pins \<Longrightarrow> i < length (values_of name pins) \<Longrightarrow> is_i64 (int (values_of name pins ! i))"
proof -
  assume small: "small_pins pins" and i: "i < length (values_of name pins)"
  have "values_of name pins ! i \<in> set (values_of name pins)" using i by (rule nth_mem)
  then show ?thesis using small by (auto simp: values_of_def small_pins_def list_all_iff i64_defs)
qed

lemma nat_max_wrap: "is_i64 (int v) \<Longrightarrow> nat (max (wrap64 (int v)) 0) = v"
  by simp

lemma fast_forward_get:
  assumes d: "pin_deltas_of B B H = Inr d" and small: "small_pins B" "small_pins H"
  shows "bt_get (candidate_values B [d]) (name, i) = bt_get (by_key H) (name, i)"
proof -
  let ?b = "values_of name B" and ?h = "values_of name H"
  have acc: "delta_accepted ?b ?b ?h" and ok: "bt_ok d" and get: "bt_get d (name, i) = delta_spec ?b ?b ?h i"
    using pin_deltas_spec[of B B H] d by (auto simp: accepted_at_def[abs_def] spec_at_def)
  have cand: "bt_get (candidate_values B [d]) (name, i) =
      (if i < length ?b \<or> delta_spec ?b ?b ?h i \<noteq> None
       then Some (nat (max (wrap64 (int (if i < length ?b then ?b ! i else 0) + or_zero (delta_spec ?b ?b ?h i))) 0))
       else None)"
    using candidate_get[of "[d]" B "(name, i)"] ok
    by (simp add: get bt_has_def by_key_get or_zero_def)
  have bi: "i < length ?b \<Longrightarrow> is_i64 (int (?b ! i))" and hi: "i < length ?h \<Longrightarrow> is_i64 (int (?h ! i))"
    using small_values small by blast+
  consider (same) "?b = ?h" | (changed) "?b \<noteq> ?h" "length ?b = length ?h" "?b \<noteq> []" | (new) "?b \<noteq> ?h" "?b = []"
    using acc by (cases "?b = ?h"; cases "?b = []") (auto simp: delta_accepted_def)
  then show ?thesis
  proof cases
    case same
    then show ?thesis using hi unfolding cand by_key_get by (simp add: delta_spec_def or_zero_def)
  next
    case new
    then show ?thesis using hi unfolding cand by_key_get
      by (auto simp: delta_spec_def or_zero_def u64_as_i64_def)
  next
    case changed
    show ?thesis
    proof (cases "i < length ?h")
      case False
      then show ?thesis using changed unfolding cand by_key_get by (simp add: delta_spec_def)
    next
      case True
      define x y where "x = int (?b ! i)" and "y = int (?h ! i)"
      have xy: "is_i64 x" "is_i64 y" "0 \<le> x" "0 \<le> y" using bi hi True changed by (simp_all add: x_def y_def)
      then have w: "wrap64 (y - x) = y - x" by (intro wrap64_id) (simp add: i64_defs)
      have "wrap64 (x + or_zero (delta_spec ?b ?b ?h i)) = y"
        using True changed xy w by (auto simp: delta_spec_def or_zero_def u64_as_i64_def x_def[symmetric] y_def[symmetric])
      then show ?thesis using True changed xy unfolding cand by_key_get by (simp add: x_def y_def)
    qed
  qed
qed

text \<open>
  A change that is already on the current base recounts to itself: its deltas against the base,
  added to the base, give exactly the pins of its head (the counts are below two to the 63).
\<close>

theorem recount_fast_forward:
  assumes "change_deltas (Some b) (Some b) (Some h) = Inr d"
    and "small_pins (pf_pins (parse_pins b))" "small_pins (pf_pins (parse_pins h))"
  shows "candidate_values (pf_pins (parse_pins b)) [d] = pin_values (Some h)"
proof -
  let ?B = "pf_pins (parse_pins b)" and ?H = "pf_pins (parse_pins h)"
  have "list_all bt_ok [d] \<and> (\<forall>name i. bt_get (candidate_values ?B [d]) (name, i) = bt_get (by_key ?H) (name, i))"
  proof (cases "h = b")
    case True
    then have d: "d = []" using assms(1) by (simp add: change_deltas_def)
    have "bt_get (candidate_values ?B [[]]) (name, i) = bt_get (by_key ?B) (name, i)" for name i
      using candidate_get[of "[[]]" ?B "(name, i)"] small_values[OF assms(2), of i name]
      by (simp add: bt_has_def by_key_get or_zero_def)
    then show ?thesis using True d by simp
  next
    case False
    then have "pin_deltas_of ?B ?B ?H = Inr d" using assms(1) by (simp add: change_deltas_def)
    then show ?thesis using fast_forward_get[OF _ assms(2,3)] pin_deltas_spec[of ?B ?B ?H] by simp
  qed
  then have "bt_ok (candidate_values ?B [d])" "bt_get (candidate_values ?B [d]) = bt_get (by_key ?H)"
    using bt_ok_candidate[of "[d]" ?B] by (simp_all add: fun_eq_iff)
  then have "candidate_values ?B [d] = by_key ?H" by (intro btm.entries_unique) simp_all
  then show ?thesis by (simp add: pin_values_def)
qed

definition pin_line :: "string \<Rightarrow> string" where
  "pin_line n = [CHR ''('', quote_char] @ ''a'' @ [quote_char] @ '', '' @ n @ '')''"

theorem recount_fast_forward_witness:
  "candidate_values (pf_pins (parse_pins (pin_line ''5''))) [[((''a'', 0), - 2)]] = pin_values (Some (pin_line ''3''))"
proof (rule recount_fast_forward)
  show "change_deltas (Some (pin_line ''5'')) (Some (pin_line ''5'')) (Some (pin_line ''3'')) = Inr [((''a'', 0), - 2)]"
    by code_simp
  show "small_pins (pf_pins (parse_pins (pin_line ''5'')))" by code_simp
  show "small_pins (pf_pins (parse_pins (pin_line ''3'')))" by code_simp
qed

end
