(* ===== verification/Queue_Rewrite.thy ===== *)
theory Queue_Rewrite
  imports Queue_Recount_Spec
begin

text \<open>
  Rewriting the pin file (\<open>rewrite_pins\<close> of \<open>merge-queue/src/recount.rs\<close>): a text is cut into the
  entries that the scanner finds and the text between them, rewriting replaces the digits of the
  entries and nothing else, and scanning the result finds the same entries with the new numbers. The
  point is that an attempt to read an entry that fails looks no further than the name of the next
  entry, so it fails on the rewritten text too.
\<close>

section \<open>Entries\<close>

definition entry :: "string \<Rightarrow> string \<Rightarrow> string \<Rightarrow> string" where
  "entry name ws ds = [CHR ''('', quote_char] @ name @ [quote_char, CHR '',''] @ ws @ ds @ '')''"

definition entry_name_ok :: "string \<Rightarrow> bool" where
  "entry_name_ok name \<longleftrightarrow> scan_name (name @ [quote_char]) = Some (length name)"

definition count_ok :: "string \<Rightarrow> string \<Rightarrow> bool" where
  "count_ok ws ds \<longleftrightarrow> list_all is_ascii_whitespace ws \<and> ds \<noteq> [] \<and> list_all is_ascii_digit ds"

lemma digit_not_space: "is_ascii_digit c \<Longrightarrow> \<not> is_ascii_whitespace c"
  by (auto simp: is_ascii_whitespace_def is_ascii_digit_def byte_def)

lemma stops: "\<not> is_ascii_whitespace quote_char" "\<not> is_ascii_digit quote_char" "\<not> is_ascii_digit (CHR '')'')"
  by (simp_all add: is_ascii_whitespace_def is_ascii_digit_def byte_def)

lemma takeWhile_stop: "\<not> P c \<Longrightarrow> takeWhile P (w @ c # u) = takeWhile P w"
  by (induction w) auto

lemma dropWhile_stop: "\<not> P c \<Longrightarrow> dropWhile P (w @ c # u) = dropWhile P w @ c # u"
  by (induction w) auto

lemma scan_name_prefix:
  "scan_name s = Some n \<Longrightarrow> n < length s \<and> s ! n = quote_char \<and> scan_name (take (Suc n) s @ u) = Some n"
proof (induction s arbitrary: n rule: scan_name.induct)
  case (2 c s)
  show ?case
  proof (cases "c = quote_char")
    case True
    then show ?thesis using 2(3) by simp
  next
    case nq: False
    show ?thesis
    proof (cases "c = backslash_char")
      case False
      then obtain k where k: "scan_name s = Some k" "n = Suc k" using 2(3) nq by auto
      show ?thesis using 2(2)[OF nq False k(1)] nq False by (simp add: k(2))
    next
      case True
      then obtain e s' k where k: "s = e # s'" "scan_name s' = Some k" "n = k + 2"
        using 2(3) nq by (auto split: list.splits)
      show ?thesis using 2(1)[OF nq True k(1,2)] True by (simp add: k(1,3))
    qed
  qed
qed simp

lemma entry_name_ok_scan: "entry_name_ok name \<Longrightarrow> scan_name (name @ quote_char # u) = Some (length name)"
  unfolding entry_name_ok_def by (drule scan_name_prefix[of _ _ u]) simp

lemma scan_count_entry: "count_ok ws ds \<Longrightarrow> scan_count (CHR '','' # ws @ ds @ CHR '')'' # rest) = Some (length ws, length ds)"
proof -
  assume ok: "count_ok ws ds"
  obtain d ds' where ds: "ds = d # ds'" using ok by (cases ds) (auto simp: count_ok_def)
  have ws: "takeWhile is_ascii_whitespace ws = ws" "dropWhile is_ascii_whitespace ws = []"
    "takeWhile is_ascii_digit ds = ds" "dropWhile is_ascii_digit ds = []"
    using ok by (auto simp: count_ok_def list_all_iff)
  have d: "\<not> is_ascii_whitespace d" using ok digit_not_space by (simp add: ds count_ok_def)
  have 1: "takeWhile is_ascii_whitespace (ws @ ds @ CHR '')'' # rest) = ws"
    "dropWhile is_ascii_whitespace (ws @ ds @ CHR '')'' # rest) = ds @ CHR '')'' # rest"
    using takeWhile_stop[of is_ascii_whitespace d ws] dropWhile_stop[of is_ascii_whitespace d ws] d ws by (simp_all add: ds)
  have 2: "takeWhile is_ascii_digit (ds @ CHR '')'' # rest) = ds"
    "dropWhile is_ascii_digit (ds @ CHR '')'' # rest) = CHR '')'' # rest"
    using takeWhile_stop[of is_ascii_digit "CHR '')''" ds] dropWhile_stop[of is_ascii_digit "CHR '')''" ds] stops ws by simp_all
  have "ds \<noteq> []" by (simp add: ds)
  then show ?thesis unfolding scan_count_def list.case Let_def 1 2 by simp
qed

lemma scan_count_Some:
  assumes "scan_count s = Some (w, d)"
  obtains ws ds rest where "s = CHR '','' # ws @ ds @ CHR '')'' # rest" "count_ok ws ds" "w = length ws" "d = length ds"
proof -
  obtain t where s: "s = CHR '','' # t" using assms by (auto simp: scan_count_def split: list.splits if_splits)
  define ws r where "ws = takeWhile is_ascii_whitespace t" and "r = dropWhile is_ascii_whitespace t"
  define ds q where "ds = takeWhile is_ascii_digit r" and "q = dropWhile is_ascii_digit r"
  have "ds \<noteq> []" "q \<noteq> []" "hd q = CHR '')''" "w = length ws" "d = length ds"
    using assms by (auto simp: scan_count_def s Let_def ws_def r_def ds_def q_def split: if_splits)
  moreover obtain rest where "q = CHR '')'' # rest" using calculation by (cases q) auto
  moreover have "t = ws @ ds @ q" by (simp add: ws_def r_def ds_def q_def)
  moreover have "list_all is_ascii_whitespace ws" "list_all is_ascii_digit ds"
    by (auto simp: ws_def ds_def list_all_iff dest: set_takeWhileD)
  ultimately show thesis using that s by (simp add: count_ok_def)
qed

lemma parse_one_entry:
  assumes "entry_name_ok name" "count_ok ws ds"
  shows "parse_one (entry name ws ds @ rest) =
    Some (name, 4 + length name + length ws, length ds, length (entry name ws ds))"
  using entry_name_ok_scan[OF assms(1)] scan_count_entry[OF assms(2), of rest]
  by (simp add: parse_one_def entry_def Let_def)

lemma parse_one_Some:
  assumes "parse_one s = Some (name, num_at, len, next_at)" and "opens_entry s"
  obtains ws ds rest where "s = entry name ws ds @ rest" "entry_name_ok name" "count_ok ws ds"
proof -
  obtain body where s: "s = CHR ''('' # quote_char # body" using assms(2) by (auto simp: opens_entry_def prefix_def)
  obtain n w d where n: "scan_name body = Some n" "scan_count (drop (n + 1) body) = Some (w, d)" "name = take n body"
    using assms(1) by (auto simp: parse_one_def s Let_def split: option.splits)
  obtain ws ds rest where c: "drop (n + 1) body = CHR '','' # ws @ ds @ CHR '')'' # rest" "count_ok ws ds"
    using scan_count_Some[OF n(2)] by metis
  note p = scan_name_prefix[OF n(1), of "[]"]
  have body: "body = name @ quote_char # drop (n + 1) body" using p n(3) id_take_nth_drop[of n body] by simp
  have "take (Suc n) body = name @ [quote_char]" using p n(3) by (simp add: take_Suc_conv_app_nth)
  then have "entry_name_ok name" using p n(3) by (simp add: entry_name_ok_def)
  moreover have "s = entry name ws ds @ rest" using body c(1) by (simp add: s entry_def)
  ultimately show thesis using that c(2) by blast
qed

section \<open>A failed attempt looks no further than the next name\<close>

lemma scan_name_stops: "\<exists>n \<le> Suc (length x). \<forall>t. scan_name (x @ CHR ''('' # quote_char # t) = Some n"
proof (induction x rule: scan_name.induct)
  case 1
  show ?case by (intro exI[of _ 1]) simp
next
  case (2 c x)
  show ?case
  proof (cases "c = quote_char")
    case True
    then show ?thesis by (intro exI[of _ 0]) simp
  next
    case nq: False
    show ?thesis
    proof (cases "c = backslash_char")
      case False
      then obtain n where "n \<le> Suc (length x)" "\<forall>t. scan_name (x @ CHR ''('' # quote_char # t) = Some n"
        using 2(2)[OF nq False] by blast
      then show ?thesis using nq False by (intro exI[of _ "Suc n"]) simp
    next
      case True
      show ?thesis
      proof (cases x)
        case Nil
        then show ?thesis using True by (intro exI[of _ 2]) simp
      next
        case (Cons e y)
        then obtain n where "n \<le> Suc (length y)" "\<forall>t. scan_name (y @ CHR ''('' # quote_char # t) = Some n"
          using 2(1)[OF nq True Cons] by blast
        then show ?thesis using nq True Cons by (intro exI[of _ "n + 2"]) simp
      qed
    qed
  qed
qed

lemma scan_count_local: "scan_count (w @ quote_char # u) = scan_count (w @ quote_char # u')"
proof (cases w)
  case Nil
  then show ?thesis by (simp add: scan_count_def)
next
  case (Cons c w')
  define r q where "r = dropWhile is_ascii_whitespace w'" and "q = dropWhile is_ascii_digit r"
  have "scan_count (w @ quote_char # v) =
      (if c \<noteq> CHR '','' \<or> takeWhile is_ascii_digit r = [] \<or> q = [] \<or> hd q \<noteq> CHR '')'' then None
       else Some (length (takeWhile is_ascii_whitespace w'), length (takeWhile is_ascii_digit r)))" for v
    using stops takeWhile_stop[of is_ascii_whitespace quote_char w' v] dropWhile_stop[of is_ascii_whitespace quote_char w' v]
      takeWhile_stop[of is_ascii_digit quote_char r v] dropWhile_stop[of is_ascii_digit quote_char r v]
    by (cases q) (simp_all add: Cons scan_count_def Let_def r_def[symmetric] q_def[symmetric])
  then show ?thesis by simp
qed

lemma parse_one_local:
  "parse_one ([CHR ''('', quote_char] @ x @ [CHR ''('', quote_char] @ name @ [quote_char] @ u)
   = parse_one ([CHR ''('', quote_char] @ x @ [CHR ''('', quote_char] @ name @ [quote_char] @ u')"
proof -
  obtain n where n: "n \<le> Suc (length x)" "\<And>t. scan_name (x @ CHR ''('' # quote_char # t) = Some n"
    using scan_name_stops[of x] by blast
  define w where "w = drop (n + 1) (x @ [CHR ''('', quote_char]) @ name"
  have rest: "drop (n + 1) (x @ CHR ''('' # quote_char # name @ quote_char # v) = w @ quote_char # v" for v
  proof -
    have "x @ CHR ''('' # quote_char # name @ quote_char # v = (x @ [CHR ''('', quote_char]) @ name @ quote_char # v" by simp
    moreover have "n + 1 \<le> length (x @ [CHR ''('', quote_char])" using n(1) by simp
    ultimately show ?thesis unfolding w_def by (simp only: drop_append append.assoc) simp
  qed
  have tk: "take n (x @ CHR ''('' # quote_char # t) = take n (x @ [CHR ''(''])" for t
    using n(1) by (cases "n \<le> length x") (auto simp: le_Suc_eq)
  have "parse_one ([CHR ''('', quote_char] @ x @ [CHR ''('', quote_char] @ name @ [quote_char] @ v) =
      (case scan_count (w @ quote_char # v) of None \<Rightarrow> None
       | Some (k, d) \<Rightarrow> (let num_at = 2 + n + 1 + 1 + k
           in Some (take n (x @ [CHR ''('']), num_at, d, num_at + d + 1)))" for v
  proof -
    have body: "drop 2 ([CHR ''('', quote_char] @ x @ [CHR ''('', quote_char] @ name @ [quote_char] @ v)
        = x @ CHR ''('' # quote_char # name @ quote_char # v" by simp
    show ?thesis unfolding parse_one_def Let_def body n(2) option.case rest tk by (rule refl)
  qed
  then show ?thesis using scan_count_local[of w u u'] by simp
qed

section \<open>Cutting a text into entries\<close>

type_synonym segment = "string \<times> string \<times> string \<times> string"

text \<open>No entry starts inside the text \<open>g\<close> before an entry with this name.\<close>

definition inert :: "string \<Rightarrow> string \<Rightarrow> bool" where
  "inert g name \<longleftrightarrow> (\<forall>j < length g.
     let s = drop j g @ [CHR ''('', quote_char] @ name @ [quote_char]
     in \<not> (opens_entry s \<and> parse_one s \<noteq> None))"

definition seg_ok :: "segment \<Rightarrow> bool" where
  "seg_ok = (\<lambda>(g, name, ws, ds). inert g name \<and> entry_name_ok name \<and> count_ok ws ds)"

definition seg_string :: "segment \<Rightarrow> string" where
  "seg_string = (\<lambda>(g, name, ws, ds). g @ entry name ws ds)"

definition seg_text :: "segment list \<Rightarrow> string \<Rightarrow> string" where
  "seg_text segs t = concat (map seg_string segs) @ t"

definition segs_ok :: "segment list \<Rightarrow> string \<Rightarrow> bool" where
  "segs_ok segs t \<longleftrightarrow> list_all seg_ok segs \<and> (\<forall>i. scan_pins i t = [])"

definition entry_at :: "string \<Rightarrow> (string \<times> nat \<times> nat \<times> nat) option" where
  "entry_at s = (if opens_entry s then parse_one s else None)"

lemma scan_pins_step:
  "scan_pins i s =
     (if length s < 2 then []
      else case entry_at s of
          Some (name, num_at, num_len, next_at) \<Rightarrow>
            (\<lparr>pin_name = name, pin_value = parse_u64_or_zero (take num_len (drop num_at s))\<rparr>,
             i + num_at, i + num_at + num_len) # scan_pins (i + next_at) (drop next_at s)
        | None \<Rightarrow> scan_pins (i + 1) (drop 1 s))"
  unfolding entry_at_def by (rule scan_pins.simps)

text \<open>What the scanner says at a position of the gap depends on the gap and the next name only.\<close>

lemma entry_at_local:
  assumes "v \<noteq> []"
  shows "entry_at (v @ [CHR ''('', quote_char] @ name @ [quote_char] @ u) = None \<longleftrightarrow>
    entry_at (v @ [CHR ''('', quote_char] @ name @ [quote_char]) = None"
proof (cases "\<exists>x. v = [CHR ''('', quote_char] @ x")
  case True
  then obtain x where v: "v = [CHR ''('', quote_char] @ x" by blast
  have "opens_entry (v @ t)" for t by (simp add: v opens_entry_def)
  then show ?thesis using parse_one_local[of x name u "[]"] by (simp add: entry_at_def v)
next
  case False
  have "\<not> opens_entry (v @ [CHR ''('', quote_char] @ t)" for t
  proof (cases v)
    case (Cons a v')
    then show ?thesis using False by (cases v') (auto simp: opens_entry_def)
  qed (use assms in simp)
  then show ?thesis by (simp add: entry_at_def)
qed

lemma inert_Cons:
  "inert (c # g) name \<longleftrightarrow> inert g name \<and>
     entry_at ((c # g) @ [CHR ''('', quote_char] @ name @ [quote_char]) = None"
  unfolding inert_def entry_at_def Let_def length_Cons All_less_Suc2 by (auto simp del: not_None_eq)

lemma inert_Nil [simp]: "inert [] name"
  by (simp add: inert_def)

lemma entry_text: "entry name ws ds = [CHR ''('', quote_char] @ name @ [quote_char] @ (CHR '','' # ws @ ds @ '')'')"
  by (simp add: entry_def)

lemma length_entry: "length (entry name ws ds) = 5 + length name + length ws + length ds"
  by (simp add: entry_def)

lemma entry_at_entry:
  "entry_name_ok name \<Longrightarrow> count_ok ws ds \<Longrightarrow> entry_at (entry name ws ds @ rest) =
     Some (name, 4 + length name + length ws, length ds, length (entry name ws ds))"
  unfolding entry_at_def using parse_one_entry[of name ws ds rest]
  by (simp add: opens_entry_def entry_def)

lemma scan_gap:
  assumes "seg_ok (g, name, ws, ds)"
  shows "scan_pins i (g @ entry name ws ds @ rest) =
    (let a = i + length g + 4 + length name + length ws
     in (\<lparr>pin_name = name, pin_value = parse_u64_or_zero ds\<rparr>, a, a + length ds)
        # scan_pins (a + length ds + 1) rest)"
  using assms
proof (induction g arbitrary: i)
  case Nil
  then have ok: "entry_name_ok name" "count_ok ws ds" by (auto simp: seg_ok_def)
  have num: "take (length ds) (drop (4 + length name + length ws) (entry name ws ds @ rest)) = ds"
  proof -
    define pre where "pre = [CHR ''('', quote_char] @ name @ [quote_char, CHR '',''] @ ws"
    have "entry name ws ds @ rest = pre @ ds @ '')'' @ rest" by (simp add: entry_def pre_def)
    moreover have "4 + length name + length ws = length pre" by (simp add: pre_def)
    ultimately show ?thesis by simp
  qed
  have "\<not> length (entry name ws ds @ rest) < 2" by (simp add: length_entry)
  then show ?case unfolding append_Nil using num
    by (subst scan_pins_step) (simp add: entry_at_entry[OF ok] Let_def length_entry ac_simps)
next
  case (Cons c g)
  have ok: "seg_ok (g, name, ws, ds)" using Cons.prems by (simp add: seg_ok_def inert_Cons)
  have "entry_at ((c # g) @ [CHR ''('', quote_char] @ name @ [quote_char]) = None"
    using Cons.prems by (simp add: seg_ok_def inert_Cons)
  then have none: "entry_at ((c # g) @ entry name ws ds @ rest) = None"
    using entry_at_local[of "c # g" name "(CHR '','' # ws @ ds @ '')'') @ rest"] by (simp add: entry_text)
  have "\<not> length ((c # g) @ entry name ws ds @ rest) < 2" by (simp add: length_entry)
  then have "scan_pins i ((c # g) @ entry name ws ds @ rest) = scan_pins (i + 1) (g @ entry name ws ds @ rest)"
    using none by (subst scan_pins_step) (simp only: if_False option.case append_Cons drop_Suc_Cons drop_0 One_nat_def)
  then show ?case using Cons.IH[OF ok, of "i + 1"] by (simp add: Let_def)
qed

fun seg_pins :: "nat \<Rightarrow> segment list \<Rightarrow> (pin \<times> nat \<times> nat) list" where
  "seg_pins i [] = []"
| "seg_pins i ((g, name, ws, ds) # segs) =
     (let a = i + length g + 4 + length name + length ws
      in (\<lparr>pin_name = name, pin_value = parse_u64_or_zero ds\<rparr>, a, a + length ds)
         # seg_pins (a + length ds + 1) segs)"

lemma scan_segs: "segs_ok segs t \<Longrightarrow> scan_pins i (seg_text segs t) = seg_pins i segs"
proof (induction segs arbitrary: i)
  case Nil
  then show ?case by (simp add: segs_ok_def seg_text_def)
next
  case (Cons s segs)
  obtain g name ws ds where s: "s = (g, name, ws, ds)" by (cases s)
  have "seg_text (s # segs) t = g @ entry name ws ds @ seg_text segs t"
    by (simp add: seg_text_def seg_string_def s)
  moreover have "segs_ok segs t" "seg_ok (g, name, ws, ds)" using Cons.prems by (auto simp: segs_ok_def s)
  ultimately show ?case using Cons.IH scan_gap by (simp add: s)
qed

lemma segs_exist: "\<exists>segs t. segs_ok segs t \<and> tx = seg_text segs t"
proof (induction "length tx" arbitrary: tx rule: less_induct)
  case less
  show ?case
  proof (cases "length tx < 2")
    case True
    then have "scan_pins i tx = []" for i by (simp add: scan_pins.simps)
    then show ?thesis by (intro exI[of _ "[]"] exI[of _ tx]) (simp add: segs_ok_def seg_text_def)
  next
    case big: False
    show ?thesis
    proof (cases "entry_at tx")
      case (Some e)
      obtain name a l n where e: "parse_one tx = Some (name, a, l, n)" "opens_entry tx"
        using Some by (cases e) (auto simp: entry_at_def split: if_splits)
      obtain ws ds rest where t: "tx = entry name ws ds @ rest" "entry_name_ok name" "count_ok ws ds"
        by (rule parse_one_Some[OF e])
      have "length rest < length tx" by (simp add: t(1) length_entry)
      then obtain segs tl' where IH: "segs_ok segs tl'" "rest = seg_text segs tl'" using less by blast
      have "segs_ok (([], name, ws, ds) # segs) tl'" using IH(1) t(2,3) by (simp add: segs_ok_def seg_ok_def)
      moreover have "tx = seg_text (([], name, ws, ds) # segs) tl'"
        by (simp add: t(1) IH(2) seg_text_def seg_string_def)
      ultimately show ?thesis by blast
    next
      case None
      obtain c s where t: "tx = c # s" using big by (cases tx) auto
      then obtain segs tl' where IH: "segs_ok segs tl'" "s = seg_text segs tl'"
        using less[of s] by auto
      show ?thesis
      proof (cases segs)
        case Nil
        then have "s = tl'" using IH(2) by (simp add: seg_text_def)
        then have "scan_pins i tx = []" for i
          using None big IH(1) by (subst scan_pins_step) (simp add: t segs_ok_def)
        then show ?thesis by (intro exI[of _ "[]"] exI[of _ tx]) (simp add: segs_ok_def seg_text_def)
      next
        case (Cons sg segs')
        obtain g name ws ds where sg: "sg = (g, name, ws, ds)" by (cases sg)
        have tx: "tx = (c # g) @ [CHR ''('', quote_char] @ name @ [quote_char]
            @ ((CHR '','' # ws @ ds @ '')'') @ seg_text segs' tl')"
          by (simp add: t IH(2) Cons sg seg_text_def seg_string_def entry_text)
        have "entry_at ((c # g) @ [CHR ''('', quote_char] @ name @ [quote_char]) = None"
          using None entry_at_local[of "c # g" name] unfolding tx by blast
        then have "segs_ok ((c # g, name, ws, ds) # segs') tl'"
          using IH(1) by (simp add: segs_ok_def seg_ok_def Cons sg inert_Cons)
        moreover have "tx = seg_text ((c # g, name, ws, ds) # segs') tl'"
          by (simp add: t IH(2) Cons sg seg_text_def seg_string_def)
        ultimately show ?thesis by blast
      qed
    qed
  qed
qed

section \<open>Rewriting\<close>

definition new_digits :: "(pin_key, nat) btree_map \<Rightarrow> pin_key \<Rightarrow> string \<Rightarrow> string" where
  "new_digits vals k ds = (case bt_get vals k of Some v \<Rightarrow> dec_nat v | None \<Rightarrow> ds)"

fun update_segs :: "(pin_key, nat) btree_map \<Rightarrow> pin_key list \<Rightarrow> segment list \<Rightarrow> segment list" where
  "update_segs vals (k # ks) ((g, name, ws, ds) # segs) =
     (g, name, ws, new_digits vals k ds) # update_segs vals ks segs"
| "update_segs vals _ segs = segs"

lemma rewrite_segs:
  "length p = i \<Longrightarrow> length ks = length segs \<Longrightarrow>
     foldr (rewrite_entry vals) (zip ks (map snd (seg_pins i segs))) (p @ seg_text segs t)
       = p @ seg_text (update_segs vals ks segs) t"
proof (induction segs arbitrary: p i ks)
  case Nil
  then show ?case by simp
next
  case (Cons s segs)
  obtain g name ws ds where s: "s = (g, name, ws, ds)" by (cases s)
  obtain k ks' where ks: "ks = k # ks'" using Cons.prems(2) by (cases ks) auto
  let ?a = "i + length g + 4 + length name + length ws"
  define pre where "pre = p @ g @ [CHR ''('', quote_char] @ name @ [quote_char, CHR '',''] @ ws"
  have len: "length pre = ?a" using Cons.prems(1) by (simp add: pre_def)
  let ?rest = "seg_text (update_segs vals ks' segs) t"
  have "foldr (rewrite_entry vals) (zip ks' (map snd (seg_pins (?a + length ds + 1) segs)))
      ((pre @ ds @ '')'') @ seg_text segs t) = (pre @ ds @ '')'') @ ?rest"
    by (rule Cons.IH) (use Cons.prems in \<open>simp_all add: len ks\<close>)
  moreover have "p @ seg_text (s # segs) t = (pre @ ds @ '')'') @ seg_text segs t"
    by (simp add: s seg_text_def seg_string_def entry_def pre_def)
  moreover have "rewrite_entry vals (k, ?a, ?a + length ds) ((pre @ ds @ '')'') @ ?rest)
      = (pre @ new_digits vals k ds @ '')'') @ ?rest"
    using len by (simp add: rewrite_entry_def replace_range_def new_digits_def split: option.splits)
  moreover have "p @ seg_text (update_segs vals ks (s # segs)) t = (pre @ new_digits vals k ds @ '')'') @ ?rest"
    by (simp add: ks s seg_text_def seg_string_def entry_def pre_def)
  ultimately show ?case by (simp add: ks s Let_def)
qed

lemma length_seg_pins [simp]: "length (seg_pins i segs) = length segs"
  by (induction i segs rule: seg_pins.induct) (simp_all add: Let_def)

lemma new_digits_ok: "count_ok ws ds \<Longrightarrow> count_ok ws (new_digits vals k ds)"
  by (auto simp: count_ok_def new_digits_def dec_nat_digits split: option.splits)

lemma update_segs_ok: "segs_ok segs t \<Longrightarrow> segs_ok (update_segs vals ks segs) t"
  by (induction vals ks segs rule: update_segs.induct) (auto simp: segs_ok_def seg_ok_def new_digits_ok)

definition seg_pin :: "segment \<Rightarrow> pin" where
  "seg_pin = (\<lambda>(g, name, ws, ds). \<lparr>pin_name = name, pin_value = parse_u64_or_zero ds\<rparr>)"

lemma map_fst_seg_pins: "map fst (seg_pins i segs) = map seg_pin segs"
  by (induction i segs rule: seg_pins.induct) (simp_all add: Let_def seg_pin_def)

lemma update_segs_names: "map (\<lambda>s. pin_name (seg_pin s)) (update_segs vals ks segs) = map (\<lambda>s. pin_name (seg_pin s)) segs"
  by (induction vals ks segs rule: update_segs.induct) (simp_all add: seg_pin_def)

definition new_value :: "(pin_key, nat) btree_map \<Rightarrow> pin_key \<Rightarrow> nat \<Rightarrow> nat" where
  "new_value vals k old = (case bt_get vals k of Some v \<Rightarrow> v | None \<Rightarrow> old)"

lemma new_digits_value:
  assumes "list_all (\<lambda>(k, v). is_u64 v) vals"
  shows "parse_u64_or_zero (new_digits vals k ds) = new_value vals k (parse_u64_or_zero ds)"
proof (cases "bt_get vals k")
  case (Some v)
  then have "(k, v) \<in> set vals" by (simp add: bt_get_def map_of_SomeD)
  then have "is_u64 v" using assms by (auto simp: list_all_iff)
  then show ?thesis using Some by (simp add: new_digits_def new_value_def parse_u64_or_zero_def)
qed (simp add: new_digits_def new_value_def)

lemma update_segs_values:
  "list_all (\<lambda>(k, v). is_u64 v) vals \<Longrightarrow> length ks = length segs \<Longrightarrow>
    map (\<lambda>s. pin_value (seg_pin s)) (update_segs vals ks segs)
      = map2 (new_value vals) ks (map (\<lambda>s. pin_value (seg_pin s)) segs)"
  by (induction vals ks segs rule: update_segs.induct)
    (simp_all add: seg_pin_def new_digits_value)

lemma keys_from_cong: "map pin_name ps = map pin_name qs \<Longrightarrow> keys_from seen ps = keys_from seen qs"
proof (induction ps arbitrary: qs seen)
  case (Cons p ps)
  obtain q qs' where "qs = q # qs'" using Cons.prems by (cases qs) auto
  then show ?case using Cons by (simp add: Let_def)
qed simp

lemma map_of_zip_map2:
  "length ks = length vs \<Longrightarrow> map_of (zip ks (map2 f ks vs)) k = map_option (f k) (map_of (zip ks vs) k)"
  by (induction ks vs rule: list_induct2) auto

lemma by_key_map_of: "bt_get (by_key pins) = map_of (zip (pin_keys pins) (map pin_value pins))"
proof -
  have "distinct (map fst (zip (pin_keys pins) (map pin_value pins)))"
    by (simp add: pin_keys_def keys_from_distinct)
  then show ?thesis unfolding by_key_def bt_get_collect by (rule map_of_rev)
qed

lemma rewrite_pins_segs:
  assumes "segs_ok segs t"
  shows "rewrite_pins (seg_text segs t) vals = seg_text (update_segs vals (pin_keys (map seg_pin segs)) segs) t"
proof -
  have pins: "pf_pins (parse_pins (seg_text segs t)) = map seg_pin segs"
    "pf_spans (parse_pins (seg_text segs t)) = map snd (seg_pins 0 segs)"
    using scan_segs[OF assms, of 0] by (simp_all add: parse_pins_def map_fst_seg_pins)
  have "length (pin_keys (map seg_pin segs)) = length segs" by (simp add: pin_keys_def)
  from rewrite_segs[of "[]" 0, OF _ this, of vals t] show ?thesis
    by (simp add: rewrite_pins_def Let_def pins foldr_conv_fold)
qed

lemma segs_values:
  "segs_ok segs t \<Longrightarrow> pin_values (Some (seg_text segs t)) = by_key (map seg_pin segs)"
  using scan_segs[of segs t 0] by (simp add: pin_values_def parse_pins_def map_fst_seg_pins)

lemma rewrite_values:
  assumes "list_all (\<lambda>(k, v). is_u64 v) vals"
  shows "bt_get (pin_values (Some (rewrite_pins tx vals))) k
    = map_option (new_value vals k) (bt_get (pin_values (Some tx)) k)"
proof -
  obtain segs t where ok: "segs_ok segs t" and tx: "tx = seg_text segs t" using segs_exist by blast
  let ?ks = "pin_keys (map seg_pin segs)"
  let ?segs = "update_segs vals ?ks segs"
  have len: "length ?ks = length segs" by (simp add: pin_keys_def)
  have "pin_keys (map seg_pin ?segs) = ?ks" unfolding pin_keys_def
    by (rule keys_from_cong) (use update_segs_names[of vals ?ks segs] in \<open>simp add: comp_def pin_keys_def\<close>)
  moreover have "map pin_value (map seg_pin ?segs) = map2 (new_value vals) ?ks (map pin_value (map seg_pin segs))"
    using update_segs_values[OF assms len] by (simp add: comp_def)
  moreover have "pin_values (Some (rewrite_pins tx vals)) = by_key (map seg_pin ?segs)"
    unfolding tx rewrite_pins_segs[OF ok] by (rule segs_values[OF update_segs_ok[OF ok]])
  ultimately show ?thesis
    using map_of_zip_map2[of ?ks "map pin_value (map seg_pin segs)" "new_value vals" k] len
    by (simp only: tx segs_values[OF ok] by_key_map_of length_map)
qed

text \<open>
  C17: Rewriting the pin file and reading it again gives exactly the new counts: every pin of the text
  that the values name has that value, every other pin of the text keeps its count, and no pin
  appears or disappears. Only the digits of the entries change: the text is cut at the entries into
  pieces that both texts share.
\<close>

theorem rewrite_roundtrip:
  assumes "list_all (\<lambda>(k, v). is_u64 v) vals"
  shows "bt_get (pin_values (Some (rewrite_pins tx vals))) k =
      (case bt_get (pin_values (Some tx)) k of
         None \<Rightarrow> None
       | Some old \<Rightarrow> (case bt_get vals k of Some v \<Rightarrow> Some v | None \<Rightarrow> Some old))
    \<and> (\<exists>segs t ks. tx = seg_text segs t \<and> rewrite_pins tx vals = seg_text (update_segs vals ks segs) t)"
proof -
  obtain segs t where ok: "segs_ok segs t" and tx: "tx = seg_text segs t" using segs_exist by blast
  then have "\<exists>segs t ks. tx = seg_text segs t \<and> rewrite_pins tx vals = seg_text (update_segs vals ks segs) t"
    using rewrite_pins_segs[OF ok] by blast
  moreover have "bt_get (pin_values (Some (rewrite_pins tx vals))) k =
      (case bt_get (pin_values (Some tx)) k of
         None \<Rightarrow> None
       | Some old \<Rightarrow> (case bt_get vals k of Some v \<Rightarrow> Some v | None \<Rightarrow> Some old))"
    unfolding rewrite_values[OF assms] by (simp add: new_value_def split: option.splits)
  ultimately show ?thesis by blast
qed

definition sample_pins :: string where
  "sample_pins = ''x '' @ entry ''a'' '' '' ''1'' @ '', '' @ entry ''a'' [] ''07''"

theorem rewrite_roundtrip_witness:
  "bt_get (pin_values (Some (rewrite_pins sample_pins [((''a'', 1), 30)]))) (''a'', 1) = Some 30
   \<and> bt_get (pin_values (Some (rewrite_pins sample_pins [((''a'', 1), 30)]))) (''a'', 0) = Some 1"
proof -
  have vals: "list_all (\<lambda>(k, v). is_u64 v) [((''a'', 1::nat), 30)]" by (simp add: is_u64_def)
  have old: "bt_get (pin_values (Some sample_pins)) (''a'', 1) = Some 7"
    "bt_get (pin_values (Some sample_pins)) (''a'', 0) = Some 1" by code_simp+
  have new: "bt_get [((''a'', 1::nat), 30)] (''a'', 1) = Some (30::nat)"
    "bt_get [((''a'', 1::nat), 30::nat)] (''a'', 0) = None" by (simp_all add: bt_get_def)
  show ?thesis
    using rewrite_roundtrip[OF vals, of sample_pins "(''a'', 1)", THEN conjunct1]
      rewrite_roundtrip[OF vals, of sample_pins "(''a'', 0)", THEN conjunct1]
    unfolding old new option.case by blast
qed

end
