(* ===== verification/Classifier.thy ===== *)
theory Classifier
  imports Json
begin

text \<open>
  The \<open>change-classifier\<close> crate (\<open>lib.rs\<close>, \<open>main.rs\<close>): globs, the footprint policy and its reader, the
  expansion of node groups, the classification of a change and its check against a list of known
  nodes, the reader of \<open>git diff --name-status\<close>, and the \<open>classify\<close> command. A text is its bytes, as it is
  for the glob matcher. The JSON codec, git, the file system and the printing of JSON are parameters.
\<close>

section \<open>Globs\<close>

text \<open>
  \<open>glob_inner\<close> over the bytes of the pattern and of the path. Its two loops over the positions of the
  path, for \<open>*\<close> and for \<open>**\<close>, are the recursions \<open>glob_star\<close> and \<open>glob_any\<close>.
\<close>

definition after_slash :: "string \<Rightarrow> string" where
  "after_slash p = (case p of c # q \<Rightarrow> if c = CHR ''/'' then q else p | [] \<Rightarrow> [])"

lemma length_after_slash [simp]: "length (after_slash p) \<le> length p"
  by (cases p) (auto simp: after_slash_def)

function glob_inner :: "string \<Rightarrow> string \<Rightarrow> bool"
  and glob_star :: "string \<Rightarrow> string \<Rightarrow> bool"
  and glob_any :: "string \<Rightarrow> string \<Rightarrow> bool" where
  "glob_inner [] t \<longleftrightarrow> t = []"
| "glob_inner (c # p) t \<longleftrightarrow>
     (if c = CHR ''*'' then
        (case p of
           d # q \<Rightarrow> if d = CHR ''*'' then glob_any (after_slash q) t else glob_star p t
         | [] \<Rightarrow> glob_star p t)
      else if c = CHR ''?'' then (case t of [] \<Rightarrow> False | x # u \<Rightarrow> x \<noteq> CHR ''/'' \<and> glob_inner p u)
      else (case t of [] \<Rightarrow> False | x # u \<Rightarrow> x = c \<and> glob_inner p u))"
| "glob_star p t \<longleftrightarrow> glob_inner p t \<or> (case t of [] \<Rightarrow> False | x # u \<Rightarrow> x \<noteq> CHR ''/'' \<and> glob_star p u)"
| "glob_any p t \<longleftrightarrow> glob_inner p t \<or> (case t of [] \<Rightarrow> False | x # u \<Rightarrow> glob_any p u)"
  by pat_completeness auto
termination
  by (relation "measures
      [\<lambda>x. case x of Inl (p, t) \<Rightarrow> 2 * length p | Inr (Inl (p, t)) \<Rightarrow> 2 * length p + 1 | Inr (Inr (p, t)) \<Rightarrow> 2 * length p + 1,
       \<lambda>x. case x of Inl (p, t) \<Rightarrow> length t | Inr (Inl (p, t)) \<Rightarrow> length t | Inr (Inr (p, t)) \<Rightarrow> length t]")
    (auto simp: after_slash_def split: list.splits)

declare glob_inner.simps(2) [simp del] glob_star.simps [simp del] glob_any.simps [simp del]

definition glob_match :: "string \<Rightarrow> string \<Rightarrow> bool" where
  "glob_match pattern path = glob_inner pattern path"

definition matches_any :: "string list \<Rightarrow> string \<Rightarrow> bool" where
  "matches_any globs path = list_ex (\<lambda>g. glob_match g path) globs"

section \<open>The policy\<close>

datatype verdict = VSkip | VSelective | VFull

text \<open>The derived order: a greater verdict runs more.\<close>

fun verdict_index :: "verdict \<Rightarrow> nat" where
  "verdict_index VSkip = 0"
| "verdict_index VSelective = 1"
| "verdict_index VFull = 2"

lemma verdict_index_inject: "verdict_index a = verdict_index b \<longleftrightarrow> a = b"
  by (cases a; cases b) simp_all

instantiation verdict :: linorder
begin

definition less_eq_verdict :: "verdict \<Rightarrow> verdict \<Rightarrow> bool" where
  "less_eq_verdict a b \<longleftrightarrow> verdict_index a \<le> verdict_index b"

definition less_verdict :: "verdict \<Rightarrow> verdict \<Rightarrow> bool" where
  "less_verdict a b \<longleftrightarrow> verdict_index a < verdict_index b"

instance
  by standard (auto simp: less_eq_verdict_def less_verdict_def verdict_index_inject)

end

fun verdict_str :: "verdict \<Rightarrow> string" where
  "verdict_str VSkip = ''skip''"
| "verdict_str VSelective = ''selective''"
| "verdict_str VFull = ''full''"

record footprint =
  fp_paths :: "string list"
  fp_nodes :: "string list"
  fp_e2e_all :: bool
  fp_e2e_backends :: "string list"
  fp_component :: string
  fp_raw :: json

record backend_rule =
  br_id :: string
  br_paths :: "string list"
  br_scoped_paths :: "(string \<times> string list) list"
  br_backends :: "string list"
  br_lanes :: "string list"
  br_extra_nodes :: "string list"
  br_tier :: string

definition scoped_match :: "string \<Rightarrow> string \<times> string list \<Rightarrow> bool" where
  "scoped_match path = (\<lambda>(dir, globs).
     case strip_prefix path dir of
       None \<Rightarrow> False
     | Some rest \<Rightarrow> (case strip_prefix rest ''/'' of None \<Rightarrow> False | Some inner \<Rightarrow> matches_any globs inner))"

definition backend_rule_matches :: "backend_rule \<Rightarrow> string \<Rightarrow> bool" where
  "backend_rule_matches rule path \<longleftrightarrow>
     matches_any (br_paths rule) path \<or> list_ex (scoped_match path) (br_scoped_paths rule)"

type_synonym node_groups = "(string, string list) btree_map"

record class_policy =
  py_force_full :: "string list"
  py_ci_irrelevant :: "string list"
  py_groups :: node_groups
  py_footprints :: "footprint list"
  py_backend_rules :: "backend_rule list"

section \<open>Expansion of node references\<close>

text \<open>
  \<open>Policy::expand\<close> adds the plain references to \<open>out\<close> and follows each group once. The result is the
  unknown group it stopped at, if any, with the two sets as they are then: a caller that ignores
  the error keeps what was added before it.
\<close>

type_synonym expansion = "string option \<times> string btree_set \<times> string btree_set"

function expand :: "node_groups \<Rightarrow> string list \<Rightarrow> string btree_set \<Rightarrow> string btree_set \<Rightarrow> expansion" where
  "expand groups [] out seen = (None, out, seen)"
| "expand groups (r # refs) out seen =
     (case strip_prefix r ''@'' of
        Some nm \<Rightarrow>
          if nm \<in> set seen then expand groups refs out seen
          else (case bt_get groups nm of
              None \<Rightarrow> (Some nm, out, bs_insert nm seen)
            | Some members \<Rightarrow>
                (case expand groups members out (bs_insert nm seen) of
                   (Some e, out', seen') \<Rightarrow> (Some e, out', seen')
                 | (None, out', seen') \<Rightarrow> expand groups refs out' seen'))
      | None \<Rightarrow> expand groups refs (bs_insert r out) seen)"
  by pat_completeness auto

definition unfollowed :: "node_groups \<Rightarrow> string btree_set \<Rightarrow> string set" where
  "unfollowed groups seen = fst ` set groups - set seen"

lemma expand_seen:
  assumes "expand_dom (groups, refs, out, seen)"
  shows "set seen \<subseteq> set (snd (snd (expand groups refs out seen)))"
  using assms
proof (induction rule: expand.pinduct)
  case (1 groups out seen)
  then show ?case by (simp add: expand.psimps)
next
  case (2 groups r refs out seen)
  note unfold = expand.psimps(2)[OF 2(1)]
  show ?case
  proof (cases "strip_prefix r ''@''")
    case None
    then show ?thesis using 2(2)[OF None] by (simp add: unfold)
  next
    case (Some nm)
    show ?thesis
    proof (cases "nm \<in> set seen \<or> bt_get groups nm = None")
      case True
      then show ?thesis using Some 2(3)[OF Some] by (auto simp: unfold)
    next
      case False
      then obtain ms where ms: "nm \<notin> set seen" "bt_get groups nm = Some ms" by auto
      obtain e out' seen' where inner: "expand groups ms out (bs_insert nm seen) = (e, out', seen')"
        by (cases "expand groups ms out (bs_insert nm seen)") auto
      have "set seen \<subseteq> set seen'" using 2(4)[OF Some ms] inner by auto
      moreover have "set seen' \<subseteq> set (snd (snd (expand groups refs out' seen')))" if "e = None"
        using 2(5)[OF Some ms inner[symmetric] that refl] by simp
      ultimately show ?thesis using Some ms inner by (cases e) (auto simp: unfold)
    qed
  qed
qed

lemma unfollowed_mono: "set seen \<subseteq> set seen' \<Longrightarrow> card (unfollowed groups seen') \<le> card (unfollowed groups seen)"
  by (rule card_mono) (auto simp: unfollowed_def)

lemma unfollowed_step:
  "bt_get groups nm = Some ms \<Longrightarrow> nm \<notin> set seen \<Longrightarrow>
     card (unfollowed groups (bs_insert nm seen)) < card (unfollowed groups seen)"
  by (rule psubset_card_mono) (auto simp: unfollowed_def bt_get_def dest!: map_of_SomeD, force)

termination expand
  apply (relation "measures [\<lambda>(groups, refs, out, seen). card (unfollowed groups seen),
    \<lambda>(groups, refs, out, seen). length refs]")
  subgoal by simp
  subgoal by simp
  subgoal by simp
  subgoal using unfollowed_step by simp
  subgoal premises prems for groups r refs out seen nm ms e st out' seen'
  proof -
    have "set (bs_insert nm seen) \<subseteq> set seen'"
      using expand_seen[OF prems(7)] prems by (metis snd_conv)
    then show ?thesis
      using unfollowed_mono[of "bs_insert nm seen" seen' groups] unfollowed_step[OF prems(3,2)] by simp
  qed
  done

declare expand.simps(2) [simp del]

section \<open>Reading a policy\<close>

definition POLICY_VERSION :: nat where "POLICY_VERSION = 2"

definition strings :: "json \<Rightarrow> string list" where
  "strings v = (case as_array v of Some items \<Rightarrow> List.map_filter as_str items | None \<Rightarrow> [])"

text \<open>The first directory of a glob when it is literal.\<close>

definition literal_dir :: "string \<Rightarrow> string option" where
  "literal_dir glob =
     (case split_once (CHR ''/'') glob of
        None \<Rightarrow> None
      | Some (dir, _) \<Rightarrow>
          if dir \<noteq> [] \<and> CHR ''*'' \<notin> set dir \<and> CHR ''?'' \<notin> set dir then Some dir else None)"

definition or_str :: "string option \<Rightarrow> string \<Rightarrow> string" where
  "or_str opt s = (case opt of Some x \<Rightarrow> x | None \<Rightarrow> s)"

definition array_at :: "json \<Rightarrow> string \<Rightarrow> json list" where
  "array_at v key =
     (case Option.bind (json_get v key) as_array of Some xs \<Rightarrow> xs | None \<Rightarrow> [])"

definition component_of :: "nat \<Rightarrow> json \<Rightarrow> string list \<Rightarrow> string" where
  "component_of index e paths =
     (case Option.bind (json_get e ''component'') as_str of
        Some c \<Rightarrow> c
      | None \<Rightarrow> or_str (case paths of [] \<Rightarrow> None | glob # _ \<Rightarrow> literal_dir glob)
          (''footprint-'' @ dec_nat index))"

definition footprint_from :: "nat \<times> json \<Rightarrow> footprint" where
  "footprint_from = (\<lambda>(index, e).
     (let paths = strings (json_at e ''paths'')
      in \<lparr>fp_paths = paths, fp_nodes = strings (json_at e ''nodes''),
          fp_e2e_all = (case as_bool (json_at e ''e2e_all'') of Some b \<Rightarrow> b | None \<Rightarrow> False),
          fp_e2e_backends = strings (json_at e ''e2e_backends''),
          fp_component = component_of index e paths, fp_raw = e\<rparr>))"

definition scoped_from :: "string \<times> json \<Rightarrow> (string \<times> string list) option" where
  "scoped_from = (\<lambda>(key, globs).
     case strip_suffix key ''_paths'' of
       None \<Rightarrow> None
     | Some dir \<Rightarrow> if dir \<noteq> [] then Some (dir, strings globs) else None)"

definition backend_rule_from :: "json \<Rightarrow> backend_rule" where
  "backend_rule_from rule =
     \<lparr>br_id = or_str (as_str (json_at rule ''id'')) [], br_paths = strings (json_at rule ''paths''),
      br_scoped_paths = (case as_object rule of Some obj \<Rightarrow> List.map_filter scoped_from obj | None \<Rightarrow> []),
      br_backends = strings (json_at rule ''backends''), br_lanes = strings (json_at rule ''lanes''),
      br_extra_nodes = strings (json_at rule ''extra_nodes''),
      br_tier = or_str (as_str (json_at rule ''tier'')) ''backend''\<rparr>"

definition groups_from :: "json \<Rightarrow> node_groups" where
  "groups_from v =
     (case Option.bind (json_get v ''groups'') as_object of
        Some groups \<Rightarrow> bt_collect (map (\<lambda>(nm, members). (nm, strings members)) groups)
      | None \<Rightarrow> [])"

text \<open>Every group that a rule names must exist; the probe set is shared between the rules.\<close>

fun check_groups :: "node_groups \<Rightarrow> string list list \<Rightarrow> string btree_set \<Rightarrow> string + unit" where
  "check_groups groups [] probe = Inr ()"
| "check_groups groups (refs # rest) probe =
     (case expand groups refs probe [] of
        (Some nm, _) \<Rightarrow> Inl (''unknown group @'' @ nm)
      | (None, probe', _) \<Rightarrow> check_groups groups rest probe')"

definition version_error :: "nat option \<Rightarrow> string" where
  "version_error v = ''policy version '' @ (case v of Some n \<Rightarrow> dec_nat n | None \<Rightarrow> ''missing'')
     @ '' is not supported (this build reads version '' @ dec_nat POLICY_VERSION @ '')''"

definition policy_of :: "json \<Rightarrow> class_policy" where
  "policy_of v =
     \<lparr>py_force_full = strings (json_at v ''force_full''), py_ci_irrelevant = strings (json_at v ''ci_irrelevant''),
      py_groups = groups_from v, py_footprints = map footprint_from (List.enumerate 0 (array_at v ''footprints'')),
      py_backend_rules = map backend_rule_from (array_at v ''backend_rules'')\<rparr>"

definition policy_from_value :: "json \<Rightarrow> string + class_policy" where
  "policy_from_value v =
     (case Option.bind (json_get v ''version'') as_u64 of
        Some n \<Rightarrow>
          if n = POLICY_VERSION then
            (let p = policy_of v
             in case check_groups (py_groups p)
                 (map fp_nodes (py_footprints p) @ map br_extra_nodes (py_backend_rules p)) [] of
                  Inl e \<Rightarrow> Inl e
                | Inr _ \<Rightarrow> Inr p)
          else Inl (version_error (Some n))
      | None \<Rightarrow> Inl (version_error None))"

definition policy_from_json :: "(string \<Rightarrow> string + json) \<Rightarrow> string \<Rightarrow> string + class_policy" where
  "policy_from_json parse_json text =
     (case parse_json text of
        Inl e \<Rightarrow> Inl (''invalid policy JSON: '' @ e)
      | Inr v \<Rightarrow> policy_from_value v)"

definition policy_load ::
  "(string \<Rightarrow> string + string) \<Rightarrow> (string \<Rightarrow> string + json) \<Rightarrow> string \<Rightarrow> string + class_policy" where
  "policy_load read_file parse_json path =
     (case read_file path of
        Inl e \<Rightarrow> Inl (''cannot read '' @ path @ '': '' @ e)
      | Inr text \<Rightarrow> (case policy_from_json parse_json text of
            Inl e \<Rightarrow> Inl (path @ '': '' @ e) | Inr p \<Rightarrow> Inr p))"

section \<open>Classification\<close>

datatype path_class = ForceFull | Matched | Inert | UnknownPath

record path_match =
  pmt_path :: string
  pmt_class :: path_class
  pmt_footprints :: "nat list"
  pmt_backend_rules :: "string list"

record classification =
  cl_verdict :: verdict
  cl_nodes :: "string btree_set"
  cl_e2e_all :: bool
  cl_e2e_backends :: "string btree_set"
  cl_backend_rules :: "string list"
  cl_backend_lanes :: "string list"
  cl_components :: "string btree_set"
  cl_unknown :: "string list"
  cl_paths :: "path_match list"
  cl_reasons :: "string list"

definition only_force_full :: "classification \<Rightarrow> bool" where
  "only_force_full c \<longleftrightarrow> cl_paths c \<noteq> [] \<and> list_all (\<lambda>p. pmt_class p = ForceFull) (cl_paths c)"

definition only_inert :: "classification \<Rightarrow> bool" where
  "only_inert c \<longleftrightarrow> cl_paths c \<noteq> [] \<and> list_all (\<lambda>p. pmt_class p = Inert) (cl_paths c)"

definition push_unique :: "string \<Rightarrow> string list \<Rightarrow> string list" where
  "push_unique x xs = (if x \<in> set xs then xs else xs @ [x])"

text \<open>The right arrow of the reasons, as its three bytes.\<close>

definition arrow :: string where
  "arrow = [CHR 0xE2, CHR 0x86, CHR 0x92]"

definition classification_start :: classification where
  "classification_start =
     \<lparr>cl_verdict = VFull, cl_nodes = [], cl_e2e_all = False, cl_e2e_backends = [], cl_backend_rules = [],
      cl_backend_lanes = [], cl_components = [], cl_unknown = [], cl_paths = [], cl_reasons = []\<rparr>"

definition add_nodes :: "class_policy \<Rightarrow> string list \<Rightarrow> string btree_set \<Rightarrow> string btree_set" where
  "add_nodes p refs nodes = fst (snd (expand (py_groups p) refs nodes []))"

definition footprint_step ::
  "class_policy \<Rightarrow> string \<Rightarrow> nat \<times> footprint \<Rightarrow> classification \<times> path_match \<Rightarrow> classification \<times> path_match" where
  "footprint_step p path = (\<lambda>(index, f) (out, e).
     if matches_any (fp_paths f) path
     then (out\<lparr>cl_nodes := add_nodes p (fp_nodes f) (cl_nodes out),
               cl_e2e_all := (cl_e2e_all out \<or> fp_e2e_all f),
               cl_e2e_backends := fold bs_insert (fp_e2e_backends f) (cl_e2e_backends out),
               cl_components := bs_insert (fp_component f) (cl_components out)\<rparr>,
           e\<lparr>pmt_footprints := pmt_footprints e @ [index]\<rparr>)
     else (out, e))"

definition rule_out :: "class_policy \<Rightarrow> backend_rule \<Rightarrow> classification \<Rightarrow> classification" where
  "rule_out p r out =
     (let out = out\<lparr>cl_backend_rules := push_unique (br_id r) (cl_backend_rules out),
            cl_backend_lanes := fold push_unique (br_lanes r) (cl_backend_lanes out),
            cl_components := bs_insert (''backend:'' @ br_id r) (cl_components out)\<rparr>
      in if br_tier r = ''core'' then out
         else out\<lparr>cl_nodes := add_nodes p (br_extra_nodes r) (cl_nodes out),
                  cl_e2e_backends := fold bs_insert (filter (\<lambda>b. b \<noteq> ''*'') (br_backends r)) (cl_e2e_backends out)\<rparr>)"

definition rule_step ::
  "class_policy \<Rightarrow> string \<Rightarrow> backend_rule \<Rightarrow> classification \<times> path_match \<times> string option \<Rightarrow>
     classification \<times> path_match \<times> string option" where
  "rule_step p path r = (\<lambda>(out, e, core).
     if backend_rule_matches r path
     then (rule_out p r out, e\<lparr>pmt_backend_rules := pmt_backend_rules e @ [br_id r]\<rparr>,
           if br_tier r = ''core'' then Some (br_id r) else core)
     else (out, e, core))"

text \<open>The state of the loop over the paths: the result, \<open>force\<close>, \<open>all_inert\<close> and \<open>core_rule\<close>.\<close>

record class_loop_state =
  cs_out :: classification
  cs_force :: bool
  cs_all_inert :: bool
  cs_core :: "string option"

definition path_step :: "class_policy \<Rightarrow> string \<Rightarrow> class_loop_state \<Rightarrow> class_loop_state" where
  "path_step p path st =
     (let e = \<lparr>pmt_path = path, pmt_class = UnknownPath, pmt_footprints = [], pmt_backend_rules = []\<rparr>
      in if matches_any (py_force_full p) path
         then st\<lparr>cs_force := True, cs_all_inert := False,
                 cs_out := (cs_out st)\<lparr>cl_reasons := cl_reasons (cs_out st) @ [path @ '' '' @ arrow @ '' force_full''],
                   cl_paths := cl_paths (cs_out st) @ [e\<lparr>pmt_class := ForceFull\<rparr>]\<rparr>\<rparr>
         else
           (let (out, e) = fold (footprint_step p path) (List.enumerate 0 (py_footprints p)) (cs_out st, e);
                (out, e, core) = fold (rule_step p path) (py_backend_rules p) (out, e, cs_core st)
            in if pmt_footprints e \<noteq> [] \<or> pmt_backend_rules e \<noteq> []
               then st\<lparr>cs_all_inert := False, cs_core := core,
                       cs_out := out\<lparr>cl_paths := cl_paths out @ [e\<lparr>pmt_class := Matched\<rparr>]\<rparr>\<rparr>
               else if matches_any (py_ci_irrelevant p) path
               then st\<lparr>cs_core := core, cs_out := out\<lparr>cl_paths := cl_paths out @ [e\<lparr>pmt_class := Inert\<rparr>]\<rparr>\<rparr>
               else st\<lparr>cs_all_inert := False, cs_core := core,
                       cs_out := out\<lparr>cl_unknown := cl_unknown out @ [path], cl_paths := cl_paths out @ [e]\<rparr>\<rparr>))"

definition final_verdict :: "class_loop_state \<Rightarrow> verdict \<times> string list" where
  "final_verdict st =
     (let out = cs_out st
      in case cs_core st of
           Some rule \<Rightarrow> (VFull, [''shared core rule `'' @ rule @ ''` matched '' @ arrow @ '' full suite''])
         | None \<Rightarrow>
             if cs_force st then (VFull, [])
             else if cl_unknown out \<noteq> []
             then (VFull, [dec_nat (length (cl_unknown out)) @ '' unmapped path(s) (e.g. ''
                @ str_join '', '' (take 3 (cl_unknown out)) @ '') '' @ arrow @ '' conservative full suite''])
             else if cl_nodes out = [] \<and> cs_all_inert st
             then (VSkip, [''all changed paths are CI-irrelevant '' @ arrow @ '' skip''])
             else if cl_nodes out = []
             then (VFull, [''no footprint matched but paths not proven inert '' @ arrow @ '' full suite''])
             else (VSelective, [dec_nat (length (cl_nodes out)) @ '' node(s) selected'']))"

definition classify_paths :: "class_policy \<Rightarrow> string list \<Rightarrow> class_loop_state" where
  "classify_paths p paths =
     fold (path_step p) paths \<lparr>cs_out = classification_start, cs_force = False, cs_all_inert = True, cs_core = None\<rparr>"

definition classify :: "class_policy \<Rightarrow> string list \<Rightarrow> classification" where
  "classify p paths =
     (if paths = []
      then classification_start\<lparr>cl_reasons := [''no changed-path information available '' @ arrow @ '' full suite'']\<rparr>
      else let st = classify_paths p paths; (v, reasons) = final_verdict st
           in (cs_out st)\<lparr>cl_verdict := v, cl_reasons := cl_reasons (cs_out st) @ reasons\<rparr>)"

section \<open>Known nodes\<close>

datatype unknown_node = UnknownNode (un_node: string) (un_rule: string)

text \<open>The derived order: the node first, then the rule.\<close>

instantiation unknown_node :: linorder
begin

definition less_eq_unknown_node :: "unknown_node \<Rightarrow> unknown_node \<Rightarrow> bool" where
  "less_eq_unknown_node a b \<longleftrightarrow> (un_node a, un_rule a) \<le> (un_node b, un_rule b)"

definition less_unknown_node :: "unknown_node \<Rightarrow> unknown_node \<Rightarrow> bool" where
  "less_unknown_node a b \<longleftrightarrow> (un_node a, un_rule a) < (un_node b, un_rule b)"

instance
proof
  fix a b c :: unknown_node
  show "a < b \<longleftrightarrow> a \<le> b \<and> \<not> b \<le> a"
    unfolding less_unknown_node_def less_eq_unknown_node_def by (rule less_le_not_le)
  show "a \<le> a" by (simp add: less_eq_unknown_node_def)
  show "a \<le> b \<Longrightarrow> b \<le> c \<Longrightarrow> a \<le> c"
    unfolding less_eq_unknown_node_def by (rule order_trans)
  show "a \<le> b \<Longrightarrow> b \<le> a \<Longrightarrow> a = b"
    unfolding less_eq_unknown_node_def by (cases a; cases b) (metis antisym prod.inject unknown_node.sel)
  show "a \<le> b \<or> b \<le> a" unfolding less_eq_unknown_node_def by (rule linear)
qed

end

definition refusal_text :: "unknown_node list \<Rightarrow> string" where
  "refusal_text ns =
     ''refused: matched rules name '' @ dec_nat (length ns) @ '' node(s) not in the known-node list: ''
     @ str_join '', '' (map (\<lambda>n. ''`'' @ un_node n @ ''` (named by '' @ un_rule n @ '')'') ns)"

definition parse_known_nodes :: "(string \<Rightarrow> string + string list) \<Rightarrow> string \<Rightarrow> string + string btree_set" where
  "parse_known_nodes parse_strings text =
     (if starts_with (trim_start_of unicode_whitespace text) ''[''
      then case parse_strings text of
          Inl e \<Rightarrow> Inl (''known-node list is not a JSON array of strings: '' @ e)
        | Inr nodes \<Rightarrow> Inr (bs_collect nodes)
      else Inr (bs_collect (filter (\<lambda>line. line \<noteq> [] \<and> \<not> starts_with line ''#'') (map str_trim (str_lines text)))))"

definition check_refs ::
  "class_policy \<Rightarrow> string btree_set \<Rightarrow> string list \<Rightarrow> string \<Rightarrow> unknown_node btree_set \<Rightarrow> unknown_node btree_set" where
  "check_refs p known refs rule unknown =
     fold (\<lambda>node. bs_insert (UnknownNode node rule))
       (filter (\<lambda>node. node \<notin> set known) (fst (snd (expand (py_groups p) refs [] [])))) unknown"

definition check_footprint :: "class_policy \<Rightarrow> string btree_set \<Rightarrow> nat \<Rightarrow> unknown_node btree_set \<Rightarrow> unknown_node btree_set" where
  "check_footprint p known index =
     (let f = py_footprints p ! index
      in check_refs p known (fp_nodes f) (''footprint '' @ dec_nat index @ '' ('' @ fp_component f @ '')''))"

definition check_rule :: "class_policy \<Rightarrow> string btree_set \<Rightarrow> backend_rule \<Rightarrow> unknown_node btree_set \<Rightarrow> unknown_node btree_set" where
  "check_rule p known r = check_refs p known (br_extra_nodes r) (''backend rule '' @ br_id r)"

definition check_path :: "class_policy \<Rightarrow> string btree_set \<Rightarrow> path_match \<Rightarrow> unknown_node btree_set \<Rightarrow> unknown_node btree_set" where
  "check_path p known e unknown =
     fold (check_rule p known)
       (filter (\<lambda>r. br_tier r \<noteq> ''core'' \<and> br_id r \<in> set (pmt_backend_rules e)) (py_backend_rules p))
       (fold (check_footprint p known) (pmt_footprints e) unknown)"

definition classify_known :: "class_policy \<Rightarrow> string list \<Rightarrow> string btree_set \<Rightarrow> unknown_node list + classification" where
  "classify_known p paths known =
     (let out = classify p paths; unknown = fold (check_path p known) (cl_paths out) []
      in if unknown = [] then Inr out else Inl unknown)"

section \<open>Changed paths\<close>

definition name_status_line :: "string \<Rightarrow> string list" where
  "name_status_line line =
     (case split_once (CHR 0x09) line of
        None \<Rightarrow> (let path = str_trim line in if path \<noteq> [] then [path] else [])
      | Some (status, rest) \<Rightarrow>
          (let status = str_trim status; parts = map str_trim (split_of [[CHR 0x09]] rest)
           in if starts_with status ''R'' \<or> starts_with status ''C''
              then filter (\<lambda>f. f \<noteq> []) parts
              else case parts of [] \<Rightarrow> [] | path # _ \<Rightarrow> if path \<noteq> [] then [path] else []))"

definition parse_name_status :: "string \<Rightarrow> string list" where
  "parse_name_status text = concat (map name_status_line (str_lines text))"

text \<open>What running git gives: that it could not be run, or whether it succeeded with its two outputs.\<close>

type_synonym git_outcome = "string + (bool \<times> string \<times> string)"

definition changed_paths :: "(string list \<Rightarrow> git_outcome) \<Rightarrow> string \<Rightarrow> string \<Rightarrow> string \<Rightarrow> string + string list" where
  "changed_paths git repo base head =
     (case git [''-C'', repo, ''diff'', ''--name-status'', ''-M'', base @ ''...'' @ head] of
        Inl e \<Rightarrow> Inl (''cannot run git: '' @ e)
      | Inr (success, stdout, stderr) \<Rightarrow>
          if success then Inr (parse_name_status stdout)
          else Inl (''git diff '' @ base @ ''...'' @ head @ '' failed: '' @ str_trim stderr))"

section \<open>The commands\<close>

text \<open>
  \<open>main.rs\<close>: \<open>classify\<close> and \<open>glob\<close>. What a command does is its exit status with the lines of its two outputs;
  an error is the message that \<open>main\<close> prints before it exits with status 2.
\<close>

record classify_args =
  ca_policy :: string
  ca_base :: "string option"
  ca_head :: string
  ca_repo :: string
  ca_paths :: "string list"
  ca_known_nodes :: "string option"
  ca_json :: bool

record classify_env =
  ce_read_file :: "string \<Rightarrow> string + string"
  ce_parse_json :: "string \<Rightarrow> string + json"
  ce_parse_strings :: "string \<Rightarrow> string + string list"
  ce_git :: "string list \<Rightarrow> git_outcome"
  ce_stdin :: "string + string"
  ce_print :: "classification \<Rightarrow> string + string"
  ce_print_refusal :: "unknown_node list \<Rightarrow> string + string"

datatype class_command = ClassifyCommand classify_args | GlobCommand string string

type_synonym command_run = "nat \<times> string list \<times> string list"

definition known_input :: "classify_env \<Rightarrow> classify_args \<Rightarrow> string + string btree_set option" where
  "known_input env args =
     (case ca_known_nodes args of
        None \<Rightarrow> Inr None
      | Some file \<Rightarrow>
          (case (case ce_read_file env file of
               Inl e \<Rightarrow> Inl (''cannot read '' @ file @ '': '' @ e)
             | Inr text \<Rightarrow> parse_known_nodes (ce_parse_strings env) text) of
             Inl e \<Rightarrow> Inl (file @ '': '' @ e)
           | Inr known \<Rightarrow> Inr (Some known)))"

definition changed_input :: "classify_env \<Rightarrow> classify_args \<Rightarrow> string + string list" where
  "changed_input env args =
     (case ca_base args of
        Some base \<Rightarrow> changed_paths (ce_git env) (ca_repo args) base (ca_head args)
      | None \<Rightarrow>
          if ca_paths args = [''-'']
          then (case ce_stdin env of
              Inl e \<Rightarrow> Inl (''cannot read standard input: '' @ e)
            | Inr text \<Rightarrow> Inr (parse_name_status text))
          else if ca_paths args = [] then Inl ''give --base REV or --paths PATH...''
          else Inr (ca_paths args))"

definition verdict_lines :: "classification \<Rightarrow> string list" where
  "verdict_lines c =
     [verdict_str (cl_verdict c)]
     @ (if cl_components c \<noteq> [] then [''components: '' @ str_join '', '' (cl_components c)] else [])
     @ (if cl_nodes c \<noteq> [] then [''nodes: '' @ str_join '' '' (cl_nodes c)] else [])
     @ map (\<lambda>reason. ''  '' @ reason) (cl_reasons c)"

definition print_refused :: "classify_env \<Rightarrow> classify_args \<Rightarrow> unknown_node list \<Rightarrow> string + command_run" where
  "print_refused env args refused =
     (let err = [''change-classify: '' @ refusal_text refused]
      in if ca_json args
         then (case ce_print_refusal env refused of Inl e \<Rightarrow> Inl e | Inr doc \<Rightarrow> Inr (3, [doc], err))
         else Inr (3, [], err))"

definition print_classified :: "classify_env \<Rightarrow> classify_args \<Rightarrow> classification \<Rightarrow> string + command_run" where
  "print_classified env args c =
     (if ca_json args
      then (case ce_print env c of Inl e \<Rightarrow> Inl e | Inr doc \<Rightarrow> Inr (0, [doc], []))
      else Inr (0, verdict_lines c, []))"

definition run_classify :: "classify_env \<Rightarrow> classify_args \<Rightarrow> string + command_run" where
  "run_classify env args =
     (case policy_load (ce_read_file env) (ce_parse_json env) (ca_policy args) of
        Inl e \<Rightarrow> Inl e
      | Inr p \<Rightarrow>
         (case known_input env args of
            Inl e \<Rightarrow> Inl e
          | Inr known \<Rightarrow>
             (case changed_input env args of
                Inl e \<Rightarrow> Inl e
              | Inr paths \<Rightarrow>
                 (case known of
                    None \<Rightarrow> print_classified env args (classify p paths)
                  | Some nodes \<Rightarrow>
                      (case classify_known p paths nodes of
                         Inr c \<Rightarrow> print_classified env args c
                       | Inl refused \<Rightarrow> print_refused env args refused)))))"

fun run_command :: "classify_env \<Rightarrow> class_command \<Rightarrow> command_run" where
  "run_command env (ClassifyCommand args) =
     (case run_classify env args of
        Inl e \<Rightarrow> (2, [], [''change-classify: '' @ e])
      | Inr r \<Rightarrow> r)"
| "run_command env (GlobCommand pattern path) = ((if glob_match pattern path then 0 else 1), [], [])"

end
