(* ===== verification/Classifier_Expand.thy ===== *)
theory Classifier_Expand
  imports Classifier
begin

text \<open>
  The expansion of node references: which groups a list of references leads to, which nodes they
  name, and that \<open>expand\<close> computes exactly these nodes or reports a group that does not exist.
\<close>

definition named_groups :: "string list \<Rightarrow> string set" where
  "named_groups refs = {nm. ''@'' @ nm \<in> set refs}"

definition plain_refs :: "string list \<Rightarrow> string set" where
  "plain_refs refs = {r \<in> set refs. \<not> starts_with r ''@''}"

definition group_edges :: "node_groups \<Rightarrow> (string \<times> string) set" where
  "group_edges g = {(n, m). \<exists>ms. bt_get g n = Some ms \<and> m \<in> named_groups ms}"

definition reached_groups :: "node_groups \<Rightarrow> string list \<Rightarrow> string set" where
  "reached_groups g refs = (group_edges g)\<^sup>* `` named_groups refs"

definition ref_nodes :: "node_groups \<Rightarrow> string list \<Rightarrow> string set" where
  "ref_nodes g refs = plain_refs refs \<union> {r. \<exists>n \<in> reached_groups g refs. \<exists>ms. bt_get g n = Some ms \<and> r \<in> plain_refs ms}"

definition groups_exist :: "node_groups \<Rightarrow> string list \<Rightarrow> bool" where
  "groups_exist g refs \<longleftrightarrow> (\<forall>n \<in> reached_groups g refs. bt_get g n \<noteq> None)"

lemma strip_at:
  "strip_prefix r ''@'' = Some nm \<Longrightarrow> r = ''@'' @ nm"
  "strip_prefix r ''@'' = None \<Longrightarrow> \<not> starts_with r ''@''"
  by (simp_all add: strip_prefix_Some) (auto simp: strip_prefix_def split: if_splits)

lemma refs_Cons:
  "strip_prefix r ''@'' = Some nm \<Longrightarrow> named_groups (r # refs) = insert nm (named_groups refs)"
  "strip_prefix r ''@'' = Some nm \<Longrightarrow> plain_refs (r # refs) = plain_refs refs"
  "strip_prefix r ''@'' = None \<Longrightarrow> named_groups (r # refs) = named_groups refs"
  "strip_prefix r ''@'' = None \<Longrightarrow> plain_refs (r # refs) = insert r (plain_refs refs)"
  by (auto simp: named_groups_def plain_refs_def dest!: strip_at)

lemma refs_Nil [simp]: "named_groups [] = {}" "plain_refs [] = {}"
  by (simp_all add: named_groups_def plain_refs_def)

lemma reached_Cons:
  "strip_prefix r ''@'' = Some nm \<Longrightarrow> reached_groups g (r # refs) = (group_edges g)\<^sup>* `` {nm} \<union> reached_groups g refs"
  "strip_prefix r ''@'' = None \<Longrightarrow> reached_groups g (r # refs) = reached_groups g refs"
  by (auto simp: reached_groups_def refs_Cons)

lemma reached_members: "bt_get g nm = Some ms \<Longrightarrow> (group_edges g)\<^sup>* `` {nm} = insert nm (reached_groups g ms)"
proof -
  assume ms: "bt_get g nm = Some ms"
  have "(group_edges g)\<^sup>* `` {nm} = insert nm ((group_edges g)\<^sup>* `` (group_edges g `` {nm}))"
    by (auto elim: converse_rtranclE intro: converse_rtrancl_into_rtrancl)
  also have "group_edges g `` {nm} = named_groups ms" using ms by (auto simp: group_edges_def)
  finally show ?thesis by (simp add: reached_groups_def)
qed

lemma ref_nodes_Cons:
  "strip_prefix r ''@'' = None \<Longrightarrow> ref_nodes g (r # refs) = insert r (ref_nodes g refs)"
  "strip_prefix r ''@'' = Some nm \<Longrightarrow> bt_get g nm = Some ms \<Longrightarrow>
     ref_nodes g (r # refs) = ref_nodes g ms \<union> ref_nodes g refs"
  by (auto simp: ref_nodes_def refs_Cons reached_Cons reached_members)

lemma ref_nodes_mono: "strip_prefix r ''@'' = Some nm \<Longrightarrow> ref_nodes g refs \<subseteq> ref_nodes g (r # refs)"
  by (auto simp: ref_nodes_def refs_Cons reached_Cons)

text \<open>The result of a step of \<open>expand\<close>, by the form of the first reference.\<close>

lemma expand_cases:
  assumes "expand g (r # refs) out seen = (e, out', seen')"
  obtains (plain) "strip_prefix r ''@'' = None" "expand g refs (bs_insert r out) seen = (e, out', seen')"
  | (seen) nm where "strip_prefix r ''@'' = Some nm" "nm \<in> set seen" "expand g refs out seen = (e, out', seen')"
  | (missing) nm where "strip_prefix r ''@'' = Some nm" "nm \<notin> set seen" "bt_get g nm = None"
      "e = Some nm" "out' = out" "seen' = bs_insert nm seen"
  | (stopped) nm ms where "strip_prefix r ''@'' = Some nm" "nm \<notin> set seen" "bt_get g nm = Some ms" "e \<noteq> None"
      "expand g ms out (bs_insert nm seen) = (e, out', seen')"
  | (followed) nm ms out1 seen1 where "strip_prefix r ''@'' = Some nm" "nm \<notin> set seen" "bt_get g nm = Some ms"
      "expand g ms out (bs_insert nm seen) = (None, out1, seen1)" "expand g refs out1 seen1 = (e, out', seen')"
  using assms by (auto simp: expand.simps(2) split: option.splits if_splits prod.splits)

lemma expand_sound:
  assumes "expand g refs out seen = (e, out', seen')"
  shows "set out \<subseteq> set out' \<and> set seen \<subseteq> set seen' \<and> set seen' \<subseteq> set seen \<union> reached_groups g refs
    \<and> set out' \<subseteq> set out \<union> ref_nodes g refs
    \<and> (\<forall>nm. e = Some nm \<longrightarrow> nm \<in> reached_groups g refs \<and> bt_get g nm = None)"
  using assms
proof (induction g refs out seen arbitrary: e out' seen' rule: expand.induct)
  case (1 g out seen)
  then show ?case by simp
next
  case (2 g r refs out seen)
  from 2(5) show ?case
  proof (cases rule: expand_cases)
    case plain
    then show ?thesis using 2(1)[OF plain] by (auto simp: reached_Cons ref_nodes_Cons)
  next
    case (seen nm)
    then show ?thesis using 2(2)[OF seen] ref_nodes_mono[OF seen(1), of g refs] by (auto simp: reached_Cons)
  next
    case (missing nm)
    then show ?thesis by (auto simp: reached_Cons)
  next
    case (stopped nm ms)
    then show ?thesis using 2(3)[OF stopped(1-3,5)]
      by (auto simp: reached_Cons reached_members ref_nodes_Cons(2)[OF stopped(1,3)])
  next
    case (followed nm ms out1 seen1)
    note inner = 2(3)[OF followed(1-4)] and rest = 2(4)[OF followed(1-3) followed(4)[symmetric] refl refl followed(5)]
    then show ?thesis
      by (auto simp: reached_Cons(1)[OF followed(1)] reached_members[OF followed(3)] ref_nodes_Cons(2)[OF followed(1,3)])
  qed
qed

lemma expand_complete:
  assumes "expand g refs out seen = (None, out', seen')"
  shows "named_groups refs \<subseteq> set seen' \<and> plain_refs refs \<subseteq> set out'
    \<and> (\<forall>n \<in> set seen' - set seen. \<exists>ms. bt_get g n = Some ms \<and> named_groups ms \<subseteq> set seen' \<and> plain_refs ms \<subseteq> set out')"
  using assms
proof (induction g refs out seen arbitrary: out' seen' rule: expand.induct)
  case (1 g out seen)
  then show ?case by simp
next
  case (2 g r refs out seen)
  from 2(5) show ?case
  proof (cases rule: expand_cases)
    case plain
    then show ?thesis using 2(1)[OF plain] expand_sound[OF plain(2)] by (auto simp: refs_Cons)
  next
    case (seen nm)
    then show ?thesis using 2(2)[OF seen] expand_sound[OF seen(3)] by (auto simp: refs_Cons)
  next
    case (followed nm ms out1 seen1)
    note inner = 2(3)[OF followed(1-4)] and rest = 2(4)[OF followed(1-3) followed(4)[symmetric] refl refl followed(5)]
    note grow = expand_sound[OF followed(4)] expand_sound[OF followed(5)]
    have "\<exists>ms'. bt_get g n = Some ms' \<and> named_groups ms' \<subseteq> set seen' \<and> plain_refs ms' \<subseteq> set out'"
      if n: "n \<in> set seen' - set seen" for n
    proof -
      have sub: "set seen1 \<subseteq> set seen'" "set out1 \<subseteq> set out'" using grow(2) by auto
      consider "n = nm" | "n \<in> set seen1 - set (bs_insert nm seen)" | "n \<in> set seen' - set seen1"
        using n by auto
      then show ?thesis
      proof cases
        case 1
        then show ?thesis using inner sub followed(3) by (intro exI[of _ ms]) blast
      next
        case 2
        then obtain ms' where "bt_get g n = Some ms'" "named_groups ms' \<subseteq> set seen1" "plain_refs ms' \<subseteq> set out1"
          using inner by blast
        then show ?thesis using sub by (intro exI[of _ ms']) blast
      next
        case 3
        then show ?thesis using rest by blast
      qed
    qed
    then show ?thesis using rest grow by (auto simp: refs_Cons(1,2)[OF followed(1)])
  qed simp_all
qed

section \<open>What the expansion computes\<close>

text \<open>From an empty start the followed groups are a propagation along the members.\<close>

definition expanded :: "node_groups \<times> string list \<times> string btree_set \<Rightarrow> bool" where
  "expanded = (\<lambda>(g, refs, out). fst (expand g refs out []) = None)"

definition followed_groups :: "node_groups \<times> string list \<times> string btree_set \<Rightarrow> string set" where
  "followed_groups = (\<lambda>(g, refs, out). set (snd (snd (expand g refs out []))))"

interpretation follow: closure_loop expanded "\<lambda>(g, refs, out). group_edges g" "\<lambda>(g, refs, out). named_groups refs" followed_groups
proof (unfold_locales, goal_cases)
  case (1 i)
  then show ?case
    using expand_complete[of "fst i" "fst (snd i)" "snd (snd i)" "[]"]
    by (cases "expand (fst i) (fst (snd i)) (snd (snd i)) []")
      (auto simp: expanded_def followed_groups_def case_prod_unfold)
next
  case (2 i x y)
  then show ?case
    using expand_complete[of "fst i" "fst (snd i)" "snd (snd i)" "[]"]
    by (cases "expand (fst i) (fst (snd i)) (snd (snd i)) []")
      (fastforce simp: expanded_def followed_groups_def case_prod_unfold group_edges_def)
next
  case (3 i C)
  have "followed_groups i \<subseteq> reached_groups (fst i) (fst (snd i))"
    using expand_sound[of "fst i" "fst (snd i)" "snd (snd i)" "[]"]
    by (cases "expand (fst i) (fst (snd i)) (snd (snd i)) []") (auto simp: followed_groups_def case_prod_unfold)
  also have "\<dots> \<subseteq> C"
    using 3(2,3) closed_rtrancl[of _ _ "group_edges (fst i)" C] by (fastforce simp: reached_groups_def case_prod_unfold)
  finally show ?case .
qed

lemma expand_exact:
  assumes "expand g refs out [] = (e, out', seen')"
  shows "e = None \<longleftrightarrow> groups_exist g refs" "groups_exist g refs \<Longrightarrow> set out' = set out \<union> ref_nodes g refs"
proof -
  have facts: "plain_refs refs \<subseteq> set out'"
      "\<And>n. n \<in> set seen' \<Longrightarrow> \<exists>ms. bt_get g n = Some ms \<and> plain_refs ms \<subseteq> set out'"
    if "e = None" using expand_complete[of g refs out "[]" out' seen'] assms that by fastforce+
  have reach: "set seen' = reached_groups g refs" if "e = None"
    using follow.marked_eq[of "(g, refs, out)"] assms that
    by (simp add: expanded_def followed_groups_def reached_groups_def)
  have sound: "\<And>nm. e = Some nm \<Longrightarrow> nm \<in> reached_groups g refs \<and> bt_get g nm = None"
      "set out \<subseteq> set out'" "set out' \<subseteq> set out \<union> ref_nodes g refs"
    using expand_sound[OF assms] by simp_all
  show iff: "e = None \<longleftrightarrow> groups_exist g refs"
    using reach facts(2) sound(1) by (cases e) (fastforce simp: groups_exist_def)+
  assume "groups_exist g refs"
  then have e: "e = None" using iff by simp
  have "ref_nodes g refs \<subseteq> set out'" using facts[OF e] reach[OF e] by (fastforce simp: ref_nodes_def)
  then show "set out' = set out \<union> ref_nodes g refs" using sound by blast
qed

lemma bs_ok_expand:
  "expand g refs out seen = (e, out', seen') \<Longrightarrow> bs_ok out \<Longrightarrow> bs_ok out'"
proof (induction g refs out seen arbitrary: e out' seen' rule: expand.induct)
  case (2 g r refs out seen)
  from 2(5) show ?case
  proof (cases rule: expand_cases)
    case plain
    then show ?thesis using 2(1)[OF plain] 2(6) by (simp add: bs_ok_insert)
  next
    case (followed nm ms out1 seen1)
    then show ?thesis
      using 2(3)[OF followed(1-4) 2(6)] 2(4)[OF followed(1-3) followed(4)[symmetric] refl refl followed(5)] by blast
  qed (use 2 in blast)+
qed simp

end
