(* ===== verification/Classifier_Spec.thy ===== *)
theory Classifier_Spec
  imports Classifier_Expand
begin

text \<open>
  What a classification means, path by path: the class of a path, what its matched rules select, and
  from these the verdict of a change. The loop of \<open>classify\<close> computes exactly this.
\<close>

section \<open>Accepted policies\<close>

definition rule_refs :: "class_policy \<Rightarrow> string list list" where
  "rule_refs p = map fp_nodes (py_footprints p) @ map br_extra_nodes (py_backend_rules p)"

definition policy_ok :: "class_policy \<Rightarrow> bool" where
  "policy_ok p \<longleftrightarrow> list_all (groups_exist (py_groups p)) (rule_refs p)"

lemma check_groups_iff: "check_groups g rs probe = Inr () \<longleftrightarrow> list_all (groups_exist g) rs"
proof (induction g rs probe rule: check_groups.induct)
  case (2 g refs rest probe)
  obtain e out' seen' where x: "expand g refs probe [] = (e, out', seen')"
    by (cases "expand g refs probe []") auto
  show ?case using 2 expand_exact(1)[OF x] by (cases e) (auto simp: x)
qed simp

lemma check_groups_unit: "check_groups g rs probe = Inr u \<longleftrightarrow> check_groups g rs probe = Inr ()"
  by simp

text \<open>
  A document is accepted as a policy exactly when it has version 2 and every group that one of its
  rules names, directly or through other groups, is defined; the policy is then the document's.
\<close>

theorem policy_accepted_exact:
  "policy_from_value v = Inr p \<longleftrightarrow>
     Option.bind (json_get v ''version'') as_u64 = Some 2 \<and> p = policy_of v \<and> policy_ok p"
proof -
  have "(case check_groups g rs [] of Inl e \<Rightarrow> Inl e | Inr _ \<Rightarrow> Inr q) = Inr p \<longleftrightarrow>
      p = q \<and> list_all (groups_exist g) rs" for g rs and q :: class_policy
    using check_groups_iff[of g rs "[]"] by (auto split: sum.splits)
  then show ?thesis
    by (auto simp: policy_from_value_def policy_ok_def rule_refs_def POLICY_VERSION_def Let_def split: option.splits)
qed

section \<open>The meaning of a path\<close>

definition forced :: "class_policy \<Rightarrow> string \<Rightarrow> bool" where
  "forced p path \<longleftrightarrow> matches_any (py_force_full p) path"

definition hit_footprints :: "class_policy \<Rightarrow> string \<Rightarrow> footprint set" where
  "hit_footprints p path = {f \<in> set (py_footprints p). \<not> forced p path \<and> matches_any (fp_paths f) path}"

definition hit_rules :: "class_policy \<Rightarrow> string \<Rightarrow> backend_rule set" where
  "hit_rules p path = {r \<in> set (py_backend_rules p). \<not> forced p path \<and> backend_rule_matches r path}"

definition class_of :: "class_policy \<Rightarrow> string \<Rightarrow> path_class" where
  "class_of p path =
     (if forced p path then ForceFull
      else if hit_footprints p path \<noteq> {} \<or> hit_rules p path \<noteq> {} then Matched
      else if matches_any (py_ci_irrelevant p) path then Inert
      else UnknownPath)"

definition core_hit :: "class_policy \<Rightarrow> string \<Rightarrow> bool" where
  "core_hit p path \<longleftrightarrow> (\<exists>r \<in> hit_rules p path. br_tier r = ''core'')"

definition path_nodes :: "class_policy \<Rightarrow> string \<Rightarrow> string set" where
  "path_nodes p path =
     {n. \<exists>f \<in> hit_footprints p path. n \<in> ref_nodes (py_groups p) (fp_nodes f)}
     \<union> {n. \<exists>r \<in> hit_rules p path. br_tier r \<noteq> ''core'' \<and> n \<in> ref_nodes (py_groups p) (br_extra_nodes r)}"

section \<open>The two inner loops\<close>

lemma add_nodes_set:
  "groups_exist (py_groups p) refs \<Longrightarrow> set (add_nodes p refs nodes) = set nodes \<union> ref_nodes (py_groups p) refs"
  using expand_exact(2)[of "py_groups p" refs nodes]
  by (cases "expand (py_groups p) refs nodes []") (simp add: add_nodes_def)

text \<open>The steps applied to a state, so that the step under the fold is left alone.\<close>

lemma footprint_step_apply:
  "footprint_step p path (k, f) (out, e) =
     (if matches_any (fp_paths f) path
      then (out\<lparr>cl_nodes := add_nodes p (fp_nodes f) (cl_nodes out),
                cl_e2e_all := (cl_e2e_all out \<or> fp_e2e_all f),
                cl_e2e_backends := fold bs_insert (fp_e2e_backends f) (cl_e2e_backends out),
                cl_components := bs_insert (fp_component f) (cl_components out)\<rparr>,
            e\<lparr>pmt_footprints := pmt_footprints e @ [k]\<rparr>)
      else (out, e))"
  by (simp add: footprint_step_def)

lemma rule_step_apply:
  "rule_step p path r (out, e, core) =
     (if backend_rule_matches r path
      then (rule_out p r out, e\<lparr>pmt_backend_rules := pmt_backend_rules e @ [br_id r]\<rparr>,
            if br_tier r = ''core'' then Some (br_id r) else core)
      else (out, e, core))"
  by (simp add: rule_step_def)

lemma rule_out_simps [simp]:
  "cl_paths (rule_out p r out) = cl_paths out" "cl_unknown (rule_out p r out) = cl_unknown out"
  "cl_nodes (rule_out p r out) =
     (if br_tier r = ''core'' then cl_nodes out else add_nodes p (br_extra_nodes r) (cl_nodes out))"
  by (simp_all add: rule_out_def Let_def)

lemma footprint_fold:
  assumes "fold (footprint_step p path) (List.enumerate k fs) (out, e) = (out', e')"
  shows "e' = e\<lparr>pmt_footprints := pmt_footprints e
      @ map fst (filter (\<lambda>(_, f). matches_any (fp_paths f) path) (List.enumerate k fs))\<rparr>"
    and "cl_paths out' = cl_paths out" "cl_unknown out' = cl_unknown out"
    and "(\<And>f. f \<in> set fs \<Longrightarrow> groups_exist (py_groups p) (fp_nodes f)) \<Longrightarrow>
      set (cl_nodes out') = set (cl_nodes out)
        \<union> {n. \<exists>f \<in> set fs. matches_any (fp_paths f) path \<and> n \<in> ref_nodes (py_groups p) (fp_nodes f)}"
  using assms
proof (induction fs arbitrary: k out e)
  case (Cons f fs)
  note step = footprint_step_apply
  let ?hit = "matches_any (fp_paths f) path"
  {
    case 1
    then show ?case by (cases ?hit) (auto simp: step dest!: Cons.IH(1))
  next
    case 2
    then show ?case by (cases ?hit) (auto simp: step dest!: Cons.IH(2))
  next
    case 3
    then show ?case by (cases ?hit) (auto simp: step dest!: Cons.IH(3))
  next
    case 4
    then show ?case using Cons.IH(4) by (cases ?hit) (force simp: step add_nodes_set)+
  }
qed simp_all

lemma rule_fold:
  assumes "fold (rule_step p path) rs (out, e, core) = (out', e', core')"
  shows "e' = e\<lparr>pmt_backend_rules := pmt_backend_rules e @ map br_id (filter (\<lambda>r. backend_rule_matches r path) rs)\<rparr>"
    and "cl_paths out' = cl_paths out" "cl_unknown out' = cl_unknown out"
    and "core' = None \<longleftrightarrow> core = None \<and> (\<forall>r \<in> set rs. backend_rule_matches r path \<longrightarrow> br_tier r \<noteq> ''core'')"
    and "(\<And>r. r \<in> set rs \<Longrightarrow> groups_exist (py_groups p) (br_extra_nodes r)) \<Longrightarrow>
      set (cl_nodes out') = set (cl_nodes out)
        \<union> {n. \<exists>r \<in> set rs. backend_rule_matches r path \<and> br_tier r \<noteq> ''core''
             \<and> n \<in> ref_nodes (py_groups p) (br_extra_nodes r)}"
  using assms
proof (induction rs arbitrary: out e core)
  case (Cons r rs)
  note step = rule_step_apply
  let ?hit = "backend_rule_matches r path" and ?core = "br_tier r = ''core''"
  {
    case 1
    then show ?case by (cases ?hit) (auto simp: step dest!: Cons.IH(1))
  next
    case 2
    then show ?case by (cases ?hit) (auto simp: step dest!: Cons.IH(2))
  next
    case 3
    then show ?case by (cases ?hit) (auto simp: step dest!: Cons.IH(3))
  next
    case 4
    then show ?case by (cases ?hit; cases ?core) (auto simp: step dest!: Cons.IH(4))
  next
    case 5
    then show ?case using Cons.IH(5) by (cases ?hit; cases ?core) (force simp: step add_nodes_set)+
  }
qed simp_all

section \<open>The loop over the paths\<close>

definition path_entry :: "class_policy \<Rightarrow> string \<Rightarrow> path_match" where
  "path_entry p path =
     \<lparr>pmt_path = path, pmt_class = class_of p path,
      pmt_footprints = (if forced p path then [] else
        map fst (filter (\<lambda>(_, f). matches_any (fp_paths f) path) (List.enumerate 0 (py_footprints p)))),
      pmt_backend_rules = (if forced p path then [] else
        map br_id (filter (\<lambda>r. backend_rule_matches r path) (py_backend_rules p)))\<rparr>"

lemma enumerate_filter_Nil:
  "filter (\<lambda>(_, f). P f) (List.enumerate k fs) = [] \<longleftrightarrow> (\<forall>f \<in> set fs. \<not> P f)"
  by (induction fs arbitrary: k) auto

lemma path_step_forced:
  assumes "forced p path"
  shows "path_step p path st = st\<lparr>cs_force := True, cs_all_inert := False,
    cs_out := (cs_out st)\<lparr>cl_reasons := cl_reasons (cs_out st) @ [path @ '' '' @ arrow @ '' force_full''],
      cl_paths := cl_paths (cs_out st) @ [path_entry p path]\<rparr>\<rparr>"
  using assms by (simp add: path_step_def path_entry_def class_of_def forced_def Let_def)

lemma policy_ok_refs:
  "policy_ok p \<Longrightarrow> f \<in> set (py_footprints p) \<Longrightarrow> groups_exist (py_groups p) (fp_nodes f)"
  "policy_ok p \<Longrightarrow> r \<in> set (py_backend_rules p) \<Longrightarrow> groups_exist (py_groups p) (br_extra_nodes r)"
  by (auto simp: policy_ok_def rule_refs_def list_all_iff)

lemma path_step_rules:
  assumes "\<not> forced p path"
  obtains out core where
    "path_step p path st = st\<lparr>cs_all_inert := (cs_all_inert st \<and> class_of p path = Inert), cs_core := core,
       cs_out := out\<lparr>cl_unknown := cl_unknown (cs_out st) @ (if class_of p path = UnknownPath then [path] else []),
         cl_paths := cl_paths (cs_out st) @ [path_entry p path]\<rparr>\<rparr>"
    "core = None \<longleftrightarrow> cs_core st = None \<and> \<not> core_hit p path"
    "policy_ok p \<Longrightarrow> set (cl_nodes out) = set (cl_nodes (cs_out st)) \<union> path_nodes p path"
proof -
  let ?e = "\<lparr>pmt_path = path, pmt_class = UnknownPath, pmt_footprints = [], pmt_backend_rules = []\<rparr>"
  obtain out1 e1 where one: "fold (footprint_step p path) (List.enumerate 0 (py_footprints p)) (cs_out st, ?e) = (out1, e1)"
    by fastforce
  obtain out2 e2 core where two: "fold (rule_step p path) (py_backend_rules p) (out1, e1, cs_core st) = (out2, e2, core)"
    by (metis prod_cases3)
  have step: "path_step p path st =
      (if pmt_footprints e2 \<noteq> [] \<or> pmt_backend_rules e2 \<noteq> []
       then st\<lparr>cs_all_inert := False, cs_core := core,
               cs_out := out2\<lparr>cl_paths := cl_paths out2 @ [e2\<lparr>pmt_class := Matched\<rparr>]\<rparr>\<rparr>
       else if matches_any (py_ci_irrelevant p) path
       then st\<lparr>cs_core := core, cs_out := out2\<lparr>cl_paths := cl_paths out2 @ [e2\<lparr>pmt_class := Inert\<rparr>]\<rparr>\<rparr>
       else st\<lparr>cs_all_inert := False, cs_core := core,
               cs_out := out2\<lparr>cl_unknown := cl_unknown out2 @ [path], cl_paths := cl_paths out2 @ [e2]\<rparr>\<rparr>)"
    using assms one two by (simp add: path_step_def forced_def Let_def)
  have e2: "e2 = (path_entry p path)\<lparr>pmt_class := UnknownPath\<rparr>"
    using assms footprint_fold(1)[OF one] rule_fold(1)[OF two] by (simp add: path_entry_def)
  have "pmt_footprints e2 \<noteq> [] \<longleftrightarrow> hit_footprints p path \<noteq> {}"
    using assms enumerate_filter_Nil[of "\<lambda>f. matches_any (fp_paths f) path" 0 "py_footprints p"]
    by (auto simp: e2 path_entry_def hit_footprints_def)
  moreover have "pmt_backend_rules e2 \<noteq> [] \<longleftrightarrow> hit_rules p path \<noteq> {}"
    using assms by (auto simp: e2 path_entry_def hit_rules_def filter_empty_conv)
  ultimately have hits: "pmt_footprints e2 \<noteq> [] \<or> pmt_backend_rules e2 \<noteq> [] \<longleftrightarrow>
      hit_footprints p path \<noteq> {} \<or> hit_rules p path \<noteq> {}" by simp
  have same: "cl_paths out2 = cl_paths (cs_out st)" "cl_unknown out2 = cl_unknown (cs_out st)"
    using footprint_fold(2,3)[OF one] rule_fold(2,3)[OF two] by simp_all
  show ?thesis
  proof (rule that[of out2 core])
    show "path_step p path st = st\<lparr>cs_all_inert := (cs_all_inert st \<and> class_of p path = Inert), cs_core := core,
       cs_out := out2\<lparr>cl_unknown := cl_unknown (cs_out st) @ (if class_of p path = UnknownPath then [path] else []),
         cl_paths := cl_paths (cs_out st) @ [path_entry p path]\<rparr>\<rparr>"
      using assms unfolding step hits by (simp add: e2 same class_of_def path_entry_def)
    show "core = None \<longleftrightarrow> cs_core st = None \<and> \<not> core_hit p path"
      using assms rule_fold(4)[OF two] by (auto simp: core_hit_def hit_rules_def)
    show "set (cl_nodes out2) = set (cl_nodes (cs_out st)) \<union> path_nodes p path" if "policy_ok p"
      using assms footprint_fold(4)[OF one] rule_fold(5)[OF two] policy_ok_refs[OF that]
      by (auto simp: path_nodes_def hit_footprints_def hit_rules_def)
  qed
qed

lemma path_step_effect:
  "cs_force (path_step p path st) \<longleftrightarrow> cs_force st \<or> forced p path"
  "cs_all_inert (path_step p path st) \<longleftrightarrow> cs_all_inert st \<and> class_of p path = Inert"
  "cs_core (path_step p path st) = None \<longleftrightarrow> cs_core st = None \<and> \<not> core_hit p path"
  "cl_paths (cs_out (path_step p path st)) = cl_paths (cs_out st) @ [path_entry p path]"
  "cl_unknown (cs_out (path_step p path st)) =
     cl_unknown (cs_out st) @ (if class_of p path = UnknownPath then [path] else [])"
  "policy_ok p \<Longrightarrow> set (cl_nodes (cs_out (path_step p path st))) = set (cl_nodes (cs_out st)) \<union> path_nodes p path"
proof -
  let ?st = "path_step p path st"
  have "(cs_force ?st \<longleftrightarrow> cs_force st \<or> forced p path)
      \<and> (cs_all_inert ?st \<longleftrightarrow> cs_all_inert st \<and> class_of p path = Inert)
      \<and> (cs_core ?st = None \<longleftrightarrow> cs_core st = None \<and> \<not> core_hit p path)
      \<and> cl_paths (cs_out ?st) = cl_paths (cs_out st) @ [path_entry p path]
      \<and> cl_unknown (cs_out ?st) = cl_unknown (cs_out st) @ (if class_of p path = UnknownPath then [path] else [])
      \<and> (policy_ok p \<longrightarrow> set (cl_nodes (cs_out ?st)) = set (cl_nodes (cs_out st)) \<union> path_nodes p path)"
  proof (cases "forced p path")
    case True
    then show ?thesis
      by (simp add: path_step_forced class_of_def core_hit_def path_nodes_def hit_footprints_def hit_rules_def)
  next
    case False
    then show ?thesis by (rule path_step_rules[of p path st]) (simp add: False)
  qed
  then show
    "cs_force ?st \<longleftrightarrow> cs_force st \<or> forced p path"
    "cs_all_inert ?st \<longleftrightarrow> cs_all_inert st \<and> class_of p path = Inert"
    "cs_core ?st = None \<longleftrightarrow> cs_core st = None \<and> \<not> core_hit p path"
    "cl_paths (cs_out ?st) = cl_paths (cs_out st) @ [path_entry p path]"
    "cl_unknown (cs_out ?st) = cl_unknown (cs_out st) @ (if class_of p path = UnknownPath then [path] else [])"
    "policy_ok p \<Longrightarrow> set (cl_nodes (cs_out ?st)) = set (cl_nodes (cs_out st)) \<union> path_nodes p path"
    by blast+
qed

lemma path_steps_effect:
  "cs_force (fold (path_step p) paths st) \<longleftrightarrow> cs_force st \<or> list_ex (forced p) paths"
  "cs_all_inert (fold (path_step p) paths st) \<longleftrightarrow> cs_all_inert st \<and> list_all (\<lambda>x. class_of p x = Inert) paths"
  "cs_core (fold (path_step p) paths st) = None \<longleftrightarrow> cs_core st = None \<and> \<not> list_ex (core_hit p) paths"
  "cl_paths (cs_out (fold (path_step p) paths st)) = cl_paths (cs_out st) @ map (path_entry p) paths"
  "cl_unknown (cs_out (fold (path_step p) paths st)) =
     cl_unknown (cs_out st) @ filter (\<lambda>x. class_of p x = UnknownPath) paths"
  "policy_ok p \<Longrightarrow> set (cl_nodes (cs_out (fold (path_step p) paths st))) =
     set (cl_nodes (cs_out st)) \<union> (\<Union>x \<in> set paths. path_nodes p x)"
  by (induction paths arbitrary: st) (auto simp: path_step_effect)

section \<open>The verdict\<close>

lemma classify_paths_effect:
  "cs_force (classify_paths p paths) \<longleftrightarrow> list_ex (forced p) paths"
  "cs_all_inert (classify_paths p paths) \<longleftrightarrow> list_all (\<lambda>x. class_of p x = Inert) paths"
  "cs_core (classify_paths p paths) = None \<longleftrightarrow> \<not> list_ex (core_hit p) paths"
  "cl_paths (cs_out (classify_paths p paths)) = map (path_entry p) paths"
  "cl_unknown (cs_out (classify_paths p paths)) = filter (\<lambda>x. class_of p x = UnknownPath) paths"
  "policy_ok p \<Longrightarrow> set (cl_nodes (cs_out (classify_paths p paths))) = (\<Union>x \<in> set paths. path_nodes p x)"
  unfolding classify_paths_def by (simp_all add: path_steps_effect classification_start_def)

lemma classify_simps:
  "paths \<noteq> [] \<Longrightarrow> cl_verdict (classify p paths) = fst (final_verdict (classify_paths p paths))"
  "cl_nodes (classify p paths) = (if paths = [] then [] else cl_nodes (cs_out (classify_paths p paths)))"
  "cl_paths (classify p paths) = map (path_entry p) paths"
  "cl_unknown (classify p paths) = filter (\<lambda>x. class_of p x = UnknownPath) paths"
  by (simp_all add: classify_def Let_def case_prod_unfold classify_paths_effect classification_start_def)

lemma classify_nodes:
  "policy_ok p \<Longrightarrow> set (cl_nodes (classify p paths)) = (\<Union>x \<in> set paths. path_nodes p x)"
  by (simp add: classify_simps classify_paths_effect)

lemma inert_nodes: "class_of p x = Inert \<Longrightarrow> path_nodes p x = {} \<and> \<not> core_hit p x \<and> \<not> forced p x"
  by (auto simp: class_of_def path_nodes_def core_hit_def split: if_splits)

lemma classify_verdict:
  assumes "policy_ok p"
  shows "cl_verdict (classify p paths) = VSkip \<longleftrightarrow> paths \<noteq> [] \<and> (\<forall>x \<in> set paths. class_of p x = Inert)"
    and "cl_verdict (classify p paths) = VSelective \<longleftrightarrow>
      (\<forall>x \<in> set paths. class_of p x \<in> {Matched, Inert} \<and> \<not> core_hit p x)
      \<and> (\<exists>x \<in> set paths. path_nodes p x \<noteq> {})"
proof -
  let ?st = "classify_paths p paths"
  have nodes: "cl_nodes (cs_out ?st) = [] \<longleftrightarrow> (\<forall>x \<in> set paths. path_nodes p x = {})"
    using classify_paths_effect(6)[OF assms, of paths] by (metis (no_types, lifting) SUP_bot_conv(1) set_empty)
  have cls: "class_of p x \<in> {Matched, Inert} \<longleftrightarrow> \<not> forced p x \<and> class_of p x \<noteq> UnknownPath" for x
    by (auto simp: class_of_def)
  have v: "cl_verdict (classify p paths) =
      (if paths = [] \<or> list_ex (core_hit p) paths \<or> list_ex (forced p) paths
          \<or> filter (\<lambda>x. class_of p x = UnknownPath) paths \<noteq> [] then VFull
       else if (\<forall>x \<in> set paths. path_nodes p x = {}) \<and> list_all (\<lambda>x. class_of p x = Inert) paths then VSkip
       else if \<forall>x \<in> set paths. path_nodes p x = {} then VFull else VSelective)"
    using classify_paths_effect(1-3,5)[of p paths] nodes
    by (cases "paths = []"; cases "cs_core ?st")
      (auto simp: classify_simps(1) final_verdict_def Let_def classify_def classification_start_def)
  show "cl_verdict (classify p paths) = VSkip \<longleftrightarrow> paths \<noteq> [] \<and> (\<forall>x \<in> set paths. class_of p x = Inert)"
    unfolding v by (auto simp: list_all_iff list_ex_iff filter_empty_conv dest: inert_nodes)
  show "cl_verdict (classify p paths) = VSelective \<longleftrightarrow>
      (\<forall>x \<in> set paths. class_of p x \<in> {Matched, Inert} \<and> \<not> core_hit p x) \<and> (\<exists>x \<in> set paths. path_nodes p x \<noteq> {})"
    unfolding v cls by (auto simp: list_all_iff list_ex_iff filter_empty_conv)
qed

end
