(* ===== verification/Classifier_Glob.thy ===== *)
theory Classifier_Glob
  imports Classifier
begin

text \<open>
  What a glob means: the pattern is a list of tokens, and a path matches when it can be cut into one
  piece per token such that every piece fits its token. The matcher with its nested loops decides
  exactly this. The second half compares it with the meaning that the crate documents.
\<close>

datatype glob_token = AnyRun | SegmentRun | AnyByte | Byte char

function glob_tokens :: "string \<Rightarrow> glob_token list" where
  "glob_tokens [] = []"
| "glob_tokens (c # p) =
     (if c = CHR ''*'' then
        (case p of
           d # q \<Rightarrow> if d = CHR ''*'' then AnyRun # glob_tokens (after_slash q) else SegmentRun # glob_tokens p
         | [] \<Rightarrow> SegmentRun # glob_tokens p)
      else (if c = CHR ''?'' then AnyByte else Byte c) # glob_tokens p)"
  by pat_completeness auto
termination
  by (relation "measure length") (auto simp: after_slash_def split: list.splits)

declare glob_tokens.simps(2) [simp del]

fun token_fits :: "glob_token \<Rightarrow> string \<Rightarrow> bool" where
  "token_fits AnyRun w \<longleftrightarrow> True"
| "token_fits SegmentRun w \<longleftrightarrow> CHR ''/'' \<notin> set w"
| "token_fits AnyByte w \<longleftrightarrow> length w = 1 \<and> CHR ''/'' \<notin> set w"
| "token_fits (Byte c) w \<longleftrightarrow> w = [c]"

definition tokens_fit :: "glob_token list \<Rightarrow> string \<Rightarrow> bool" where
  "tokens_fit toks t \<longleftrightarrow> (\<exists>ws. t = concat ws \<and> list_all2 token_fits toks ws)"

lemma tokens_fit_Nil [simp]: "tokens_fit [] t \<longleftrightarrow> t = []"
  by (simp add: tokens_fit_def)

lemma tokens_fit_Cons: "tokens_fit (k # ks) t \<longleftrightarrow> (\<exists>u v. t = u @ v \<and> token_fits k u \<and> tokens_fit ks v)"
proof
  assume "tokens_fit (k # ks) t"
  then show "\<exists>u v. t = u @ v \<and> token_fits k u \<and> tokens_fit ks v"
    by (fastforce simp: tokens_fit_def list_all2_Cons1)
next
  assume "\<exists>u v. t = u @ v \<and> token_fits k u \<and> tokens_fit ks v"
  then obtain u ws where "t = concat (u # ws)" "list_all2 token_fits (k # ks) (u # ws)"
    by (auto simp: tokens_fit_def)
  then show "tokens_fit (k # ks) t" unfolding tokens_fit_def by blast
qed

text \<open>A piece at the front of a path is empty, or takes the first byte.\<close>

lemma tokens_fit_step:
  "tokens_fit (k # ks) [] \<longleftrightarrow> token_fits k [] \<and> tokens_fit ks []"
  "tokens_fit (k # ks) (x # t) \<longleftrightarrow>
     token_fits k [] \<and> tokens_fit ks (x # t) \<or> (\<exists>u v. t = u @ v \<and> token_fits k (x # u) \<and> tokens_fit ks v)"
  by (auto simp: tokens_fit_Cons Cons_eq_append_conv)

lemma fit_byte: "tokens_fit (Byte c # ks) t \<longleftrightarrow> (case t of [] \<Rightarrow> False | x # u \<Rightarrow> x = c \<and> tokens_fit ks u)"
  by (cases t) (auto simp: tokens_fit_Cons)

lemma fit_any_byte:
  "tokens_fit (AnyByte # ks) t \<longleftrightarrow> (case t of [] \<Rightarrow> False | x # u \<Rightarrow> x \<noteq> CHR ''/'' \<and> tokens_fit ks u)"
  by (cases t) (auto simp: tokens_fit_step)

lemma fit_segment:
  "tokens_fit (SegmentRun # ks) t \<longleftrightarrow>
     tokens_fit ks t \<or> (case t of [] \<Rightarrow> False | x # u \<Rightarrow> x \<noteq> CHR ''/'' \<and> tokens_fit (SegmentRun # ks) u)"
  by (cases t) (auto simp: tokens_fit_step, auto simp: tokens_fit_Cons)

lemma fit_any_run:
  "tokens_fit (AnyRun # ks) t \<longleftrightarrow>
     tokens_fit ks t \<or> (case t of [] \<Rightarrow> False | x # u \<Rightarrow> tokens_fit (AnyRun # ks) u)"
  by (cases t) (auto simp: tokens_fit_step, auto simp: tokens_fit_Cons)

lemma glob_inner_fits:
  "glob_inner p t \<longleftrightarrow> tokens_fit (glob_tokens p) t"
  "glob_star p t \<longleftrightarrow> tokens_fit (SegmentRun # glob_tokens p) t"
  "glob_any p t \<longleftrightarrow> tokens_fit (AnyRun # glob_tokens p) t"
proof (induction p t and p t and p t rule: glob_inner_glob_star_glob_any.induct)
  case (2 c p t)
  then show ?case
    by (cases p; cases t) (auto simp: glob_inner.simps(2) glob_tokens.simps(2) fit_byte fit_any_byte)
next
  case (3 p t)
  then show ?case by (cases t) (simp_all add: glob_star.simps[of p] fit_segment[of "glob_tokens p"])
next
  case (4 p t)
  then show ?case by (cases t) (simp_all add: glob_any.simps[of p] fit_any_run[of "glob_tokens p"])
qed simp

lemma glob_match_tokens: "glob_match pattern path \<longleftrightarrow> (\<exists>ws. path = concat ws \<and> list_all2 token_fits (glob_tokens pattern) ws)"
  by (simp add: glob_match_def glob_inner_fits tokens_fit_def)

section \<open>The documented meaning\<close>

text \<open>
  Globs as the crate documents them: \<open>**\<close> is any run of characters, and with a slash after it also no
  directory at all; \<open>*\<close> is any run without a slash, \<open>?\<close> one character other than a slash, and every other
  character is itself. A character is one byte, or a byte with the continuation bytes after it.
\<close>

datatype doc_token = DocAny | DocDirs | DocSegment | DocChar | DocSelf char

function doc_tokens :: "string \<Rightarrow> doc_token list" where
  "doc_tokens [] = []"
| "doc_tokens (c # p) =
     (if c = CHR ''*'' then
        (case p of
           d # q \<Rightarrow> if d \<noteq> CHR ''*'' then DocSegment # doc_tokens p
             else (case q of
                 e # r \<Rightarrow> if e = CHR ''/'' then DocDirs # doc_tokens r else DocAny # doc_tokens q
               | [] \<Rightarrow> [DocAny])
         | [] \<Rightarrow> [DocSegment])
      else (if c = CHR ''?'' then DocChar else DocSelf c) # doc_tokens p)"
  by pat_completeness auto
termination
  by (relation "measure length") auto

declare doc_tokens.simps(2) [simp del]

definition continuation_byte :: "char \<Rightarrow> bool" where
  "continuation_byte c \<longleftrightarrow> 128 \<le> (of_char c :: nat) \<and> (of_char c :: nat) < 192"

definition one_character :: "string \<Rightarrow> bool" where
  "one_character w \<longleftrightarrow> w \<noteq> [] \<and> \<not> continuation_byte (hd w) \<and> list_all continuation_byte (tl w)"

fun doc_fits :: "doc_token \<Rightarrow> string \<Rightarrow> bool" where
  "doc_fits DocAny w \<longleftrightarrow> True"
| "doc_fits DocDirs w \<longleftrightarrow> w = [] \<or> last w = CHR ''/''"
| "doc_fits DocSegment w \<longleftrightarrow> CHR ''/'' \<notin> set w"
| "doc_fits DocChar w \<longleftrightarrow> one_character w \<and> CHR ''/'' \<notin> set w"
| "doc_fits (DocSelf c) w \<longleftrightarrow> w = [c]"

definition documented_match :: "string \<Rightarrow> string \<Rightarrow> bool" where
  "documented_match pattern path \<longleftrightarrow> (\<exists>ws. path = concat ws \<and> list_all2 doc_fits (doc_tokens pattern) ws)"

fun widened :: "doc_token \<Rightarrow> glob_token" where
  "widened DocAny = AnyRun"
| "widened DocDirs = AnyRun"
| "widened DocSegment = SegmentRun"
| "widened DocChar = AnyByte"
| "widened (DocSelf c) = Byte c"

lemma glob_tokens_widened: "glob_tokens p = map widened (doc_tokens p)"
proof (induction p rule: doc_tokens.induct)
  case (2 c p)
  then show ?case
    by (auto simp: glob_tokens.simps(2) doc_tokens.simps(2) after_slash_def split: list.splits)
qed simp

definition ascii :: "string \<Rightarrow> bool" where
  "ascii s \<longleftrightarrow> list_all (\<lambda>c. (of_char c :: nat) < 128) s"

lemma one_character_ascii: "ascii w \<Longrightarrow> one_character w \<longleftrightarrow> length w = 1"
  by (cases w; cases "tl w") (auto simp: ascii_def one_character_def continuation_byte_def)

lemma ascii_piece: "ascii (concat ws) \<Longrightarrow> w \<in> set ws \<Longrightarrow> ascii w"
  by (auto simp: ascii_def list_all_iff)

lemma doc_fits_widened: "ascii w \<Longrightarrow> doc_fits d w \<Longrightarrow> token_fits (widened d) w"
  "ascii w \<Longrightarrow> d \<noteq> DocDirs \<Longrightarrow> token_fits (widened d) w \<Longrightarrow> doc_fits d w"
  by (cases d; simp add: one_character_ascii)+

text \<open>
  C25: On an ASCII path, the matcher accepts every path that the documented meaning of a glob accepts; and it
  accepts no other when no \<open>**\<close> of the pattern is followed by a slash. (With \<open>**/\<close> it accepts more: it
  also drops the slash in front of which the run need not end a directory, so \<open>a/**/z.c\<close> matches
  \<open>a/xz.c\<close>; and outside ASCII a \<open>?\<close> is one byte. \<open>glob_limits\<close> shows both.)
\<close>

theorem glob_match_exact:
  assumes "ascii path"
  shows "(documented_match pattern path \<longrightarrow> glob_match pattern path)
    \<and> (DocDirs \<notin> set (doc_tokens pattern) \<longrightarrow> (glob_match pattern path \<longleftrightarrow> documented_match pattern path))"
proof -
  have fits: "list_all2 token_fits (glob_tokens pattern) ws" if ws: "path = concat ws" "list_all2 doc_fits (doc_tokens pattern) ws" for ws
  proof -
    have "token_fits (widened d) w" if "w \<in> set ws" "doc_fits d w" for d w
      using ascii_piece[OF assms[unfolded ws(1)] that(1)] that(2) by (rule doc_fits_widened(1))
    then show ?thesis unfolding glob_tokens_widened list_all2_map1 by (rule list.rel_mono_strong[OF ws(2)])
  qed
  have narrow: "list_all2 doc_fits (doc_tokens pattern) ws"
    if ws: "path = concat ws" "list_all2 token_fits (glob_tokens pattern) ws" "DocDirs \<notin> set (doc_tokens pattern)" for ws
  proof -
    have "doc_fits d w" if "d \<in> set (doc_tokens pattern)" "w \<in> set ws" "token_fits (widened d) w" for d w
    proof (rule doc_fits_widened(2)[OF ascii_piece[OF assms[unfolded ws(1)] that(2)] _ that(3)])
      show "d \<noteq> DocDirs" using that(1) ws(3) by auto
    qed
    then show ?thesis by (rule list.rel_mono_strong[OF ws(2)[unfolded glob_tokens_widened list_all2_map1]])
  qed
  show ?thesis unfolding documented_match_def glob_match_tokens using fits narrow by blast
qed

theorem glob_match_exact_witness:
  "documented_match ''src/**.rs'' ''src/a/b.rs'' \<and> \<not> documented_match ''src/*.rs'' ''src/a/b.rs''"
proof -
  have ascii: "ascii ''src/a/b.rs''" by code_simp
  have "DocDirs \<notin> set (doc_tokens ''src/**.rs'')" "DocDirs \<notin> set (doc_tokens ''src/*.rs'')"
    "glob_match ''src/**.rs'' ''src/a/b.rs''" "\<not> glob_match ''src/*.rs'' ''src/a/b.rs''" by code_simp+
  then show ?thesis using glob_match_exact[OF ascii] by blast
qed

text \<open>
  Two limits of the matcher. The slash after \<open>**\<close> is dropped with it, so \<open>**/NAME\<close> also matches a file
  whose name only ends with \<open>NAME\<close>; and \<open>?\<close> stands for one byte, so it does not match one character of
  two bytes.
\<close>

theorem glob_limits:
  "glob_match ''**/NAME'' ''deep/myNAME'' \<and> glob_match ''a/**/z.c'' ''a/xz.c''
   \<and> \<not> glob_match ''a?c'' [CHR ''a'', CHR 0xC3, CHR 0xA9, CHR ''c'']"
  by code_simp

end
