(* ===== verification/Classifier_Properties.thy ===== *)
theory Classifier_Properties
  imports Classifier_Spec Classifier_Glob
begin

text \<open>
  The properties of the classifier: the exact verdict of a change under a policy that was read from
  its document, that a larger change never runs less, the check against known nodes, and that the
  reader of a name-status listing loses no path.
\<close>

section \<open>A policy to evaluate\<close>

definition sample_policy_doc :: json where
  "sample_policy_doc = JObject
     [(''version'', JInt 2),
      (''force_full'', JArray [JString ''ci/**'']),
      (''ci_irrelevant'', JArray [JString ''**/*.md'']),
      (''groups'', JObject [(''A'', JArray [JString ''x'', JString ''@B'']), (''B'', JArray [JString ''y'', JString ''@A''])]),
      (''footprints'', JArray [JObject [(''paths'', JArray [JString ''core/**'']), (''nodes'', JArray [JString ''@A''])]])]"

definition sample_policy :: class_policy where
  "sample_policy =
     \<lparr>py_force_full = [''ci/**''], py_ci_irrelevant = [''**/*.md''],
      py_groups = [(''A'', [''x'', ''@B'']), (''B'', [''y'', ''@A''])],
      py_footprints = [\<lparr>fp_paths = [''core/**''], fp_nodes = [''@A''], fp_e2e_all = False, fp_e2e_backends = [],
        fp_component = ''core'',
        fp_raw = JObject [(''paths'', JArray [JString ''core/**'']), (''nodes'', JArray [JString ''@A''])]\<rparr>],
      py_backend_rules = []\<rparr>"

lemma sample_policy_read: "policy_from_value sample_policy_doc = Inr sample_policy"
  by code_simp

section \<open>Verdicts\<close>

lemma read_policy_ok: "policy_from_value v = Inr p \<Longrightarrow> policy_ok p"
  by (auto simp: policy_from_value_def policy_ok_def rule_refs_def Let_def check_groups_iff
      split: option.splits if_splits sum.splits)

text \<open>
  C15: Under a policy that was read from its document, a classification reports every path with its
  class, in input order; selects exactly the nodes that the matched footprints and scoped backend
  rules name, through groups of any depth and also cyclic ones; skips exactly when there are paths
  and all are inert; and is selective exactly when every path is matched or inert, no core rule
  matched, and some node is selected. Everything else runs the full suite.
\<close>

theorem classify_exact:
  fixes paths :: "string list"
  assumes "policy_from_value v = Inr p"
  defines "c \<equiv> classify p paths"
  shows "map pmt_path (cl_paths c) = paths \<and> map pmt_class (cl_paths c) = map (class_of p) paths
    \<and> set (cl_nodes c) = (\<Union>x \<in> set paths. path_nodes p x)
    \<and> (cl_verdict c = VSkip \<longleftrightarrow> paths \<noteq> [] \<and> (\<forall>x \<in> set paths. class_of p x = Inert))
    \<and> (cl_verdict c = VSelective \<longleftrightarrow>
        (\<forall>x \<in> set paths. class_of p x \<in> {Matched, Inert} \<and> \<not> core_hit p x)
        \<and> (\<exists>x \<in> set paths. path_nodes p x \<noteq> {}))"
proof -
  note ok = read_policy_ok[OF assms(1)]
  have "map pmt_path (cl_paths c) = paths" "map pmt_class (cl_paths c) = map (class_of p) paths"
    by (simp_all add: c_def classify_simps path_entry_def comp_def)
  then show ?thesis
    using classify_nodes[OF ok, of paths] classify_verdict[OF ok, of paths] unfolding c_def by simp
qed

theorem classify_exact_witness:
  "cl_nodes (classify sample_policy [''core/a.rs'', ''README.md'']) = [''x'', ''y'']
   \<and> (\<Union>x \<in> set [''core/a.rs'', ''README.md'']. path_nodes sample_policy x) = {''x'', ''y''}"
proof -
  have "cl_nodes (classify sample_policy [''core/a.rs'', ''README.md'']) = [''x'', ''y'']" by code_simp
  then show ?thesis
    using classify_exact[OF sample_policy_read, of "[''core/a.rs'', ''README.md'']"] by simp
qed

text \<open>A policy in which every rule that is not a core rule selects at least one node.\<close>

definition rules_select :: "class_policy \<Rightarrow> bool" where
  "rules_select p \<longleftrightarrow>
     list_all (\<lambda>f. ref_nodes (py_groups p) (fp_nodes f) \<noteq> {}) (py_footprints p)
     \<and> list_all (\<lambda>r. br_tier r \<noteq> ''core'' \<longrightarrow> ref_nodes (py_groups p) (br_extra_nodes r) \<noteq> {}) (py_backend_rules p)"

lemma matched_selects:
  assumes "rules_select p" "class_of p x = Matched" "\<not> core_hit p x"
  shows "path_nodes p x \<noteq> {}"
proof -
  have "hit_footprints p x \<noteq> {} \<or> hit_rules p x \<noteq> {}"
    using assms(2) by (auto simp: class_of_def split: if_splits)
  then show ?thesis
    using assms(1,3)
    by (fastforce simp: rules_select_def path_nodes_def core_hit_def hit_footprints_def hit_rules_def list_all_iff)
qed

text \<open>
  C26: A larger change never runs less: when every rule of the policy selects something, adding paths
  to a change that has at least one path keeps every selected node and does not lower the verdict. (A change
  without paths is run in full, and with an inert path it is skipped. A matched path whose rule
  selects nothing forces the full suite alone, but not beside a path that selects a node.)
\<close>

theorem classify_widens:
  assumes "policy_from_value v = Inr p" and "rules_select p"
    and "paths \<noteq> []" and "set paths \<subseteq> set paths'"
  shows "set (cl_nodes (classify p paths)) \<subseteq> set (cl_nodes (classify p paths'))
    \<and> cl_verdict (classify p paths) \<le> cl_verdict (classify p paths')"
proof -
  note ok = read_policy_ok[OF assms(1)]
  note skip = classify_verdict(1)[OF ok] and selective = classify_verdict(2)[OF ok]
  have "cl_verdict (classify p paths) \<le> cl_verdict (classify p paths')"
  proof (cases "cl_verdict (classify p paths')")
    case VSkip
    then show ?thesis using skip[of paths'] skip[of paths] assms(3,4) by auto
  next
    case VSelective
    then have all: "\<forall>x \<in> set paths. class_of p x \<in> {Matched, Inert} \<and> \<not> core_hit p x"
      using selective[of paths'] assms(4) by blast
    show ?thesis
    proof (cases "\<forall>x \<in> set paths. class_of p x = Inert")
      case True
      then show ?thesis using skip[of paths] assms(3) VSelective by (simp add: less_eq_verdict_def)
    next
      case False
      then obtain x where "x \<in> set paths" "path_nodes p x \<noteq> {}"
        using all matched_selects[OF assms(2)] by blast
      then have "cl_verdict (classify p paths) = VSelective" using selective[of paths] all by blast
      then show ?thesis using VSelective by simp
    qed
  next
    case VFull
    then show ?thesis by (cases "cl_verdict (classify p paths)") (simp_all add: less_eq_verdict_def)
  qed
  then show ?thesis using classify_nodes[OF ok] assms(4) by auto
qed

lemma sample_rules_select: "rules_select sample_policy"
proof -
  have x: "expand (py_groups sample_policy) [''@A''] [] [] = (None, [''x'', ''y''], [''A'', ''B''])" by code_simp
  have "ref_nodes (py_groups sample_policy) [''@A''] = {''x'', ''y''}"
    using expand_exact[OF x] by simp
  then show ?thesis by (simp add: rules_select_def sample_policy_def)
qed

theorem classify_widens_witness:
  "cl_verdict (classify sample_policy [''README.md'']) = VSkip
   \<and> cl_verdict (classify sample_policy [''README.md'']) \<le> cl_verdict (classify sample_policy [''core/a.rs'', ''README.md''])"
proof -
  have "cl_verdict (classify sample_policy [''README.md'']) = VSkip" by code_simp
  then show ?thesis
    using classify_widens[OF sample_policy_read sample_rules_select, of "[''README.md'']" "[''core/a.rs'', ''README.md'']"]
    by simp
qed

section \<open>Known nodes\<close>

definition unknown_of :: "class_policy \<Rightarrow> string btree_set \<Rightarrow> string list \<Rightarrow> string \<Rightarrow> unknown_node set" where
  "unknown_of p known refs rule = (\<lambda>n. UnknownNode n rule) ` (ref_nodes (py_groups p) refs - set known)"

lemma check_refs_set:
  assumes "groups_exist (py_groups p) refs"
  shows "set (check_refs p known refs rule u) = set u \<union> unknown_of p known refs rule"
proof -
  obtain e out seen where x: "expand (py_groups p) refs [] [] = (e, out, seen)"
    by (cases "expand (py_groups p) refs [] []") auto
  have "set (fold (\<lambda>n. bs_insert (UnknownNode n rule)) ns u) = set u \<union> (\<lambda>n. UnknownNode n rule) ` set ns" for ns
    by (induction ns arbitrary: u) auto
  then show ?thesis using expand_exact(2)[OF x assms] by (auto simp: check_refs_def unknown_of_def x)
qed

lemma un_node_unknown: "un_node ` unknown_of p known refs rule = ref_nodes (py_groups p) refs - set known"
  by (auto simp: unknown_of_def image_image)

lemma path_entry_footprints:
  "set (pmt_footprints (path_entry p x)) =
     {i. i < length (py_footprints p) \<and> \<not> forced p x \<and> matches_any (fp_paths (py_footprints p ! i)) x}"
  by (auto simp: path_entry_def in_set_enumerate_eq image_def)

text \<open>
  The nodes that are looked up for a path: those of the footprints that match, and those of the
  backend rules with the identifier of a rule that matches.
\<close>

definition looked_up_rules :: "class_policy \<Rightarrow> string \<Rightarrow> backend_rule set" where
  "looked_up_rules p path = {r \<in> set (py_backend_rules p). \<exists>r' \<in> hit_rules p path. br_id r = br_id r'}"

definition looked_up_nodes :: "class_policy \<Rightarrow> string \<Rightarrow> string set" where
  "looked_up_nodes p path =
     {n. \<exists>f \<in> hit_footprints p path. n \<in> ref_nodes (py_groups p) (fp_nodes f)}
     \<union> {n. \<exists>r \<in> looked_up_rules p path. br_tier r \<noteq> ''core'' \<and> n \<in> ref_nodes (py_groups p) (br_extra_nodes r)}"



lemma path_entry_rules:
  "{r \<in> set (py_backend_rules p). br_id r \<in> set (pmt_backend_rules (path_entry p x))} = looked_up_rules p x"
  by (auto simp: path_entry_def looked_up_rules_def hit_rules_def)

lemma check_path_nodes:
  assumes ok: "policy_ok p"
  shows "un_node ` set (check_path p known (path_entry p x) u) = un_node ` set u \<union> (looked_up_nodes p x - set known)"
proof -
  let ?fs = "pmt_footprints (path_entry p x)"
  have "set (check_footprint p known i u) = set u \<union> unknown_of p known (fp_nodes (py_footprints p ! i))
      (''footprint '' @ dec_nat i @ '' ('' @ fp_component (py_footprints p ! i) @ '')'')" if "i \<in> set ?fs" for i u
    using that policy_ok_refs(1)[OF ok] by (simp add: path_entry_footprints check_footprint_def Let_def check_refs_set)
  note foot = set_fold_Un[OF this]
  have "set (check_rule p known r u) = set u \<union> unknown_of p known (br_extra_nodes r) (''backend rule '' @ br_id r)"
    if "r \<in> set (py_backend_rules p)" for r u
    using that policy_ok_refs(2)[OF ok] by (simp add: check_rule_def check_refs_set)
  then have rule: "set (fold (check_rule p known) rs u) =
      set u \<union> (\<Union>r \<in> set rs. unknown_of p known (br_extra_nodes r) (''backend rule '' @ br_id r))"
    if "set rs \<subseteq> set (py_backend_rules p)" for rs u using that by (intro set_fold_Un) auto
  have hit: "hit_footprints p x = (!) (py_footprints p) ` set ?fs"
    by (auto simp: hit_footprints_def path_entry_footprints in_set_conv_nth)
  have "un_node ` set (check_path p known (path_entry p x) u) = un_node ` set u
      \<union> (\<Union>f \<in> hit_footprints p x. ref_nodes (py_groups p) (fp_nodes f) - set known)
      \<union> (\<Union>r \<in> {r \<in> looked_up_rules p x. br_tier r \<noteq> ''core''}. ref_nodes (py_groups p) (br_extra_nodes r) - set known)"
    unfolding check_path_def foot[of ?fs, simplified] path_entry_rules[symmetric] hit
    by (subst rule) (auto simp: foot image_Un image_UN un_node_unknown)
  then show ?thesis by (auto simp: looked_up_nodes_def)
qed

lemma check_paths_nodes:
  assumes "policy_ok p"
  shows "un_node ` set (fold (check_path p known) (map (path_entry p) paths) u) =
    un_node ` set u \<union> ((\<Union>x \<in> set paths. looked_up_nodes p x) - set known)"
  by (induction paths arbitrary: u) (auto simp: check_path_nodes[OF assms])



definition sample_rule :: "string \<Rightarrow> string \<Rightarrow> backend_rule" where
  "sample_rule glob node = \<lparr>br_id = [], br_paths = [glob], br_scoped_paths = [], br_backends = [], br_lanes = [],
     br_extra_nodes = [node], br_tier = ''backend''\<rparr>"

definition sample_twins :: class_policy where
  "sample_twins = \<lparr>py_force_full = [], py_ci_irrelevant = [], py_groups = [], py_footprints = [],
     py_backend_rules = [sample_rule ''a/**'' ''x'', sample_rule ''b/**'' ''z'']\<rparr>"

text \<open>
  A change can be refused because of a rule that it does not match: rules are looked up by their
  identifier, and rules without an identifier all have the empty one.
\<close>

theorem known_refuses_unmatched_rule:
  "cl_nodes (classify sample_twins [''a/f'']) = [''x'']
   \<and> \<not> backend_rule_matches (sample_rule ''b/**'' ''z'') ''a/f''
   \<and> classify_known sample_twins [''a/f''] [''x''] = Inl [UnknownNode ''z'' ''backend rule '']
   \<and> policy_from_value (JObject [(''version'', JInt 2), (''backend_rules'', JArray
        [JObject [(''paths'', JArray [JString ''a/**'']), (''extra_nodes'', JArray [JString ''x''])],
         JObject [(''paths'', JArray [JString ''b/**'']), (''extra_nodes'', JArray [JString ''z''])]])])
      = Inr sample_twins"
  by code_simp

section \<open>Name-status listings\<close>

text \<open>A line of \<open>git diff --name-status\<close>: a change of one path, or a rename or copy of one to another.\<close>

datatype git_change = Changed string string | Moved string string string

abbreviation tab :: char where "tab \<equiv> CHR 0x09"

fun change_text :: "git_change \<Rightarrow> string" where
  "change_text (Changed status path) = status @ tab # path"
| "change_text (Moved status old new) = status @ tab # old @ tab # new"

fun change_paths :: "git_change \<Rightarrow> string list" where
  "change_paths (Changed status path) = [path]"
| "change_paths (Moved status old new) = [old, new]"

definition plain_field :: "string \<Rightarrow> bool" where
  "plain_field s \<longleftrightarrow> str_trim s = s \<and> tab \<notin> set s \<and> CHR 0x0A \<notin> set s"

definition plain_path :: "string \<Rightarrow> bool" where
  "plain_path s \<longleftrightarrow> s \<noteq> [] \<and> plain_field s \<and> last s \<noteq> CHR 0x0D"

definition moves :: "string \<Rightarrow> bool" where
  "moves status \<longleftrightarrow> starts_with status ''R'' \<or> starts_with status ''C''"

fun change_ok :: "git_change \<Rightarrow> bool" where
  "change_ok (Changed status path) \<longleftrightarrow> plain_field status \<and> \<not> moves status \<and> plain_path path"
| "change_ok (Moved status old new) \<longleftrightarrow> plain_field status \<and> moves status \<and> plain_path old \<and> plain_path new"

lemma split_once_char: "c \<notin> set s \<Longrightarrow> split_once c (s @ c # r) = Some (s, r)"
  by (simp add: split_once_Some)

lemma name_status_change: "change_ok c \<Longrightarrow> name_status_line (change_text c) = change_paths c"
  by (cases c) (auto simp: name_status_line_def Let_def split_once_char plain_field_def plain_path_def moves_def
      split_at_char split_no_char)

lemma change_text_line: "change_ok c \<Longrightarrow> CHR 0x0A \<notin> set (change_text c) \<and> drop_cr (change_text c) = change_text c"
  by (cases c) (auto simp: plain_path_def plain_field_def intro!: drop_cr_id)

text \<open>
  C28: Reading a name-status listing gives exactly the paths that it lists, in order, both sides of
  every rename and copy included.
\<close>

theorem name_status_roundtrip:
  assumes "list_all change_ok changes"
  shows "parse_name_status (concat (map (\<lambda>c. change_text c @ [CHR 0x0A]) changes)) = concat (map change_paths changes)"
proof -
  have "str_lines (concat (map (\<lambda>c. change_text c @ [CHR 0x0A]) changes)) = map change_text changes"
  proof -
    have "str_lines (concat (map (\<lambda>l. l @ [CHR 0x0A]) (map change_text changes))) = map drop_cr (map change_text changes)"
      using assms change_text_line by (intro str_lines_written) (auto simp: list_all_iff)
    then show ?thesis using assms change_text_line by (simp add: comp_def list_all_iff)
  qed
  then show ?thesis
    using assms by (auto simp: parse_name_status_def list_all_iff name_status_change intro!: arg_cong[of _ _ concat])
qed

theorem name_status_roundtrip_witness:
  "parse_name_status (concat (map (\<lambda>c. change_text c @ [CHR 0x0A])
      [Changed ''M'' ''core/a.rs'', Moved ''R087'' ''old.rs'' ''new.rs''])) = [''core/a.rs'', ''old.rs'', ''new.rs'']"
proof -
  have "list_all change_ok [Changed ''M'' ''core/a.rs'', Moved ''R087'' ''old.rs'' ''new.rs'']" by code_simp
  from name_status_roundtrip[OF this] show ?thesis by simp
qed

section \<open>The command\<close>

lemma loaded_policy_ok: "policy_load read_file parse_json path = Inr p \<Longrightarrow> policy_ok p"
  by (auto simp: policy_load_def policy_from_json_def split: sum.splits dest: read_policy_ok)

text \<open>
  That everything was read, in terms of the files, git and standard input: the policy file and its
  document; the file of known nodes, when one is given; and the listing of git, the listing on
  standard input, or the paths of the command line.
\<close>

definition paths_read :: "classify_env \<Rightarrow> classify_args \<Rightarrow> string list \<Rightarrow> bool" where
  "paths_read env args paths \<longleftrightarrow>
     (case ca_base args of
        Some base \<Rightarrow> \<exists>out err. ce_git env [''-C'', ca_repo args, ''diff'', ''--name-status'', ''-M'', base @ ''...'' @ ca_head args]
          = Inr (True, out, err) \<and> paths = parse_name_status out
      | None \<Rightarrow> if ca_paths args = [''-''] then \<exists>listing. ce_stdin env = Inr listing \<and> paths = parse_name_status listing
          else ca_paths args \<noteq> [] \<and> paths = ca_paths args)"

definition nodes_read :: "classify_env \<Rightarrow> classify_args \<Rightarrow> string btree_set option \<Rightarrow> bool" where
  "nodes_read env args known \<longleftrightarrow>
     (case ca_known_nodes args of
        None \<Rightarrow> known = None
      | Some file \<Rightarrow> \<exists>body nodes. ce_read_file env file = Inr body
          \<and> parse_known_nodes (ce_parse_strings env) body = Inr nodes \<and> known = Some nodes)"

definition inputs_read :: "classify_env \<Rightarrow> classify_args \<Rightarrow> class_policy \<Rightarrow> string btree_set option \<Rightarrow> string list \<Rightarrow> bool" where
  "inputs_read env args p known paths \<longleftrightarrow>
     (\<exists>body v. ce_read_file env (ca_policy args) = Inr body \<and> ce_parse_json env body = Inr v \<and> policy_from_value v = Inr p)
     \<and> nodes_read env args known \<and> paths_read env args paths"

lemma changed_input_read: "changed_input env args = Inr paths \<longleftrightarrow> paths_read env args paths"
  by (auto simp: changed_input_def paths_read_def changed_paths_def split: option.splits sum.splits if_splits)

lemma known_input_read: "known_input env args = Inr known \<longleftrightarrow> nodes_read env args known"
  by (auto simp: known_input_def nodes_read_def split: option.splits sum.splits)

lemma policy_load_read:
  "policy_load (ce_read_file env) (ce_parse_json env) path = Inr p \<longleftrightarrow>
     (\<exists>body v. ce_read_file env path = Inr body \<and> ce_parse_json env body = Inr v \<and> policy_from_value v = Inr p)"
  by (auto simp: policy_load_def policy_from_json_def split: sum.splits)

text \<open>What the command prints for a classification, as lines or as a document.\<close>

definition printed_as :: "classify_env \<Rightarrow> classify_args \<Rightarrow> classification \<Rightarrow> string list \<Rightarrow> bool" where
  "printed_as env args c out \<longleftrightarrow> (if ca_json args then \<exists>doc. ce_print env c = Inr doc \<and> out = [doc] else out = verdict_lines c)"

lemma run_classify_cases:
  obtains (failed) e where "run_classify env args = Inl e"
  | (classified) p known paths where "inputs_read env args p known paths" "\<forall>nodes. known = Some nodes \<longrightarrow> classify_known p paths nodes = Inr (classify p paths)"
      "run_classify env args = print_classified env args (classify p paths)"
  | (refused) p nodes paths ns where "inputs_read env args p (Some nodes) paths" "classify_known p paths nodes = Inl ns"
      "run_classify env args = print_refused env args ns"
proof (cases "run_classify env args")
  case (Inr r)
  then obtain p known paths where reads: "policy_load (ce_read_file env) (ce_parse_json env) (ca_policy args) = Inr p"
      "known_input env args = Inr known" "changed_input env args = Inr paths"
    by (auto simp: run_classify_def split: sum.splits)
  then have all: "inputs_read env args p known paths"
    unfolding inputs_read_def policy_load_read known_input_read changed_input_read by blast
  show thesis
  proof (cases known)
    case None
    then show thesis using classified[OF all] reads by (simp add: run_classify_def)
  next
    case (Some nodes)
    show thesis
    proof (cases "classify_known p paths nodes")
      case (Inl ns)
      then show thesis using refused[of p nodes paths ns] all Some reads by (simp add: run_classify_def)
    next
      case (Inr c)
      then have "c = classify p paths" by (simp add: classify_known_def Let_def split: if_splits)
      then show thesis using classified[OF all] Some Inr reads by (simp add: run_classify_def)
    qed
  qed
qed (rule failed)

text \<open>
  C16: The command, from its files and git to its exit status. It exits with 0, 2 or 3, and every
  failure is reported. When it exits with 0, everything was read (the policy, the list of known
  nodes when one is given, and the changed paths from git, standard input or the command line), no
  node that is looked up is unknown, and it printed, as lines or as a document, exactly the
  classification of these paths under this policy; and when its verdict is to skip, there are paths, and
  every one of them is inert. With 3 it refused a change of which everything was read, for an unknown node.
  Otherwise nothing is printed on standard output.
\<close>

theorem skip_command_safe:
  assumes "run_command env (ClassifyCommand args) = (status, out, err)"
  shows "status \<in> {0, 2, 3} \<and> (status \<noteq> 0 \<longrightarrow> err \<noteq> []) \<and> (status = 2 \<longrightarrow> out = [])
    \<and> (status = 0 \<longrightarrow> (\<exists>p known paths. inputs_read env args p known paths
        \<and> (\<forall>nodes. known = Some nodes \<longrightarrow> (\<Union>x \<in> set paths. looked_up_nodes p x) \<subseteq> set nodes)
        \<and> printed_as env args (classify p paths) out
        \<and> (cl_verdict (classify p paths) = VSkip \<longrightarrow> paths \<noteq> [] \<and> (\<forall>x \<in> set paths. class_of p x = Inert))))
    \<and> (status = 3 \<longrightarrow> (\<exists>p nodes paths. inputs_read env args p (Some nodes) paths
        \<and> \<not> (\<Union>x \<in> set paths. looked_up_nodes p x) \<subseteq> set nodes))"
proof -
  have read: "policy_ok p" if "inputs_read env args p known paths" for p known paths
    using that read_policy_ok unfolding inputs_read_def by blast
  show ?thesis
  proof (cases rule: run_classify_cases[of env args])
    case (failed e)
    then show ?thesis using assms by auto
  next
    case (classified p known paths)
    have known: "(\<Union>x \<in> set paths. looked_up_nodes p x) \<subseteq> set nodes" if "known = Some nodes" for nodes
      using classified(2) that check_paths_nodes[OF read[OF classified(1)], of nodes paths "[]"]
      by (auto simp: classify_known_def Let_def classify_simps(3) split: if_splits)
    have skip: "paths \<noteq> [] \<and> (\<forall>x \<in> set paths. class_of p x = Inert)" if "cl_verdict (classify p paths) = VSkip"
      using that classify_verdict(1)[OF read[OF classified(1)], of paths] by blast
    show ?thesis
    proof (cases "print_classified env args (classify p paths)")
      case (Inr r)
      then have "status = 0" "err = []" "printed_as env args (classify p paths) out"
        using assms classified(3) by (auto simp: print_classified_def printed_as_def split: if_splits sum.splits)
      moreover from this have "\<exists>p known paths. inputs_read env args p known paths
          \<and> (\<forall>nodes. known = Some nodes \<longrightarrow> (\<Union>x \<in> set paths. looked_up_nodes p x) \<subseteq> set nodes)
          \<and> printed_as env args (classify p paths) out
          \<and> (cl_verdict (classify p paths) = VSkip \<longrightarrow> paths \<noteq> [] \<and> (\<forall>x \<in> set paths. class_of p x = Inert))"
        using classified(1) known skip by (intro exI[of _ p] exI[of _ known] exI[of _ paths]) blast
      ultimately show ?thesis by simp
    qed (use assms classified(3) in auto)
  next
    case (refused p nodes paths ns)
    have "ns \<noteq> []" "un_node ` set ns = (\<Union>x \<in> set paths. looked_up_nodes p x) - set nodes"
      using refused(2) check_paths_nodes[OF read[OF refused(1)], of nodes paths "[]"]
      by (auto simp: classify_known_def Let_def classify_simps(3) split: if_splits)
    then have "\<not> (\<Union>x \<in> set paths. looked_up_nodes p x) \<subseteq> set nodes" by (metis Diff_eq_empty_iff image_is_empty set_empty)
    moreover have "(status = 3 \<or> status = 2 \<and> out = []) \<and> err \<noteq> []"
      using assms refused(3) by (auto simp: print_refused_def Let_def split: if_splits sum.splits)
    ultimately show ?thesis using refused(1)
      by (intro conjI impI; (rule exI[of _ p], rule exI[of _ nodes], rule exI[of _ paths])?; force)
  qed
qed

definition sample_env :: classify_env where
  "sample_env = \<lparr>ce_read_file = \<lambda>f. if f = ''policy.json'' then Inr ''{...}'' else Inl ''not found'',
     ce_parse_json = \<lambda>t. if t = ''{...}'' then Inr sample_policy_doc else Inl ''expected value'',
     ce_parse_strings = \<lambda>t. Inl ''expected value'', ce_git = \<lambda>args. Inl ''no git'', ce_stdin = Inr [],
     ce_print = \<lambda>c. Inl ''unsupported'', ce_print_refusal = \<lambda>ns. Inl ''unsupported''\<rparr>"

definition sample_args :: classify_args where
  "sample_args = \<lparr>ca_policy = ''policy.json'', ca_base = None, ca_head = ''HEAD'', ca_repo = ''.'',
     ca_paths = [''docs/a.md''], ca_known_nodes = None, ca_json = False\<rparr>"

theorem skip_command_safe_witness:
  "\<exists>p known paths. inputs_read sample_env sample_args p known paths \<and> paths \<noteq> [] \<and> cl_verdict (classify p paths) = VSkip"
proof -
  have skip: "case run_command sample_env (ClassifyCommand sample_args) of (status, out, err) \<Rightarrow> status = 0 \<and> hd out = ''skip''"
    by code_simp
  obtain status out err where run: "run_command sample_env (ClassifyCommand sample_args) = (status, out, err)"
    by (cases "run_command sample_env (ClassifyCommand sample_args)") auto
  have first: "status = 0" "hd out = ''skip''" using skip unfolding run by simp_all
  obtain p known paths where res: "inputs_read sample_env sample_args p known paths" "printed_as sample_env sample_args (classify p paths) out"
      "cl_verdict (classify p paths) = VSkip \<longrightarrow> paths \<noteq> []"
    using skip_command_safe[OF run] first(1) by blast
  have "out = verdict_lines (classify p paths)" using res(2) by (simp add: printed_as_def sample_args_def)
  then have "cl_verdict (classify p paths) = VSkip"
    using first(2) by (cases "cl_verdict (classify p paths)") (simp_all add: verdict_lines_def)
  then show ?thesis using res by blast
qed

end
