(* ===== verification/Proc_Stat.thy ===== *)
theory Proc_Stat
  imports Rust_Text
begin

text \<open>
  Process identity records (\<open>dagrun/src/procstat.rs\<close>): the parser of \<open>/proc/PID/stat\<close>, the lookup of one
  field of \<open>/proc/PID/status\<close>, and the reading of a process identity. The command name in a record is any
  bytes, with spaces, parentheses and line feeds. What reading a file gives is a parameter.
\<close>

section \<open>Definitions\<close>

definition linux_process_state :: "char \<Rightarrow> bool" where
  "linux_process_state c \<longleftrightarrow> c \<in> set ''RSDZTtXxKWPI''"

record proc_stat =
  ps_pid :: nat
  ps_state :: char
  ps_ppid :: nat
  ps_pgrp :: nat
  ps_utime :: nat
  ps_stime :: nat
  ps_child_utime :: int
  ps_child_stime :: int
  ps_starttime :: nat

text \<open>\<open>str::parse\<close> for an unsigned type with the given greatest value; a token that is not UTF-8 has no digits only.\<close>

definition parse_uint :: "nat \<Rightarrow> string \<Rightarrow> nat option" where
  "parse_uint greatest s =
     Option.bind (parse_digits (case strip_prefix s ''+'' of Some r \<Rightarrow> r | None \<Rightarrow> s)) (\<lambda>v. if v \<le> greatest then Some v else None)"

abbreviation parse_u32 :: "string \<Rightarrow> nat option" where
  "parse_u32 \<equiv> parse_uint 4294967295"

abbreviation parse_u64 :: "string \<Rightarrow> nat option" where
  "parse_u64 \<equiv> parse_uint 18446744073709551615"

definition I32_MAX :: nat where "I32_MAX = 2147483647"

text \<open>The positions of the first occurrence of a text and of the last occurrence of a byte.\<close>

fun window_position :: "string \<Rightarrow> string \<Rightarrow> nat option" where
  "window_position w [] = (if w = [] then Some 0 else None)"
| "window_position w (c # s) = (if prefix w (c # s) then Some 0 else map_option Suc (window_position w s))"

fun rposition :: "char \<Rightarrow> string \<Rightarrow> nat option" where
  "rposition d [] = None"
| "rposition d (c # s) =
     (case rposition d s of Some i \<Rightarrow> Some (Suc i) | None \<Rightarrow> if c = d then Some 0 else None)"

definition ascii_whitespace :: string where
  "ascii_whitespace = [CHR 0x20, CHR 0x09, CHR 0x0A, CHR 0x0C, CHR 0x0D]"

definition stat_fields :: "string \<Rightarrow> string list" where
  "stat_fields s = filter (\<lambda>f. f \<noteq> []) (split_of (map (\<lambda>c. [c]) ascii_whitespace) s)"

definition or_error :: "string \<Rightarrow> 'a option \<Rightarrow> string + 'a" where
  "or_error e x = (case x of Some y \<Rightarrow> Inr y | None \<Rightarrow> Inl e)"

definition then_ok :: "string + 'a \<Rightarrow> ('a \<Rightarrow> string + 'b) \<Rightarrow> string + 'b" where
  "then_ok x f = (case x of Inl e \<Rightarrow> Inl e | Inr y \<Rightarrow> f y)"

text \<open>The three bytes after the command: a space, a state and a space.\<close>

definition stat_state :: "string \<Rightarrow> string + char" where
  "stat_state s =
     (case s of
        [a, c, b] \<Rightarrow>
          if a = CHR '' '' \<and> b = CHR '' ''
          then (if linux_process_state c then Inr c else Inl ''invalid process state'')
          else Inl ''command terminator is not followed by a valid state field''
      | _ \<Rightarrow> Inl ''command terminator is not followed by a valid state field'')"

definition stat_numbers :: "nat \<Rightarrow> char \<Rightarrow> string list \<Rightarrow> string + proc_stat" where
  "stat_numbers pid state fs =
     (if length fs \<le> 19 then Inl ''record has no starttime field''
      else then_ok (or_error ''invalid parent pid'' (parse_u32 (fs ! 1))) (\<lambda>ppid.
           then_ok (or_error ''invalid process group'' (parse_u32 (fs ! 2))) (\<lambda>pgrp.
           if I32_MAX < ppid \<or> I32_MAX < pgrp then Inl ''parent pid or process group is outside the Linux process-id range''
           else
             then_ok (or_error ''invalid user CPU time'' (parse_u64 (fs ! 11))) (\<lambda>utime.
             then_ok (or_error ''invalid system CPU time'' (parse_u64 (fs ! 12))) (\<lambda>stime.
             then_ok (or_error ''invalid child user CPU time'' (parse_i64 (fs ! 13))) (\<lambda>cutime.
             then_ok (or_error ''invalid child system CPU time'' (parse_i64 (fs ! 14))) (\<lambda>cstime.
             then_ok (or_error ''invalid starttime'' (parse_u64 (fs ! 19))) (\<lambda>starttime.
             Inr \<lparr>ps_pid = pid, ps_state = state, ps_ppid = ppid, ps_pgrp = pgrp, ps_utime = utime, ps_stime = stime,
                  ps_child_utime = cutime, ps_child_stime = cstime, ps_starttime = starttime\<rparr>)))))))) "

definition parse_stat :: "string \<Rightarrow> nat option \<Rightarrow> string + proc_stat" where
  "parse_stat rec expected_pid =
     then_ok (or_error ''missing command opener'' (window_position '' ('' rec)) (\<lambda>opening.
     then_ok (or_error ''missing command terminator''
        (Option.bind (rposition (CHR '')'') rec) (\<lambda>closing. if opening + 1 < closing then Some closing else None))) (\<lambda>closing.
     then_ok (stat_state (take 3 (drop (closing + 1) rec))) (\<lambda>state.
     then_ok (or_error ''invalid pid'' (parse_u32 (take opening rec))) (\<lambda>pid.
     if pid = 0 \<or> I32_MAX < pid then Inl ''pid is outside the Linux process-id range''
     else if (case expected_pid of Some e \<Rightarrow> e \<noteq> pid | None \<Rightarrow> False) then Inl ''pid does not match the procfs path''
     else stat_numbers pid state (stat_fields (drop (closing + 2) rec))))))"

text \<open>\<open>status_field\<close>: the value of the only line with the given name, without blanks around it.\<close>

definition is_blank :: "char \<Rightarrow> bool" where
  "is_blank c \<longleftrightarrow> c = CHR '' '' \<or> c = CHR 0x09"

definition trim_blanks :: "string \<Rightarrow> string" where
  "trim_blanks s = rev (dropWhile is_blank (rev (dropWhile is_blank s)))"

definition status_value :: "string \<Rightarrow> string \<Rightarrow> string option" where
  "status_value nm line = Option.bind (strip_prefix line nm) (\<lambda>rest. strip_prefix rest '':'')"

fun status_loop :: "string \<Rightarrow> string option \<Rightarrow> string list \<Rightarrow> string + string option" where
  "status_loop nm found [] = Inr found"
| "status_loop nm found (line # lines) =
     (case status_value nm line of
        None \<Rightarrow> status_loop nm found lines
      | Some v \<Rightarrow>
          if found \<noteq> None then Inl ''duplicate status field''
          else status_loop nm (Some (trim_blanks v)) lines)"

definition status_field :: "string \<Rightarrow> string \<Rightarrow> string + string option" where
  "status_field rec nm =
     (if nm = [] \<or> \<not> list_all (\<lambda>c. is_ascii_alphanumeric c \<or> c = CHR ''_'') nm
      then Inl ''invalid status field name''
      else status_loop nm None (split_of [[CHR 0x0A]] rec))"

text \<open>What reading a file of the process gives: its bytes, that the process is gone, or another failure.\<close>

datatype proc_read = ReadBytes string | ProcessGone | ReadFailed string

definition proc_path :: "nat \<Rightarrow> string" where
  "proc_path pid = ''/proc/'' @ dec_nat pid @ ''/stat''"

definition read_stat :: "(string \<Rightarrow> proc_read) \<Rightarrow> nat \<Rightarrow> string + proc_stat option" where
  "read_stat files pid =
     (case files (proc_path pid) of
        ProcessGone \<Rightarrow> Inr None
      | ReadFailed e \<Rightarrow> Inl (''read process identity '' @ proc_path pid @ '': '' @ e)
      | ReadBytes rec \<Rightarrow>
         (case parse_stat rec (Some pid) of
            Inr st \<Rightarrow> Inr (Some st)
          | Inl detail \<Rightarrow> Inl (''process identity '' @ proc_path pid @ '' is malformed: '' @ detail)))"

section \<open>The record that the kernel writes\<close>

definition proc_stat_ok :: "proc_stat \<Rightarrow> bool" where
  "proc_stat_ok p \<longleftrightarrow> 0 < ps_pid p \<and> ps_pid p \<le> I32_MAX \<and> linux_process_state (ps_state p)
     \<and> ps_ppid p \<le> I32_MAX \<and> ps_pgrp p \<le> I32_MAX
     \<and> ps_utime p \<le> 18446744073709551615 \<and> ps_stime p \<le> 18446744073709551615
     \<and> is_i64 (ps_child_utime p) \<and> is_i64 (ps_child_stime p) \<and> ps_starttime p \<le> 18446744073709551615"

definition stat_tokens :: "proc_stat \<Rightarrow> string list \<Rightarrow> string list \<Rightarrow> string list \<Rightarrow> string list" where
  "stat_tokens p flags prio others =
     [[ps_state p], dec_nat (ps_ppid p), dec_nat (ps_pgrp p)] @ flags
     @ [dec_nat (ps_utime p), dec_nat (ps_stime p), dec_int (ps_child_utime p), dec_int (ps_child_stime p)] @ prio
     @ [dec_nat (ps_starttime p)] @ others"

definition stat_line :: "proc_stat \<Rightarrow> string \<Rightarrow> string list \<Rightarrow> string list \<Rightarrow> string list \<Rightarrow> string" where
  "stat_line p comm flags prio others =
     dec_nat (ps_pid p) @ '' ('' @ comm @ '') '' @ str_join '' '' (stat_tokens p flags prio others) @ [CHR 0x0A]"

definition stat_token :: "string \<Rightarrow> bool" where
  "stat_token t \<longleftrightarrow> t \<noteq> [] \<and> set t \<inter> set ascii_whitespace = {} \<and> CHR '')'' \<notin> set t"

section \<open>Reading the record back\<close>

lemma window_position_first: "CHR '' '' \<notin> set a \<Longrightarrow> window_position '' ('' (a @ '' ('' @ s) = Some (length a)"
  by (induction a) auto

lemma rposition_None: "rposition d s = None \<longleftrightarrow> d \<notin> set s"
  by (induction s) (auto split: option.splits)

lemma rposition_last: "d \<notin> set s \<Longrightarrow> rposition d (a @ d # s) = Some (length a)"
  by (induction a) (auto simp: rposition_None split: option.splits)

lemma not_digit: "\<not> is_ascii_digit (CHR '' '')" "\<not> is_ascii_digit (CHR '')'')" "c \<in> set ascii_whitespace \<Longrightarrow> \<not> is_ascii_digit c"
  by (auto simp: is_ascii_digit_def byte_def ascii_whitespace_def)

lemma dec_nat_chars: "c \<in> set (dec_nat n) \<Longrightarrow> is_ascii_digit c"
  using dec_nat_digits[of n] by (simp add: list_all_iff)

lemma dec_int_chars: "c \<in> set (dec_int i) \<Longrightarrow> is_ascii_digit c \<or> c = CHR ''-''"
  using dec_nat_chars by (auto simp: dec_int_def split: if_splits)

lemma stat_token_dec: "stat_token (dec_nat n)" "stat_token (dec_int i)"
proof -
  show "stat_token (dec_nat n)" using not_digit dec_nat_chars[of _ n] by (auto simp: stat_token_def)
  have "dec_int i \<noteq> []" by (simp add: dec_int_def)
  moreover have "c \<notin> set ascii_whitespace" "c \<noteq> CHR '')''" if "c \<in> set (dec_int i)" for c
    using not_digit dec_int_chars[OF that] by (auto simp: ascii_whitespace_def)
  ultimately show "stat_token (dec_int i)" by (auto simp: stat_token_def)
qed

lemma parse_uint_dec: "n \<le> greatest \<Longrightarrow> parse_uint greatest (dec_nat n) = Some n"
proof -
  have "strip_prefix (dec_nat n) ''+'' = None"
    using dec_nat_chars[of "CHR ''+''" n] not_digit_sign by (auto simp: strip_prefix_def prefix_def)
  then show "n \<le> greatest \<Longrightarrow> parse_uint greatest (dec_nat n) = Some n" by (simp add: parse_uint_def)
qed

lemma split_at_white:
  assumes "stat_token t" "c \<in> set ascii_whitespace"
  shows "split_of (map (\<lambda>c. [c]) ascii_whitespace) (t @ c # r) = t # split_of (map (\<lambda>c. [c]) ascii_whitespace) r"
  using assms any_of_chars[of ascii_whitespace t] by (intro split_at_break) (auto simp: stat_token_def)

lemma stat_fields_joined:
  "ts \<noteq> [] \<Longrightarrow> (\<And>t. t \<in> set ts \<Longrightarrow> stat_token t) \<Longrightarrow> stat_fields (str_join '' '' ts @ [CHR 0x0A]) = ts"
proof (induction "'' ''" ts rule: str_join.induct)
  case (2 x)
  then show ?case
    using split_at_white[of x "CHR 0x0A" "[]"] by (auto simp: stat_fields_def ascii_whitespace_def stat_token_def split_of_def)
next
  case (3 x y xs)
  then have "stat_fields (str_join '' '' (y # xs) @ [CHR 0x0A]) = y # xs" "stat_token x" by simp_all
  then show ?case
    using split_at_white[of x "CHR '' ''" "str_join '' '' (y # xs) @ [CHR 0x0A]"]
    by (simp add: stat_fields_def ascii_whitespace_def stat_token_def)
qed simp

lemma then_ok_simps [simp]: "then_ok (Inl e) f = Inl e" "then_ok (Inr y) f = f y" "or_error e (Some y) = Inr y" "or_error e None = Inl e"
  by (simp_all add: then_ok_def or_error_def)

lemma take_3: "take 3 (a # b # c # s) = [a, b, c]"
  by (simp add: numeral_3_eq_3)

lemma drop_past: "drop (length a + 1) (a @ c # s) = s" "drop (length a + 2) (a @ c # d # s) = s"
  by simp_all

lemma stat_numbers_tokens:
  assumes "proc_stat_ok p" "length flags = 8" "length prio = 4"
  shows "stat_numbers (ps_pid p) (ps_state p) (stat_tokens p flags prio others) = Inr p"
proof -
  obtain a b c d e f g h where flags: "flags = [a, b, c, d, e, f, g, h]"
    using assms(2) by (auto simp: numeral_eq_Suc length_Suc_conv)
  obtain i j k l where prio: "prio = [i, j, k, l]"
    using assms(3) by (auto simp: numeral_eq_Suc length_Suc_conv)
  show ?thesis
    using assms(1) by (simp add: stat_numbers_def stat_tokens_def flags prio proc_stat_ok_def parse_uint_dec parse_i64_dec_int I32_MAX_def)
qed

text \<open>
  The parser of \<open>/proc/PID/stat\<close> reads back every record that the kernel writes, whatever bytes the
  command name has: spaces, parentheses, digits or line feeds in it move no field. So the start
  time that identifies a process cannot be forged by its name.
\<close>

theorem stat_line_parsed:
  assumes "proc_stat_ok p" "length flags = 8" "length prio = 4"
    and "\<And>t. t \<in> set (flags @ prio @ others) \<Longrightarrow> stat_token t"
  shows "parse_stat (stat_line p comm flags prio others) (Some (ps_pid p)) = Inr p"
proof -
  let ?tokens = "stat_tokens p flags prio others"
  let ?tail = "str_join '' '' ?tokens @ [CHR 0x0A]"
  have state: "stat_token [ps_state p]"
    using assms(1) by (auto simp: proc_stat_ok_def linux_process_state_def stat_token_def ascii_whitespace_def)
  have st: "linux_process_state (ps_state p)" using assms(1) by (simp add: proc_stat_ok_def)
  have tokens: "stat_token t" if "t \<in> set ?tokens" for t
    using that assms(4) state by (auto simp: stat_tokens_def stat_token_dec)
  have fields: "stat_fields ?tail = ?tokens" using tokens by (intro stat_fields_joined) (simp_all add: stat_tokens_def)
  obtain rest where tail: "?tail = ps_state p # CHR '' '' # rest" by (simp add: stat_tokens_def)
  have "CHR '')'' \<notin> set (str_join '' '' ts)" if "\<And>t. t \<in> set ts \<Longrightarrow> stat_token t" for ts
    using that by (induction "'' ''" ts rule: str_join.induct) (auto simp: stat_token_def)
  then have clean: "CHR '')'' \<notin> set (CHR '' '' # ?tail)" using tokens by simp
  have pid: "ps_pid p \<noteq> 0" "\<not> I32_MAX < ps_pid p" "parse_u32 (dec_nat (ps_pid p)) = Some (ps_pid p)"
    using assms(1) by (simp_all add: proc_stat_ok_def I32_MAX_def parse_uint_dec)
  let ?opening = "length (dec_nat (ps_pid p))"
  let ?closing = "length (dec_nat (ps_pid p) @ '' ('' @ comm)"
  have rec: "stat_line p comm flags prio others = (dec_nat (ps_pid p) @ '' ('' @ comm) @ CHR '')'' # CHR '' '' # ?tail"
    by (simp add: stat_line_def)
  have "window_position '' ('' (stat_line p comm flags prio others) = Some ?opening"
    unfolding rec append_assoc by (rule window_position_first) (use not_digit(1) dec_nat_chars in blast)
  moreover have "rposition (CHR '')'') (stat_line p comm flags prio others) = Some ?closing"
    unfolding rec using clean by (rule rposition_last)
  moreover have "stat_state (take 3 (drop (?closing + 1) (stat_line p comm flags prio others))) = Inr (ps_state p)"
    unfolding rec tail drop_past take_3 using st by (simp add: stat_state_def)
  moreover have "drop (?closing + 2) (stat_line p comm flags prio others) = ?tail" unfolding rec by (rule drop_past)
  moreover have "take ?opening (stat_line p comm flags prio others) = dec_nat (ps_pid p)" unfolding rec by simp
  ultimately show ?thesis
    using pid stat_numbers_tokens[OF assms(1-3), of others] fields by (simp add: parse_stat_def del: append.simps)
qed

section \<open>Status fields\<close>

lemma status_loop_found:
  "status_loop nm (Some x) ls = (if List.map_filter (status_value nm) ls = [] then Inr (Some x) else Inl ''duplicate status field'')"
  by (induction ls) (auto simp: map_filter_simps split: option.splits)

text \<open>A name written by the process adds a line, so it makes the lookup fail; it does not replace the value of the kernel.\<close>

lemma status_field_exact:
  assumes "nm \<noteq> []" "list_all (\<lambda>c. is_ascii_alphanumeric c \<or> c = CHR ''_'') nm"
  shows "status_field rec nm =
    (case List.map_filter (status_value nm) (split_of [[CHR 0x0A]] rec) of
       [] \<Rightarrow> Inr None
     | [v] \<Rightarrow> Inr (Some (trim_blanks v))
     | _ \<Rightarrow> Inl ''duplicate status field'')"
proof -
  have "status_loop nm None ls =
      (case List.map_filter (status_value nm) ls of
         [] \<Rightarrow> Inr None | [v] \<Rightarrow> Inr (Some (trim_blanks v)) | _ \<Rightarrow> Inl ''duplicate status field'')" for ls
    by (induction ls) (auto simp: map_filter_simps status_loop_found split: option.splits list.splits)
  then show ?thesis using assms by (simp add: status_field_def)
qed

end
