(* ===== verification/Ledger.thy ===== *)
theory Ledger
  imports Json Proc_Stat
begin

text \<open>
  A ledger of records that processes share, as \<open>dagrun/src/reservation.rs\<close> and \<open>admission.rs\<close> have it: a JSON
  file that is read whole and replaced by renaming a temporary file, and the sweep of records
  whose holder is gone. The two ledgers differ in the name of the list, the texts of errors, the name
  of the temporary file and the records, which are arguments here.
\<close>

section \<open>Reading numbers\<close>

definition U32_MAX :: nat where "U32_MAX = 4294967295"

definition is_number :: "json \<Rightarrow> bool" where
  "is_number v = (case v of JInt _ \<Rightarrow> True | JFloat _ \<Rightarrow> True | _ \<Rightarrow> False)"

definition value_u64 :: "json \<Rightarrow> nat option" where
  "value_u64 v = (if is_number v then as_u64 v else None)"

definition filter_opt :: "('a \<Rightarrow> bool) \<Rightarrow> 'a option \<Rightarrow> 'a option" where
  "filter_opt P x = (case x of Some y \<Rightarrow> if P y then Some y else None | None \<Rightarrow> None)"

definition starttime_from_value :: "json \<Rightarrow> nat option option" where
  "starttime_from_value v =
     (if v = JNull then Some None
      else map_option Some (filter_opt (\<lambda>t. 0 < t) (value_u64 v)))"

section \<open>Live and dead holders\<close>

type_synonym proc_table = "nat \<Rightarrow> string + nat option"

definition proc_starttime :: "(string \<Rightarrow> proc_read) \<Rightarrow> proc_table" where
  "proc_starttime files pid =
     (case read_stat files pid of Inl e \<Rightarrow> Inl e | Inr st \<Rightarrow> Inr (map_option ps_starttime st))"

definition current_starttime :: "proc_table \<Rightarrow> nat \<Rightarrow> string + nat" where
  "current_starttime stat pid =
     (case stat pid of
        Inl e \<Rightarrow> Inl e
      | Inr None \<Rightarrow> Inl (''could not read current process identity from /proc/'' @ dec_nat pid @ ''/stat'')
      | Inr (Some t) \<Rightarrow> Inr t)"

definition holder_state :: "proc_table \<Rightarrow> nat \<Rightarrow> nat option \<Rightarrow> string + bool" where
  "holder_state stat pid starttime =
     (case stat pid of
        Inl e \<Rightarrow> Inl e
      | Inr None \<Rightarrow> Inr False
      | Inr (Some current) \<Rightarrow> Inr (starttime = None \<or> starttime = Some current))"

fun sweep_loop :: "('r \<Rightarrow> string + bool) \<Rightarrow> 'r list \<Rightarrow> 'r list \<times> 'r list \<Rightarrow> string + 'r list \<times> 'r list" where
  "sweep_loop alive [] acc = Inr acc"
| "sweep_loop alive (r # rs) (live, dead) =
     (case alive r of
        Inl e \<Rightarrow> Inl e
      | Inr True \<Rightarrow> sweep_loop alive rs (live @ [r], dead)
      | Inr False \<Rightarrow> sweep_loop alive rs (live, dead @ [r]))"

section \<open>The ledger file\<close>

type_synonym ledger_fs = "string \<Rightarrow> string option"

text \<open>
  Faults: of opening, checking or reading the ledger; of making the directory; of creating the
  temporary file at an attempt; of writing it, with the part that was written; of syncing it; of
  renaming it; and of removing it.
\<close>

record ledger_faults =
  fl_read :: "string option"
  fl_mkdir :: "string option"
  fl_create :: "nat \<Rightarrow> string option"
  fl_write :: "(string \<times> string) option"
  fl_sync :: "string option"
  fl_rename :: "string option"
  fl_remove :: bool

record 't ledger_codec =
  lc_parse :: "string \<Rightarrow> string + json"
  lc_print :: "json \<Rightarrow> string + string"
  lc_ts_of :: "json \<Rightarrow> 't option"
  lc_ts_json :: "'t \<Rightarrow> json"

text \<open>The texts of the failures of a replacement.\<close>

record store_texts =
  sx_mkdir :: string
  sx_encode :: string
  sx_create :: string
  sx_alloc :: string
  sx_write :: string
  sx_sync :: string
  sx_replace :: string

definition ledger_texts :: "string \<Rightarrow> store_texts" where
  "ledger_texts label = \<lparr>sx_mkdir = ''create ledger directory: '', sx_encode = ''encode ledger: '',
     sx_create = ''create temporary ledger: '', sx_alloc = ''could not allocate temporary ledger'',
     sx_write = ''write temporary ledger: '', sx_sync = ''sync temporary ledger: '',
     sx_replace = ''replace '' @ label @ '' ledger: ''\<rparr>"

text \<open>\<open>label\<close> names the ledger in errors, \<open>key\<close> the list in its document, \<open>stem\<close> the temporary file.\<close>

definition ledger_text :: "string \<Rightarrow> string \<Rightarrow> string \<Rightarrow> string" where
  "ledger_text label path rest = label @ '' ledger '' @ path @ rest"

definition records_from_value ::
  "string \<Rightarrow> string \<Rightarrow> (json \<Rightarrow> 'r option) \<Rightarrow> string \<Rightarrow> json \<Rightarrow> string + 'r list" where
  "records_from_value label key of_value path v =
     (case as_object v of
        None \<Rightarrow> Inl (ledger_text label path '' root must be an object'')
      | Some obj \<Rightarrow>
         (case Option.bind (obj_get obj key) as_array of
            None \<Rightarrow> Inl (ledger_text label path ('' has no '' @ key @ '' list''))
          | Some items \<Rightarrow>
             (case those (map of_value items) of
                None \<Rightarrow> Inl (ledger_text label path '' has an invalid record'')
              | Some rs \<Rightarrow> Inr rs)))"

definition load_records ::
  "string \<Rightarrow> string \<Rightarrow> (json \<Rightarrow> 'r option) \<Rightarrow> 't ledger_codec \<Rightarrow> ledger_faults \<Rightarrow> string \<Rightarrow> ledger_fs \<Rightarrow> string + 'r list" where
  "load_records label key of_value codec faults path fs =
     (case fl_read faults of
        Some e \<Rightarrow> Inl e
      | None \<Rightarrow>
         (case fs path of
            None \<Rightarrow> Inr []
          | Some text \<Rightarrow>
             (case lc_parse codec text of
                Inl e \<Rightarrow> Inl (ledger_text label path ('' is corrupt: '' @ e))
              | Inr v \<Rightarrow> records_from_value label key of_value path v)))"

text \<open>A file beside the ledger: what is before the last slash of its path, joined with the name.\<close>

definition beside :: "string \<Rightarrow> string \<Rightarrow> string" where
  "beside path nm =
     (if CHR ''/'' \<in> set path then rev (dropWhile (\<lambda>c. c \<noteq> CHR ''/'') (rev path)) else []) @ nm"

definition temp_path :: "string \<Rightarrow> string \<Rightarrow> nat \<Rightarrow> nat \<Rightarrow> string" where
  "temp_path stem path pid attempt = beside path (stem @ dec_nat pid @ ''.'' @ dec_nat attempt @ ''.tmp'')"

text \<open>The loop over the names of the temporary file: a name that exists is passed over, another failure is an error.\<close>

fun create_temp :: "store_texts \<Rightarrow> string \<Rightarrow> ledger_faults \<Rightarrow> ledger_fs \<Rightarrow> string \<Rightarrow> nat \<Rightarrow> nat list \<Rightarrow> string + string" where
  "create_temp texts stem faults fs path pid [] = Inl (sx_alloc texts)"
| "create_temp texts stem faults fs path pid (attempt # rest) =
     (let temp = temp_path stem path pid attempt
      in if fs temp \<noteq> None then create_temp texts stem faults fs path pid rest
         else case fl_create faults attempt of
             Some e \<Rightarrow> Inl (sx_create texts @ e)
           | None \<Rightarrow> Inr temp)"

definition cleanup :: "ledger_faults \<Rightarrow> string \<Rightarrow> ledger_fs \<Rightarrow> ledger_fs list" where
  "cleanup faults temp fs = (if fl_remove faults then [fs] else [fs, fs(temp := None)])"

text \<open>Replacing the file: the states that the file system goes through, and the result.\<close>

definition store_value ::
  "store_texts \<Rightarrow> string \<Rightarrow> 't ledger_codec \<Rightarrow> ledger_faults \<Rightarrow> nat \<Rightarrow> string \<Rightarrow> json \<Rightarrow> ledger_fs \<Rightarrow> ledger_fs list \<times> (string + unit)" where
  "store_value texts stem codec faults pid path v fs =
     (case fl_mkdir faults of
        Some e \<Rightarrow> ([fs], Inl (sx_mkdir texts @ e))
      | None \<Rightarrow>
     (case lc_print codec v of
        Inl e \<Rightarrow> ([fs], Inl (sx_encode texts @ e))
      | Inr text \<Rightarrow>
     (case create_temp texts stem faults fs path pid [0 ..< 100] of
        Inl e \<Rightarrow> ([fs], Inl e)
      | Inr temp \<Rightarrow>
          (let fs0 = fs(temp \<mapsto> [])
           in (case fl_write faults of
               Some (e, part) \<Rightarrow>
                 (fs # fs0 # cleanup faults temp (fs0(temp \<mapsto> part)), Inl (sx_write texts @ e))
             | None \<Rightarrow>
                 (let fs1 = fs0(temp \<mapsto> text)
                  in (case fl_sync faults of
                      Some e \<Rightarrow> (fs # fs0 # cleanup faults temp fs1, Inl (sx_sync texts @ e))
                    | None \<Rightarrow>
                       (case fl_rename faults of
                          Some e \<Rightarrow> (fs # fs0 # cleanup faults temp fs1, Inl (sx_replace texts @ e))
                        | None \<Rightarrow> ([fs, fs0, fs1, fs1(temp := None, path \<mapsto> text)], Inr ())))))))))"

section \<open>Runs of an operation\<close>

type_synonym 'a ledger_run = "ledger_fs list \<times> (string + 'a)"

definition and_stored :: "unit ledger_run \<Rightarrow> (string + 'a) \<Rightarrow> 'a ledger_run" where
  "and_stored run res = (fst run, case snd run of Inl e \<Rightarrow> Inl e | Inr _ \<Rightarrow> res)"

text \<open>The ledger that an operation works on: the argument, the environment variable, the runtime directory, the temporary directory.\<close>

record path_env =
  pe_ledger :: "string option"
  pe_runtime :: "string option"
  pe_is_dir :: "string \<Rightarrow> bool"
  pe_temp_dir :: string
  pe_euid :: nat

definition ledger_path_for :: "string \<Rightarrow> path_env \<Rightarrow> string" where
  "ledger_path_for file env =
     (let fallback = pe_temp_dir env @ ''/dagrun-'' @ dec_nat (pe_euid env) @ ''/'' @ file
      in case pe_ledger env of
           Some path \<Rightarrow> path
         | None \<Rightarrow>
            (case pe_runtime env of
               Some dir \<Rightarrow> if pe_is_dir env dir then dir @ ''/dagrun/'' @ file else fallback
             | None \<Rightarrow> fallback))"

section \<open>Facts: numbers and records\<close>

text \<open>
  Reading what was written gives the document back. The maps of \<open>serde_json\<close> are sorted by key here, and
  so are the objects that are written; for an object that is not, the printer of the parameter may fail.
\<close>

definition codec_ok :: "'t ledger_codec \<Rightarrow> bool" where
  "codec_ok codec \<longleftrightarrow>
     (\<forall>v text. lc_print codec v = Inr text \<longrightarrow> lc_parse codec text = Inr v)
     \<and> (\<forall>t. is_number (lc_ts_json codec t) \<and> lc_ts_of codec (lc_ts_json codec t) \<noteq> None)"

lemma filter_opt_Some: "filter_opt P x = Some y \<longleftrightarrow> x = Some y \<and> P y"
  by (auto simp: filter_opt_def split: option.splits)

lemma as_u64_Some: "as_u64 v = Some n \<longleftrightarrow> v = JInt (int n) \<and> n < 18446744073709551616"
  by (cases v) (auto split: if_splits)

lemma value_u64_Some: "value_u64 v = Some n \<longleftrightarrow> v = JInt (int n) \<and> n < 18446744073709551616"
  by (auto simp: value_u64_def is_number_def as_u64_Some split: json.splits if_splits)

lemma those_map_Some: "those (map f xs) = Some ys \<longleftrightarrow> list_all2 (\<lambda>x y. f x = Some y) xs ys"
proof (induction xs arbitrary: ys)
  case (Cons x xs)
  then show ?case by (cases ys; cases "f x") (auto simp: map_option_eq_Some split: option.splits)
qed (auto simp: list_all2_Nil)

lemma those_written: "(\<And>x. x \<in> set xs \<Longrightarrow> f (g x) = Some (h x)) \<Longrightarrow> those (map f (map g xs)) = Some (map h xs)"
  by (simp add: those_map_Some list_all2_map1 list_all2_map2 list_all2_same)

lemma starttime_ok:
  "starttime_from_value v = Some st \<Longrightarrow> t \<in> set_option st \<Longrightarrow> 0 < t \<and> t < 18446744073709551616"
  by (auto simp: starttime_from_value_def filter_opt_Some value_u64_Some split: if_splits)

lemma starttime_written:
  "(\<forall>t \<in> set_option st. 0 < t \<and> t < 18446744073709551616) \<Longrightarrow>
   starttime_from_value (case st of Some t \<Rightarrow> JInt (int t) | None \<Rightarrow> JNull) = Some st"
  by (cases st) (auto simp: starttime_from_value_def filter_opt_def value_u64_def is_number_def)

section \<open>Facts: the sweep\<close>

lemma sweep_loop_total: "(\<exists>res. sweep_loop alive rs acc = Inr res) \<longleftrightarrow> list_all (\<lambda>r. \<exists>b. alive r = Inr b) rs"
proof (induction alive rs acc rule: sweep_loop.induct)
  case (2 alive r rs live dead)
  then show ?case by (cases "alive r") (auto split: bool.splits)
qed simp

lemma sweep_loop_exact:
  "sweep_loop alive rs acc = Inr res \<Longrightarrow>
     res = (fst acc @ filter (\<lambda>r. alive r = Inr True) rs, snd acc @ filter (\<lambda>r. alive r \<noteq> Inr True) rs)"
proof (induction alive rs acc rule: sweep_loop.induct)
  case (2 alive r rs live dead)
  then show ?case by (cases "alive r") (auto split: bool.splits)
qed simp

section \<open>Facts: the file\<close>

definition ledger_apart :: "string \<Rightarrow> string \<Rightarrow> bool" where
  "ledger_apart stem path \<longleftrightarrow> (\<forall>pid n. temp_path stem path pid n \<noteq> path)"

lemma ledger_apart_json: "suffix ''.json'' path \<Longrightarrow> ledger_apart stem path"
proof (unfold ledger_apart_def, intro allI notI)
  fix pid n assume s: "suffix ''.json'' path" and eq: "temp_path stem path pid n = path"
  have "suffix ''.tmp'' (temp_path stem path pid n)"
    unfolding temp_path_def beside_def by (intro suffix_appendI) (auto intro!: suffix_appendI)
  then have "suffix ''.tmp'' path" by (simp only: eq)
  then show False using s by (auto simp: suffix_def)
qed

lemma create_temp_Inr:
  "create_temp texts stem faults fs path pid ns = Inr temp \<Longrightarrow> fs temp = None \<and> (\<exists>n. temp = temp_path stem path pid n)"
  by (induction texts stem faults fs path pid ns rule: create_temp.induct) (auto simp: Let_def split: if_splits option.splits)

text \<open>
  The states of the ledger file while it is replaced: the old text until the rename, the new one after
  it; a failure leaves the old text.
\<close>

lemma store_value_states:
  assumes "store_value texts stem codec faults pid path v fs = (states, res)" and "ledger_apart stem path"
  shows "states \<noteq> []"
    and "fs' \<in> set states \<Longrightarrow> fs' path = fs path \<or> (\<exists>text. fs' path = Some text \<and> lc_print codec v = Inr text)"
    and "res = Inr () \<Longrightarrow> \<exists>text. last states path = Some text \<and> lc_print codec v = Inr text"
    and "res = Inl e \<Longrightarrow> last states path = fs path"
proof -
  have apart: "temp \<noteq> path" if "create_temp texts stem faults fs path pid [0 ..< 100] = Inr temp" for temp
    using create_temp_Inr[OF that] assms(2) by (auto simp: ledger_apart_def)
  note cases = assms(1)[unfolded store_value_def Let_def cleanup_def]
  show "states \<noteq> []" using cases by (auto split: option.splits sum.splits prod.splits)
  show "fs' path = fs path \<or> (\<exists>text. fs' path = Some text \<and> lc_print codec v = Inr text)" if "fs' \<in> set states"
    using cases that apart by (auto split: option.splits sum.splits prod.splits if_splits)
  show "\<exists>text. last states path = Some text \<and> lc_print codec v = Inr text" if "res = Inr ()"
    using cases that by (auto split: option.splits sum.splits prod.splits)
  show "last states path = fs path" if "res = Inl e"
    using cases that apart by (auto split: option.splits sum.splits prod.splits if_splits)
qed

text \<open>Reading and replacing without a fault.\<close>

definition no_faults :: ledger_faults where
  "no_faults = \<lparr>fl_read = None, fl_mkdir = None, fl_create = \<lambda>_. None, fl_write = None, fl_sync = None,
     fl_rename = None, fl_remove = False\<rparr>"

lemma attempts_Cons: "[0 ..< 100] = 0 # [1 ..< 100]" by (simp add: upt_conv_Cons)

lemma store_value_no_faults:
  assumes "lc_print codec v = Inr text" "fs (temp_path stem path pid 0) = None"
  shows "snd (store_value texts stem codec no_faults pid path v fs) = Inr ()"
    "last (fst (store_value texts stem codec no_faults pid path v fs)) path = Some text"
  using assms by (simp_all add: store_value_def no_faults_def attempts_Cons Let_def)

lemma store_value_no_temp:
  assumes "lc_print codec v = Inr text" "fs (temp_path stem path pid 0) = None" "ledger_apart stem path"
  shows "last (fst (store_value texts stem codec no_faults pid path v fs)) (temp_path stem path pid 0) = None"
  using assms by (simp add: store_value_def no_faults_def attempts_Cons Let_def ledger_apart_def)

lemma load_records_no_faults:
  "load_records label key of_value codec faults path fs = Inr rs \<Longrightarrow> load_records label key of_value codec no_faults path fs = Inr rs"
  by (simp add: load_records_def no_faults_def split: option.splits)

lemma load_records_cong:
  "fs' path = fs path \<Longrightarrow> load_records label key of_value codec faults path fs' = load_records label key of_value codec faults path fs"
  by (cases "fl_read faults") (simp_all add: load_records_def)

lemma load_records_of:
  "load_records label key of_value codec faults path fs = Inr rs \<Longrightarrow> r \<in> set rs \<Longrightarrow> \<exists>v. of_value v = Some r"
  by (auto simp: load_records_def records_from_value_def those_map_Some list_all2_conv_all_nth in_set_conv_nth
      split: option.splits sum.splits)

lemma load_records_printed:
  assumes "codec_ok codec" "lc_print codec (JObject [(key, JArray (map to_value recs))]) = Inr text" "fs path = Some text"
    and "\<And>r. r \<in> set recs \<Longrightarrow> of_value (to_value r) = Some (read r)"
  shows "load_records label key of_value codec no_faults path fs = Inr (map read recs)"
proof -
  have "those (map of_value (map to_value recs)) = Some (map read recs)" using assms(4) by (rule those_written)
  then show ?thesis using assms(1-3)
    by (simp add: load_records_def no_faults_def codec_ok_def records_from_value_def obj_get_def del: map_map)
qed

end
