(* ===== verification/Reserve.thy ===== *)
theory Reserve
  imports Complex_Main Ledger "HOL-Library.Monad_Syntax"
begin

text \<open>
  Core reservations (\<open>dagrun/src/reservation.rs\<close>, with the choice of cores of \<open>cgroup.rs\<close>): the records of
  the ledger and their JSON form, the sweep of dead holders, reading the ledger and replacing it, and
  the operations \<open>acquire\<close>, \<open>release\<close>, \<open>reclaim_dead\<close> and \<open>held_cores\<close>. A time stamp is read and written by the
  floating-point conversions of \<open>serde_json\<close>, which are parameters, and is used for nothing else. A
  finite \<open>f64\<close> is a rational number, another one is \<open>None\<close>. What the system answers (the process table,
  the affinity mask, the sampled rates, faults of the file system) is the record \<open>reserve_env\<close>.
\<close>

section \<open>Records\<close>

record 't core_record =
  rc_pid :: nat
  rc_starttime :: "nat option"
  rc_cores :: "nat list"
  rc_tag :: string
  rc_ts :: 't

definition core_from_value :: "json \<Rightarrow> nat option" where
  "core_from_value v = filter_opt (\<lambda>core. core \<le> U32_MAX) (value_u64 v)"

definition record_from_value :: "(json \<Rightarrow> 't option) \<Rightarrow> json \<Rightarrow> 't core_record option" where
  "record_from_value ts_of v = do {
     obj \<leftarrow> as_object v;
     pid_value \<leftarrow> obj_get obj ''pid'';
     raw_pid \<leftarrow> value_u64 pid_value;
     pid \<leftarrow> filter_opt (\<lambda>pid. pid \<le> U32_MAX \<and> 0 < pid) (Some raw_pid);
     start_value \<leftarrow> obj_get obj ''starttime'';
     starttime \<leftarrow> starttime_from_value start_value;
     cores_value \<leftarrow> obj_get obj ''cores'';
     raw_cores \<leftarrow> filter_opt (\<lambda>xs. xs \<noteq> []) (as_array cores_value);
     cores \<leftarrow> filter_opt distinct (those (map core_from_value raw_cores));
     tag_value \<leftarrow> obj_get obj ''tag'';
     tag \<leftarrow> as_str tag_value;
     ts_value \<leftarrow> filter_opt is_number (obj_get obj ''ts'');
     ts \<leftarrow> ts_of ts_value;
     Some \<lparr>rc_pid = pid, rc_starttime = starttime, rc_cores = cores, rc_tag = tag, rc_ts = ts\<rparr>
   }"

definition record_to_value :: "('t \<Rightarrow> json) \<Rightarrow> 't core_record \<Rightarrow> json" where
  "record_to_value ts_json r = JObject
     [(''cores'', JArray (map (\<lambda>c. JInt (int c)) (rc_cores r))),
      (''pid'', JInt (int (rc_pid r))),
      (''starttime'', case rc_starttime r of Some t \<Rightarrow> JInt (int t) | None \<Rightarrow> JNull),
      (''tag'', JString (rc_tag r)),
      (''ts'', ts_json (rc_ts r))]"

section \<open>The choice of cores\<close>

type_synonym f64 = "rat option"

text \<open>
  What a selection observes: the affinity mask, the two snapshots of the interrupt counts and of the
  idle and total jiffies, whether time went by between them, and the quotients of \<open>f64\<close>: of a count and the
  elapsed time, and of two counts.
\<close>

record core_sample =
  sm_mask :: "(nat \<Rightarrow> bool) option"
  sm_irq_before :: "(nat, nat) btree_map"
  sm_irq_after :: "(nat, nat) btree_map"
  sm_stat_before :: "(nat, nat \<times> nat) btree_map"
  sm_stat_after :: "(nat, nat \<times> nat) btree_map"
  sm_elapsed_pos :: bool
  sm_rate :: "nat \<Rightarrow> rat"
  sm_share :: "nat \<Rightarrow> nat \<Rightarrow> rat"

text \<open>The bits of a \<open>cpu_set_t\<close> in ascending order; nothing when the call fails.\<close>

definition current_affinity :: "core_sample \<Rightarrow> nat list" where
  "current_affinity s = (case sm_mask s of Some m \<Rightarrow> filter m [0 ..< 1024] | None \<Rightarrow> [])"

definition bad_seconds :: "f64 \<Rightarrow> bool" where
  "bad_seconds x = (case x of Some q \<Rightarrow> q < 0 | None \<Rightarrow> True)"

definition irq_rate :: "core_sample \<Rightarrow> (nat, rat) btree_map" where
  "irq_rate s =
     (if sm_irq_before s \<noteq> [] \<and> sm_irq_after s \<noteq> [] \<and> sm_elapsed_pos s
      then List.map_filter (\<lambda>(cpu, first).
        case bt_get (sm_irq_after s) cpu of
          Some second \<Rightarrow> if first \<le> second then Some (cpu, sm_rate s (second - first)) else None
        | None \<Rightarrow> None) (sm_irq_before s)
      else [])"

definition idle_fraction_between :: "core_sample \<Rightarrow> nat \<times> nat \<Rightarrow> nat \<times> nat \<Rightarrow> rat option" where
  "idle_fraction_between s before after =
     (let (idle_before, total_before) = before; (idle_after, total_after) = after
      in if idle_after < idle_before \<or> total_after < total_before then None
         else Some (if total_after - total_before = 0 then 1
                    else sm_share s (idle_after - idle_before) (total_after - total_before)))"

definition idle_frac :: "core_sample \<Rightarrow> nat \<Rightarrow> rat option" where
  "idle_frac s c =
     (case bt_get (sm_stat_before s) c of
        None \<Rightarrow> None
      | Some a \<Rightarrow> (case bt_get (sm_stat_after s) c of None \<Rightarrow> None | Some b \<Rightarrow> idle_fraction_between s a b))"

text \<open>The comparison of the ranking as a key: measured cores first, then the lower interrupt rate, the higher idle share, the lower number.\<close>

definition core_rank :: "core_sample \<Rightarrow> nat \<Rightarrow> bool \<times> rat \<times> rat \<times> nat" where
  "core_rank s c =
     (bt_get (irq_rate s) c = None,
      (case bt_get (irq_rate s) c of Some r \<Rightarrow> r | None \<Rightarrow> 0),
      - (case idle_frac s c of Some r \<Rightarrow> r | None \<Rightarrow> 1),
      c)"

definition irq_ok :: "core_sample \<Rightarrow> f64 option \<Rightarrow> nat \<Rightarrow> bool" where
  "irq_ok s limit c =
     (case limit of
        None \<Rightarrow> True
      | Some None \<Rightarrow> False
      | Some (Some q) \<Rightarrow> (case bt_get (irq_rate s) c of Some r \<Rightarrow> r \<le> q | None \<Rightarrow> False))"

definition pick_least_busy_free_cores_excluding ::
  "core_sample \<Rightarrow> int \<Rightarrow> f64 \<Rightarrow> nat set \<Rightarrow> f64 option \<Rightarrow> nat list" where
  "pick_least_busy_free_cores_excluding s k sample_s exclude max_irq_rate =
     (if k < 1 \<or> bad_seconds sample_s then []
      else if (case max_irq_rate of Some limit \<Rightarrow> bad_seconds limit \<or> sample_s = Some 0 | None \<Rightarrow> False) then []
      else
        let allowed = current_affinity s;
            available = length (filter (\<lambda>c. c \<notin> exclude) allowed)
        in if allowed = [] \<or> available = 0 then []
           else if max_irq_rate \<noteq> None \<and> irq_rate s = [] then []
           else
             let ranked = filter (irq_ok s max_irq_rate)
                   (filter (\<lambda>c. c \<notin> exclude \<and> idle_frac s c \<noteq> None) allowed)
             in take (min (nat k) available) (sort_key (core_rank s) ranked))"

section \<open>Live and dead holders\<close>

definition holder_alive :: "proc_table \<Rightarrow> 't core_record \<Rightarrow> string + bool" where
  "holder_alive stat r = holder_state stat (rc_pid r) (rc_starttime r)"

definition sweep :: "proc_table \<Rightarrow> 't core_record list \<Rightarrow> string + 't core_record list \<times> 't core_record list" where
  "sweep stat records = sweep_loop (holder_alive stat) records ([], [])"

section \<open>The ledger file\<close>

definition load :: "'t ledger_codec \<Rightarrow> ledger_faults \<Rightarrow> string \<Rightarrow> ledger_fs \<Rightarrow> string + 't core_record list" where
  "load codec faults path fs =
     load_records ''reservation'' ''reservations'' (record_from_value (lc_ts_of codec)) codec faults path fs"

definition ledger_value :: "('t \<Rightarrow> json) \<Rightarrow> 't core_record list \<Rightarrow> json" where
  "ledger_value ts_json records = JObject [(''reservations'', JArray (map (record_to_value ts_json) records))]"

definition store ::
  "'t ledger_codec \<Rightarrow> ledger_faults \<Rightarrow> nat \<Rightarrow> string \<Rightarrow> 't core_record list \<Rightarrow> ledger_fs \<Rightarrow> ledger_fs list \<times> (string + unit)" where
  "store codec faults pid path records fs =
     store_value (ledger_texts ''reservation'') ''.core-reservations.'' codec faults pid path (ledger_value (lc_ts_json codec) records) fs"

section \<open>The operations\<close>

record reservation =
  rv_cores :: "nat list"
  rv_pid :: nat
  rv_starttime :: "nat option"
  rv_tag :: string
  rv_ledger :: string
  rv_released :: bool

text \<open>What one call of an operation meets; \<open>re_lock\<close> is the failure to take the lock, if it fails.\<close>

record 't reserve_env =
  re_codec :: "'t ledger_codec"
  re_faults :: ledger_faults
  re_lock :: "string option"
  re_pid :: nat
  re_stat :: proc_table
  re_sample :: core_sample
  re_now :: 't
  re_f64_text :: "f64 \<Rightarrow> string"

definition default_ledger_path :: "path_env \<Rightarrow> string" where
  "default_ledger_path env = ledger_path_for ''core-reservations.json'' env"

text \<open>Taking the lock, loading and sweeping, then the rest of an operation on the live and dead records.\<close>

definition with_swept ::
  "'t reserve_env \<Rightarrow> string \<Rightarrow> ledger_fs \<Rightarrow>
     ('t core_record list \<Rightarrow> 't core_record list \<Rightarrow> 'a ledger_run) \<Rightarrow> 'a ledger_run" where
  "with_swept env path fs body =
     (case re_lock env of
        Some e \<Rightarrow> ([fs], Inl e)
      | None \<Rightarrow>
         (case load (re_codec env) (re_faults env) path fs of
            Inl e \<Rightarrow> ([fs], Inl e)
          | Inr records \<Rightarrow>
             (case sweep (re_stat env) records of
                Inl e \<Rightarrow> ([fs], Inl e)
              | Inr (live, dead) \<Rightarrow> body live dead)))"

definition store_env :: "'t reserve_env \<Rightarrow> string \<Rightarrow> 't core_record list \<Rightarrow> ledger_fs \<Rightarrow> unit ledger_run" where
  "store_env env path records fs = store (re_codec env) (re_faults env) (re_pid env) path records fs"

definition held_set :: "nat set \<Rightarrow> 't core_record list \<Rightarrow> nat set" where
  "held_set exclude live = exclude \<union> (\<Union>r \<in> set live. set (rc_cores r))"

definition too_few :: "int \<Rightarrow> nat \<Rightarrow> 't core_record list \<Rightarrow> nat set \<Rightarrow> string" where
  "too_few k found live held =
     ''requested '' @ dec_int k @ '' core(s) but only '' @ dec_nat found @ '' free-and-unheld (held by ''
     @ dec_nat (length live) @ '' live reservation(s): ['' @ str_join '', '' (map dec_nat (sorted_list_of_set held))
     @ '']; allowed set may also be smaller)''"

definition acquire_checks :: "'t reserve_env \<Rightarrow> int \<Rightarrow> f64 \<Rightarrow> f64 option \<Rightarrow> string option" where
  "acquire_checks env k sample_s max_irq_rate =
     (if k < 1 then Some (''k must be >= 1, got '' @ dec_int k)
      else if bad_seconds sample_s then Some (''sample_s must be finite and >= 0, got '' @ re_f64_text env sample_s)
      else case max_irq_rate of
          None \<Rightarrow> None
        | Some limit \<Rightarrow>
            if bad_seconds limit then Some (''max_irq_rate must be finite and >= 0, got '' @ re_f64_text env limit)
            else if sample_s = Some 0 then Some ''sample_s must be > 0 when max_irq_rate is set''
            else None)"

definition acquire_body ::
  "'t reserve_env \<Rightarrow> nat \<Rightarrow> int \<Rightarrow> string \<Rightarrow> f64 \<Rightarrow> string \<Rightarrow> nat set \<Rightarrow> f64 option \<Rightarrow> ledger_fs \<Rightarrow>
     't core_record list \<Rightarrow> reservation ledger_run" where
  "acquire_body env starttime k tag sample_s path exclude max_irq_rate fs live =
     (let held = held_set exclude live;
          cores = pick_least_busy_free_cores_excluding (re_sample env) k sample_s held max_irq_rate
      in if length cores < nat k
         then and_stored (store_env env path live fs) (Inl (too_few k (length cores) live held))
         else
           let new = \<lparr>rc_pid = re_pid env, rc_starttime = Some starttime, rc_cores = cores, rc_tag = tag, rc_ts = re_now env\<rparr>
           in and_stored (store_env env path (live @ [new]) fs)
               (Inr \<lparr>rv_cores = cores, rv_pid = re_pid env, rv_starttime = Some starttime, rv_tag = tag,
                    rv_ledger = path, rv_released = False\<rparr>))"

definition acquire ::
  "'t reserve_env \<Rightarrow> int \<Rightarrow> string \<Rightarrow> f64 \<Rightarrow> string \<Rightarrow> nat set \<Rightarrow> f64 option \<Rightarrow> ledger_fs \<Rightarrow> reservation ledger_run" where
  "acquire env k tag sample_s path exclude max_irq_rate fs =
     (case acquire_checks env k sample_s max_irq_rate of
        Some e \<Rightarrow> ([fs], Inl e)
      | None \<Rightarrow>
         (case current_starttime (re_stat env) (re_pid env) of
            Inl e \<Rightarrow> ([fs], Inl e)
          | Inr starttime \<Rightarrow>
              with_swept env path fs (\<lambda>live dead. acquire_body env starttime k tag sample_s path exclude max_irq_rate fs live)))"

definition is_record_of :: "reservation \<Rightarrow> 't core_record \<Rightarrow> bool" where
  "is_record_of rv r \<longleftrightarrow> rc_pid r = rv_pid rv \<and> rc_starttime r = rv_starttime rv \<and> rc_tag r = rv_tag rv \<and> rc_cores r = rv_cores rv"

definition release :: "'t reserve_env \<Rightarrow> reservation \<Rightarrow> ledger_fs \<Rightarrow> reservation ledger_run" where
  "release env rv fs =
     (if rv_released rv then ([fs], Inr rv)
      else case re_lock env of
          Some e \<Rightarrow> ([fs], Inl e)
        | None \<Rightarrow>
           (case load (re_codec env) (re_faults env) (rv_ledger rv) fs of
              Inl e \<Rightarrow> ([fs], Inl e)
            | Inr records \<Rightarrow>
                and_stored (store_env env (rv_ledger rv) (filter (\<lambda>r. \<not> is_record_of rv r) records) fs)
                  (Inr (rv\<lparr>rv_released := True\<rparr>))))"

definition store_if_dead :: "'t reserve_env \<Rightarrow> string \<Rightarrow> ledger_fs \<Rightarrow> 't core_record list \<Rightarrow> 't core_record list \<Rightarrow> unit ledger_run" where
  "store_if_dead env path fs live dead = (if dead \<noteq> [] then store_env env path live fs else ([fs], Inr ()))"

definition reclaim_dead :: "'t reserve_env \<Rightarrow> string \<Rightarrow> ledger_fs \<Rightarrow> json list ledger_run" where
  "reclaim_dead env path fs =
     with_swept env path fs (\<lambda>live dead.
       and_stored (store_if_dead env path fs live dead) (Inr (map (record_to_value (lc_ts_json (re_codec env))) dead)))"

definition held_cores :: "'t reserve_env \<Rightarrow> string \<Rightarrow> ledger_fs \<Rightarrow> nat list ledger_run" where
  "held_cores env path fs =
     with_swept env path fs (\<lambda>live dead.
       and_stored (store_if_dead env path fs live dead) (Inr (sorted_list_of_set (\<Union>r \<in> set live. set (rc_cores r)))))"

end
