(* ===== verification/Reserve_Ledger.thy ===== *)
theory Reserve_Ledger
  imports Reserve
begin

text \<open>
  What the pieces of the reservation ledger promise: the records that are accepted, their round trip,
  the choice of cores, the sweep, and the replacement of the ledger file with faults at any point.
\<close>

section \<open>Records\<close>

definition record_ok :: "'t core_record \<Rightarrow> bool" where
  "record_ok r \<longleftrightarrow> 0 < rc_pid r \<and> rc_pid r \<le> U32_MAX
     \<and> (\<forall>t \<in> set_option (rc_starttime r). 0 < t \<and> t < 18446744073709551616)
     \<and> rc_cores r \<noteq> [] \<and> distinct (rc_cores r) \<and> (\<forall>c \<in> set (rc_cores r). c \<le> U32_MAX)"

text \<open>What identifies a reservation: everything of a record but its time stamp.\<close>

type_synonym hold_key = "nat \<times> nat option \<times> nat list \<times> string"

definition hold_of :: "'t core_record \<Rightarrow> hold_key" where
  "hold_of r = (rc_pid r, rc_starttime r, rc_cores r, rc_tag r)"

lemma core_from_value_Some: "core_from_value v = Some c \<longleftrightarrow> v = JInt (int c) \<and> c \<le> U32_MAX"
  by (auto simp: core_from_value_def filter_opt_Some value_u64_Some U32_MAX_def)

lemma record_from_value_ok: "record_from_value ts_of v = Some r \<Longrightarrow> record_ok r"
  by (auto simp: record_from_value_def record_ok_def filter_opt_Some bind_eq_Some_conv those_map_Some
      list_all2_conv_all_nth in_set_conv_nth core_from_value_Some dest: starttime_ok)

lemma record_roundtrip:
  assumes "record_ok r" "is_number (ts_json (rc_ts r))" "ts_of (ts_json (rc_ts r)) = Some t"
  shows "record_from_value ts_of (record_to_value ts_json r) = Some (r\<lparr>rc_ts := t\<rparr>)"
proof -
  have "those (map core_from_value (map (\<lambda>c. JInt (int c)) (rc_cores r))) = Some (map (\<lambda>c. c) (rc_cores r))"
    using assms(1) by (intro those_written) (auto simp: core_from_value_Some record_ok_def)
  moreover have "value_u64 (JInt (int (rc_pid r))) = Some (rc_pid r)"
    using assms(1) by (simp add: value_u64_Some record_ok_def U32_MAX_def)
  ultimately show ?thesis
    using assms starttime_written[of "rc_starttime r"]
    by (simp add: record_from_value_def record_to_value_def obj_get_def filter_opt_def record_ok_def comp_def
        del: map_map)
qed

section \<open>The choice of cores\<close>

text \<open>What a reservation relies on, whatever way the cores are chosen.\<close>

locale core_picker =
  fixes pick :: "nat set \<Rightarrow> nat list"
  assumes pick_distinct: "distinct (pick held)"
    and pick_free: "set (pick held) \<inter> held = {}"
    and pick_bound: "c \<in> set (pick held) \<Longrightarrow> c < 1024"
begin

lemma pick_unheld: "r \<in> set live \<Longrightarrow> set (rc_cores r) \<inter> set (pick (held_set exclude live)) = {}"
  using pick_free[of "held_set exclude live"] by (auto simp: held_set_def)

lemma pick_not_excluded: "set (pick (held_set exclude live)) \<inter> exclude = {}"
  using pick_free[of "held_set exclude live"] by (auto simp: held_set_def)

lemma picked_record_ok:
  assumes "pick held \<noteq> []" "0 < pid" "pid \<le> U32_MAX" "0 < s" "s < 18446744073709551616"
  shows "record_ok \<lparr>rc_pid = pid, rc_starttime = Some s, rc_cores = pick held, rc_tag = tag, rc_ts = ts\<rparr>"
  using assms pick_distinct by (auto simp: record_ok_def U32_MAX_def dest: pick_bound)

end

lemma picked:
  "c \<in> set (pick_least_busy_free_cores_excluding s k sample_s held irq) \<Longrightarrow>
     c \<notin> held \<and> c \<in> set (current_affinity s) \<and> idle_frac s c \<noteq> None \<and> irq_ok s irq c"
  by (auto simp: pick_least_busy_free_cores_excluding_def Let_def split: if_splits option.splits dest!: in_set_takeD)

lemma affinity_facts: "distinct (current_affinity s)" "c \<in> set (current_affinity s) \<Longrightarrow> c < 1024"
  by (auto simp: current_affinity_def split: option.splits)

lemma distinct_pick: "distinct (pick_least_busy_free_cores_excluding s k sample_s held irq)"
  using affinity_facts(1)
  by (auto simp: pick_least_busy_free_cores_excluding_def Let_def intro!: distinct_take distinct_filter)

interpretation picker: core_picker "\<lambda>held. pick_least_busy_free_cores_excluding s k sample_s held irq"
  for s k sample_s irq
  by unfold_locales (auto simp: distinct_pick dest!: picked affinity_facts(2))

section \<open>The sweep\<close>

text \<open>The answer of the process table for a holder, where it has one.\<close>

definition alive_by :: "proc_table \<Rightarrow> 't core_record \<Rightarrow> bool" where
  "alive_by stat r \<longleftrightarrow> holder_alive stat r = Inr True"

definition answered :: "proc_table \<Rightarrow> 't core_record \<Rightarrow> bool" where
  "answered stat r \<longleftrightarrow> (\<exists>b. holder_alive stat r = Inr b)"

lemma sweep_exact:
  "sweep stat rs = Inr (live, dead) \<Longrightarrow>
     live = filter (alive_by stat) rs \<and> dead = filter (\<lambda>r. \<not> alive_by stat r) rs \<and> list_all (answered stat) rs"
  using sweep_loop_exact[of "holder_alive stat" rs "([], [])" "(live, dead)"]
    sweep_loop_total[of "holder_alive stat" rs "([], [])"]
  unfolding sweep_def alive_by_def answered_def by simp

section \<open>The file\<close>

abbreviation core_apart :: "string \<Rightarrow> bool" where
  "core_apart path \<equiv> ledger_apart ''.core-reservations.'' path"

text \<open>The reservations that the ledger file holds, read without a fault.\<close>

definition ledger_holds :: "'t ledger_codec \<Rightarrow> string \<Rightarrow> ledger_fs \<Rightarrow> hold_key set \<Rightarrow> bool" where
  "ledger_holds codec path fs K \<longleftrightarrow> (\<exists>rs. load codec no_faults path fs = Inr rs \<and> K = hold_of ` set rs)"

lemma load_no_faults: "load codec faults path fs = Inr rs \<Longrightarrow> load codec no_faults path fs = Inr rs"
  unfolding load_def by (rule load_records_no_faults)

lemma load_ok: "load codec faults path fs = Inr rs \<Longrightarrow> r \<in> set rs \<Longrightarrow> record_ok r"
  unfolding load_def by (drule load_records_of, assumption) (auto intro: record_from_value_ok)

lemma ledger_holds_cong: "fs' path = fs path \<Longrightarrow> ledger_holds codec path fs' K = ledger_holds codec path fs K"
  by (simp add: ledger_holds_def load_def load_records_cong[of fs' path fs])

lemma ledger_holds_unique:
  "ledger_holds codec path fs K \<Longrightarrow> load codec faults path fs = Inr rs \<Longrightarrow> K = hold_of ` set rs"
  by (auto simp: ledger_holds_def dest: load_no_faults)

lemma ledger_holds_printed:
  assumes "codec_ok codec" "\<And>r. r \<in> set recs \<Longrightarrow> record_ok r"
    "lc_print codec (ledger_value (lc_ts_json codec) recs) = Inr text" "fs path = Some text"
  shows "ledger_holds codec path fs (hold_of ` set recs)"
proof -
  let ?read = "\<lambda>r. r\<lparr>rc_ts := the (lc_ts_of codec (lc_ts_json codec (rc_ts r)))\<rparr>"
  have "load codec no_faults path fs = Inr (map ?read recs)"
    unfolding load_def
    by (rule load_records_printed[where to_value = "record_to_value (lc_ts_json codec)"])
      (use assms in \<open>auto simp: codec_ok_def record_roundtrip ledger_value_def\<close>)
  moreover have "hold_of ` set (map ?read recs) = hold_of ` set recs" by (simp add: image_image hold_of_def)
  ultimately show ?thesis unfolding ledger_holds_def by blast
qed

end
