(* ===== verification/Reserve_System.thy ===== *)
theory Reserve_System
  imports Reserve_Ledger
begin

text \<open>
  Processes that share one ledger. A state has the file system, the running processes with their
  start times, the process identities that were ever used, and the reservations that processes hold.
  A step starts or ends a process, or is one operation of a running process; an operation holds the
  lock while it reads, decides and replaces the ledger, so operations do not overlap, but a process
  can die at any state of the file system in between. The kernel does not give the same pair of
  process number and start time twice.
\<close>

record world =
  wd_fs :: ledger_fs
  wd_procs :: "nat \<Rightarrow> nat option"
  wd_used :: "(nat \<times> nat) set"
  wd_held :: "reservation list"

definition world_start :: world where
  "world_start = \<lparr>wd_fs = \<lambda>_. None, wd_procs = \<lambda>_. None, wd_used = {}, wd_held = []\<rparr>"

definition ended :: "nat \<Rightarrow> world \<Rightarrow> world" where
  "ended pid w = w\<lparr>wd_procs := (wd_procs w)(pid := None), wd_held := filter (\<lambda>rv. rv_pid rv \<noteq> pid) (wd_held w)\<rparr>"

text \<open>An operation of a running process: the process table answers truthfully, or not at all.\<close>

definition runs_in :: "'t ledger_codec \<Rightarrow> 't reserve_env \<Rightarrow> world \<Rightarrow> bool" where
  "runs_in codec env w \<longleftrightarrow> re_codec env = codec \<and> wd_procs w (re_pid env) \<noteq> None
     \<and> (\<forall>pid v. re_stat env pid = Inr v \<longrightarrow> v = wd_procs w pid)"

inductive reserve_step :: "'t ledger_codec \<Rightarrow> string \<Rightarrow> world \<Rightarrow> world \<Rightarrow> bool" for codec path where
  started: "\<lbrakk>wd_procs w pid = None; 0 < pid; pid \<le> U32_MAX; 0 < s; s < 18446744073709551616; (pid, s) \<notin> wd_used w\<rbrakk>
    \<Longrightarrow> reserve_step codec path w
      (w\<lparr>wd_procs := (wd_procs w)(pid \<mapsto> s), wd_used := insert (pid, s) (wd_used w)\<rparr>)"
| ends: "reserve_step codec path w (ended pid w)"
| acquired: "\<lbrakk>runs_in codec env w; acquire env k tag sample_s path exclude irq (wd_fs w) = (states, Inr rv)\<rbrakk>
    \<Longrightarrow> reserve_step codec path w (w\<lparr>wd_fs := last states, wd_held := rv # wd_held w\<rparr>)"
| not_acquired: "\<lbrakk>runs_in codec env w; acquire env k tag sample_s path exclude irq (wd_fs w) = (states, Inl e)\<rbrakk>
    \<Longrightarrow> reserve_step codec path w (w\<lparr>wd_fs := last states\<rparr>)"
| died_acquiring: "\<lbrakk>runs_in codec env w; fs \<in> set (fst (acquire env k tag sample_s path exclude irq (wd_fs w)))\<rbrakk>
    \<Longrightarrow> reserve_step codec path w (ended (re_pid env) (w\<lparr>wd_fs := fs\<rparr>))"
| released: "\<lbrakk>runs_in codec env w; rv \<in> set (wd_held w); rv_pid rv = re_pid env; release env rv (wd_fs w) = (states, Inr rv')\<rbrakk>
    \<Longrightarrow> reserve_step codec path w (w\<lparr>wd_fs := last states, wd_held := filter (\<lambda>x. x \<noteq> rv) (wd_held w)\<rparr>)"
| not_released: "\<lbrakk>runs_in codec env w; rv \<in> set (wd_held w); rv_pid rv = re_pid env; release env rv (wd_fs w) = (states, Inl e)\<rbrakk>
    \<Longrightarrow> reserve_step codec path w (w\<lparr>wd_fs := last states\<rparr>)"
| died_releasing: "\<lbrakk>runs_in codec env w; rv \<in> set (wd_held w); rv_pid rv = re_pid env; fs \<in> set (fst (release env rv (wd_fs w)))\<rbrakk>
    \<Longrightarrow> reserve_step codec path w (ended (re_pid env) (w\<lparr>wd_fs := fs\<rparr>))"
| reclaimed: "runs_in codec env w
    \<Longrightarrow> reserve_step codec path w (w\<lparr>wd_fs := last (fst (reclaim_dead env path (wd_fs w)))\<rparr>)"
| asked: "runs_in codec env w
    \<Longrightarrow> reserve_step codec path w (w\<lparr>wd_fs := last (fst (held_cores env path (wd_fs w)))\<rparr>)"
| died_reclaiming: "\<lbrakk>runs_in codec env w; fs \<in> set (fst (reclaim_dead env path (wd_fs w)))\<rbrakk>
    \<Longrightarrow> reserve_step codec path w (ended (re_pid env) (w\<lparr>wd_fs := fs\<rparr>))"
| died_asking: "\<lbrakk>runs_in codec env w; fs \<in> set (fst (held_cores env path (wd_fs w)))\<rbrakk>
    \<Longrightarrow> reserve_step codec path w (ended (re_pid env) (w\<lparr>wd_fs := fs\<rparr>))"

section \<open>The invariant\<close>

definition key_of :: "reservation \<Rightarrow> hold_key" where
  "key_of rv = (rv_pid rv, rv_starttime rv, rv_cores rv, rv_tag rv)"

fun key_cores :: "hold_key \<Rightarrow> nat set" where
  "key_cores (pid, st, cores, tag) = set cores"

fun key_live :: "(nat \<Rightarrow> nat option) \<Rightarrow> hold_key \<Rightarrow> bool" where
  "key_live procs (pid, st, cores, tag) \<longleftrightarrow> st \<noteq> None \<and> procs pid = st"

fun key_used :: "(nat \<times> nat) set \<Rightarrow> hold_key \<Rightarrow> bool" where
  "key_used used (pid, st, cores, tag) \<longleftrightarrow> (\<exists>s. st = Some s \<and> (pid, s) \<in> used)"

definition keys_good :: "hold_key set \<Rightarrow> world \<Rightarrow> bool" where
  "keys_good K w \<longleftrightarrow>
     (\<forall>a \<in> K. \<forall>b \<in> K. key_live (wd_procs w) a \<longrightarrow> key_live (wd_procs w) b \<longrightarrow> a \<noteq> b \<longrightarrow> key_cores a \<inter> key_cores b = {})
     \<and> (\<forall>a \<in> K. key_used (wd_used w) a)
     \<and> (\<forall>rv \<in> set (wd_held w). key_of rv \<in> K \<and> key_live (wd_procs w) (key_of rv) \<and> rv_cores rv \<noteq> [] \<and> \<not> rv_released rv)"

definition world_good :: "'t ledger_codec \<Rightarrow> string \<Rightarrow> world \<Rightarrow> bool" where
  "world_good codec path w \<longleftrightarrow>
     (\<exists>K. ledger_holds codec path (wd_fs w) K \<and> keys_good K w)
     \<and> (\<forall>pid s. wd_procs w pid = Some s \<longrightarrow> (pid, s) \<in> wd_used w \<and> 0 < pid \<and> pid \<le> U32_MAX \<and> 0 < s \<and> s < 18446744073709551616)
     \<and> distinct (map key_of (wd_held w)) \<and> (\<forall>rv \<in> set (wd_held w). rv_ledger rv = path)"

lemma key_live_used: "key_live procs a \<Longrightarrow> (\<And>pid s. procs pid = Some s \<Longrightarrow> (pid, s) \<in> used) \<Longrightarrow> key_used used a"
  by (cases a) auto

lemma keys_good_apart:
  "keys_good K w \<Longrightarrow> a \<in> K \<Longrightarrow> b \<in> K \<Longrightarrow> key_live (wd_procs w) a \<Longrightarrow> key_live (wd_procs w) b \<Longrightarrow> a \<noteq> b \<Longrightarrow>
     key_cores a \<inter> key_cores b = {}"
  unfolding keys_good_def by blast

text \<open>Ending a process keeps everything; so does a new identity.\<close>

lemma keys_good_ended: "keys_good K w \<Longrightarrow> keys_good K (ended pid w)"
proof -
  have live: "key_live ((wd_procs w)(pid := None)) a \<Longrightarrow> key_live (wd_procs w) a" for a
    by (cases a) (auto split: if_splits)
  have still: "key_live ((wd_procs w)(pid := None)) (key_of rv)" if "key_live (wd_procs w) (key_of rv)" "rv_pid rv \<noteq> pid" for rv
    using that by (simp add: key_of_def)
  show "keys_good K w \<Longrightarrow> keys_good K (ended pid w)"
    using live still by (auto simp: keys_good_def ended_def)
qed

lemma keys_good_started:
  assumes "keys_good K w" "(pid, s) \<notin> wd_used w" "wd_procs w pid = None"
  shows "keys_good K (w\<lparr>wd_procs := (wd_procs w)(pid \<mapsto> s), wd_used := insert (pid, s) (wd_used w)\<rparr>)"
proof -
  have live: "key_live ((wd_procs w)(pid \<mapsto> s)) a \<longleftrightarrow> key_live (wd_procs w) a" if "key_used (wd_used w) a" for a
    using that assms(2,3) by (cases a) auto
  have used: "key_used (insert (pid, s) (wd_used w)) a" if "key_used (wd_used w) a" for a
    using that by (cases a) auto
  show ?thesis using assms(1) unfolding keys_good_def by (auto simp: live used)
qed

text \<open>The sweep keeps exactly the live keys, and may drop the others; a live key with free cores may join.\<close>

definition live_keys :: "hold_key set \<Rightarrow> world \<Rightarrow> hold_key set" where
  "live_keys K w = {a \<in> K. key_live (wd_procs w) a}"

lemma keys_good_live: "keys_good K w \<Longrightarrow> keys_good (live_keys K w) w"
  by (auto simp: keys_good_def live_keys_def)

lemma keys_good_insert:
  assumes "keys_good K w" "key_used (wd_used w) a" "\<And>b. b \<in> live_keys K w \<Longrightarrow> key_cores a \<inter> key_cores b = {}"
  shows "keys_good (insert a (live_keys K w)) w"
proof -
  have live: "keys_good (live_keys K w) w" using assms(1) by (rule keys_good_live)
  have apart: "key_cores b \<inter> key_cores c = {}"
    if bc: "b \<in> insert a (live_keys K w)" "c \<in> insert a (live_keys K w)" "b \<noteq> c" for b c
  proof -
    consider "b = a" "c \<in> live_keys K w" | "c = a" "b \<in> live_keys K w" | "b \<in> live_keys K w" "c \<in> live_keys K w"
      using bc by blast
    then show ?thesis
    proof cases
      case 3
      then show ?thesis using keys_good_apart[OF assms(1) _ _ _ _ bc(3)] unfolding live_keys_def by blast
    qed (use assms(3) in blast)+
  qed
  show ?thesis unfolding keys_good_def
  proof (intro conjI ballI impI)
    show "key_used (wd_used w) b" if "b \<in> insert a (live_keys K w)" for b
      using that assms(2) live by (auto simp: keys_good_def)
  qed (use apart live in \<open>auto simp: keys_good_def\<close>)
qed

lemma keys_good_fs: "keys_good K (w\<lparr>wd_fs := fs\<rparr>) = keys_good K w"
  by (simp add: keys_good_def)

lemma swept_keys:
  assumes "runs_in codec env w" "keys_good (hold_of ` set rs) w" "sweep (re_stat env) rs = Inr (live, dead)"
  shows "hold_of ` set live = live_keys (hold_of ` set rs) w" "set live \<subseteq> set rs"
proof -
  have live: "live = filter (alive_by (re_stat env)) rs" and ans: "list_all (answered (re_stat env)) rs"
    using sweep_exact[OF assms(3)] by simp_all
  have "alive_by (re_stat env) r \<longleftrightarrow> key_live (wd_procs w) (hold_of r)" if r: "r \<in> set rs" for r
  proof -
    have "key_used (wd_used w) (hold_of r)" using assms(2) r by (simp add: keys_good_def)
    then obtain s where s: "rc_starttime r = Some s" by (auto simp: hold_of_def)
    obtain v where "re_stat env (rc_pid r) = Inr v"
      using ans r by (cases "re_stat env (rc_pid r)") (auto simp: list_all_iff answered_def holder_alive_def holder_state_def)
    then have "re_stat env (rc_pid r) = Inr (wd_procs w (rc_pid r))" using assms(1) by (simp add: runs_in_def)
    then show ?thesis using s
      by (auto simp: alive_by_def holder_alive_def holder_state_def hold_of_def split: option.splits)
  qed
  then show "hold_of ` set live = live_keys (hold_of ` set rs) w" by (auto simp: live live_keys_def)
  show "set live \<subseteq> set rs" by (auto simp: live)
qed

section \<open>The operations keep it\<close>

definition procs_good :: "world \<Rightarrow> bool" where
  "procs_good w \<longleftrightarrow> (\<forall>pid s. wd_procs w pid = Some s \<longrightarrow>
     (pid, s) \<in> wd_used w \<and> 0 < pid \<and> pid \<le> U32_MAX \<and> 0 < s \<and> s < 18446744073709551616)"

lemma procs_goodD:
  "procs_good w \<Longrightarrow> wd_procs w pid = Some s \<Longrightarrow> (pid, s) \<in> wd_used w \<and> 0 < pid \<and> pid \<le> U32_MAX \<and> 0 < s \<and> s < 18446744073709551616"
  by (simp add: procs_good_def)

text \<open>What the states of a run may hold: the ledger as it was, or the given keys.\<close>

definition run_holds :: "'t ledger_codec \<Rightarrow> string \<Rightarrow> ledger_fs \<Rightarrow> hold_key set \<Rightarrow> ledger_fs list \<Rightarrow> bool" where
  "run_holds codec path fs K states \<longleftrightarrow>
     states \<noteq> [] \<and> (\<forall>fs' \<in> set states. fs' path = fs path \<or> ledger_holds codec path fs' K)"

lemma run_holds_start [simp]: "run_holds codec path fs K [fs]"
  by (simp add: run_holds_def)

lemma store_env_run:
  assumes "codec_ok (re_codec env)" "core_apart path" "\<And>r. r \<in> set recs \<Longrightarrow> record_ok r"
    and "store_env env path recs fs = (states, res)"
  shows "run_holds (re_codec env) path fs (hold_of ` set recs) states"
    and "res = Inr () \<Longrightarrow> ledger_holds (re_codec env) path (last states) (hold_of ` set recs)"
    and "res = Inl e \<Longrightarrow> last states path = fs path"
proof -
  note run = store_value_states[OF assms(4)[unfolded store_env_def store_def] assms(2)]
  note printed = ledger_holds_printed[OF assms(1) assms(3)]
  show "run_holds (re_codec env) path fs (hold_of ` set recs) states"
    unfolding run_holds_def using run(1,2) printed by blast
  show "res = Inr () \<Longrightarrow> ledger_holds (re_codec env) path (last states) (hold_of ` set recs)"
    using run(3) printed by blast
  show "res = Inl e \<Longrightarrow> last states path = fs path" using run(4) by blast
qed

lemma and_stored_run:
  "and_stored run res = (states, res') \<Longrightarrow> run = (states, snd run) \<and>
     (case snd run of Inl e \<Rightarrow> res' = Inl e | Inr _ \<Rightarrow> res' = res)"
  by (cases run) (auto simp: and_stored_def split: sum.splits)

lemma with_swept_cases:
  assumes "with_swept env path fs body = (states, res)"
  obtains (stopped) e where "states = [fs]" "res = Inl e"
  | (swept) rs live dead where "load (re_codec env) (re_faults env) path fs = Inr rs"
      "sweep (re_stat env) rs = Inr (live, dead)" "body live dead = (states, res)"
  using assms by (auto simp: with_swept_def split: option.splits sum.splits prod.splits)

text \<open>The part that the operations share: the swept records are those of the ledger, live and well formed.\<close>

lemma swept_facts:
  assumes "runs_in codec env w" "ledger_holds codec path (wd_fs w) K" "keys_good K w"
    and "load (re_codec env) (re_faults env) path (wd_fs w) = Inr rs" "sweep (re_stat env) rs = Inr (live, dead)"
  shows "hold_of ` set live = live_keys K w" "\<And>r. r \<in> set live \<Longrightarrow> record_ok r"
proof -
  have K: "K = hold_of ` set rs"
    using ledger_holds_unique[OF assms(2)] assms(1,4) by (auto simp: runs_in_def)
  show "hold_of ` set live = live_keys K w" using swept_keys(1)[OF assms(1) _ assms(5)] assms(3) K by simp
  show "record_ok r" if "r \<in> set live" for r
    using load_ok[OF assms(4)] swept_keys(2)[OF assms(1) _ assms(5)] assms(3) K that by blast
qed

lemma dead_swept_run:
  assumes "codec_ok codec" "core_apart path" "runs_in codec env w" "ledger_holds codec path (wd_fs w) K" "keys_good K w"
    and "with_swept env path (wd_fs w) (\<lambda>live dead. and_stored (store_if_dead env path (wd_fs w) live dead) (result live dead)) = (states, res)"
  shows "run_holds codec path (wd_fs w) (live_keys K w) states"
  using assms(6)
proof (cases rule: with_swept_cases)
  case (swept rs live dead)
  note facts = swept_facts[OF assms(3-5) swept(1,2)]
  have codec: "re_codec env = codec" using assms(3) by (simp add: runs_in_def)
  note run = and_stored_run[OF swept(3)]
  show ?thesis
    using store_env_run(1)[of env path live "wd_fs w" states] run assms(1,2) facts codec
    by (cases "dead = []") (auto simp: store_if_dead_def)
qed simp

lemma run_holds_ledger:
  "run_holds codec path fs K' states \<Longrightarrow> ledger_holds codec path fs K \<Longrightarrow> fs' \<in> set states \<Longrightarrow>
     ledger_holds codec path fs' K \<or> ledger_holds codec path fs' K'"
  unfolding run_holds_def using ledger_holds_cong[of fs' path fs codec K] by blast

definition joins :: "hold_key set \<Rightarrow> world \<Rightarrow> string \<Rightarrow> reservation \<Rightarrow> bool" where
  "joins K w path rv \<longleftrightarrow> key_of rv \<in> K \<and> key_live (wd_procs w) (key_of rv) \<and> rv_cores rv \<noteq> [] \<and> \<not> rv_released rv
     \<and> rv_ledger rv = path \<and> (\<forall>x \<in> set (wd_held w). key_of x \<noteq> key_of rv)"

text \<open>A picked set of cores meets no live record, so the new record may join them.\<close>

lemma acquire_body_run:
  assumes "codec_ok codec" "core_apart path" "runs_in codec env w" "keys_good K w"
    and procs: "procs_good w"
    and "1 \<le> k" "re_stat env (re_pid env) = Inr (Some st)"
    and live: "hold_of ` set live = live_keys K w" "\<And>r. r \<in> set live \<Longrightarrow> record_ok r"
    and run: "acquire_body env st k tag sample_s path exclude irq (wd_fs w) live = (states, res)"
  shows "\<exists>K'. keys_good K' w \<and> run_holds codec path (wd_fs w) K' states
      \<and> (\<forall>rv. res = Inr rv \<longrightarrow> ledger_holds codec path (last states) K' \<and> joins K' w path rv)"
proof -
  let ?held = "held_set exclude live"
  let ?cores = "pick_least_busy_free_cores_excluding (re_sample env) k sample_s ?held irq"
  have codec: "re_codec env = codec" and proc: "wd_procs w (re_pid env) = Some st"
    using assms(3,7) by (auto simp: runs_in_def)
  show ?thesis
  proof (cases "length ?cores < nat k")
    case True
    then have "and_stored (store_env env path live (wd_fs w)) (Inl (too_few k (length ?cores) live ?held)) = (states, res)"
      using run by (simp add: acquire_body_def Let_def)
    then have st: "store_env env path live (wd_fs w) = (states, snd (store_env env path live (wd_fs w)))" and "\<exists>e. res = Inl e"
      by (auto dest!: and_stored_run split: sum.splits)
    then show ?thesis
      using store_env_run(1)[OF _ assms(2) live(2) st] assms(1) live(1) keys_good_live[OF assms(4)] codec by auto
  next
    case False
    let ?new = "\<lparr>rc_pid = re_pid env, rc_starttime = Some st, rc_cores = ?cores, rc_tag = tag, rc_ts = re_now env\<rparr>"
    let ?rv = "\<lparr>rv_cores = ?cores, rv_pid = re_pid env, rv_starttime = Some st, rv_tag = tag, rv_ledger = path, rv_released = False\<rparr>"
    let ?K = "insert (hold_of ?new) (live_keys K w)"
    have "and_stored (store_env env path (live @ [?new]) (wd_fs w)) (Inr ?rv) = (states, res)"
      using run False by (simp add: acquire_body_def Let_def)
    note stored = and_stored_run[OF this]
    have nonempty: "?cores \<noteq> []" using False assms(6) by auto
    have ok: "record_ok r" if "r \<in> set (live @ [?new])" for r
      using that live(2) picker.picked_record_ok[OF nonempty] procs_goodD[OF procs proc] by auto
    have K: "hold_of ` set (live @ [?new]) = ?K" using live(1) by auto
    have apart: "key_cores (hold_of ?new) \<inter> key_cores b = {}" if b: "b \<in> live_keys K w" for b
    proof -
      obtain r where "r \<in> set live" "b = hold_of r" using b unfolding live(1)[symmetric] by auto
      then show ?thesis using picker.pick_unheld[of r live "re_sample env" k sample_s exclude irq] by (auto simp: hold_of_def)
    qed
    have good: "keys_good ?K w"
      by (rule keys_good_insert[OF assms(4)]) (use procs_goodD[OF procs proc] apart in \<open>auto simp: hold_of_def\<close>)
    have "joins ?K w path ?rv"
    proof -
      have "key_of x \<noteq> hold_of ?new" if "x \<in> set (wd_held w)" for x
      proof
        assume eq: "key_of x = hold_of ?new"
        have "key_of x \<in> live_keys K w" using assms(4) that by (simp add: keys_good_def live_keys_def)
        then show False using apart[of "key_of x"] eq nonempty by (simp add: hold_of_def)
      qed
      then show ?thesis using proc nonempty by (simp add: joins_def key_of_def hold_of_def)
    qed
    then show ?thesis
      using store_env_run(1,2)[of env path "live @ [?new]", OF _ assms(2) ok conjunct1[OF stored]] assms(1) codec K good stored
      by (intro exI[of _ ?K]) (auto split: sum.splits)
  qed
qed

lemma acquire_checks_k: "acquire_checks env k sample_s irq = None \<Longrightarrow> 1 \<le> k"
  by (simp add: acquire_checks_def split: if_splits)

lemma current_starttime_Inr: "current_starttime stat pid = Inr st \<Longrightarrow> stat pid = Inr (Some st)"
  by (simp add: current_starttime_def split: sum.splits option.splits)

lemma acquire_run:
  assumes "codec_ok codec" "core_apart path" "runs_in codec env w" "ledger_holds codec path (wd_fs w) K" "keys_good K w"
    and procs: "procs_good w"
    and run: "acquire env k tag sample_s path exclude irq (wd_fs w) = (states, res)"
  shows "\<exists>K'. keys_good K' w \<and> run_holds codec path (wd_fs w) K' states
      \<and> (\<forall>rv. res = Inr rv \<longrightarrow> ledger_holds codec path (last states) K' \<and> joins K' w path rv)"
proof -
  have stopped: ?thesis if "states = [wd_fs w]" "res = Inl e" for e
    using that assms(5) by auto
  consider (no) e where "states = [wd_fs w]" "res = Inl e"
    | (yes) st where "acquire_checks env k sample_s irq = None" "current_starttime (re_stat env) (re_pid env) = Inr st"
      "with_swept env path (wd_fs w) (\<lambda>live dead. acquire_body env st k tag sample_s path exclude irq (wd_fs w) live) = (states, res)"
    using run by (auto simp: acquire_def split: option.splits sum.splits)
  then show ?thesis
  proof cases
    case yes
    from yes(3) show ?thesis
    proof (cases rule: with_swept_cases)
      case (swept rs live dead)
      note facts = swept_facts[OF assms(3-5) swept(1,2)]
      show ?thesis
        using acquire_body_run[OF assms(1-3,5) procs acquire_checks_k[OF yes(1)] current_starttime_Inr[OF yes(2)] facts swept(3)] .
    qed (rule stopped)
  qed (rule stopped)
qed

lemma is_record_of_key: "is_record_of rv r \<longleftrightarrow> hold_of r = key_of rv"
  by (auto simp: is_record_of_def hold_of_def key_of_def)

lemma image_filter_ne: "f ` set (filter (\<lambda>x. f x \<noteq> a) xs) = f ` set xs - {a}"
  by auto

lemma release_run:
  assumes "codec_ok codec" "core_apart path" "runs_in codec env w" "ledger_holds codec path (wd_fs w) K"
    and "rv_ledger rv = path" "\<not> rv_released rv" and run: "release env rv (wd_fs w) = (states, res)"
  shows "run_holds codec path (wd_fs w) (K - {key_of rv}) states"
    and "res = Inr rv' \<Longrightarrow> ledger_holds codec path (last states) (K - {key_of rv})"
    and "res = Inl e \<Longrightarrow> last states path = wd_fs w path"
proof -
  have codec: "re_codec env = codec" using assms(3) by (simp add: runs_in_def)
  consider (no) e where "states = [wd_fs w]" "res = Inl e"
    | (yes) rs where "load codec (re_faults env) path (wd_fs w) = Inr rs"
      "and_stored (store_env env path (filter (\<lambda>r. \<not> is_record_of rv r) rs) (wd_fs w)) (Inr (rv\<lparr>rv_released := True\<rparr>)) = (states, res)"
    using run assms(5,6) codec by (auto simp: release_def split: option.splits sum.splits)
  then have "run_holds codec path (wd_fs w) (K - {key_of rv}) states
      \<and> (\<forall>rv'. res = Inr rv' \<longrightarrow> ledger_holds codec path (last states) (K - {key_of rv}))
      \<and> (\<forall>e. res = Inl e \<longrightarrow> last states path = wd_fs w path)"
  proof cases
    case yes
    let ?left = "filter (\<lambda>r. \<not> is_record_of rv r) rs"
    have "hold_of ` set ?left = hold_of ` set rs - {key_of rv}"
      unfolding is_record_of_key by (rule image_filter_ne)
    then have K: "hold_of ` set ?left = K - {key_of rv}"
      using ledger_holds_unique[OF assms(4) yes(1)] by (simp only:)
    have ok: "record_ok r" if "r \<in> set ?left" for r using load_ok[OF yes(1)] that by simp
    note stored = and_stored_run[OF yes(2)]
    show ?thesis
      using store_env_run[of env path ?left, OF _ assms(2) ok conjunct1[OF stored]] assms(1) codec K stored
      by (cases "snd (store_env env path ?left (wd_fs w))") auto
  qed simp
  then show "run_holds codec path (wd_fs w) (K - {key_of rv}) states"
    and "res = Inr rv' \<Longrightarrow> ledger_holds codec path (last states) (K - {key_of rv})"
    and "res = Inl e \<Longrightarrow> last states path = wd_fs w path" by blast+
qed

section \<open>Every reachable state\<close>

definition held_good :: "string \<Rightarrow> world \<Rightarrow> bool" where
  "held_good path w \<longleftrightarrow> distinct (map key_of (wd_held w)) \<and> (\<forall>rv \<in> set (wd_held w). rv_ledger rv = path)"

lemma world_good_intro:
  "\<lbrakk>ledger_holds codec path (wd_fs w) K; keys_good K w; procs_good w; held_good path w\<rbrakk> \<Longrightarrow> world_good codec path w"
  unfolding world_good_def procs_good_def held_good_def by blast

lemma world_good_elim:
  assumes "world_good codec path w"
  obtains K where "ledger_holds codec path (wd_fs w) K" "keys_good K w" "procs_good w" "held_good path w"
  using assms unfolding world_good_def procs_good_def held_good_def by blast

lemma procs_good_ended: "procs_good w \<Longrightarrow> procs_good (ended pid w)"
  by (simp add: procs_good_def ended_def)

lemma held_good_ended: "held_good path w \<Longrightarrow> held_good path (ended pid w)"
  by (auto simp: held_good_def ended_def intro: distinct_map_filter)

lemma good_fs [simp]: "procs_good (w\<lparr>wd_fs := fs\<rparr>) = procs_good w" "held_good path (w\<lparr>wd_fs := fs\<rparr>) = held_good path w"
  by (simp_all add: procs_good_def held_good_def)

lemma fs_ended [simp]: "wd_fs (ended pid w) = wd_fs w"
  by (simp add: ended_def)

lemma world_good_ended: "world_good codec path w \<Longrightarrow> world_good codec path (ended pid w)"
  by (erule world_good_elim, rule world_good_intro)
    (auto intro: keys_good_ended procs_good_ended held_good_ended)

text \<open>A run whose states hold the old keys or other good ones, while the reservations in use stay the same.\<close>

lemma world_good_run:
  assumes "ledger_holds codec path (wd_fs w) K" "keys_good K w" "procs_good w" "held_good path w"
    and "run_holds codec path (wd_fs w) K' states" "keys_good K' w" "fs' \<in> set states"
  shows "world_good codec path (w\<lparr>wd_fs := fs'\<rparr>)"
proof -
  obtain L where "ledger_holds codec path fs' L" "keys_good L w"
    using run_holds_ledger[OF assms(5,1,7)] assms(2,6) by blast
  then show ?thesis using assms(3,4) by (intro world_good_intro[of _ _ _ L]) (simp_all add: keys_good_fs)
qed

lemma run_holds_last: "run_holds codec path fs K states \<Longrightarrow> last states \<in> set states"
  by (simp add: run_holds_def)

lemma joins_good:
  assumes "joins K w path rv" "keys_good K w" "held_good path w"
  shows "keys_good K (w\<lparr>wd_held := rv # wd_held w\<rparr>)" "held_good path (w\<lparr>wd_held := rv # wd_held w\<rparr>)"
proof -
  show "keys_good K (w\<lparr>wd_held := rv # wd_held w\<rparr>)"
    using assms(1,2) unfolding keys_good_def joins_def world.simps by (auto simp del: split_paired_All split_paired_Ex)
  show "held_good path (w\<lparr>wd_held := rv # wd_held w\<rparr>)"
    using assms(1,3) by (auto simp: held_good_def joins_def)
qed

lemma release_good:
  assumes "rv \<in> set (wd_held w)" "keys_good K w" "held_good path w"
  shows "keys_good (K - {key_of rv}) (w\<lparr>wd_held := filter (\<lambda>x. x \<noteq> rv) (wd_held w)\<rparr>)"
    "held_good path (w\<lparr>wd_held := filter (\<lambda>x. x \<noteq> rv) (wd_held w)\<rparr>)"
proof -
  have other: "key_of x \<noteq> key_of rv" if "x \<in> set (wd_held w)" "x \<noteq> rv" for x
    using assms(1,3) that by (auto simp: held_good_def distinct_map inj_on_def)
  show "keys_good (K - {key_of rv}) (w\<lparr>wd_held := filter (\<lambda>x. x \<noteq> rv) (wd_held w)\<rparr>)"
    using assms(2) other unfolding keys_good_def world.simps by (auto simp del: split_paired_All split_paired_Ex)
  show "held_good path (w\<lparr>wd_held := filter (\<lambda>x. x \<noteq> rv) (wd_held w)\<rparr>)"
    using assms(3) by (auto simp: held_good_def intro: distinct_map_filter)
qed

lemma keys_good_drop:
  assumes "keys_good K w" "\<And>x. x \<in> set (wd_held w) \<Longrightarrow> key_of x \<noteq> a"
  shows "keys_good (K - {a}) w"
  using assms unfolding keys_good_def by blast

lemma died_good:
  assumes "ledger_holds codec path (wd_fs w) K" "keys_good K w" "procs_good w" "held_good path w"
    and "run_holds codec path (wd_fs w) K' states" "keys_good K' (ended pid w)" "fs' \<in> set states"
  shows "world_good codec path (ended pid (w\<lparr>wd_fs := fs'\<rparr>))"
proof -
  have same: "ended pid (w\<lparr>wd_fs := fs'\<rparr>) = (ended pid w)\<lparr>wd_fs := fs'\<rparr>" by (simp add: ended_def)
  show ?thesis unfolding same
    using assms keys_good_ended procs_good_ended held_good_ended by (intro world_good_run[where w = "ended pid w" and K = K and K' = K' and states = states]) auto
qed

lemma swept_run:
  assumes "codec_ok codec" "core_apart path" "runs_in codec env w" "ledger_holds codec path (wd_fs w) K" "keys_good K w"
  shows "run_holds codec path (wd_fs w) (live_keys K w) (fst (reclaim_dead env path (wd_fs w)))"
    "run_holds codec path (wd_fs w) (live_keys K w) (fst (held_cores env path (wd_fs w)))"
  unfolding reclaim_dead_def held_cores_def by (rule dead_swept_run[OF assms prod.collapse[symmetric]])+

theorem reserve_step_good:
  assumes "reserve_step codec path w w'" "codec_ok codec" "core_apart path" "world_good codec path w"
  shows "world_good codec path w'"
  using assms(1)
proof cases
  obtain K where K: "ledger_holds codec path (wd_fs w) K" "keys_good K w" "procs_good w" "held_good path w"
    using assms(4) by (rule world_good_elim)
  note run_good = world_good_run[OF K] and run_died = died_good[OF K]
  note acq = acquire_run[OF assms(2,3) _ K(1,2,3)]
  have rel: "rv_ledger rv = path" "\<not> rv_released rv" if "rv \<in> set (wd_held w)" for rv
    using K(2,4) that by (simp_all add: held_good_def keys_good_def)
  {
    case (started pid s)
    then show ?thesis using K
      by (intro world_good_intro[of _ _ _ K]) (auto intro!: keys_good_started simp: procs_good_def held_good_def)
  next
    case (ends pid)
    then show ?thesis using world_good_ended assms(4) by simp
  next
    case (acquired env k tag sample_s exclude irq states rv)
    then obtain K' where K': "keys_good K' w" "ledger_holds codec path (last states) K'" "joins K' w path rv"
      using acq[OF acquired(2,3)] by blast
    show ?thesis unfolding acquired(1)
      using joins_good[OF K'(3,1) K(4)] K'(2) K(3)
      by (intro world_good_intro[of _ _ _ K']) (simp_all add: keys_good_def procs_good_def held_good_def)
  next
    case (not_acquired env k tag sample_s exclude irq states e)
    then show ?thesis using acq[OF not_acquired(2,3)] run_good run_holds_last by blast
  next
    case (died_acquiring env fs k tag sample_s exclude irq)
    then show ?thesis using acq[OF died_acquiring(2) prod.collapse[symmetric]] run_died keys_good_ended by blast
  next
    case (released env rv states rv')
    note run = release_run[OF assms(2,3) released(2) K(1) rel[OF released(3)] released(5)]
    show ?thesis unfolding released(1)
      using release_good[OF released(3) K(2,4)] run(2) K(3)
      by (intro world_good_intro[of _ _ _ "K - {key_of rv}"]) (simp_all add: keys_good_def procs_good_def held_good_def)
  next
    case (not_released env rv states e)
    note run = release_run[OF assms(2,3) not_released(2) K(1) rel[OF not_released(3)] not_released(5)]
    show ?thesis unfolding not_released(1)
      using K run(3) ledger_holds_cong[of "last states" path "wd_fs w" codec K]
      by (intro world_good_intro[of _ _ _ K]) (simp_all add: keys_good_fs)
  next
    case (died_releasing env rv fs)
    note run = release_run(1)[OF assms(2,3) died_releasing(2) K(1) rel[OF died_releasing(3)] prod.collapse[symmetric]]
    have "keys_good (K - {key_of rv}) (ended (re_pid env) w)"
      using keys_good_ended[OF K(2)] died_releasing(4)
      by (rule_tac keys_good_drop) (auto simp: ended_def key_of_def)
    then show ?thesis unfolding died_releasing(1) using run run_died died_releasing(5) by blast
  next
    case (reclaimed env)
    note run = swept_run(1)[OF assms(2,3) reclaimed(2) K(1,2)]
    show ?thesis unfolding reclaimed(1) by (rule run_good[OF run keys_good_live[OF K(2)] run_holds_last[OF run]])
  next
    case (asked env)
    note run = swept_run(2)[OF assms(2,3) asked(2) K(1,2)]
    show ?thesis unfolding asked(1) by (rule run_good[OF run keys_good_live[OF K(2)] run_holds_last[OF run]])
  next
    case (died_reclaiming env fs)
    note run = swept_run(1)[OF assms(2,3) died_reclaiming(2) K(1,2)]
    show ?thesis unfolding died_reclaiming(1)
      by (rule run_died[OF run keys_good_ended[OF keys_good_live[OF K(2)]] died_reclaiming(3)])
  next
    case (died_asking env fs)
    note run = swept_run(2)[OF assms(2,3) died_asking(2) K(1,2)]
    show ?thesis unfolding died_asking(1)
      by (rule run_died[OF run keys_good_ended[OF keys_good_live[OF K(2)]] died_asking(3)])
  }
qed

lemma world_start_good: "world_good codec path world_start"
  by (rule world_good_intro[of _ _ _ "{}"])
    (auto simp: world_start_def ledger_holds_def load_def load_records_def no_faults_def keys_good_def procs_good_def held_good_def)

lemma reachable_good:
  "(reserve_step codec path)\<^sup>*\<^sup>* world_start w \<Longrightarrow> codec_ok codec \<Longrightarrow> core_apart path \<Longrightarrow> world_good codec path w"
  by (induction rule: rtranclp_induct) (auto intro: world_start_good reserve_step_good)

text \<open>From pairwise disjoint, individually distinct lists to one distinct list.\<close>

lemma distinct_concat_map:
  assumes "distinct (map key xs)" "\<And>x. x \<in> set xs \<Longrightarrow> distinct (f x)"
    "\<And>x y. x \<in> set xs \<Longrightarrow> y \<in> set xs \<Longrightarrow> key x \<noteq> key y \<Longrightarrow> set (f x) \<inter> set (f y) = {}"
  shows "distinct (concat (map f xs))"
  using assms
proof (induction xs)
  case (Cons x xs)
  have "set (f x) \<inter> set (f y) = {}" if "y \<in> set xs" for y
    using Cons.prems(3)[of x y] Cons.prems(1) that by auto
  then show ?case using Cons by auto
qed simp

end
