(* ===== verification/Reserve_Properties.thy ===== *)
theory Reserve_Properties
  imports Reserve_System
begin

text \<open>
  The properties of core reservations, and one concrete machine on which they are used: two cores, a
  file format for two ledgers, and two processes that reserve a core each.
\<close>

section \<open>A concrete machine\<close>

definition demo_sample :: core_sample where
  "demo_sample = \<lparr>sm_mask = Some (\<lambda>c. c < 2), sm_irq_before = [], sm_irq_after = [],
     sm_stat_before = [(0, 10, 20), (1, 10, 20)], sm_stat_after = [(0, 10, 28), (1, 18, 28)],
     sm_elapsed_pos = True, sm_rate = of_nat, sm_share = \<lambda>a b. of_nat a / of_nat b\<rparr>"

definition demo_record :: "nat \<Rightarrow> nat \<Rightarrow> nat \<Rightarrow> unit core_record" where
  "demo_record pid st c = \<lparr>rc_pid = pid, rc_starttime = Some st, rc_cores = [c], rc_tag = ''t'', rc_ts = ()\<rparr>"

definition demo_ledgers :: "(json \<times> string) list" where
  "demo_ledgers =
     [(ledger_value (\<lambda>_. JInt 0) [demo_record 10 5 1], ''one''),
      (ledger_value (\<lambda>_. JInt 0) [demo_record 10 5 1, demo_record 11 6 0], ''two'')]"

definition demo_codec :: "unit ledger_codec" where
  "demo_codec = \<lparr>
     lc_parse = \<lambda>s. (case find (\<lambda>e. snd e = s) demo_ledgers of Some (v, _) \<Rightarrow> Inr v | None \<Rightarrow> Inl ''unknown text''),
     lc_print = \<lambda>v. (case find (\<lambda>e. fst e = v) demo_ledgers of Some (_, s) \<Rightarrow> Inr s | None \<Rightarrow> Inl ''unknown value''),
     lc_ts_of = \<lambda>_. Some (), lc_ts_json = \<lambda>_. JInt 0\<rparr>"

definition demo_env :: "nat \<Rightarrow> (nat \<Rightarrow> nat option) \<Rightarrow> unit reserve_env" where
  "demo_env pid procs = \<lparr>re_codec = demo_codec, re_faults = no_faults, re_lock = None, re_pid = pid,
     re_stat = \<lambda>p. Inr (procs p), re_sample = demo_sample, re_now = (), re_f64_text = \<lambda>_. []\<rparr>"

text \<open>A printer of JSON for texts without characters that need an escape.\<close>

fun demo_print :: "json \<Rightarrow> string" where
  "demo_print JNull = ''null''"
| "demo_print (JBool b) = (if b then ''true'' else ''false'')"
| "demo_print (JInt n) = dec_int n"
| "demo_print (JFloat f) = jf_text f"
| "demo_print (JString s) = ''\"'' @ s @ ''\"''"
| "demo_print (JArray xs) = ''['' @ str_join '','' (map demo_print xs) @ '']''"
| "demo_print (JObject kvs) = ''{'' @ str_join '','' (map (\<lambda>kv. ''\"'' @ fst kv @ ''\":'' @ demo_print (snd kv)) kvs) @ ''}''"

section \<open>Runs of the concrete machine\<close>

lemma demo_codec_ok: "codec_ok demo_codec"
  by (auto simp: codec_ok_def demo_codec_def demo_ledgers_def is_number_def split: if_splits)

lemma filter_below: "n \<le> m \<Longrightarrow> filter (\<lambda>c. c < n) [0 ..< m] = [0 ..< n]"
  by (induction m) (auto simp: le_Suc_eq)

lemma demo_affinity: "current_affinity demo_sample = [0, Suc 0]"
proof -
  have "[0 ..< 2] = [0, Suc 0]" by code_simp
  then show ?thesis by (simp add: current_affinity_def demo_sample_def filter_below)
qed

lemma demo_ranks:
  "idle_frac demo_sample 0 = Some 0" "idle_frac demo_sample (Suc 0) = Some 1" "irq_rate demo_sample = []"
  by (simp_all add: idle_frac_def irq_rate_def demo_sample_def bt_get_def idle_fraction_between_def)

lemma demo_pick:
  "pick_least_busy_free_cores_excluding demo_sample 1 (Some 1) {} None = [Suc 0]"
  "pick_least_busy_free_cores_excluding demo_sample 1 (Some 1) {Suc 0} None = [0]"
  by (simp_all add: pick_least_busy_free_cores_excluding_def demo_affinity bad_seconds_def irq_ok_def core_rank_def
      demo_ranks bt_get_def)

lemmas demo_run = acquire_def acquire_checks_def bad_seconds_def current_starttime_def with_swept_def no_faults_def
  sweep_def acquire_body_def held_set_def demo_pick and_stored_def store_env_def store_def store_value_def Let_def attempts_Cons

lemma demo_first:
  "acquire (demo_env 10 ((\<lambda>_. None)(10 \<mapsto> 5))) 1 ''t'' (Some 1) ''r.json'' {} None (\<lambda>_. None) =
     ([\<lambda>_. None, (\<lambda>_. None)(temp_path ''.core-reservations.'' ''r.json'' 10 0 \<mapsto> []), (\<lambda>_. None)(temp_path ''.core-reservations.'' ''r.json'' 10 0 \<mapsto> ''one''),
       (\<lambda>_. None)(''r.json'' \<mapsto> ''one'')],
      Inr \<lparr>rv_cores = [1], rv_pid = 10, rv_starttime = Some 5, rv_tag = ''t'', rv_ledger = ''r.json'', rv_released = False\<rparr>)"
  by (simp add: demo_run load_def load_records_def demo_env_def demo_codec_def demo_ledgers_def demo_record_def)

lemma demo_load: "load demo_codec no_faults ''r.json'' ((\<lambda>_. None)(''r.json'' \<mapsto> ''one'')) = Inr [demo_record 10 5 (Suc 0)]"
  by (simp add: load_def load_records_def no_faults_def demo_codec_def demo_ledgers_def records_from_value_def ledger_value_def obj_get_def
      record_from_value_def record_to_value_def demo_record_def filter_opt_def value_u64_def is_number_def U32_MAX_def
      starttime_from_value_def core_from_value_def)

lemma demo_second:
  "\<exists>states rv. acquire (demo_env 11 ((\<lambda>_. None)(10 \<mapsto> 5, 11 \<mapsto> 6))) 1 ''t'' (Some 1) ''r.json'' {} None ((\<lambda>_. None)(''r.json'' \<mapsto> ''one'')) =
     (states, Inr rv) \<and> rv_cores rv = [0]"
proof -
  have temp: "temp_path ''.core-reservations.'' ''r.json'' 11 0 \<noteq> ''r.json''"
    using ledger_apart_json[of "''r.json''" "''.core-reservations.''"] by (auto simp: ledger_apart_def suffix_def)
  show ?thesis
    by (simp add: demo_run demo_env_def demo_load[unfolded no_faults_def demo_record_def] holder_alive_def holder_state_def temp)
      (simp add: demo_run demo_codec_def demo_ledgers_def demo_record_def temp ledger_value_def)
qed

section \<open>The properties\<close>

text \<open>
  C8: Take any number of processes that start, die at any point and call the four operations on one
  ledger file, with any faults of the file system and of the process table. In every state that they reach, no core is in
  two reservations that running processes hold, or twice in one; every such reservation has its
  record in the ledger, which can be read; and its process is the one that took it.
\<close>

theorem reservations_disjoint:
  assumes "codec_ok codec" "core_apart path" "(reserve_step codec path)\<^sup>*\<^sup>* world_start w"
  shows "distinct (concat (map rv_cores (wd_held w)))
    \<and> (\<exists>rs. load codec no_faults path (wd_fs w) = Inr rs
        \<and> (\<forall>rv \<in> set (wd_held w). (\<exists>r \<in> set rs. is_record_of rv r)
             \<and> rv_starttime rv \<noteq> None \<and> wd_procs w (rv_pid rv) = rv_starttime rv))"
proof -
  obtain K where K: "ledger_holds codec path (wd_fs w) K" "keys_good K w" "held_good path w"
    using reachable_good[OF assms(3,1,2)] by (rule world_good_elim)
  then obtain rs where rs: "load codec no_faults path (wd_fs w) = Inr rs" "K = hold_of ` set rs"
    by (auto simp: ledger_holds_def)
  have held: "key_of rv \<in> K" "key_live (wd_procs w) (key_of rv)" if "rv \<in> set (wd_held w)" for rv
    using K(2) that by (simp_all add: keys_good_def)
  have rec: "\<exists>r \<in> set rs. is_record_of rv r" if "rv \<in> set (wd_held w)" for rv
    using held(1)[OF that] unfolding rs(2) is_record_of_key by auto
  have own: "distinct (rv_cores rv)" if rv: "rv \<in> set (wd_held w)" for rv
  proof -
    obtain r where "r \<in> set rs" "rc_cores r = rv_cores rv" using rec[OF rv] by (auto simp: is_record_of_def)
    then show ?thesis using load_ok[OF rs(1)] by (metis record_ok_def)
  qed
  have apart: "set (rv_cores x) \<inter> set (rv_cores y) = {}"
    if "x \<in> set (wd_held w)" "y \<in> set (wd_held w)" "key_of x \<noteq> key_of y" for x y
    using keys_good_apart[OF K(2) held(1)[OF that(1)] held(1)[OF that(2)] held(2)[OF that(1)] held(2)[OF that(2)] that(3)]
    by (simp add: key_of_def)
  have "distinct (concat (map rv_cores (wd_held w)))"
    using K(3) own apart by (intro distinct_concat_map[of key_of]) (auto simp: held_good_def)
  moreover have "rv_starttime rv \<noteq> None \<and> wd_procs w (rv_pid rv) = rv_starttime rv" if "rv \<in> set (wd_held w)" for rv
    using held(2)[OF that] by (simp add: key_of_def)
  ultimately show ?thesis using rs(1) rec by blast
qed


text \<open>Two processes take the two cores.\<close>

theorem reservations_disjoint_witness:
  "codec_ok demo_codec \<and> core_apart ''r.json'' \<and> (\<exists>w. (reserve_step demo_codec ''r.json'')\<^sup>*\<^sup>* world_start w
     \<and> map rv_cores (wd_held w) = [[0], [Suc 0]] \<and> distinct (concat (map rv_cores (wd_held w))))"
proof -
  have apart: "core_apart ''r.json''" by (rule ledger_apart_json) (simp add: suffix_def)
  let ?rv = "\<lparr>rv_cores = [1], rv_pid = 10, rv_starttime = Some 5, rv_tag = ''t'', rv_ledger = ''r.json'', rv_released = False\<rparr>"
  let ?procs = "(\<lambda>_. None)(10 \<mapsto> 5) :: nat \<Rightarrow> nat option"
  let ?fs = "(\<lambda>_. None)(''r.json'' \<mapsto> ''one'') :: ledger_fs"
  let ?w1 = "\<lparr>wd_fs = \<lambda>_. None, wd_procs = ?procs, wd_used = {(10, 5)}, wd_held = []\<rparr>"
  let ?w2 = "\<lparr>wd_fs = ?fs, wd_procs = ?procs, wd_used = {(10, 5)}, wd_held = [?rv]\<rparr>"
  let ?w3 = "\<lparr>wd_fs = ?fs, wd_procs = ?procs(11 \<mapsto> 6), wd_used = {(11, 6), (10, 5)}, wd_held = [?rv]\<rparr>"
  have s1: "reserve_step demo_codec ''r.json'' world_start ?w1"
    using reserve_step.started[of world_start 10 5 demo_codec "''r.json''"] by (simp add: world_start_def U32_MAX_def)
  have s2: "reserve_step demo_codec ''r.json'' ?w1 ?w2"
    using reserve_step.acquired[of demo_codec "demo_env 10 ?procs" ?w1] demo_first
    by (fastforce simp: runs_in_def demo_env_def)
  have s3: "reserve_step demo_codec ''r.json'' ?w2 ?w3"
    using reserve_step.started[of ?w2 11 6 demo_codec "''r.json''"] by (simp add: U32_MAX_def)
  obtain states rv where second: "acquire (demo_env 11 (?procs(11 \<mapsto> 6))) 1 ''t'' (Some 1) ''r.json'' {} None ?fs = (states, Inr rv)" "rv_cores rv = [0]"
    using demo_second by blast
  have s4: "reserve_step demo_codec ''r.json'' ?w3 (?w3\<lparr>wd_fs := last states, wd_held := rv # wd_held ?w3\<rparr>)"
    by (rule reserve_step.acquired[of _ "demo_env 11 (?procs(11 \<mapsto> 6))"]) (use second in \<open>auto simp: runs_in_def demo_env_def\<close>)
  let ?w4 = "?w3\<lparr>wd_fs := last states, wd_held := rv # wd_held ?w3\<rparr>"
  have reach: "(reserve_step demo_codec ''r.json'')\<^sup>*\<^sup>* world_start ?w4"
    by (rule converse_rtranclp_into_rtranclp[OF s1 converse_rtranclp_into_rtranclp[OF s2
            converse_rtranclp_into_rtranclp[OF s3 r_into_rtranclp[where r = "reserve_step demo_codec ''r.json''", OF s4]]]])
  have "map rv_cores (wd_held ?w4) = [[0], [Suc 0]]" using second(2) by simp
  moreover have "distinct (concat (map rv_cores (wd_held ?w4)))"
    by (rule conjunct1[OF reservations_disjoint[OF demo_codec_ok apart reach]])
  ultimately show ?thesis by (intro conjI exI[of _ ?w4] apart demo_codec_ok reach)
qed

section \<open>What a reservation gives\<close>

text \<open>The cores that a reservation may take: allowed, free, measured, and within the interrupt limit.\<close>

definition free_cores :: "core_sample \<Rightarrow> nat set \<Rightarrow> f64 option \<Rightarrow> nat list" where
  "free_cores s held irq = filter (\<lambda>c. c \<notin> held \<and> idle_frac s c \<noteq> None \<and> irq_ok s irq c) (current_affinity s)"

lemma free_cores_available: "length (free_cores s held irq) \<le> length (filter (\<lambda>c. c \<notin> held) (current_affinity s))"
proof -
  have "free_cores s held irq = filter (\<lambda>c. idle_frac s c \<noteq> None \<and> irq_ok s irq c) (filter (\<lambda>c. c \<notin> held) (current_affinity s))"
    unfolding free_cores_def filter_filter by (rule filter_cong) auto
  then show ?thesis by (simp only: length_filter_le)
qed

lemma pick_free_cores:
  assumes "acquire_checks env k sample_s irq = None"
  shows "pick_least_busy_free_cores_excluding s k sample_s held irq = take (nat k) (sort_key (core_rank s) (free_cores s held irq))"
proof -
  let ?allowed = "current_affinity s" and ?free = "free_cores s held irq"
  let ?avail = "length (filter (\<lambda>c. c \<notin> held) ?allowed)"
  have checks: "\<not> k < 1" "\<not> bad_seconds sample_s" "\<not> (case irq of Some limit \<Rightarrow> bad_seconds limit \<or> sample_s = Some 0 | None \<Rightarrow> False)"
    using assms by (auto simp: acquire_checks_def split: if_splits option.splits)
  have nofree: "?free = []" if "?allowed = [] \<or> ?avail = 0" using that free_cores_available[of s held irq] by auto
  have norate: "?free = []" if "irq \<noteq> None" "irq_rate s = []"
    using that by (auto simp: free_cores_def irq_ok_def bt_get_def filter_empty_conv split: option.splits)
  have ranked: "filter (irq_ok s irq) (filter (\<lambda>c. c \<notin> held \<and> idle_frac s c \<noteq> None) ?allowed) = ?free"
    unfolding free_cores_def filter_filter by (rule filter_cong) auto
  have "take (min (nat k) ?avail) (sort_key (core_rank s) ?free) = take (nat k) (sort_key (core_rank s) ?free)"
    using free_cores_available[of s held irq] by (simp add: min_def)
  moreover have "pick_least_busy_free_cores_excluding s k sample_s held irq =
      (if ?allowed = [] \<or> ?avail = 0 then [] else if irq \<noteq> None \<and> irq_rate s = [] then []
       else take (min (nat k) ?avail) (sort_key (core_rank s) ?free))"
    unfolding pick_least_busy_free_cores_excluding_def Let_def ranked by (simp only: checks if_False simp_thms)
  ultimately show ?thesis using nofree norate by (simp only: split: if_split) simp
qed

lemma take_sorted_least:
  assumes "sorted (map f xs)" "x \<in> set (take n xs)" "y \<in> set xs - set (take n xs)"
  shows "f x \<le> f y"
proof -
  have "y \<in> set (drop n xs)" using assms(3) by (metis Diff_iff Un_iff append_take_drop_id set_append)
  moreover have "sorted (map f (take n xs) @ map f (drop n xs))" using assms(1) by (simp flip: map_append)
  ultimately show ?thesis using assms(2) by (auto simp: sorted_append)
qed

lemma sweep_answered:
  fixes rs :: "'a core_record list"
  assumes "\<And>pid. \<exists>v. stat pid = Inr v"
  shows "sweep stat rs = Inr (filter (alive_by stat) rs, filter (\<lambda>r. \<not> alive_by stat r) rs)"
proof -
  have "list_all (answered stat) rs"
  proof (unfold list_all_iff, intro ballI)
    fix r :: "'a core_record"
    obtain v where "stat (rc_pid r) = Inr v" using assms by blast
    then show "answered stat r" by (cases v) (auto simp: answered_def holder_alive_def holder_state_def)
  qed
  then obtain live dead where "sweep stat rs = Inr (live, dead)"
    using sweep_loop_total[of "holder_alive stat" rs "([], [])"] by (auto simp: sweep_def answered_def[abs_def])
  then show ?thesis using sweep_exact by blast
qed

text \<open>
  C9: Without faults, and with a process table that answers, \<open>acquire\<close> succeeds exactly when enough cores are
  free: allowed by the affinity mask, not excluded, not held by a live record, measured, and within the
  interrupt limit. It returns that many of them, the best by interrupt rate, then idle share, then
  number, in that order; otherwise it reports how many were free. It never waits and never takes fewer.
\<close>

theorem acquire_exact:
  assumes "re_lock env = None" "re_faults env = no_faults" "acquire_checks env k sample_s irq = None"
    and "load (re_codec env) no_faults path fs = Inr rs"
    and "\<And>pid. \<exists>v. re_stat env pid = Inr v" "re_stat env (re_pid env) = Inr (Some st)"
    and "\<And>recs. \<exists>text. lc_print (re_codec env) (ledger_value (lc_ts_json (re_codec env)) recs) = Inr text"
    and "fs (temp_path ''.core-reservations.'' path (re_pid env) 0) = None"
  shows "let live = filter (alive_by (re_stat env)) rs; held = held_set exclude live; free = free_cores (re_sample env) held irq;
      res = snd (acquire env k tag sample_s path exclude irq fs)
    in if nat k \<le> length free
       then \<exists>rv. res = Inr rv \<and> length (rv_cores rv) = nat k \<and> set (rv_cores rv) \<subseteq> set free
         \<and> sorted (map (core_rank (re_sample env)) (rv_cores rv))
         \<and> (\<forall>c \<in> set (rv_cores rv). \<forall>d \<in> set free - set (rv_cores rv). core_rank (re_sample env) c \<le> core_rank (re_sample env) d)
       else res = Inl (too_few k (length free) live held)"
proof -
  let ?live = "filter (alive_by (re_stat env)) rs"
  let ?held = "held_set exclude ?live"
  let ?free = "free_cores (re_sample env) ?held irq" and ?rank = "core_rank (re_sample env)"
  let ?cores = "take (nat k) (sort_key ?rank ?free)"
  have stored: "snd (store_env env path recs fs) = Inr ()" for recs
    using store_value_no_faults(1)[of "re_codec env" _ _ fs _ path "re_pid env"] assms(2,7,8) by (metis store_env_def store_def)
  have "acquire env k tag sample_s path exclude irq fs = acquire_body env st k tag sample_s path exclude irq fs ?live"
    using assms(1-4,6) by (simp add: acquire_def with_swept_def current_starttime_def sweep_answered[OF assms(5)])
  then have body: "snd (acquire env k tag sample_s path exclude irq fs) =
      (if length ?cores < nat k then Inl (too_few k (length ?cores) ?live ?held)
       else Inr \<lparr>rv_cores = ?cores, rv_pid = re_pid env, rv_starttime = Some st, rv_tag = tag, rv_ledger = path, rv_released = False\<rparr>)"
    by (simp add: acquire_body_def Let_def pick_free_cores[OF assms(3)] and_stored_def stored)
  show ?thesis
  proof (cases "nat k \<le> length ?free")
    case True
    have "set ?cores \<subseteq> set ?free" using set_take_subset[of "nat k" "sort_key ?rank ?free"] by simp
    moreover have "sorted (map ?rank ?cores)"
      using sorted_wrt_take[of "(\<le>)" "map ?rank (sort_key ?rank ?free)" "nat k"] by (simp add: take_map)
    moreover have "?rank c \<le> ?rank d" if "c \<in> set ?cores" "d \<in> set ?free - set ?cores" for c d
      using take_sorted_least[of ?rank "sort_key ?rank ?free" c "nat k" d] that by simp
    ultimately show ?thesis unfolding body using True by (simp add: Let_def)
  next
    case False
    then show ?thesis unfolding body by (simp add: Let_def)
  qed
qed

text \<open>The second process of the concrete machine, with every ledger printed: one core is left, and it gets it.\<close>

definition demo_env_all :: "unit reserve_env" where
  "demo_env_all = (demo_env 11 ((\<lambda>_. None)(10 \<mapsto> 5, 11 \<mapsto> 6)))\<lparr>re_codec := demo_codec\<lparr>lc_print := Inr \<circ> demo_print\<rparr>\<rparr>"

lemma demo_load_all:
  "load (re_codec demo_env_all) no_faults ''r.json'' ((\<lambda>_. None)(''r.json'' \<mapsto> ''one'')) = Inr [demo_record 10 5 (Suc 0)]"
  using demo_load by (cases "lc_parse demo_codec ''one''") (simp_all add: load_def load_records_def no_faults_def demo_env_all_def)

lemma demo_free: "free_cores demo_sample {Suc 0} None = [0]"
  by (simp add: free_cores_def demo_affinity demo_ranks irq_ok_def)

theorem acquire_exact_witness:
  "\<exists>rv. snd (acquire demo_env_all 1 ''t'' (Some 1) ''r.json'' {} None ((\<lambda>_. None)(''r.json'' \<mapsto> ''one''))) = Inr rv \<and> set (rv_cores rv) \<subseteq> {0}"
proof -
  have temp: "temp_path ''.core-reservations.'' ''r.json'' 11 0 \<noteq> ''r.json''"
    using ledger_apart_json[of "''r.json''" "''.core-reservations.''"] by (auto simp: ledger_apart_def suffix_def)
  have env: "re_lock demo_env_all = None" "re_faults demo_env_all = no_faults" "re_pid demo_env_all = 11"
    "re_stat demo_env_all = (\<lambda>p. Inr (((\<lambda>_. None)(10 \<mapsto> 5, 11 \<mapsto> 6)) p))" "re_sample demo_env_all = demo_sample"
    by (simp_all add: demo_env_all_def demo_env_def)
  have checks: "acquire_checks demo_env_all 1 (Some 1) None = None"
    by (simp add: acquire_checks_def bad_seconds_def)
  have held: "held_set {} (filter (alive_by (re_stat demo_env_all)) [demo_record 10 5 (Suc 0)]) = {Suc 0}"
    by (simp add: held_set_def alive_by_def holder_alive_def holder_state_def env demo_record_def)
  have stat: "\<And>pid. \<exists>v. re_stat demo_env_all pid = Inr v" "re_stat demo_env_all (re_pid demo_env_all) = Inr (Some 6)"
    by (auto simp: env)
  have print: "\<And>recs. \<exists>text. lc_print (re_codec demo_env_all) (ledger_value (lc_ts_json (re_codec demo_env_all)) recs) = Inr text"
    by (simp add: demo_env_all_def)
  have missing: "((\<lambda>_. None)(''r.json'' \<mapsto> ''one'')) (temp_path ''.core-reservations.'' ''r.json'' (re_pid demo_env_all) 0) = None"
    using temp by (simp add: env)
  show ?thesis
    using acquire_exact[OF env(1,2) checks demo_load_all stat print missing, where tag = "''t''" and exclude = "{}"]
    unfolding Let_def held env(5) demo_free by fastforce
qed

section \<open>The process table\<close>

text \<open>The files of the process table, as the kernel writes them for the given start times.\<close>

definition kernel_record :: "nat \<Rightarrow> nat \<Rightarrow> string \<Rightarrow> bool" where
  "kernel_record pid s rec \<longleftrightarrow> (\<exists>p comm flags prio others. rec = stat_line p comm flags prio others
     \<and> proc_stat_ok p \<and> ps_pid p = pid \<and> ps_starttime p = s
     \<and> length flags = 8 \<and> length prio = 4 \<and> list_all stat_token (flags @ prio @ others))"

definition kernel_files :: "(nat \<Rightarrow> nat option) \<Rightarrow> (string \<Rightarrow> proc_read) \<Rightarrow> bool" where
  "kernel_files procs files \<longleftrightarrow> (\<forall>pid. case procs pid of
       None \<Rightarrow> files (proc_path pid) = ProcessGone
     | Some s \<Rightarrow> (\<exists>rec. files (proc_path pid) = ReadBytes rec \<and> kernel_record pid s rec))"

lemma kernel_record_parsed: "kernel_record pid s rec \<Longrightarrow> \<exists>p. parse_stat rec (Some pid) = Inr p \<and> ps_starttime p = s"
  unfolding kernel_record_def using stat_line_parsed by (auto simp: list_all_iff)

lemma proc_starttime_truthful:
  assumes "kernel_files procs files"
  shows "proc_starttime files pid = Inr (procs pid)"
proof (cases "procs pid")
  case None
  then have "files (proc_path pid) = ProcessGone" using spec[OF assms[unfolded kernel_files_def], of pid] by simp
  then show ?thesis using None by (simp add: proc_starttime_def read_stat_def)
next
  case (Some s)
  then obtain rec where rec: "files (proc_path pid) = ReadBytes rec" "kernel_record pid s rec"
    using spec[OF assms[unfolded kernel_files_def], of pid] by auto
  obtain p where "parse_stat rec (Some pid) = Inr p" "ps_starttime p = s"
    using kernel_record_parsed[OF rec(2)] by blast
  then show ?thesis using Some rec(1) by (simp add: proc_starttime_def read_stat_def)
qed

text \<open>
  C10: Whether a record's holder is alive is decided by the process that has its number now: it is
  alive exactly when that process has the recorded start time, or when none was recorded. The
  answer does not depend on the names of processes, which can have any bytes, parentheses and
  line feeds included.
\<close>

theorem holder_alive_exact:
  assumes "kernel_files procs files"
  shows "holder_alive (proc_starttime files) r =
    Inr (procs (rc_pid r) \<noteq> None \<and> (rc_starttime r = None \<or> rc_starttime r = procs (rc_pid r)))"
  using proc_starttime_truthful[OF assms] by (auto simp: holder_alive_def holder_state_def split: option.splits)

definition demo_stat :: proc_stat where
  "demo_stat = \<lparr>ps_pid = 42, ps_state = CHR ''S'', ps_ppid = 1, ps_pgrp = 42, ps_utime = 7, ps_stime = 3,
     ps_child_utime = 0, ps_child_stime = 0, ps_starttime = 12345\<rparr>"

definition demo_files :: "string \<Rightarrow> proc_read" where
  "demo_files path =
     (if path = proc_path 42 then ReadBytes (stat_line demo_stat ''a) R 1 (b'' (replicate 8 ''0'') (replicate 4 ''0'') [''9''])
      else ProcessGone)"

lemma dec_nat_inject: "dec_nat m = dec_nat n \<longleftrightarrow> m = n"
  by (metis digits_value_dec_nat)

theorem holder_alive_exact_witness:
  "kernel_files ((\<lambda>_. None)(42 \<mapsto> 12345)) demo_files
   \<and> holder_alive (proc_starttime demo_files) (demo_record 42 12345 0) = Inr True
   \<and> holder_alive (proc_starttime demo_files) (demo_record 42 99 0) = Inr False"
proof -
  have ok: "proc_stat_ok demo_stat"
    by (simp add: demo_stat_def proc_stat_ok_def linux_process_state_def I32_MAX_def is_i64_def i64_min_def i64_max_def)
  have "kernel_record 42 12345 (stat_line demo_stat ''a) R 1 (b'' (replicate 8 ''0'') (replicate 4 ''0'') [''9''])"
    unfolding kernel_record_def using ok
    by (intro exI[of _ demo_stat] exI[of _ "''a) R 1 (b''"] exI[of _ "replicate 8 ''0''"] exI[of _ "replicate 4 ''0''"] exI[of _ "[''9'']"])
      (simp add: demo_stat_def stat_token_def ascii_whitespace_def list_all_iff)
  then have "kernel_files ((\<lambda>_. None)(42 \<mapsto> 12345)) demo_files"
    by (auto simp: kernel_files_def demo_files_def proc_path_def dec_nat_inject)
  then show ?thesis
    using holder_alive_exact[of "(\<lambda>_. None)(42 \<mapsto> 12345)" demo_files "demo_record 42 12345 0"]
      holder_alive_exact[of "(\<lambda>_. None)(42 \<mapsto> 12345)" demo_files "demo_record 42 99 0"]
    by (simp add: demo_record_def)
qed

end
