(* ===== verification/Admit.thy ===== *)
theory Admit
  imports Complex_Main Ledger "HOL-Library.Monad_Syntax"
begin

text \<open>
  Memory admission (\<open>dagrun/src/admission.rs\<close>): the limits of the host, the records of the admission
  ledger, and the operations that request, release and sum reservations of memory. A request sweeps
  dead holders, compares with the budget and the headroom, and records a grant, under one lock. The
  sums are \<open>u64\<close> with the wrap-around of a release build. The conversions to \<open>f64\<close> and its text with one
  decimal are parameters.
\<close>

section \<open>Limits of the host\<close>

definition U64 :: nat where "U64 = 18446744073709551616"

definition MEM_SAFETY_MARGIN_BYTES :: nat where "MEM_SAFETY_MARGIN_BYTES = 8 * 1024 * 1024 * 1024"

definition MAX_BYTES :: nat where "MAX_BYTES = 4611686018427387904"

definition safety_margin_bytes :: "nat \<Rightarrow> nat" where
  "safety_margin_bytes scale = min MEM_SAFETY_MARGIN_BYTES (scale div 8)"

text \<open>\<open>fraction\<close> is the product with 0.85 in \<open>f64\<close>, as a \<open>u64\<close> again.\<close>

definition budget_from_total :: "(nat \<Rightarrow> nat) \<Rightarrow> nat \<Rightarrow> nat" where
  "budget_from_total fraction host_total = fraction host_total - safety_margin_bytes host_total"

definition headroom_from :: "nat \<Rightarrow> nat \<Rightarrow> nat" where
  "headroom_from available scale = available - safety_margin_bytes scale"

text \<open>A line without a colon before the key ends the search.\<close>

fun meminfo_loop :: "string \<Rightarrow> string list \<Rightarrow> nat option" where
  "meminfo_loop key [] = None"
| "meminfo_loop key (line # lines) =
     (case split_once (CHR '':'') line of
        None \<Rightarrow> None
      | Some (name, rest) \<Rightarrow>
          if str_trim name \<noteq> key then meminfo_loop key lines
          else (case split_whitespace rest of
              [] \<Rightarrow> None
            | v # parts \<Rightarrow>
                map_option (\<lambda>n. if to_ascii_lowercase (case parts of [] \<Rightarrow> ''kB'' | u # _ \<Rightarrow> u) = ''kb'' then n * 1024 mod U64 else n)
                  (parse_u64 v)))"

definition meminfo_bytes :: "string option \<Rightarrow> string \<Rightarrow> nat option" where
  "meminfo_bytes meminfo key = Option.bind meminfo (\<lambda>text. meminfo_loop key (str_lines text))"

text \<open>The value of an override, with the warning that is printed for one that is not a number.\<close>

definition env_bytes :: "string \<Rightarrow> string option \<Rightarrow> string list \<times> nat option" where
  "env_bytes nm var =
     (case var of
        None \<Rightarrow> ([], None)
      | Some raw \<Rightarrow>
          if str_trim raw = [] then ([], None)
          else (case parse_u64 (str_trim raw) of
              Some v \<Rightarrow> ([], Some v)
            | None \<Rightarrow> ([''[dagrun] WARNING: '' @ nm @ ''='' @ [CHR 0x27] @ raw @ [CHR 0x27] @ '' is not a non-negative integer number of bytes; ignoring it and measuring the host instead.''], None)))"

definition host_budget_bytes :: "(nat \<Rightarrow> nat) \<Rightarrow> string option \<Rightarrow> string option \<Rightarrow> string list \<times> nat option" where
  "host_budget_bytes fraction var meminfo =
     (case env_bytes ''DAGRUN_ADMISSION_BUDGET_BYTES'' var of
        (out, Some v) \<Rightarrow> (out, Some v)
      | (out, None) \<Rightarrow> (out, map_option (budget_from_total fraction) (meminfo_bytes meminfo ''MemTotal'')))"

text \<open>The headroom reads the file of the host twice: \<open>meminfo\<close> is what the first read gives, \<open>meminfo'\<close> the second.\<close>

definition live_headroom_bytes :: "string option \<Rightarrow> string option \<Rightarrow> string option \<Rightarrow> string list \<times> nat option" where
  "live_headroom_bytes var meminfo meminfo' =
     (case env_bytes ''DAGRUN_ADMISSION_HEADROOM_BYTES'' var of
        (out, Some v) \<Rightarrow> (out, Some v)
      | (out, None) \<Rightarrow>
          (out, map_option (\<lambda>available.
             headroom_from available (case meminfo_bytes meminfo' ''MemTotal'' of Some host_total \<Rightarrow> host_total | None \<Rightarrow> available))
             (meminfo_bytes meminfo ''MemAvailable'')))"

section \<open>Records\<close>

record 't mem_record =
  mr_pid :: nat
  mr_starttime :: "nat option"
  mr_bytes :: nat
  mr_tag :: string
  mr_ts :: 't

definition mem_from_value :: "(json \<Rightarrow> 't option) \<Rightarrow> json \<Rightarrow> 't mem_record option" where
  "mem_from_value ts_of v = do {
     obj \<leftarrow> as_object v;
     pid_value \<leftarrow> obj_get obj ''pid'';
     raw_pid \<leftarrow> value_u64 pid_value;
     pid \<leftarrow> filter_opt (\<lambda>pid. pid \<le> U32_MAX \<and> 0 < pid) (Some raw_pid);
     start_value \<leftarrow> obj_get obj ''starttime'';
     starttime \<leftarrow> starttime_from_value start_value;
     bytes_value \<leftarrow> obj_get obj ''bytes'';
     bytes \<leftarrow> filter_opt (\<lambda>b. 1 \<le> b \<and> b \<le> MAX_BYTES) (value_u64 bytes_value);
     tag_value \<leftarrow> obj_get obj ''tag'';
     tag \<leftarrow> as_str tag_value;
     ts_value \<leftarrow> filter_opt is_number (obj_get obj ''ts'');
     ts \<leftarrow> ts_of ts_value;
     Some \<lparr>mr_pid = pid, mr_starttime = starttime, mr_bytes = bytes, mr_tag = tag, mr_ts = ts\<rparr>
   }"

definition mem_to_value :: "('t \<Rightarrow> json) \<Rightarrow> 't mem_record \<Rightarrow> json" where
  "mem_to_value ts_json r = JObject
     [(''bytes'', JInt (int (mr_bytes r))),
      (''pid'', JInt (int (mr_pid r))),
      (''starttime'', case mr_starttime r of Some t \<Rightarrow> JInt (int t) | None \<Rightarrow> JNull),
      (''tag'', JString (mr_tag r)),
      (''ts'', ts_json (mr_ts r))]"

definition mem_alive :: "proc_table \<Rightarrow> 't mem_record \<Rightarrow> string + bool" where
  "mem_alive stat r = holder_state stat (mr_pid r) (mr_starttime r)"

definition mem_sweep :: "proc_table \<Rightarrow> 't mem_record list \<Rightarrow> string + 't mem_record list \<times> 't mem_record list" where
  "mem_sweep stat records = sweep_loop (mem_alive stat) records ([], [])"

definition mem_load :: "'t ledger_codec \<Rightarrow> ledger_faults \<Rightarrow> string \<Rightarrow> ledger_fs \<Rightarrow> string + 't mem_record list" where
  "mem_load codec faults path fs =
     load_records ''admission'' ''admissions'' (mem_from_value (lc_ts_of codec)) codec faults path fs"

definition mem_value :: "('t \<Rightarrow> json) \<Rightarrow> 't mem_record list \<Rightarrow> json" where
  "mem_value ts_json records = JObject [(''admissions'', JArray (map (mem_to_value ts_json) records))]"

definition mem_store ::
  "'t ledger_codec \<Rightarrow> ledger_faults \<Rightarrow> nat \<Rightarrow> string \<Rightarrow> 't mem_record list \<Rightarrow> ledger_fs \<Rightarrow> unit ledger_run" where
  "mem_store codec faults pid path records fs =
     store_value (ledger_texts ''admission'') ''.memory-admissions.'' codec faults pid path (mem_value (lc_ts_json codec) records) fs"

definition mem_ledger_path :: "path_env \<Rightarrow> string" where
  "mem_ledger_path env = ledger_path_for ''memory-admissions.json'' env"

section \<open>The decision\<close>

definition sum_u64 :: "nat list \<Rightarrow> nat" where
  "sum_u64 xs = sum_list xs mod U64"

fun release_count :: "nat \<Rightarrow> nat \<Rightarrow> nat \<Rightarrow> nat list \<Rightarrow> nat" where
  "release_count need freed index [] = index"
| "release_count need freed index (b # sizes) =
     (let freed' = min (freed + b) (U64 - 1)
      in if need \<le> freed' then index + 1 else release_count need freed' (index + 1) sizes)"

definition holders_that_must_release :: "'t mem_record list \<Rightarrow> nat \<Rightarrow> nat" where
  "holders_that_must_release live need =
     (if need = 0 then 0 else release_count need 0 0 (rev (sort (map mr_bytes live))))"

text \<open>The number as an \<open>f64\<close>, and the text of an \<open>f64\<close> with one decimal.\<close>

record byte_text =
  bx_f64 :: "nat \<Rightarrow> rat"
  bx_text :: "rat \<Rightarrow> string"

fun fmt_units :: "byte_text \<Rightarrow> nat \<Rightarrow> rat \<Rightarrow> string list \<Rightarrow> string" where
  "fmt_units bx n v [] = dec_nat n @ '' B''"
| "fmt_units bx n v (unit # units) =
     (if v < 1024 \<or> unit = ''TiB''
      then (if unit = ''B'' then dec_nat (nat \<lfloor>v\<rfloor>) @ '' B'' else bx_text bx v @ '' '' @ unit)
      else fmt_units bx n (v / 1024) units)"

definition fmt_bytes :: "byte_text \<Rightarrow> nat option \<Rightarrow> string" where
  "fmt_bytes bx n =
     (case n of None \<Rightarrow> ''unknown'' | Some n \<Rightarrow> fmt_units bx n (bx_f64 bx n) [''B'', ''KiB'', ''MiB'', ''GiB'', ''TiB''])"

datatype admit_verdict = Grant | Queue | Refuse

fun admit_verdict_str :: "admit_verdict \<Rightarrow> string" where
  "admit_verdict_str Grant = ''grant''"
| "admit_verdict_str Queue = ''queue''"
| "admit_verdict_str Refuse = ''refuse''"

record admit_decision =
  ad_verdict :: admit_verdict
  ad_reason :: string
  ad_requested :: nat
  ad_budget :: "nat option"
  ad_headroom :: "nat option"
  ad_reserved :: nat
  ad_holders_ahead :: nat
  ad_largest :: "nat option"

definition admit_decide ::
  "byte_text \<Rightarrow> nat \<Rightarrow> 't mem_record list \<Rightarrow> nat option \<Rightarrow> nat option \<Rightarrow> admit_decision" where
  "admit_decide bx requested live budget headroom =
     (let reserved = sum_u64 (map mr_bytes live);
          fmt = fmt_bytes bx;
          answer = (\<lambda>verdict reason ahead largest. \<lparr>ad_verdict = verdict, ad_reason = reason, ad_requested = requested,
            ad_budget = budget, ad_headroom = headroom, ad_reserved = reserved, ad_holders_ahead = ahead, ad_largest = largest\<rparr>)
      in if (case budget of Some b \<Rightarrow> b < requested | None \<Rightarrow> False)
         then answer Refuse
           (''REFUSED: '' @ fmt (Some requested) @ '' exceeds the whole-host budget of '' @ fmt budget
            @ '', so waiting can never help. Ask for at most '' @ fmt budget @ '' ('' @ dec_nat (the budget)
            @ '' bytes), or raise the budget with DAGRUN_ADMISSION_BUDGET_BYTES.'') 0 budget
         else if (case budget of Some b \<Rightarrow> b < min (reserved + requested) (U64 - 1) | None \<Rightarrow> False)
         then (let need = nat ((int reserved + int requested - int (the budget)) mod int U64);
                   ahead = holders_that_must_release live need
               in answer Queue
                 (''QUEUED on OTHER RUNS: '' @ fmt (Some requested) @ '' would fit on a quiet host, but '' @ dec_nat (length live)
                  @ '' live reservation(s) already hold '' @ fmt (Some reserved) @ '' of the '' @ fmt budget
                  @ '' budget. Waiting on '' @ dec_nat ahead @ '' holder(s) to finish.'') ahead budget)
         else if (case headroom of Some h \<Rightarrow> h < requested | None \<Rightarrow> False)
         then answer Queue
           (''QUEUED on HOST MEMORY held outside this tool: '' @ fmt (Some requested) @ '' is within the '' @ fmt budget
            @ '' budget, but only '' @ fmt headroom
            @ '' is actually available right now. The ledger cannot see a non-runner tenant; this reading can.'') 0 budget
         else answer Grant
           (''GRANTED '' @ fmt (Some requested) @ '' (host budget '' @ fmt budget @ '', '' @ fmt (Some reserved)
            @ '' already reserved by '' @ dec_nat (length live) @ '' other run(s))'') 0 budget)"

section \<open>The operations\<close>

record mem_reservation =
  mv_bytes :: nat
  mv_pid :: nat
  mv_starttime :: "nat option"
  mv_tag :: string
  mv_ledger :: string
  mv_released :: bool

text \<open>A request may replace the ledger twice, after the sweep and for the grant; each time with its own faults.\<close>

record 't admit_env =
  ae_codec :: "'t ledger_codec"
  ae_read_faults :: ledger_faults
  ae_sweep_faults :: ledger_faults
  ae_grant_faults :: ledger_faults
  ae_lock :: "string option"
  ae_pid :: nat
  ae_stat :: proc_table
  ae_now :: 't
  ae_text :: byte_text

definition drop_dead :: "'t admit_env \<Rightarrow> string \<Rightarrow> ledger_fs \<Rightarrow> 't mem_record list \<Rightarrow> 't mem_record list \<Rightarrow> unit ledger_run" where
  "drop_dead env path fs live dead =
     (if dead \<noteq> [] then mem_store (ae_codec env) (ae_sweep_faults env) (ae_pid env) path live fs else ([fs], Inr ()))"

text \<open>The lock, the sweep, and the replacement when something was dead; then the rest with the state of the files.\<close>

definition admit_swept ::
  "'t admit_env \<Rightarrow> string \<Rightarrow> ledger_fs \<Rightarrow> ('t mem_record list \<Rightarrow> ledger_fs list \<Rightarrow> 'a ledger_run) \<Rightarrow> 'a ledger_run" where
  "admit_swept env path fs body =
     (case ae_lock env of
        Some e \<Rightarrow> ([fs], Inl e)
      | None \<Rightarrow>
         (case mem_load (ae_codec env) (ae_read_faults env) path fs of
            Inl e \<Rightarrow> ([fs], Inl e)
          | Inr records \<Rightarrow>
             (case mem_sweep (ae_stat env) records of
                Inl e \<Rightarrow> ([fs], Inl e)
              | Inr (live, dead) \<Rightarrow>
                 (case drop_dead env path fs live dead of
                    (states, Inl e) \<Rightarrow> (states, Inl e)
                  | (states, Inr _) \<Rightarrow> body live states))))"

definition request_with_limits ::
  "'t admit_env \<Rightarrow> nat \<Rightarrow> string \<Rightarrow> string \<Rightarrow> nat option \<Rightarrow> nat option \<Rightarrow> ledger_fs \<Rightarrow>
     (admit_decision \<times> mem_reservation option) ledger_run" where
  "request_with_limits env requested tag path budget headroom fs =
     (if requested < 1 then ([fs], Inl ''requested_bytes must be >= 1'')
      else case current_starttime (ae_stat env) (ae_pid env) of
          Inl e \<Rightarrow> ([fs], Inl e)
        | Inr starttime \<Rightarrow>
            admit_swept env path fs (\<lambda>live states.
              let decision = admit_decide (ae_text env) requested live budget headroom
              in if ad_verdict decision \<noteq> Grant then (states, Inr (decision, None))
                 else
                   let new = \<lparr>mr_pid = ae_pid env, mr_starttime = Some starttime, mr_bytes = requested, mr_tag = tag, mr_ts = ae_now env\<rparr>;
                       run = mem_store (ae_codec env) (ae_grant_faults env) (ae_pid env) path (live @ [new]) (last states)
                   in (states @ fst run,
                       case snd run of
                         Inl e \<Rightarrow> Inl e
                       | Inr _ \<Rightarrow> Inr (decision, Some \<lparr>mv_bytes = requested, mv_pid = ae_pid env, mv_starttime = Some starttime,
                           mv_tag = tag, mv_ledger = path, mv_released = False\<rparr>))))"

definition mem_is_record_of :: "mem_reservation \<Rightarrow> 't mem_record \<Rightarrow> bool" where
  "mem_is_record_of mv r \<longleftrightarrow> mr_pid r = mv_pid mv \<and> mr_starttime r = mv_starttime mv \<and> mr_tag r = mv_tag mv \<and> mr_bytes r = mv_bytes mv"

text \<open>The reservation is marked as released before anything can fail.\<close>

definition mem_release :: "'t admit_env \<Rightarrow> mem_reservation \<Rightarrow> ledger_fs \<Rightarrow> unit ledger_run \<times> mem_reservation" where
  "mem_release env mv fs =
     (if mv_released mv then (([fs], Inr ()), mv)
      else (case ae_lock env of
          Some e \<Rightarrow> ([fs], Inl e)
        | None \<Rightarrow>
           (case mem_load (ae_codec env) (ae_read_faults env) (mv_ledger mv) fs of
              Inl e \<Rightarrow> ([fs], Inl e)
            | Inr records \<Rightarrow>
                mem_store (ae_codec env) (ae_grant_faults env) (ae_pid env) (mv_ledger mv)
                  (filter (\<lambda>r. \<not> mem_is_record_of mv r) records) fs),
        mv\<lparr>mv_released := True\<rparr>))"

definition held_by_this_process :: "'t admit_env \<Rightarrow> string \<Rightarrow> ledger_fs \<Rightarrow> string + nat" where
  "held_by_this_process env path fs =
     (case current_starttime (ae_stat env) (ae_pid env) of
        Inl e \<Rightarrow> Inl e
      | Inr starttime \<Rightarrow>
         (case ae_lock env of
            Some e \<Rightarrow> Inl e
          | None \<Rightarrow>
             (case mem_load (ae_codec env) (ae_read_faults env) path fs of
                Inl e \<Rightarrow> Inl e
              | Inr records \<Rightarrow>
                  Inr (sum_u64 (map mr_bytes (filter (\<lambda>r. mr_pid r = ae_pid env \<and> mr_starttime r = Some starttime) records))))))"

definition held_bytes :: "'t admit_env \<Rightarrow> string \<Rightarrow> ledger_fs \<Rightarrow> nat ledger_run" where
  "held_bytes env path fs = admit_swept env path fs (\<lambda>live states. (states, Inr (sum_u64 (map mr_bytes live))))"

text \<open>
  The waiting loop of \<open>admit\<close>, over what its requests answer one after the other and the time that was
  spent when each had answered: the lines it prints and what it returns, or nothing while it waits.
\<close>

fun admit_loop ::
  "bool \<Rightarrow> nat \<Rightarrow> string option \<Rightarrow> ((string + admit_decision \<times> mem_reservation option) \<times> nat) list \<Rightarrow>
     (string list \<times> (string + admit_decision \<times> mem_reservation option)) option" where
  "admit_loop announce budget last_reason [] = None"
| "admit_loop announce budget last_reason ((answer, spent) # rounds) =
     (case answer of
        Inl e \<Rightarrow> Some ([], Inl e)
      | Inr (decision, reservation) \<Rightarrow>
          (let say = announce \<and> last_reason \<noteq> Some (ad_reason decision);
               out = (if say then [''[admission] '' @ ad_reason decision] else [])
           in if ad_verdict decision \<noteq> Queue then Some (out, Inr (decision, reservation))
              else if budget \<le> spent then Some (out, Inr (decision, None))
              else map_option (\<lambda>(more_out, res). (out @ more_out, res))
                (admit_loop announce budget (if say then Some (ad_reason decision) else last_reason) rounds)))"

end
