(* ===== verification/Admit_Properties.thy ===== *)
theory Admit_Properties
  imports Admit "HOL-Library.Multiset"
begin

text \<open>
  The properties of memory admission: the exact decision, the number of holders a queued request
  waits for, that grants stay within the budget whatever fails, and two ways in which a ledger goes
  wrong.
\<close>

section \<open>Records\<close>

definition mem_record_ok :: "'t mem_record \<Rightarrow> bool" where
  "mem_record_ok r \<longleftrightarrow> 0 < mr_pid r \<and> mr_pid r \<le> U32_MAX
     \<and> (\<forall>t \<in> set_option (mr_starttime r). 0 < t \<and> t < 18446744073709551616)
     \<and> 1 \<le> mr_bytes r \<and> mr_bytes r \<le> MAX_BYTES"

type_synonym mem_key = "nat \<times> nat option \<times> nat \<times> string"

definition mem_key :: "'t mem_record \<Rightarrow> mem_key" where
  "mem_key r = (mr_pid r, mr_starttime r, mr_bytes r, mr_tag r)"

lemma mem_from_value_ok: "mem_from_value ts_of v = Some r \<Longrightarrow> mem_record_ok r"
  by (auto simp: mem_from_value_def mem_record_ok_def filter_opt_Some bind_eq_Some_conv dest: starttime_ok)

lemma mem_roundtrip:
  assumes "mem_record_ok r" "is_number (ts_json (mr_ts r))" "ts_of (ts_json (mr_ts r)) = Some t"
  shows "mem_from_value ts_of (mem_to_value ts_json r) = Some (r\<lparr>mr_ts := t\<rparr>)"
proof -
  have "value_u64 (JInt (int (mr_pid r))) = Some (mr_pid r)" "value_u64 (JInt (int (mr_bytes r))) = Some (mr_bytes r)"
    using assms(1) by (simp_all add: value_u64_Some mem_record_ok_def U32_MAX_def MAX_BYTES_def)
  then show ?thesis
    using assms starttime_written[of "mr_starttime r"]
    by (simp add: mem_from_value_def mem_to_value_def obj_get_def filter_opt_def mem_record_ok_def)
qed

abbreviation mem_apart :: "string \<Rightarrow> bool" where
  "mem_apart path \<equiv> ledger_apart ''.memory-admissions.'' path"

lemma mem_load_ok: "mem_load codec faults path fs = Inr rs \<Longrightarrow> r \<in> set rs \<Longrightarrow> mem_record_ok r"
  unfolding mem_load_def by (drule load_records_of, assumption) (auto intro: mem_from_value_ok)

lemma mem_load_no_faults: "mem_load codec faults path fs = Inr rs \<Longrightarrow> mem_load codec no_faults path fs = Inr rs"
  unfolding mem_load_def by (rule load_records_no_faults)

lemma mem_load_cong: "fs' path = fs path \<Longrightarrow> mem_load codec faults path fs' = mem_load codec faults path fs"
  unfolding mem_load_def by (rule load_records_cong)

text \<open>The keys that the ledger file holds, in order, read without a fault.\<close>

definition mem_holds :: "'t ledger_codec \<Rightarrow> string \<Rightarrow> ledger_fs \<Rightarrow> mem_key list \<Rightarrow> bool" where
  "mem_holds codec path fs ks \<longleftrightarrow> (\<exists>rs. mem_load codec no_faults path fs = Inr rs \<and> map mem_key rs = ks)"

lemma mem_holds_cong: "fs' path = fs path \<Longrightarrow> mem_holds codec path fs' ks = mem_holds codec path fs ks"
  unfolding mem_holds_def by (drule mem_load_cong[where codec = codec and faults = no_faults]) simp

lemma mem_holds_printed:
  assumes "codec_ok codec" "\<And>r. r \<in> set recs \<Longrightarrow> mem_record_ok r"
    "lc_print codec (mem_value (lc_ts_json codec) recs) = Inr text" "fs path = Some text"
  shows "mem_holds codec path fs (map mem_key recs)"
proof -
  let ?read = "\<lambda>r. r\<lparr>mr_ts := the (lc_ts_of codec (lc_ts_json codec (mr_ts r)))\<rparr>"
  have "mem_load codec no_faults path fs = Inr (map ?read recs)"
    unfolding mem_load_def
    by (rule load_records_printed[where to_value = "mem_to_value (lc_ts_json codec)"])
      (use assms in \<open>auto simp: codec_ok_def mem_roundtrip mem_value_def\<close>)
  then show ?thesis unfolding mem_holds_def by (intro exI[of _ "map ?read recs"]) (simp add: mem_key_def)
qed

lemma mem_store_states:
  assumes "codec_ok codec" "mem_apart path" "\<And>r. r \<in> set recs \<Longrightarrow> mem_record_ok r"
    and "mem_store codec faults pid path recs fs = (states, res)"
  shows "states \<noteq> []"
    and "fs' \<in> set states \<Longrightarrow> fs' path = fs path \<or> mem_holds codec path fs' (map mem_key recs)"
    and "res = Inr () \<Longrightarrow> mem_holds codec path (last states) (map mem_key recs)"
    and "res = Inl e \<Longrightarrow> last states path = fs path"
proof -
  note run = store_value_states[OF assms(4)[unfolded mem_store_def] assms(2)]
  note printed = mem_holds_printed[OF assms(1,3)]
  show "states \<noteq> []" by (rule run(1))
  show "fs' \<in> set states \<Longrightarrow> fs' path = fs path \<or> mem_holds codec path fs' (map mem_key recs)" using run(2) printed by blast
  show "res = Inr () \<Longrightarrow> mem_holds codec path (last states) (map mem_key recs)" using run(3) printed by blast
  show "res = Inl e \<Longrightarrow> last states path = fs path" using run(4) by blast
qed

section \<open>Live records\<close>

fun key_alive :: "proc_table \<Rightarrow> mem_key \<Rightarrow> bool" where
  "key_alive stat (pid, starttime, bytes, tag) \<longleftrightarrow> holder_state stat pid starttime = Inr True"

fun key_bytes :: "mem_key \<Rightarrow> nat" where
  "key_bytes (pid, starttime, bytes, tag) = bytes"

definition live_bytes :: "proc_table \<Rightarrow> mem_key list \<Rightarrow> nat" where
  "live_bytes stat ks = sum_list (map key_bytes (filter (key_alive stat) ks))"

lemma key_simps [simp]: "key_bytes (mem_key r) = mr_bytes r" "key_alive stat (mem_key r) \<longleftrightarrow> mem_alive stat r = Inr True"
  by (simp_all add: mem_key_def mem_alive_def)

lemma mem_sweep_exact:
  "mem_sweep stat rs = Inr (live, dead) \<Longrightarrow> live = filter (\<lambda>r. mem_alive stat r = Inr True) rs"
  using sweep_loop_exact[of "mem_alive stat" rs "([], [])" "(live, dead)"] by (simp add: mem_sweep_def)

lemma live_bytes_map: "live_bytes stat (map mem_key rs) = sum_list (map mr_bytes (filter (\<lambda>r. mem_alive stat r = Inr True) rs))"
  by (simp add: live_bytes_def filter_map comp_def)

section \<open>The decision\<close>

definition admit_spec :: "nat \<Rightarrow> nat \<Rightarrow> nat option \<Rightarrow> nat option \<Rightarrow> admit_verdict" where
  "admit_spec requested reserved budget headroom =
     (if \<exists>b. budget = Some b \<and> b < requested then Refuse
      else if (\<exists>b. budget = Some b \<and> b < reserved + requested) \<or> (\<exists>h. headroom = Some h \<and> h < requested) then Queue
      else Grant)"

lemma admit_decide_verdict:
  assumes "sum_list (map mr_bytes live) < U64" "\<And>b. budget = Some b \<Longrightarrow> b < U64 - 1"
  shows "ad_verdict (admit_decide bx requested live budget headroom) = admit_spec requested (sum_list (map mr_bytes live)) budget headroom"
proof (cases budget)
  case None
  then show ?thesis by (cases headroom) (auto simp: admit_decide_def admit_spec_def Let_def)
next
  case (Some b)
  then have "b < min (sum_list (map mr_bytes live) + requested) (U64 - 1) \<longleftrightarrow> b < sum_list (map mr_bytes live) + requested"
    using assms(2)[of b] by auto
  then show ?thesis using Some assms(1) by (cases headroom) (auto simp: admit_decide_def admit_spec_def Let_def sum_u64_def)
qed

lemma admit_spec_grant:
  "admit_spec requested reserved (Some b) headroom = Grant \<Longrightarrow> reserved + requested \<le> b"
  by (auto simp: admit_spec_def split: if_splits)

section \<open>The states of an operation\<close>

lemma drop_dead_states:
  assumes "codec_ok (ae_codec env)" "mem_apart path" "mem_holds (ae_codec env) path fs ks" "map mem_key rs = ks"
    and "mem_sweep (ae_stat env) rs = Inr (live, dead)" "\<And>r. r \<in> set live \<Longrightarrow> mem_record_ok r"
    and run: "drop_dead env path fs live dead = (st, r)"
  shows "st \<noteq> []"
    and "fs' \<in> set st \<Longrightarrow> mem_holds (ae_codec env) path fs' ks \<or> mem_holds (ae_codec env) path fs' (map mem_key live)"
    and "r = Inr () \<Longrightarrow> mem_holds (ae_codec env) path (last st) (map mem_key live)"
proof -
  have "st \<noteq> [] \<and> (\<forall>fs' \<in> set st. mem_holds (ae_codec env) path fs' ks \<or> mem_holds (ae_codec env) path fs' (map mem_key live))
      \<and> (r = Inr () \<longrightarrow> mem_holds (ae_codec env) path (last st) (map mem_key live))"
  proof (cases "dead = []")
    case True
    have "live = rs" using sweep_loop_exact[OF assms(5)[unfolded mem_sweep_def]] True
      by (auto simp: empty_filter_conv filter_id_conv)
    then show ?thesis using True run assms(3,4) by (auto simp: drop_dead_def)
  next
    case False
    then have "mem_store (ae_codec env) (ae_sweep_faults env) (ae_pid env) path live fs = (st, r)"
      using run by (simp add: drop_dead_def)
    note states = mem_store_states[OF assms(1,2,6) this]
    have "mem_holds (ae_codec env) path fs' ks" if "fs' path = fs path" for fs'
      using assms(3) that mem_holds_cong[of fs' path fs "ae_codec env" ks] by simp
    then show ?thesis using states by blast
  qed
  then show "st \<noteq> []"
    and "fs' \<in> set st \<Longrightarrow> mem_holds (ae_codec env) path fs' ks \<or> mem_holds (ae_codec env) path fs' (map mem_key live)"
    and "r = Inr () \<Longrightarrow> mem_holds (ae_codec env) path (last st) (map mem_key live)" by blast+
qed

lemma admit_swept_states:
  assumes "codec_ok (ae_codec env)" "mem_apart path" "mem_holds (ae_codec env) path fs ks"
    and "admit_swept env path fs body = (states, res)"
  obtains (stopped) e where "res = Inl e"
      "\<And>fs'. fs' \<in> set states \<Longrightarrow> mem_holds (ae_codec env) path fs' ks \<or> mem_holds (ae_codec env) path fs' (filter (key_alive (ae_stat env)) ks)"
  | (swept) live st where "body live st = (states, res)" "st \<noteq> []"
      "map mem_key live = filter (key_alive (ae_stat env)) ks" "\<And>r. r \<in> set live \<Longrightarrow> mem_record_ok r"
      "\<And>fs'. fs' \<in> set st \<Longrightarrow> mem_holds (ae_codec env) path fs' ks \<or> mem_holds (ae_codec env) path fs' (filter (key_alive (ae_stat env)) ks)"
      "mem_holds (ae_codec env) path (last st) (filter (key_alive (ae_stat env)) ks)"
proof -
  let ?holds = "mem_holds (ae_codec env) path"
  let ?live = "filter (key_alive (ae_stat env)) ks"
  consider (early) e where "states = [fs]" "res = Inl e"
    | (late) rs live dead st r where "mem_load (ae_codec env) (ae_read_faults env) path fs = Inr rs"
      "mem_sweep (ae_stat env) rs = Inr (live, dead)" "drop_dead env path fs live dead = (st, r)"
      "(case r of Inl e \<Rightarrow> (st, Inl e) | Inr _ \<Rightarrow> body live st) = (states, res)"
    using assms(4) unfolding admit_swept_def by (auto split: option.splits sum.splits prod.splits)
  then show thesis
  proof cases
    case early
    then show thesis using stopped assms(3) by auto
  next
    case (late rs live dead st r)
    have ks: "map mem_key rs = ks"
      using assms(3) mem_load_no_faults[OF late(1)] by (auto simp: mem_holds_def)
    have live: "map mem_key live = ?live"
      unfolding ks[symmetric] mem_sweep_exact[OF late(2)] by (simp add: filter_map comp_def)
    have ok: "mem_record_ok x" if "x \<in> set live" for x
      using that mem_load_ok[OF late(1)] mem_sweep_exact[OF late(2)] by simp
    have st: "st \<noteq> []" "\<And>fs'. fs' \<in> set st \<Longrightarrow> ?holds fs' ks \<or> ?holds fs' ?live" "r = Inr () \<Longrightarrow> ?holds (last st) ?live"
      using drop_dead_states[OF assms(1-3) ks late(2) ok late(3)] unfolding live by blast+
    show thesis
    proof (cases r)
      case (Inl e)
      then show thesis using late(4) st(2) by (intro stopped[of e]) auto
    next
      case (Inr u)
      then show thesis using late(4) st live ok by (intro swept[of live st]) auto
    qed
  qed
qed

text \<open>The body of a request, from a state that holds exactly the live keys.\<close>

lemma live_bytes_filter [simp]: "live_bytes stat (filter (key_alive stat) ks) = live_bytes stat ks"
  by (simp add: live_bytes_def)

lemma live_bytes_snoc: "live_bytes stat (ks @ [k]) \<le> live_bytes stat ks + key_bytes k"
  by (simp add: live_bytes_def)

lemma live_bytes_swept: "map mem_key live = filter (key_alive stat) ks \<Longrightarrow> sum_list (map mr_bytes live) = live_bytes stat ks"
proof -
  assume eq: "map mem_key live = filter (key_alive stat) ks"
  have "map mr_bytes live = map key_bytes (map mem_key live)" by simp
  then show ?thesis unfolding live_bytes_def eq[symmetric] by (simp add: comp_def)
qed

text \<open>
  C11: A request never takes more than the budget it is given, whatever fails. It starts with any readable
  ledger, and asks for at most \<open>MAX_BYTES\<close> or is given a budget of at most that. In every state of the files
  that it goes through, with any faults, the ledger can be read; and when the budget is known, the live
  reservations in it are within the budget, or at most what they were before when they already
  were above it (the budget is determined anew for every call). So a process that dies or an error at any
  point leaves a good ledger for the next request.
\<close>

theorem admission_within_budget:
  assumes "codec_ok (ae_codec env)" "mem_apart path" "mem_holds (ae_codec env) path fs ks"
    and "live_bytes (ae_stat env) ks < U64" "\<And>b. budget = Some b \<Longrightarrow> b < U64 - 1"
    and "requested \<le> MAX_BYTES \<or> (\<exists>b. budget = Some b \<and> b \<le> MAX_BYTES)" "0 < ae_pid env" "ae_pid env \<le> U32_MAX"
    and "\<And>st. ae_stat env (ae_pid env) = Inr (Some st) \<Longrightarrow> 0 < st \<and> st < 18446744073709551616"
    and fs': "fs' \<in> set (fst (request_with_limits env requested tag path budget headroom fs))"
  shows "\<exists>ks'. mem_holds (ae_codec env) path fs' ks'
    \<and> (\<forall>b. budget = Some b \<longrightarrow> live_bytes (ae_stat env) ks' \<le> max b (live_bytes (ae_stat env) ks))"
proof -
  let ?stat = "ae_stat env" and ?holds = "mem_holds (ae_codec env) path"
  let ?good = "\<lambda>fs'. \<exists>ks'. ?holds fs' ks' \<and> (\<forall>b. budget = Some b \<longrightarrow> live_bytes ?stat ks' \<le> max b (live_bytes ?stat ks))"
  have good: "?good x" if "?holds x ks \<or> ?holds x (filter (key_alive ?stat) ks)" for x
    using that by (auto intro: exI[of _ "filter (key_alive ?stat) ks"])
  show ?thesis
  proof (cases "requested < 1 \<or> (\<exists>e. current_starttime ?stat (ae_pid env) = Inl e)")
    case True
    then have "fst (request_with_limits env requested tag path budget headroom fs) = [fs]"
      by (cases "requested < 1") (auto simp: request_with_limits_def)
    then show ?thesis using fs' good assms(3) by simp
  next
    case False
    then obtain st where st: "current_starttime ?stat (ae_pid env) = Inr st" "1 \<le> requested"
      by (cases "current_starttime ?stat (ae_pid env)") auto
    have own: "?stat (ae_pid env) = Inr (Some st)" using st(1) by (simp add: current_starttime_def split: sum.splits option.splits)
    let ?new = "\<lparr>mr_pid = ae_pid env, mr_starttime = Some st, mr_bytes = requested, mr_tag = tag, mr_ts = ae_now env\<rparr>"
    obtain states res where run: "request_with_limits env requested tag path budget headroom fs = (states, res)" by fastforce
    note swept = run[unfolded request_with_limits_def st(1) sum.case if_not_P[OF leD[OF st(2)]]]
    from assms(1-3) swept show ?thesis
    proof (cases rule: admit_swept_states)
      case (stopped e)
      then show ?thesis using fs' run good by simp
    next
      case (swept live pre)
      let ?d = "admit_decide (ae_text env) requested live budget headroom"
      have sum: "sum_list (map mr_bytes live) = live_bytes ?stat ks" by (rule live_bytes_swept[OF swept(3)])
      show ?thesis
      proof (cases "ad_verdict ?d = Grant")
        case False
        then have "states = pre" using swept(1) by (simp add: Let_def)
        then show ?thesis using fs' run swept(5) good by simp
      next
        case True
        then have grant: "admit_spec requested (live_bytes ?stat ks) budget headroom = Grant"
          using admit_decide_verdict[of live budget "ae_text env" requested headroom] sum assms(4,5) by simp
        have fits: "live_bytes ?stat ks + requested \<le> b" if "budget = Some b" for b
          using admit_spec_grant[of requested _ b headroom] grant that by simp
        then have small: "requested \<le> MAX_BYTES" using assms(6) by force
        have ok: "mem_record_ok r" if "r \<in> set (live @ [?new])" for r
          using that swept(4) st(2) small assms(7,8) assms(9)[OF own] by (auto simp: mem_record_ok_def)
        let ?run = "mem_store (ae_codec env) (ae_grant_faults env) (ae_pid env) path (live @ [?new]) (last pre)"
        have "states = pre @ fst ?run" using swept(1) True by (simp add: Let_def)
        moreover have "?good x" if "x \<in> set (fst ?run)" for x
        proof -
          from mem_store_states(2)[OF assms(1,2) ok prod.collapse[symmetric] that]
          consider "x path = last pre path" | "?holds x (map mem_key (live @ [?new]))" by blast
          then show ?thesis
          proof cases
            case 1
            then show ?thesis using good swept(6) mem_holds_cong[of x path "last pre"] by blast
          next
            case 2
            have "live_bytes ?stat (map mem_key (live @ [?new])) \<le> live_bytes ?stat ks + requested"
              using live_bytes_snoc[of ?stat "map mem_key live" "mem_key ?new"] by (simp add: swept(3))
            then show ?thesis using 2 fits by (meson le_trans max.cobounded1)
          qed
        qed
        ultimately show ?thesis using fs' run swept(5) good by auto
      qed
    qed
  qed
qed

section \<open>The queue position\<close>

lemma release_count_exact:
  assumes "freed + sum_list sizes < U64" "freed < need" "need \<le> freed + sum_list sizes"
  shows "\<exists>k. release_count need freed index sizes = index + k \<and> 0 < k \<and> k \<le> length sizes
    \<and> need \<le> freed + sum_list (take k sizes) \<and> (\<forall>j < k. freed + sum_list (take j sizes) < need)"
  using assms
proof (induction sizes arbitrary: freed index)
  case (Cons b sizes)
  have freed': "min (freed + b) (U64 - 1) = freed + b" using Cons.prems(1) by simp
  show ?case
  proof (cases "need \<le> freed + b")
    case True
    then show ?thesis using Cons.prems freed' by (intro exI[of _ 1]) (simp add: Let_def)
  next
    case False
    then obtain k where k: "release_count need (freed + b) (index + 1) sizes = index + 1 + k" "0 < k" "k \<le> length sizes"
        "need \<le> freed + b + sum_list (take k sizes)" "\<And>j. j < k \<Longrightarrow> freed + b + sum_list (take j sizes) < need"
      using Cons.IH[of "freed + b" "index + 1"] Cons.prems by auto
    have "freed + sum_list (take j (b # sizes)) < need" if "j < Suc k" for j
      using k(5) that False Cons.prems(2) by (cases j) (auto simp: add.assoc)
    then show ?thesis using k False freed' by (intro exI[of _ "Suc k"]) (simp add: Let_def add.assoc)
  qed
qed simp

text \<open>The largest elements have the largest sum.\<close>

lemma sum_largest:
  fixes xs :: "nat list"
  assumes "sorted_wrt (\<ge>) xs" "M \<subseteq># mset xs"
  shows "sum_mset M \<le> sum_list (take (size M) xs)"
  using assms
proof (induction xs arbitrary: M)
  case (Cons x xs)
  show ?case
  proof (cases "M = {#}")
    case False
    obtain y N where M: "M = add_mset y N" "N \<subseteq># mset xs" "y \<le> x"
    proof (cases "x \<in># M")
      case True
      then have "M - {#x#} \<subseteq># mset xs" using Cons.prems(2) by (simp add: subset_eq_diff_conv)
      then show thesis using that[of x "M - {#x#}"] True by simp
    next
      case False
      obtain y N where M: "M = add_mset y N" using \<open>M \<noteq> {#}\<close> by (cases M) auto
      have "count M a \<le> count (mset xs) a" for a
        using mset_subset_eq_count[OF Cons.prems(2), of a] False by (cases "a = x") (auto simp: not_in_iff)
      then have "M \<subseteq># mset xs" by (rule mset_subset_eqI)
      then have "N \<subseteq># mset xs" "y \<in> set xs" unfolding M by (auto dest: mset_subset_eq_insertD subset_mset.less_imp_le mset_subset_eqD)
      then show thesis using that[OF M] Cons.prems(1) by simp
    qed
    then have "sum_mset N \<le> sum_list (take (size N) xs)" using Cons by simp
    then show ?thesis using M by simp
  qed simp
qed simp

lemma map_sort_key: "map f (sort_key f xs) = sort (map f xs)"
  by (rule properties_for_sort[symmetric]) simp_all

text \<open>
  C23: The number of holders that a queued request is told to wait for is the fewest that could
  suffice: some choice of that many live holders frees enough, and no smaller choice does.
\<close>

theorem holders_ahead_least:
  assumes "0 < need" "need \<le> sum_list (map mr_bytes live)" "sum_list (map mr_bytes live) < U64"
  shows "(\<exists>H. H \<subseteq># mset live \<and> size H = holders_that_must_release live need \<and> need \<le> (\<Sum>r \<in># H. mr_bytes r))
    \<and> (\<forall>H. H \<subseteq># mset live \<longrightarrow> need \<le> (\<Sum>r \<in># H. mr_bytes r) \<longrightarrow> holders_that_must_release live need \<le> size H)"
proof -
  let ?desc = "rev (sort_key mr_bytes live)"
  let ?sizes = "rev (sort (map mr_bytes live))"
  have sizes: "?sizes = map mr_bytes ?desc" by (simp add: map_sort_key flip: rev_map)
  have total: "sum_list ?sizes = sum_list (map mr_bytes live)"
    by (simp flip: sum_mset_sum_list)
  obtain k where k: "holders_that_must_release live need = k" "k \<le> length ?sizes"
      "need \<le> sum_list (take k ?sizes)" "\<And>j. j < k \<Longrightarrow> sum_list (take j ?sizes) < need"
    using release_count_exact[of 0 ?sizes need 0] assms total by (auto simp: holders_that_must_release_def)
  have "mset (take k ?desc) \<subseteq># mset live"
    using mset_subset_eq_add_left[of "mset (take k ?desc)" "mset (drop k ?desc)"] by (simp flip: mset_append)
  moreover have "size (mset (take k ?desc)) = k" using k(2) by simp
  moreover have "need \<le> (\<Sum>r \<in># mset (take k ?desc). mr_bytes r)"
    using k(3) unfolding sizes by (simp add: take_map sum_mset_sum_list flip: mset_map)
  ultimately have some: "\<exists>H. H \<subseteq># mset live \<and> size H = k \<and> need \<le> (\<Sum>r \<in># H. mr_bytes r)" by blast
  have least: "k \<le> size H" if "H \<subseteq># mset live" "need \<le> (\<Sum>r \<in># H. mr_bytes r)" for H
  proof (rule ccontr)
    assume "\<not> k \<le> size H"
    moreover have "(\<Sum>r \<in># H. mr_bytes r) \<le> sum_list (take (size H) ?sizes)"
      using sum_largest[of ?sizes "image_mset mr_bytes H"] image_mset_subseteq_mono[OF that(1), of mr_bytes]
      by (simp add: sorted_wrt_rev)
    ultimately show False using k(4)[of "size H"] that(2) by simp
  qed
  show ?thesis unfolding k(1) using some least by blast
qed

section \<open>A request without faults\<close>

definition admit_calm :: "'t admit_env \<Rightarrow> string \<Rightarrow> ledger_fs \<Rightarrow> bool" where
  "admit_calm env path fs \<longleftrightarrow> ae_lock env = None
     \<and> ae_read_faults env = no_faults \<and> ae_sweep_faults env = no_faults \<and> ae_grant_faults env = no_faults
     \<and> codec_ok (ae_codec env) \<and> mem_apart path \<and> fs (temp_path ''.memory-admissions.'' path (ae_pid env) 0) = None
     \<and> (\<forall>recs. \<exists>text. lc_print (ae_codec env) (mem_value (lc_ts_json (ae_codec env)) recs) = Inr text)
     \<and> (\<forall>pid. \<exists>v. ae_stat env pid = Inr v)"

lemma calm_store:
  assumes "admit_calm env path fs" "\<And>r. r \<in> set recs \<Longrightarrow> mem_record_ok r"
  shows "\<exists>states. mem_store (ae_codec env) no_faults (ae_pid env) path recs fs = (states, Inr ()) \<and> states \<noteq> []
    \<and> mem_holds (ae_codec env) path (last states) (map mem_key recs) \<and> admit_calm env path (last states)"
proof -
  obtain printed where printed: "lc_print (ae_codec env) (mem_value (lc_ts_json (ae_codec env)) recs) = Inr printed"
    using assms(1) unfolding admit_calm_def by blast
  have temp: "fs (temp_path ''.memory-admissions.'' path (ae_pid env) 0) = None" "mem_apart path" "codec_ok (ae_codec env)"
    using assms(1) by (simp_all add: admit_calm_def)
  obtain states res where run: "mem_store (ae_codec env) no_faults (ae_pid env) path recs fs = (states, res)" by fastforce
  have "res = Inr ()" using store_value_no_faults(1)[where fs = fs and stem = "''.memory-admissions.''" and path = path and pid = "ae_pid env", OF printed temp(1)] run by (simp add: mem_store_def prod_eq_iff)
  moreover have "admit_calm env path (last states)"
    using store_value_no_temp[where fs = fs and stem = "''.memory-admissions.''" and path = path and pid = "ae_pid env"
        and texts = "ledger_texts ''admission''", OF printed temp(1,2)] assms(1)
    unfolding run[unfolded mem_store_def] by (simp add: admit_calm_def)
  ultimately show ?thesis using mem_store_states(1,3)[OF temp(3,2) assms(2) run] run by blast
qed

lemma calm_sweep:
  fixes rs :: "'a mem_record list"
  assumes "admit_calm env path fs"
  shows "mem_sweep (ae_stat env) rs =
    Inr (filter (\<lambda>r. mem_alive (ae_stat env) r = Inr True) rs, filter (\<lambda>r. mem_alive (ae_stat env) r \<noteq> Inr True) rs)"
proof -
  have "\<exists>b. mem_alive (ae_stat env) r = Inr b" for r :: "'a mem_record"
  proof -
    obtain v where "ae_stat env (mr_pid r) = Inr v" using assms unfolding admit_calm_def by blast
    then show ?thesis by (cases v) (auto simp: mem_alive_def holder_state_def)
  qed
  then obtain res where "sweep_loop (mem_alive (ae_stat env)) rs ([], []) = Inr res"
    using sweep_loop_total[of "mem_alive (ae_stat env)" rs "([], [])"] by (auto simp: list_all_iff)
  then show ?thesis using sweep_loop_exact unfolding mem_sweep_def by fastforce
qed

lemma calm_swept:
  assumes "admit_calm env path fs" "mem_load (ae_codec env) no_faults path fs = Inr rs"
  shows "\<exists>st. admit_swept env path fs body = body (filter (\<lambda>r. mem_alive (ae_stat env) r = Inr True) rs) st
    \<and> st \<noteq> [] \<and> admit_calm env path (last st)
    \<and> mem_holds (ae_codec env) path (last st) (map mem_key (filter (\<lambda>r. mem_alive (ae_stat env) r = Inr True) rs))"
proof -
  let ?live = "filter (\<lambda>r. mem_alive (ae_stat env) r = Inr True) rs"
  let ?dead = "filter (\<lambda>r. mem_alive (ae_stat env) r \<noteq> Inr True) rs"
  have ok: "mem_record_ok r" if "r \<in> set ?live" for r using that mem_load_ok[OF assms(2)] by simp
  have "\<exists>st. drop_dead env path fs ?live ?dead = (st, Inr ()) \<and> st \<noteq> [] \<and> admit_calm env path (last st)
      \<and> mem_holds (ae_codec env) path (last st) (map mem_key ?live)"
  proof (cases "?dead = []")
    case True
    then have "?live = rs" by (auto simp: filter_empty_conv filter_id_conv)
    then show ?thesis using True assms by (auto simp: drop_dead_def mem_holds_def)
  next
    case False
    moreover have "ae_sweep_faults env = no_faults" using assms(1) by (simp add: admit_calm_def)
    ultimately show ?thesis using calm_store[of env path fs ?live, OF assms(1) ok] by (auto simp: drop_dead_def)
  qed
  then obtain st where st: "drop_dead env path fs ?live ?dead = (st, Inr ())" "st \<noteq> []" "admit_calm env path (last st)"
      "mem_holds (ae_codec env) path (last st) (map mem_key ?live)" by blast
  have "ae_lock env = None" "ae_read_faults env = no_faults" using assms(1) by (simp_all add: admit_calm_def)
  then have "admit_swept env path fs body = body ?live st"
    using assms(2) calm_sweep[OF assms(1), of rs] st(1) by (simp add: admit_swept_def)
  then show ?thesis using st by blast
qed

lemma request_calm:
  assumes "admit_calm env path fs" "mem_load (ae_codec env) no_faults path fs = Inr rs"
    and "1 \<le> requested" "requested \<le> MAX_BYTES" "ae_stat env (ae_pid env) = Inr (Some st)"
    and "0 < ae_pid env" "ae_pid env \<le> U32_MAX" "0 < st" "st < 18446744073709551616"
    and "live_bytes (ae_stat env) (map mem_key rs) < U64" "\<forall>b. budget = Some b \<longrightarrow> b < U64 - 1"
  shows "\<exists>states d res. request_with_limits env requested tag path budget headroom fs = (states, Inr (d, res))
    \<and> ad_verdict d = admit_spec requested (live_bytes (ae_stat env) (map mem_key rs)) budget headroom
    \<and> ad_reserved d = live_bytes (ae_stat env) (map mem_key rs)
    \<and> res = (if ad_verdict d = Grant
        then Some \<lparr>mv_bytes = requested, mv_pid = ae_pid env, mv_starttime = Some st, mv_tag = tag, mv_ledger = path, mv_released = False\<rparr>
        else None)
    \<and> admit_calm env path (last states)
    \<and> mem_holds (ae_codec env) path (last states)
        (filter (key_alive (ae_stat env)) (map mem_key rs)
         @ (if ad_verdict d = Grant then [(ae_pid env, Some st, requested, tag)] else []))"
proof -
  let ?stat = "ae_stat env"
  let ?live = "filter (\<lambda>r. mem_alive ?stat r = Inr True) rs"
  let ?new = "\<lparr>mr_pid = ae_pid env, mr_starttime = Some st, mr_bytes = requested, mr_tag = tag, mr_ts = ae_now env\<rparr>"
  let ?d = "admit_decide (ae_text env) requested ?live budget headroom"
  have keys: "map mem_key ?live = filter (key_alive ?stat) (map mem_key rs)" by (simp add: filter_map comp_def)
  have sum: "sum_list (map mr_bytes ?live) = live_bytes ?stat (map mem_key rs)" by (rule live_bytes_swept[OF keys])
  have verdict: "ad_verdict ?d = admit_spec requested (live_bytes ?stat (map mem_key rs)) budget headroom"
    using admit_decide_verdict[of ?live budget "ae_text env" requested headroom] assms(10,11) sum by simp
  have reserved: "ad_reserved ?d = live_bytes ?stat (map mem_key rs)"
    using assms(10) sum by (simp add: admit_decide_def Let_def sum_u64_def)
  have start: "current_starttime ?stat (ae_pid env) = Inr st" using assms(5) by (simp add: current_starttime_def)
  have grant_faults: "ae_grant_faults env = no_faults" using assms(1) by (simp add: admit_calm_def)
  let ?body = "\<lambda>live states.
    let decision = admit_decide (ae_text env) requested live budget headroom
    in if ad_verdict decision \<noteq> Grant then (states, Inr (decision, None))
       else
         let new = \<lparr>mr_pid = ae_pid env, mr_starttime = Some st, mr_bytes = requested, mr_tag = tag, mr_ts = ae_now env\<rparr>;
             run = mem_store (ae_codec env) (ae_grant_faults env) (ae_pid env) path (live @ [new]) (last states)
         in (states @ fst run,
             case snd run of
               Inl e \<Rightarrow> Inl e
             | Inr _ \<Rightarrow> Inr (decision, Some \<lparr>mv_bytes = requested, mv_pid = ae_pid env, mv_starttime = Some st,
                 mv_tag = tag, mv_ledger = path, mv_released = False\<rparr>))"
  have request: "request_with_limits env requested tag path budget headroom fs = admit_swept env path fs ?body"
    using assms(3) start by (simp add: request_with_limits_def)
  obtain pre where pre: "admit_swept env path fs ?body = ?body ?live pre" "pre \<noteq> []" "admit_calm env path (last pre)"
      "mem_holds (ae_codec env) path (last pre) (map mem_key ?live)"
    using calm_swept[OF assms(1,2), of ?body] by blast
  show ?thesis
  proof (cases "ad_verdict ?d = Grant")
    case False
    then show ?thesis unfolding request pre(1)
      using pre(3,4) verdict reserved keys by (intro exI[of _ pre] exI[of _ ?d] exI[of _ None]) (simp add: Let_def)
  next
    case True
    have ok: "mem_record_ok r" if "r \<in> set (?live @ [?new])" for r
      using that mem_load_ok[OF assms(2)] assms(3,4,6-9) by (auto simp: mem_record_ok_def)
    obtain post where post: "mem_store (ae_codec env) no_faults (ae_pid env) path (?live @ [?new]) (last pre) = (post, Inr ())"
        "post \<noteq> []" "mem_holds (ae_codec env) path (last post) (map mem_key (?live @ [?new]))" "admit_calm env path (last post)"
      using calm_store[of env path "last pre" "?live @ [?new]", OF pre(3) ok] by blast
    have "mem_key ?new = (ae_pid env, Some st, requested, tag)" by (simp add: mem_key_def)
    then show ?thesis unfolding request pre(1)
      using True post verdict reserved keys grant_faults
      by (intro exI[of _ "pre @ post"] exI[of _ ?d]) (auto simp: Let_def)
  qed
qed

text \<open>
  C12: A request of at most \<open>MAX_BYTES\<close> is answered exactly, as long as sums stay below the range of \<open>u64\<close>. Without faults it is refused when it is larger than the budget;
  it is queued when it does not fit beside the live reservations, or when the host has not that
  much memory at the moment; and it is granted otherwise. Afterwards the ledger has the live
  records and, for a grant, the new one; records of dead holders are gone and count for nothing.
\<close>

theorem admission_exact:
  assumes "admit_calm env path fs" "mem_load (ae_codec env) no_faults path fs = Inr rs"
    and "1 \<le> requested" "requested \<le> MAX_BYTES" "ae_stat env (ae_pid env) = Inr (Some st)"
    and "0 < ae_pid env" "ae_pid env \<le> U32_MAX" "0 < st" "st < 18446744073709551616"
    and "live_bytes (ae_stat env) (map mem_key rs) < U64" "\<forall>b. budget = Some b \<longrightarrow> b < U64 - 1"
  shows "\<exists>states d res. request_with_limits env requested tag path budget headroom fs = (states, Inr (d, res))
    \<and> ad_verdict d = admit_spec requested (live_bytes (ae_stat env) (map mem_key rs)) budget headroom
    \<and> ad_reserved d = live_bytes (ae_stat env) (map mem_key rs)
    \<and> (res \<noteq> None \<longleftrightarrow> ad_verdict d = Grant)
    \<and> mem_holds (ae_codec env) path (last states)
        (filter (key_alive (ae_stat env)) (map mem_key rs)
         @ (if ad_verdict d = Grant then [(ae_pid env, Some st, requested, tag)] else []))"
proof -
  from request_calm[OF assms, of tag headroom] show ?thesis
  proof (elim exE conjE)
    fix states d res
    assume run: "request_with_limits env requested tag path budget headroom fs = (states, Inr (d, res))"
      and rest: "ad_verdict d = admit_spec requested (live_bytes (ae_stat env) (map mem_key rs)) budget headroom"
        "ad_reserved d = live_bytes (ae_stat env) (map mem_key rs)"
        "res = (if ad_verdict d = Grant then Some \<lparr>mv_bytes = requested, mv_pid = ae_pid env, mv_starttime = Some st,
            mv_tag = tag, mv_ledger = path, mv_released = False\<rparr> else None)"
        "mem_holds (ae_codec env) path (last states) (filter (key_alive (ae_stat env)) (map mem_key rs)
           @ (if ad_verdict d = Grant then [(ae_pid env, Some st, requested, tag)] else []))"
    show ?thesis by (rule exI[of _ states], rule exI[of _ d], rule exI[of _ res]) (use run rest in simp)
  qed
qed

section \<open>Releasing\<close>


section \<open>A concrete host\<close>

text \<open>A codec that writes every document: documents are countable, and the text of one is its number in unary.\<close>

definition unary_codec :: "unit ledger_codec" where
  "unary_codec = \<lparr>lc_parse = \<lambda>s. Inr (from_nat (length s)), lc_print = \<lambda>v. Inr (replicate (to_nat v) (CHR ''1'')),
     lc_ts_of = \<lambda>_. Some (), lc_ts_json = \<lambda>_. JInt 0\<rparr>"

definition demo_host :: "unit admit_env" where
  "demo_host = \<lparr>ae_codec = unary_codec, ae_read_faults = no_faults, ae_sweep_faults = no_faults, ae_grant_faults = no_faults,
     ae_lock = None, ae_pid = 10, ae_stat = \<lambda>pid. Inr (if pid = 10 then Some 5 else None), ae_now = (),
     ae_text = \<lparr>bx_f64 = of_nat, bx_text = \<lambda>_. []\<rparr>\<rparr>"

lemma demo_host_calm: "fs (temp_path ''.memory-admissions.'' ''m.json'' 10 0) = None \<Longrightarrow> admit_calm demo_host ''m.json'' fs"
  using ledger_apart_json[of "''m.json''" "''.memory-admissions.''"]
  by (auto simp: admit_calm_def demo_host_def unary_codec_def codec_ok_def is_number_def suffix_def)

lemma demo_host_facts [simp]:
  "ae_codec demo_host = unary_codec" "ae_pid demo_host = 10" "ae_stat demo_host = (\<lambda>pid. Inr (if pid = 10 then Some 5 else None))"
  by (simp_all add: demo_host_def)

lemma demo_start: "admit_calm demo_host ''m.json'' (\<lambda>_. None)" "mem_holds unary_codec ''m.json'' (\<lambda>_. None) []"
  by (simp_all add: demo_host_calm mem_holds_def mem_load_def load_records_def no_faults_def)

theorem admission_within_budget_witness:
  "\<exists>ks'. mem_holds unary_codec ''m.json'' (last (fst (request_with_limits demo_host 10 ''t'' ''m.json'' (Some 20) None (\<lambda>_. None)))) ks'
     \<and> live_bytes (ae_stat demo_host) ks' \<le> 20"
proof -
  let ?states = "fst (request_with_limits demo_host 10 ''t'' ''m.json'' (Some 20) None (\<lambda>_. None))"
  have "?states \<noteq> []"
    by (simp add: request_with_limits_def current_starttime_def admit_swept_def mem_load_def load_records_def
        mem_sweep_def drop_dead_def demo_host_def no_faults_def Let_def)
  then have fs': "last ?states \<in> set ?states" by (rule last_in_set)
  have "codec_ok (ae_codec demo_host)" "mem_apart ''m.json''" using demo_start(1) by (simp_all add: admit_calm_def)
  then show ?thesis
    using admission_within_budget[of demo_host "''m.json''" "\<lambda>_. None" "[]" "Some 20" 10 "last ?states" "''t''" None] fs' demo_start(2)
    by (simp add: live_bytes_def MAX_BYTES_def U32_MAX_def U64_def)
qed

definition demo_holders :: "unit mem_record list" where
  "demo_holders = [\<lparr>mr_pid = 1, mr_starttime = None, mr_bytes = 3, mr_tag = [], mr_ts = ()\<rparr>,
     \<lparr>mr_pid = 2, mr_starttime = None, mr_bytes = 5, mr_tag = [], mr_ts = ()\<rparr>]"

theorem holders_ahead_least_witness:
  "holders_that_must_release demo_holders 4 = 1
   \<and> (\<exists>H. H \<subseteq># mset demo_holders \<and> size H = holders_that_must_release demo_holders 4 \<and> 4 \<le> (\<Sum>r \<in># H. mr_bytes r))
   \<and> holders_that_must_release demo_holders 4 \<le> size (mset demo_holders)"
proof -
  have one: "holders_that_must_release demo_holders 4 = 1"
    by (simp add: holders_that_must_release_def demo_holders_def Let_def U64_def)
  have hyps: "0 < (4 :: nat)" "4 \<le> sum_list (map mr_bytes demo_holders)" "sum_list (map mr_bytes demo_holders) < U64"
    by (simp_all add: U64_def demo_holders_def)
  have "4 \<le> (\<Sum>r \<in># mset demo_holders. mr_bytes r)" by (simp add: demo_holders_def)
  then show ?thesis using one holders_ahead_least[OF hyps] by blast
qed

theorem admission_exact_witness:
  "\<exists>states d res. request_with_limits demo_host 10 ''t'' ''m.json'' (Some 20) None (\<lambda>_. None) = (states, Inr (d, res))
     \<and> ad_verdict d = Grant \<and> mem_holds unary_codec ''m.json'' (last states) [(10, Some 5, 10, ''t'')]"
proof -
  have load: "mem_load (ae_codec demo_host) no_faults ''m.json'' (\<lambda>_. None) = Inr []"
    by (simp add: mem_load_def load_records_def no_faults_def)
  have "admit_spec 10 0 (Some 20) None = Grant" by (simp add: admit_spec_def)
  then show ?thesis
    using admission_exact[OF demo_start(1) load, of 10 5 "Some 20" "''t''" None]
    by (fastforce simp: MAX_BYTES_def U32_MAX_def U64_def live_bytes_def)
qed



text \<open>
  A release that fails is not tried again: the reservation counts as released before the lock is
  taken, so a second call reports success and leaves the record.
\<close>

lemma failed_release_final:
  assumes "\<not> mv_released mv" "ae_lock env = Some e"
  shows "mem_release env mv fs = (([fs], Inl e), mv\<lparr>mv_released := True\<rparr>)"
    and "mem_release env' (mv\<lparr>mv_released := True\<rparr>) fs = (([fs], Inr ()), mv\<lparr>mv_released := True\<rparr>)"
  using assms by (simp_all add: mem_release_def)

text \<open>A record above \<open>MAX_BYTES\<close> can be granted and written when no limit is known, and cannot be read again.\<close>

lemma oversize_grant:
  "ad_verdict (admit_decide bx requested live None None) = Grant"
  "MAX_BYTES < mr_bytes r \<Longrightarrow> mem_from_value ts_of (mem_to_value ts_json r) = None"
proof -
  show "ad_verdict (admit_decide bx requested live None None) = Grant" by (simp add: admit_decide_def Let_def)
  assume big: "MAX_BYTES < mr_bytes r"
  show "mem_from_value ts_of (mem_to_value ts_json r) = None"
  proof (rule ccontr)
    assume "mem_from_value ts_of (mem_to_value ts_json r) \<noteq> None"
    then have "\<exists>n \<le> MAX_BYTES. value_u64 (JInt (int (mr_bytes r))) = Some n"
      by (auto simp: mem_from_value_def mem_to_value_def obj_get_def bind_eq_Some_conv filter_opt_Some)
    then show False using big by (auto simp: value_u64_Some)
  qed
qed

end
