(* ===== verification/Caps.thy ===== *)
theory Caps
  imports Ledger "HOL-Library.Monad_Syntax"
begin

text \<open>
  Shared resource capacities (\<open>dagrun/src/resource_caps.rs\<close>): requests wait in ticket order in a state
  file that scheduler processes share, are granted for all their resources at once, and are
  reclaimed when their process is gone. Counts are \<open>i64\<close> with the wrap-around of a release build. The
  debug format of a name is a parameter.
\<close>

section \<open>Requests\<close>

datatype request_state = Waiting | Held

fun request_state_str :: "request_state \<Rightarrow> string" where
  "request_state_str Waiting = ''waiting''"
| "request_state_str Held = ''held''"

definition request_state_from :: "json \<Rightarrow> request_state option" where
  "request_state_from v =
     Option.bind (as_str v) (\<lambda>s. if s = ''waiting'' then Some Waiting else if s = ''held'' then Some Held else None)"

record claim =
  cm_demand :: int
  cm_capacity :: int

type_synonym claims = "(string, claim) btree_map"

record caps_record =
  cr_pid :: nat
  cr_starttime :: nat
  cr_request :: string
  cr_tag :: string
  cr_ticket :: nat
  cr_state :: request_state
  cr_claims :: claims

definition value_i64 :: "json \<Rightarrow> int option" where
  "value_i64 v = (if is_number v then as_i64 v else None)"

definition claim_from :: "json \<Rightarrow> claim option" where
  "claim_from raw_value = do {
     raw \<leftarrow> as_object raw_value;
     demand_value \<leftarrow> obj_get raw ''demand'';
     demand \<leftarrow> filter_opt (\<lambda>v. 0 < v) (value_i64 demand_value);
     capacity_value \<leftarrow> obj_get raw ''capacity'';
     capacity \<leftarrow> filter_opt (\<lambda>v. 0 < v) (value_i64 capacity_value);
     if capacity < demand then None else Some \<lparr>cm_demand = demand, cm_capacity = capacity\<rparr>
   }"

fun claims_from :: "json_object \<Rightarrow> claims \<Rightarrow> claims option" where
  "claims_from [] acc = Some acc"
| "claims_from ((name, raw) # rest) acc =
     (if name = [] then None
      else Option.bind (claim_from raw) (\<lambda>c. claims_from rest (bt_insert name c acc)))"

definition caps_record_from :: "json \<Rightarrow> caps_record option" where
  "caps_record_from v = do {
     obj \<leftarrow> as_object v;
     pid_value \<leftarrow> obj_get obj ''pid'';
     pid \<leftarrow> filter_opt (\<lambda>pid. pid \<le> U32_MAX \<and> 0 < pid) (value_u64 pid_value);
     start_value \<leftarrow> obj_get obj ''starttime'';
     starttime \<leftarrow> filter_opt (\<lambda>t. 0 < t) (value_u64 start_value);
     request \<leftarrow> Option.bind (obj_get obj ''request'') as_str;
     tag \<leftarrow> Option.bind (obj_get obj ''tag'') as_str;
     ticket \<leftarrow> Option.bind (obj_get obj ''ticket'') value_u64;
     state \<leftarrow> Option.bind (obj_get obj ''state'') request_state_from;
     if request = [] \<or> tag = [] then None
     else do {
       resources \<leftarrow> Option.bind (obj_get obj ''resources'') as_object;
       cs \<leftarrow> filter_opt (\<lambda>cs. cs \<noteq> []) (claims_from resources []);
       Some \<lparr>cr_pid = pid, cr_starttime = starttime, cr_request = request, cr_tag = tag, cr_ticket = ticket,
             cr_state = state, cr_claims = cs\<rparr>
     }
   }"

definition claim_value :: "string \<times> claim \<Rightarrow> string \<times> json" where
  "claim_value nc = (fst nc, JObject [(''capacity'', JInt (cm_capacity (snd nc))), (''demand'', JInt (cm_demand (snd nc)))])"

definition caps_record_value :: "caps_record \<Rightarrow> json" where
  "caps_record_value r = JObject
     [(''pid'', JInt (int (cr_pid r))), (''request'', JString (cr_request r)),
      (''resources'', JObject (map claim_value (cr_claims r))), (''starttime'', JInt (int (cr_starttime r))),
      (''state'', JString (request_state_str (cr_state r))), (''tag'', JString (cr_tag r)), (''ticket'', JInt (int (cr_ticket r)))]"

section \<open>The state file\<close>

record caps_ledger =
  cl_next_ticket :: nat
  cl_requests :: "caps_record list"

definition caps_text :: "string \<Rightarrow> string \<Rightarrow> string" where
  "caps_text path rest = ''resource_caps state '' @ path @ rest"

definition identities_ok :: "caps_ledger \<Rightarrow> bool" where
  "identities_ok l \<longleftrightarrow> distinct (map cr_request (cl_requests l)) \<and> distinct (map cr_ticket (cl_requests l))
     \<and> list_all (\<lambda>r. cr_ticket r < cl_next_ticket l) (cl_requests l)"

definition caps_from_value :: "string \<Rightarrow> json \<Rightarrow> string + caps_ledger" where
  "caps_from_value path v =
     (case as_object v of
        None \<Rightarrow> Inl (caps_text path '' root must be an object'')
      | Some root \<Rightarrow>
     (case obj_get root ''next_ticket'' of
        None \<Rightarrow> Inl (caps_text path '' has no next_ticket'')
      | Some raw \<Rightarrow>
     (case value_u64 raw of
        None \<Rightarrow> Inl (caps_text path '' has an invalid next_ticket'')
      | Some next_ticket \<Rightarrow>
     (case Option.bind (obj_get root ''requests'') as_array of
        None \<Rightarrow> Inl (caps_text path '' has no requests list'')
      | Some items \<Rightarrow>
     (case those (map caps_record_from items) of
        None \<Rightarrow> Inl (caps_text path '' has an invalid request'')
      | Some requests \<Rightarrow>
          (let l = \<lparr>cl_next_ticket = next_ticket, cl_requests = requests\<rparr>
           in if identities_ok l then Inr l
              else Inl (caps_text path '' has duplicate or out-of-range request identity'')))))))"

definition caps_load :: "'t ledger_codec \<Rightarrow> ledger_faults \<Rightarrow> string \<Rightarrow> ledger_fs \<Rightarrow> string + caps_ledger" where
  "caps_load codec faults path fs =
     (case fl_read faults of
        Some e \<Rightarrow> Inl e
      | None \<Rightarrow>
         (case fs path of
            None \<Rightarrow> Inl (''configured resource_caps state '' @ path @ '' does not exist'')
          | Some text \<Rightarrow>
             (case lc_parse codec text of
                Inl e \<Rightarrow> Inl (caps_text path ('' is corrupt: '' @ e))
              | Inr v \<Rightarrow> caps_from_value path v)))"

definition caps_value :: "caps_ledger \<Rightarrow> json" where
  "caps_value l = JObject
     [(''next_ticket'', JInt (int (cl_next_ticket l))), (''requests'', JArray (map caps_record_value (cl_requests l)))]"

definition parent_text :: "string \<Rightarrow> string" where
  "parent_text path = (let dir = beside path [] in if dir = ''/'' then dir else butlast dir)"

definition caps_texts :: "string \<Rightarrow> store_texts" where
  "caps_texts path = \<lparr>sx_mkdir = ''create resource_caps directory '' @ parent_text path @ '': '',
     sx_encode = ''encode resource_caps state: '', sx_create = ''create temporary resource_caps state: '',
     sx_alloc = ''could not allocate temporary resource_caps state'', sx_write = ''write temporary resource_caps state: '',
     sx_sync = ''sync temporary resource_caps state: '', sx_replace = ''replace resource_caps state: ''\<rparr>"

text \<open>The name of the temporary file has the process number and then the time stamp.\<close>

definition caps_stem :: "nat \<Rightarrow> string" where
  "caps_stem pid = ''.resource-caps.'' @ dec_nat pid @ ''.''"

record 't caps_env =
  ce_codec :: "'t ledger_codec"
  ce_read_faults :: ledger_faults
  ce_faults :: ledger_faults
  ce_lock :: "string option"
  ce_pid :: nat
  ce_stamp :: nat
  ce_stat :: proc_table
  ce_debug :: "string \<Rightarrow> string"

definition caps_store :: "'t caps_env \<Rightarrow> string \<Rightarrow> caps_ledger \<Rightarrow> ledger_fs \<Rightarrow> unit ledger_run" where
  "caps_store env path l fs =
     store_value (caps_texts path) (caps_stem (ce_pid env)) (ce_codec env) (ce_faults env) (ce_stamp env) path (caps_value l) fs"

definition caps_alive :: "proc_table \<Rightarrow> caps_record \<Rightarrow> string + bool" where
  "caps_alive stat r =
     (case stat (cr_pid r) of Inl e \<Rightarrow> Inl e | Inr v \<Rightarrow> Inr (v = Some (cr_starttime r)))"

text \<open>The ledger without dead requests, and whether that changed it.\<close>

definition caps_sweep :: "proc_table \<Rightarrow> caps_ledger \<Rightarrow> string + caps_ledger \<times> bool" where
  "caps_sweep stat l =
     (case sweep_loop (caps_alive stat) (cl_requests l) ([], []) of
        Inl e \<Rightarrow> Inl e
      | Inr (retained, _) \<Rightarrow> Inr (l\<lparr>cl_requests := retained\<rparr>, length retained \<noteq> length (cl_requests l)))"

section \<open>Claims\<close>

fun claims_for :: "(string \<Rightarrow> string) \<Rightarrow> (string, int) btree_map \<Rightarrow> (string, int) btree_map \<Rightarrow> string + claims" where
  "claims_for debug [] capacities = Inr []"
| "claims_for debug ((name, demand) # rest) capacities =
     (if demand = 0 then claims_for debug rest capacities
      else case bt_get capacities name of
          None \<Rightarrow> Inl (''resource '' @ debug name @ '' has demand '' @ dec_int demand @ '' but no declared resource_caps entry'')
        | Some capacity \<Rightarrow>
            if demand < 0 \<or> capacity \<le> 0 \<or> capacity < demand
            then Inl (''resource '' @ debug name @ '' has demand '' @ dec_int demand @ '' and capacity '' @ dec_int capacity
                      @ ''; both must be positive and demand must not exceed capacity'')
            else (case claims_for debug rest capacities of
                Inl e \<Rightarrow> Inl e
              | Inr cs \<Rightarrow> Inr ((name, \<lparr>cm_demand = demand, cm_capacity = capacity\<rparr>) # cs)))"

definition conflict_text :: "(string \<Rightarrow> string) \<Rightarrow> caps_record \<Rightarrow> string \<times> claim \<Rightarrow> string option" where
  "conflict_text debug r nc =
     (case bt_get (cr_claims r) (fst nc) of
        None \<Rightarrow> None
      | Some other \<Rightarrow>
          if cm_capacity other \<noteq> cm_capacity (snd nc)
          then Some (''resource '' @ debug (fst nc) @ '' has conflicting capacities '' @ dec_int (cm_capacity (snd nc))
                     @ '' and '' @ dec_int (cm_capacity other))
          else None)"

fun first_some :: "'a option list \<Rightarrow> 'a option" where
  "first_some [] = None"
| "first_some (x # xs) = (case x of Some y \<Rightarrow> Some y | None \<Rightarrow> first_some xs)"

definition capacity_conflict :: "(string \<Rightarrow> string) \<Rightarrow> caps_ledger \<Rightarrow> claims \<Rightarrow> string option" where
  "capacity_conflict debug l cs =
     first_some (concat (map (\<lambda>r. map (conflict_text debug r) cs) (cl_requests l)))"

section \<open>The operations\<close>

record caps_reservation =
  cv_path :: string
  cv_request :: string
  cv_claims :: claims
  cv_held :: bool
  cv_released :: bool

text \<open>The lock, the file and the sweep.\<close>

definition caps_swept ::
  "'t caps_env \<Rightarrow> string \<Rightarrow> ledger_fs \<Rightarrow> (caps_ledger \<Rightarrow> bool \<Rightarrow> 'a ledger_run) \<Rightarrow> 'a ledger_run" where
  "caps_swept env path fs body =
     (case ce_lock env of
        Some e \<Rightarrow> ([fs], Inl e)
      | None \<Rightarrow>
         (case caps_load (ce_codec env) (ce_read_faults env) path fs of
            Inl e \<Rightarrow> ([fs], Inl e)
          | Inr l \<Rightarrow>
             (case caps_sweep (ce_stat env) l of
                Inl e \<Rightarrow> ([fs], Inl e)
              | Inr (l', changed) \<Rightarrow> body l' changed)))"

definition create_in :: "'t caps_env \<Rightarrow> string \<Rightarrow> string \<Rightarrow> claims \<Rightarrow> ledger_fs \<Rightarrow> caps_ledger \<Rightarrow> caps_reservation ledger_run" where
  "create_in env path tag cs fs l =
     (case capacity_conflict (ce_debug env) l cs of
        Some e \<Rightarrow> ([fs], Inl e)
      | None \<Rightarrow>
         (case current_starttime (ce_stat env) (ce_pid env) of
            Inl e \<Rightarrow> ([fs], Inl e)
          | Inr starttime \<Rightarrow>
              (let ticket = cl_next_ticket l
               in if ticket + 1 < 18446744073709551616
                  then
                    (let request = dec_nat (ce_pid env) @ ''-'' @ dec_nat starttime @ ''-'' @ dec_nat ticket;
                         new = \<lparr>cr_pid = ce_pid env, cr_starttime = starttime, cr_request = request, cr_tag = tag,
                           cr_ticket = ticket, cr_state = Waiting, cr_claims = cs\<rparr>
                     in and_stored (caps_store env path \<lparr>cl_next_ticket = ticket + 1, cl_requests = cl_requests l @ [new]\<rparr> fs)
                          (Inr \<lparr>cv_path = path, cv_request = request, cv_claims = cs, cv_held = False, cv_released = False\<rparr>))
                  else ([fs], Inl ''resource_caps ticket counter overflowed''))))"

definition caps_create ::
  "'t caps_env \<Rightarrow> string \<Rightarrow> string \<Rightarrow> (string, int) btree_map \<Rightarrow> (string, int) btree_map \<Rightarrow> ledger_fs \<Rightarrow> caps_reservation ledger_run" where
  "caps_create env path tag demands capacities fs =
     (case claims_for (ce_debug env) demands capacities of
        Inl e \<Rightarrow> ([fs], Inl e)
      | Inr cs \<Rightarrow> caps_swept env path fs (\<lambda>l changed. create_in env path tag cs fs l))"

fun position_of :: "string \<Rightarrow> caps_record list \<Rightarrow> nat option" where
  "position_of request [] = None"
| "position_of request (r # rs) = (if cr_request r = request then Some 0 else map_option Suc (position_of request rs))"

definition blocked_by_earlier :: "caps_ledger \<Rightarrow> nat \<Rightarrow> claims \<Rightarrow> bool" where
  "blocked_by_earlier l ticket cs \<longleftrightarrow>
     list_ex (\<lambda>r. cr_state r = Waiting \<and> cr_ticket r < ticket \<and> list_ex (\<lambda>name. bt_has cs name) (bt_keys (cr_claims r))) (cl_requests l)"

text \<open>The held demand of a resource, summed as an \<open>i64\<close>.\<close>

fun held_demand :: "caps_record list \<Rightarrow> string \<Rightarrow> int \<Rightarrow> int" where
  "held_demand [] name acc = acc"
| "held_demand (r # rs) name acc =
     held_demand rs name
       (if cr_state r = Held
        then (case bt_get (cr_claims r) name of Some c \<Rightarrow> wrap64 (acc + cm_demand c) | None \<Rightarrow> acc)
        else acc)"

definition claims_fit :: "caps_ledger \<Rightarrow> claims \<Rightarrow> bool" where
  "claims_fit l cs \<longleftrightarrow>
     list_all (\<lambda>(name, c). wrap64 (held_demand (cl_requests l) name 0 + cm_demand c) \<le> cm_capacity c) cs"

definition caps_grant :: "caps_ledger \<Rightarrow> nat \<Rightarrow> caps_ledger" where
  "caps_grant l i = l\<lparr>cl_requests := (cl_requests l)[i := (cl_requests l ! i)\<lparr>cr_state := Held\<rparr>]\<rparr>"

definition grant_in :: "'t caps_env \<Rightarrow> caps_reservation \<Rightarrow> ledger_fs \<Rightarrow> caps_ledger \<Rightarrow> bool \<Rightarrow> bool ledger_run" where
  "grant_in env rv fs l changed =
     (case position_of (cv_request rv) (cl_requests l) of
        None \<Rightarrow> ([fs], Inl (''resource_caps request '' @ cv_request rv @ '' disappeared from '' @ cv_path rv))
      | Some i \<Rightarrow>
         if cr_claims (cl_requests l ! i) \<noteq> cv_claims rv
         then ([fs], Inl (''resource_caps request '' @ cv_request rv @ '' changed while waiting''))
         else (case capacity_conflict (ce_debug env) l (cv_claims rv) of
             Some e \<Rightarrow> ([fs], Inl e)
           | None \<Rightarrow>
               if \<not> blocked_by_earlier l (cr_ticket (cl_requests l ! i)) (cv_claims rv) \<and> claims_fit l (cv_claims rv)
               then and_stored (caps_store env (cv_path rv) (caps_grant l i) fs) (Inr True)
               else if changed then and_stored (caps_store env (cv_path rv) l fs) (Inr False)
               else ([fs], Inr False)))"

definition try_grant_run :: "'t caps_env \<Rightarrow> caps_reservation \<Rightarrow> ledger_fs \<Rightarrow> bool ledger_run" where
  "try_grant_run env rv fs = caps_swept env (cv_path rv) fs (grant_in env rv fs)"

definition try_grant :: "'t caps_env \<Rightarrow> caps_reservation \<Rightarrow> ledger_fs \<Rightarrow> bool ledger_run \<times> caps_reservation" where
  "try_grant env rv fs =
     (if cv_held rv then (([fs], Inr True), rv)
      else (let run = try_grant_run env rv fs
            in (run, if snd run = Inr True then rv\<lparr>cv_held := True\<rparr> else rv)))"

definition caps_release :: "'t caps_env \<Rightarrow> caps_reservation \<Rightarrow> ledger_fs \<Rightarrow> unit ledger_run \<times> caps_reservation" where
  "caps_release env rv fs =
     (if cv_released rv then (([fs], Inr ()), rv)
      else (let run = caps_swept env (cv_path rv) fs (\<lambda>l changed.
                  caps_store env (cv_path rv) (l\<lparr>cl_requests := filter (\<lambda>r. cr_request r \<noteq> cv_request rv) (cl_requests l)\<rparr>) fs)
            in (run, if snd run = Inr () then rv\<lparr>cv_released := True\<rparr> else rv)))"

section \<open>The coordinator of a run\<close>

record coordinator =
  co_path :: string
  co_capacities :: "(string, int) btree_map"
  co_pending :: "(string, caps_reservation) btree_map"

text \<open>\<open>present\<close>: whether there is something at the path.\<close>

definition coordinator_new ::
  "'t caps_env \<Rightarrow> bool \<Rightarrow> string \<Rightarrow> (string, int) btree_map \<Rightarrow> ledger_fs \<Rightarrow> coordinator ledger_run" where
  "coordinator_new env present path capacities fs =
     (if \<not> present then ([fs], Inl (''configured resource_caps state '' @ path @ '' does not exist''))
      else case find (\<lambda>(name, capacity). name = [] \<or> capacity < 0) capacities of
          Some (name, capacity) \<Rightarrow>
            ([fs], Inl (''resource_caps entry '' @ ce_debug env name @ '' has invalid capacity '' @ dec_int capacity))
        | None \<Rightarrow>
            caps_swept env path fs (\<lambda>l changed.
              and_stored (if changed then caps_store env path l fs else ([fs], Inr ()))
                (case capacity_conflict (ce_debug env) l (map (\<lambda>(name, capacity). (name, \<lparr>cm_demand = 0, cm_capacity = capacity\<rparr>)) capacities) of
                   Some e \<Rightarrow> Inl e
                 | None \<Rightarrow> Inr \<lparr>co_path = path, co_capacities = capacities, co_pending = []\<rparr>)))"

datatype acquire_result = StillWaiting bool | Granted caps_reservation

fun pending_demand :: "caps_reservation list \<Rightarrow> string \<Rightarrow> int \<Rightarrow> int" where
  "pending_demand [] name acc = acc"
| "pending_demand (rv # rvs) name acc =
     pending_demand rvs name (case bt_get (cv_claims rv) name of Some c \<Rightarrow> wrap64 (acc + cm_demand c) | None \<Rightarrow> acc)"

definition would_wait :: "coordinator \<Rightarrow> (string, int) btree_map \<Rightarrow> bool" where
  "would_wait co demands \<longleftrightarrow>
     list_ex (\<lambda>(name, demand).
       (case bt_get (co_capacities co) name of Some c \<Rightarrow> c | None \<Rightarrow> 0)
         < wrap64 (pending_demand (map snd (co_pending co)) name 0 + demand)) demands"

text \<open>A step asks: its request is created when it has none yet and could fit beside the pending ones, then tried. The second environment is that of the attempt.\<close>

definition try_pending ::
  "'t caps_env \<Rightarrow> coordinator \<Rightarrow> string \<Rightarrow> caps_reservation \<Rightarrow> bool \<Rightarrow> ledger_fs \<Rightarrow> acquire_result ledger_run \<times> coordinator" where
  "try_pending env co tag rv newly fs =
     (let ((states, res), rv') = try_grant env rv fs
      in case res of
           Inl e \<Rightarrow> ((states, Inl e), co\<lparr>co_pending := bt_insert tag rv' (co_pending co)\<rparr>)
         | Inr granted \<Rightarrow>
             if granted then ((states, Inr (Granted rv')), co\<lparr>co_pending := bt_remove tag (co_pending co)\<rparr>)
             else ((states, Inr (StillWaiting newly)), co\<lparr>co_pending := bt_insert tag rv' (co_pending co)\<rparr>))"

definition try_acquire ::
  "'t caps_env \<Rightarrow> 't caps_env \<Rightarrow> coordinator \<Rightarrow> string \<Rightarrow> (string, int) btree_map \<Rightarrow> ledger_fs \<Rightarrow> acquire_result ledger_run \<times> coordinator" where
  "try_acquire env env' co tag demands fs =
     (if demands = [] then (([fs], Inl ''try_acquire called for a step with no resource demand''), co)
      else case bt_get (co_pending co) tag of
          Some rv \<Rightarrow> try_pending env' co tag rv False fs
        | None \<Rightarrow>
            if would_wait co demands then (([fs], Inr (StillWaiting False)), co)
            else (case caps_create env (co_path co) tag demands (co_capacities co) fs of
                (states, Inl e) \<Rightarrow> ((states, Inl e), co)
              | (states, Inr rv) \<Rightarrow>
                  (let ((states', res), co') = try_pending env' (co\<lparr>co_pending := bt_insert tag rv (co_pending co)\<rparr>) tag rv True (last states)
                   in ((states @ states', res), co'))))"

definition has_pending :: "coordinator \<Rightarrow> bool" where
  "has_pending co \<longleftrightarrow> co_pending co \<noteq> []"

text \<open>
  Dropping a reservation releases it; a failure is only reported. Requests are dropped in the order in which the map
  gives them, each in the environment of its number.
\<close>

fun drop_all :: "(nat \<Rightarrow> 't caps_env) \<Rightarrow> nat \<Rightarrow> caps_reservation list \<Rightarrow> ledger_fs \<Rightarrow> ledger_fs list" where
  "drop_all envs n [] fs = [fs]"
| "drop_all envs n (rv # rvs) fs =
     (let states = fst (fst (caps_release (envs n) rv fs))
      in states @ drop_all envs (Suc n) rvs (last states))"

definition clear_pending :: "(nat \<Rightarrow> 't caps_env) \<Rightarrow> coordinator \<Rightarrow> ledger_fs \<Rightarrow> ledger_fs list \<times> coordinator" where
  "clear_pending envs co fs = (drop_all envs 0 (map snd (co_pending co)) fs, co\<lparr>co_pending := []\<rparr>)"

definition retain_pending ::
  "(nat \<Rightarrow> 't caps_env) \<Rightarrow> string set \<Rightarrow> coordinator \<Rightarrow> ledger_fs \<Rightarrow> ledger_fs list \<times> coordinator" where
  "retain_pending envs eligible co fs =
     (drop_all envs 0 (map snd (filter (\<lambda>tr. fst tr \<notin> eligible) (co_pending co))) fs,
      co\<lparr>co_pending := filter (\<lambda>tr. fst tr \<in> eligible) (co_pending co)\<rparr>)"

text \<open>Shared capacities are used only when the variable names a path.\<close>

definition coordinator_from_env ::
  "'t caps_env \<Rightarrow> bool \<Rightarrow> string option \<Rightarrow> (string, int) btree_map \<Rightarrow> ledger_fs \<Rightarrow> coordinator option ledger_run" where
  "coordinator_from_env env present var capacities fs =
     (case filter_opt (\<lambda>path. path \<noteq> []) var of
        None \<Rightarrow> ([fs], Inr None)
      | Some path \<Rightarrow> (let (states, res) = coordinator_new env present path capacities fs in (states, map_sum id Some res)))"

end
