(* ===== verification/Caps_Ledger.thy ===== *)
theory Caps_Ledger
  imports Caps
begin

text \<open>
  The state file of shared capacities: which requests are accepted, that a written ledger is read back
  unchanged, and the states of the file while it is replaced. Then the invariant of a ledger, and
  that every change an operation makes keeps it.
\<close>

section \<open>Reading what was written\<close>

definition claim_ok :: "string \<times> claim \<Rightarrow> bool" where
  "claim_ok nc \<longleftrightarrow> fst nc \<noteq> [] \<and> 0 < cm_demand (snd nc) \<and> cm_demand (snd nc) \<le> cm_capacity (snd nc) \<and> is_i64 (cm_capacity (snd nc))"

definition claims_ok :: "claims \<Rightarrow> bool" where
  "claims_ok cs \<longleftrightarrow> cs \<noteq> [] \<and> bt_ok cs \<and> list_all claim_ok cs"

definition caps_record_ok :: "caps_record \<Rightarrow> bool" where
  "caps_record_ok r \<longleftrightarrow> 0 < cr_pid r \<and> cr_pid r \<le> U32_MAX \<and> 0 < cr_starttime r \<and> cr_starttime r < 18446744073709551616
     \<and> cr_request r \<noteq> [] \<and> cr_tag r \<noteq> [] \<and> cr_ticket r < 18446744073709551616 \<and> claims_ok (cr_claims r)"

lemma value_i64_Some: "value_i64 v = Some n \<longleftrightarrow> v = JInt n \<and> is_i64 n"
  by (auto simp: value_i64_def is_number_def as_i64_iff split: json.splits if_splits)

lemma claim_from_value: "claim_ok nc \<Longrightarrow> claim_from (snd (claim_value nc)) = Some (snd nc)"
proof -
  assume ok: "claim_ok nc"
  then have "value_i64 (JInt (cm_demand (snd nc))) = Some (cm_demand (snd nc))"
    "value_i64 (JInt (cm_capacity (snd nc))) = Some (cm_capacity (snd nc))"
    by (auto simp: value_i64_Some claim_ok_def is_i64_def i64_min_def i64_max_def)
  then show ?thesis using ok by (simp add: claim_from_def claim_value_def obj_get_def filter_opt_def claim_ok_def)
qed

lemma claims_from_written:
  "list_all claim_ok cs \<Longrightarrow> claims_from (map claim_value cs) acc = Some (fold (\<lambda>(k, v). bt_insert k v) cs acc)"
proof (induction cs arbitrary: acc)
  case (Cons nc cs)
  have ok: "claim_ok nc" "list_all claim_ok cs" using Cons.prems by simp_all
  obtain name c where nc: "nc = (name, c)" by fastforce
  have "claim_from (snd (claim_value nc)) = Some c" using claim_from_value[OF ok(1)] by (simp add: nc)
  moreover have "claim_value nc = (name, snd (claim_value nc))" by (simp add: claim_value_def nc)
  moreover have "name \<noteq> []" using ok(1) by (simp add: claim_ok_def nc)
  ultimately show ?case using Cons.IH[OF ok(2)] by (cases "claim_value nc") (simp add: nc)
qed simp

lemma claims_roundtrip: "claims_ok cs \<Longrightarrow> claims_from (map claim_value cs) [] = Some cs"
  using claims_from_written[of cs "[]"] bt_collect_ok[of cs] by (simp add: claims_ok_def bt_collect_def)

lemma state_roundtrip: "request_state_from (JString (request_state_str s)) = Some s"
  by (cases s) (simp_all add: request_state_from_def)

lemma caps_record_roundtrip: "caps_record_ok r \<Longrightarrow> caps_record_from (caps_record_value r) = Some r"
proof -
  assume ok: "caps_record_ok r"
  have "value_u64 (JInt (int (cr_pid r))) = Some (cr_pid r)" "value_u64 (JInt (int (cr_starttime r))) = Some (cr_starttime r)"
    "value_u64 (JInt (int (cr_ticket r))) = Some (cr_ticket r)"
    using ok by (auto simp: value_u64_Some caps_record_ok_def U32_MAX_def)
  moreover have "claims_from (map claim_value (cr_claims r)) [] = Some (cr_claims r)" "cr_claims r \<noteq> []"
    using ok claims_roundtrip by (auto simp: caps_record_ok_def claims_ok_def)
  ultimately show ?thesis
    using ok state_roundtrip[of "cr_state r"]
    by (simp add: caps_record_from_def caps_record_value_def obj_get_def filter_opt_def caps_record_ok_def)
qed

definition caps_ledger_ok :: "caps_ledger \<Rightarrow> bool" where
  "caps_ledger_ok l \<longleftrightarrow> cl_next_ticket l < 18446744073709551616 \<and> identities_ok l \<and> list_all caps_record_ok (cl_requests l)"

lemma caps_value_roundtrip: "caps_ledger_ok l \<Longrightarrow> caps_from_value path (caps_value l) = Inr l"
proof -
  assume ok: "caps_ledger_ok l"
  have "those (map caps_record_from (map caps_record_value (cl_requests l))) = Some (map (\<lambda>r. r) (cl_requests l))"
    using ok by (intro those_written) (auto simp: caps_record_roundtrip caps_ledger_ok_def list_all_iff)
  moreover have "value_u64 (JInt (int (cl_next_ticket l))) = Some (cl_next_ticket l)"
    using ok by (simp add: value_u64_Some caps_ledger_ok_def)
  moreover have same: "identities_ok \<lparr>cl_next_ticket = cl_next_ticket l, cl_requests = cl_requests l\<rparr>"
    using ok by (simp add: caps_ledger_ok_def identities_ok_def)
  ultimately show ?thesis
    using ok same by (simp add: caps_from_value_def caps_value_def obj_get_def caps_ledger_ok_def Let_def del: map_map)
qed

section \<open>The file\<close>

definition caps_apart :: "string \<Rightarrow> bool" where
  "caps_apart path \<longleftrightarrow> (\<forall>pid. ledger_apart (caps_stem pid) path)"

abbreviation caps_holds :: "'t ledger_codec \<Rightarrow> string \<Rightarrow> ledger_fs \<Rightarrow> caps_ledger \<Rightarrow> bool" where
  "caps_holds codec path fs l \<equiv> caps_load codec no_faults path fs = Inr l"

lemma caps_load_no_faults: "caps_load codec faults path fs = Inr l \<Longrightarrow> caps_holds codec path fs l"
  by (simp add: caps_load_def no_faults_def split: option.splits)

lemma caps_holds_cong: "fs' path = fs path \<Longrightarrow> caps_holds codec path fs' l \<longleftrightarrow> caps_holds codec path fs l"
  by (simp add: caps_load_def no_faults_def)

lemma caps_holds_printed:
  assumes "codec_ok codec" "caps_ledger_ok l" "lc_print codec (caps_value l) = Inr text" "fs path = Some text"
  shows "caps_holds codec path fs l"
  using assms by (simp add: caps_load_def no_faults_def codec_ok_def caps_value_roundtrip)

lemma caps_store_states:
  assumes "codec_ok (ce_codec env)" "caps_apart path" "caps_ledger_ok l" "caps_store env path l fs = (states, res)"
  shows "states \<noteq> []"
    and "fs' \<in> set states \<Longrightarrow> fs' path = fs path \<or> caps_holds (ce_codec env) path fs' l"
    and "res = Inr () \<Longrightarrow> caps_holds (ce_codec env) path (last states) l"
proof -
  have "ledger_apart (caps_stem (ce_pid env)) path" using assms(2) by (simp add: caps_apart_def)
  note run = store_value_states[OF assms(4)[unfolded caps_store_def] this]
  note printed = caps_holds_printed[OF assms(1,3)]
  show "states \<noteq> []" by (rule run(1))
  show "fs' \<in> set states \<Longrightarrow> fs' path = fs path \<or> caps_holds (ce_codec env) path fs' l" using run(2) printed by blast
  show "res = Inr () \<Longrightarrow> caps_holds (ce_codec env) path (last states) l" using run(3) printed by blast
qed

section \<open>The invariant\<close>

text \<open>The held demand of a resource as a mathematical sum.\<close>

definition held_of :: "string \<Rightarrow> caps_record \<Rightarrow> int" where
  "held_of name r =
     (if cr_state r = Held then (case bt_get (cr_claims r) name of Some c \<Rightarrow> cm_demand c | None \<Rightarrow> 0) else 0)"

definition total_held :: "caps_record list \<Rightarrow> string \<Rightarrow> int" where
  "total_held rs name = sum_list (map (held_of name) rs)"

definition CAP_LIMIT :: int where "CAP_LIMIT = 4611686018427387903"

definition own_request :: "caps_record \<Rightarrow> string" where
  "own_request r = dec_nat (cr_pid r) @ ''-'' @ dec_nat (cr_starttime r) @ ''-'' @ dec_nat (cr_ticket r)"

definition caps_respected :: "caps_record list \<Rightarrow> bool" where
  "caps_respected rs \<longleftrightarrow> (\<forall>r \<in> set rs. \<forall>name c. bt_get (cr_claims r) name = Some c \<longrightarrow> total_held rs name \<le> cm_capacity c)"

definition caps_agree :: "caps_record list \<Rightarrow> bool" where
  "caps_agree rs \<longleftrightarrow> (\<forall>r \<in> set rs. \<forall>r' \<in> set rs. \<forall>name c c'. bt_get (cr_claims r) name = Some c \<longrightarrow>
     bt_get (cr_claims r') name = Some c' \<longrightarrow> cm_capacity c = cm_capacity c')"

definition caps_inv :: "caps_ledger \<Rightarrow> bool" where
  "caps_inv l \<longleftrightarrow> caps_ledger_ok l \<and> caps_agree (cl_requests l) \<and> caps_respected (cl_requests l)
     \<and> (\<forall>r \<in> set (cl_requests l). cr_request r = own_request r
          \<and> (\<forall>name c. bt_get (cr_claims r) name = Some c \<longrightarrow> cm_capacity c \<le> CAP_LIMIT))"

lemma caps_agree_subset: "caps_agree rs \<Longrightarrow> set rs' \<subseteq> set rs \<Longrightarrow> caps_agree rs'"
  unfolding caps_agree_def by blast

lemma caps_agree_snoc:
  assumes "caps_agree rs"
    and "\<And>r name other c. r \<in> set rs \<Longrightarrow> bt_get (cr_claims r) name = Some other \<Longrightarrow> bt_get (cr_claims new) name = Some c \<Longrightarrow>
      cm_capacity other = cm_capacity c"
  shows "caps_agree (rs @ [new])"
  unfolding caps_agree_def
proof (intro ballI allI impI)
  fix r r' name c c'
  assume "r \<in> set (rs @ [new])" "r' \<in> set (rs @ [new])" and get: "bt_get (cr_claims r) name = Some c" "bt_get (cr_claims r') name = Some c'"
  then consider "r \<in> set rs" "r' \<in> set rs" | "r \<in> set rs" "r' = new" | "r = new" "r' \<in> set rs" | "r = new" "r' = new" by auto
  then show "cm_capacity c = cm_capacity c'"
  proof cases
    case 1
    then show ?thesis using assms(1) get unfolding caps_agree_def by blast
  next
    case 2
    then show ?thesis using assms(2) get by blast
  next
    case 3
    then show ?thesis using assms(2)[of r' name c' c] get by simp
  qed (use get in simp)
qed

lemma claims_ok_get: "claims_ok cs \<Longrightarrow> bt_get cs name = Some c \<Longrightarrow> 0 < cm_demand c \<and> cm_demand c \<le> cm_capacity c"
  by (auto simp: claims_ok_def claim_ok_def list_all_iff bt_get_def dest!: map_of_SomeD)

lemma held_of_nonneg: "caps_record_ok r \<Longrightarrow> 0 \<le> held_of name r"
  using claims_ok_get[of "cr_claims r" name] by (auto simp: held_of_def caps_record_ok_def split: option.splits)

lemma total_held_nonneg: "list_all caps_record_ok rs \<Longrightarrow> 0 \<le> total_held rs name"
  by (induction rs) (auto simp: total_held_def held_of_nonneg)

lemma total_held_filter: "list_all caps_record_ok rs \<Longrightarrow> total_held (filter P rs) name \<le> total_held rs name"
  by (induction rs) (auto simp: total_held_def held_of_nonneg add_increasing)

lemma total_held_unclaimed: "(\<And>r. r \<in> set rs \<Longrightarrow> bt_get (cr_claims r) name = None) \<Longrightarrow> total_held rs name = 0"
  by (induction rs) (auto simp: total_held_def held_of_def)

text \<open>The sum in \<open>i64\<close> is the mathematical one while it stays in range.\<close>

lemma held_demand_exact:
  "\<lbrakk>list_all caps_record_ok rs; 0 \<le> acc; acc + total_held rs name \<le> i64_max\<rbrakk> \<Longrightarrow>
     held_demand rs name acc = acc + total_held rs name"
proof (induction rs arbitrary: acc)
  case (Cons r rs)
  have nonneg: "0 \<le> held_of name r" "0 \<le> total_held rs name" using Cons.prems(1) held_of_nonneg total_held_nonneg by auto
  have split: "total_held (r # rs) name = held_of name r + total_held rs name" by (simp add: total_held_def)
  have "wrap64 (acc + held_of name r) = acc + held_of name r"
    using Cons.prems nonneg split by (intro wrap64_id) (simp add: is_i64_def i64_min_def i64_max_def)
  then have "held_demand (r # rs) name acc = held_demand rs name (acc + held_of name r)"
    by (auto simp: held_of_def split: option.splits)
  then show ?case using Cons.IH[of "acc + held_of name r"] Cons.prems nonneg split by simp
qed (simp add: total_held_def)

lemma caps_inv_filter:
  assumes "caps_inv l"
  shows "caps_inv (l\<lparr>cl_requests := filter P (cl_requests l)\<rparr>)"
proof -
  have ok: "list_all caps_record_ok (cl_requests l)" using assms by (simp add: caps_inv_def caps_ledger_ok_def)
  have "caps_respected (filter P (cl_requests l))"
    unfolding caps_respected_def
  proof (intro ballI allI impI)
    fix r name c
    assume "r \<in> set (filter P (cl_requests l))" "bt_get (cr_claims r) name = Some c"
    then have "total_held (cl_requests l) name \<le> cm_capacity c"
      using assms by (auto simp: caps_inv_def caps_respected_def)
    then show "total_held (filter P (cl_requests l)) name \<le> cm_capacity c"
      using total_held_filter[OF ok, of P name] by linarith
  qed
  moreover have "caps_ledger_ok (l\<lparr>cl_requests := filter P (cl_requests l)\<rparr>)"
    using ok assms unfolding caps_inv_def caps_ledger_ok_def identities_ok_def
    by (simp add: list_all_iff distinct_map_filter)
  moreover have "caps_agree (filter P (cl_requests l))"
  proof (rule caps_agree_subset)
    show "caps_agree (cl_requests l)" using assms unfolding caps_inv_def by blast
  qed (rule filter_is_subset)
  moreover have "\<forall>r \<in> set (filter P (cl_requests l)). cr_request r = own_request r
      \<and> (\<forall>name c. bt_get (cr_claims r) name = Some c \<longrightarrow> cm_capacity c \<le> CAP_LIMIT)"
    using assms unfolding caps_inv_def set_filter by blast
  moreover have "cl_requests (l\<lparr>cl_requests := filter P (cl_requests l)\<rparr>) = filter P (cl_requests l)" by simp
  ultimately show ?thesis unfolding caps_inv_def by (simp only: simp_thms)
qed

lemma filter_length_eq: "length (filter P xs) = length xs \<Longrightarrow> filter P xs = xs"
proof (induction xs)
  case (Cons x xs)
  then show ?case using length_filter_le[of P xs] by (cases "P x") auto
qed simp

lemma caps_inv_sweep:
  assumes "caps_inv l" "caps_sweep stat l = Inr (l', changed)"
  shows "caps_inv l'" "l' = l\<lparr>cl_requests := filter (\<lambda>r. caps_alive stat r = Inr True) (cl_requests l)\<rparr>"
    "\<not> changed \<Longrightarrow> l' = l"
proof -
  obtain retained dead where sweep: "sweep_loop (caps_alive stat) (cl_requests l) ([], []) = Inr (retained, dead)"
      "l' = l\<lparr>cl_requests := retained\<rparr>" "changed \<longleftrightarrow> length retained \<noteq> length (cl_requests l)"
    using assms(2) by (auto simp: caps_sweep_def split: sum.splits prod.splits)
  have retained: "retained = filter (\<lambda>r. caps_alive stat r = Inr True) (cl_requests l)"
    using sweep_loop_exact[OF sweep(1)] by simp
  show l': "l' = l\<lparr>cl_requests := filter (\<lambda>r. caps_alive stat r = Inr True) (cl_requests l)\<rparr>"
    using sweep(2) retained by simp
  show "caps_inv l'" unfolding l' by (rule caps_inv_filter[OF assms(1)])
  show "l' = l" if "\<not> changed"
  proof -
    have "length retained = length (cl_requests l)" using that sweep(3) by simp
    then have "retained = cl_requests l" unfolding retained by (rule filter_length_eq)
    then show ?thesis using sweep(2) by simp
  qed
qed

lemma first_some_None: "first_some xs = None \<longleftrightarrow> (\<forall>x \<in> set xs. x = None)"
  by (induction xs) (auto split: option.splits)

lemma capacity_conflict_None:
  assumes "capacity_conflict debug l cs = None" "bt_ok cs" "r \<in> set (cl_requests l)"
    "bt_get (cr_claims r) name = Some other" "bt_get cs name = Some c"
  shows "cm_capacity other = cm_capacity c"
proof -
  have "(name, c) \<in> set cs" using assms(5) by (auto simp: bt_get_def dest: map_of_SomeD)
  then have "conflict_text debug r (name, c) = None"
    using assms(1,3) by (force simp: capacity_conflict_def first_some_None)
  then show ?thesis using assms(4) by (auto simp: conflict_text_def split: if_splits)
qed

lemma dec_nat_no_dash: "CHR ''-'' \<notin> set (dec_nat n)"
  using dec_nat_digits[of n] not_digit_sign(2) by (auto simp: list_all_iff)

lemma takeWhile_until: "x \<notin> set xs \<Longrightarrow> takeWhile (\<lambda>c. c \<noteq> x) (xs @ x # ys) = xs"
  by (induction xs) auto

lemma own_request_ticket: "own_request r = own_request r' \<Longrightarrow> cr_ticket r = cr_ticket r'"
proof -
  have split: "rev (takeWhile (\<lambda>c. c \<noteq> CHR ''-'') (rev (own_request r))) = dec_nat (cr_ticket r)" for r
  proof -
    have "takeWhile (\<lambda>c. c \<noteq> CHR ''-'') (rev (own_request r)) = rev (dec_nat (cr_ticket r))"
      using dec_nat_no_dash[of "cr_ticket r"] takeWhile_until[of "CHR ''-''" "rev (dec_nat (cr_ticket r))"]
      unfolding own_request_def by simp
    then show ?thesis by simp
  qed
  assume "own_request r = own_request r'"
  then have "dec_nat (cr_ticket r) = dec_nat (cr_ticket r')" using split[of r] split[of r'] by simp
  then show ?thesis by (metis digits_value_dec_nat)
qed

lemma caps_inv_create:
  assumes inv: "caps_inv l" and new: "new = \<lparr>cr_pid = pid, cr_starttime = st, cr_request = request, cr_tag = tag,
      cr_ticket = cl_next_ticket l, cr_state = Waiting, cr_claims = cs\<rparr>"
    and request: "request = dec_nat pid @ ''-'' @ dec_nat st @ ''-'' @ dec_nat (cl_next_ticket l)"
    and ok: "0 < pid" "pid \<le> U32_MAX" "0 < st" "st < 18446744073709551616" "tag \<noteq> []" "claims_ok cs"
      "cl_next_ticket l + 1 < 18446744073709551616"
    and caps: "\<And>name c. bt_get cs name = Some c \<Longrightarrow> cm_capacity c \<le> CAP_LIMIT"
    and none: "capacity_conflict debug l cs = None"
  shows "caps_inv \<lparr>cl_next_ticket = cl_next_ticket l + 1, cl_requests = cl_requests l @ [new]\<rparr>"
proof -
  let ?rs = "cl_requests l"
  have old: "caps_ledger_ok l" "caps_agree ?rs" "caps_respected ?rs" "\<And>r. r \<in> set ?rs \<Longrightarrow> cr_request r = own_request r"
    using inv by (simp_all add: caps_inv_def)
  have own: "cr_request new = own_request new" by (simp add: new own_request_def request)
  have rec: "caps_record_ok new" using ok request by (simp add: new caps_record_ok_def)
  have fresh: "cr_ticket r < cl_next_ticket l" if "r \<in> set ?rs" for r
    using old(1) that by (simp add: caps_ledger_ok_def identities_ok_def list_all_iff)
  have "cr_request r \<noteq> cr_request new" if "r \<in> set ?rs" for r
    using own_request_ticket[of r new] old(4)[OF that] own fresh[OF that] by (auto simp: new)
  then have "identities_ok \<lparr>cl_next_ticket = cl_next_ticket l + 1, cl_requests = ?rs @ [new]\<rparr>"
    using old(1) fresh by (fastforce simp: caps_ledger_ok_def identities_ok_def list_all_iff new)
  then have ledger: "caps_ledger_ok \<lparr>cl_next_ticket = cl_next_ticket l + 1, cl_requests = ?rs @ [new]\<rparr>"
    using old(1) rec ok(7) by (simp add: caps_ledger_ok_def)
  have agree: "cm_capacity other = cm_capacity c"
    if "r \<in> set ?rs" "bt_get (cr_claims r) name = Some other" "bt_get cs name = Some c" for r name other c
    using capacity_conflict_None[OF none _ that] ok(6) by (simp add: claims_ok_def)
  have new_claims: "cr_claims new = cs" by (simp add: new)
  have agree_all: "caps_agree (?rs @ [new])" using old(2) agree by (intro caps_agree_snoc) (simp_all add: new)
  have same: "total_held (?rs @ [new]) name = total_held ?rs name" for name
    by (simp add: total_held_def held_of_def new)
  have "total_held ?rs name \<le> cm_capacity c" if c: "bt_get cs name = Some c" for name c
  proof (cases "\<exists>r \<in> set ?rs. bt_get (cr_claims r) name \<noteq> None")
    case True
    then obtain r other where "r \<in> set ?rs" "bt_get (cr_claims r) name = Some other" by auto
    then show ?thesis using old(3) agree[OF _ _ c] by (fastforce simp: caps_respected_def)
  next
    case False
    then have "total_held ?rs name = 0" by (intro total_held_unclaimed) auto
    then show ?thesis using claims_ok_get[OF ok(6) c] by simp
  qed
  then have respected: "caps_respected (?rs @ [new])"
    using old(3) new_claims unfolding caps_respected_def by (auto simp: same)
  have "\<forall>r \<in> set (?rs @ [new]). cr_request r = own_request r
      \<and> (\<forall>name c. bt_get (cr_claims r) name = Some c \<longrightarrow> cm_capacity c \<le> CAP_LIMIT)"
    using inv own caps new_claims by (auto simp: caps_inv_def)
  then show ?thesis using ledger agree_all respected unfolding caps_inv_def by (simp only: caps_ledger.simps)
qed

text \<open>Granting changes the state of one request only, and adds its demand.\<close>

lemma map_grant:
  assumes "\<And>r. f (r\<lparr>cr_state := Held\<rparr>) = f r"
  shows "map f (rs[i := (rs ! i)\<lparr>cr_state := Held\<rparr>]) = map f rs"
proof (cases "i < length rs")
  case True
  then have "(map f rs)[i := f (rs ! i)] = map f rs" using list_update_id[of "map f rs" i] by simp
  then show ?thesis by (simp add: map_update assms)
qed (simp add: list_update_beyond)

lemma granted_mem: "r' \<in> set (rs[i := (rs ! i)\<lparr>cr_state := Held\<rparr>]) \<Longrightarrow> i < length rs \<Longrightarrow> \<exists>r \<in> set rs. r' = r \<or> r' = r\<lparr>cr_state := Held\<rparr>"
  using set_update_subset_insert[of rs i "(rs ! i)\<lparr>cr_state := Held\<rparr>"] nth_mem[of i rs] by blast

lemma total_held_grant:
  assumes "i < length rs" "caps_record_ok (rs ! i)"
  shows "total_held (rs[i := (rs ! i)\<lparr>cr_state := Held\<rparr>]) name
    \<le> total_held rs name + (case bt_get (cr_claims (rs ! i)) name of Some c \<Rightarrow> cm_demand c | None \<Rightarrow> 0)"
proof -
  let ?d = "case bt_get (cr_claims (rs ! i)) name of Some c \<Rightarrow> cm_demand c | None \<Rightarrow> 0"
  have "rs = take i rs @ rs ! i # drop (Suc i) rs" using assms(1) by (rule id_take_nth_drop)
  then have old: "total_held rs name = total_held (take i rs) name + held_of name (rs ! i) + total_held (drop (Suc i) rs) name"
    unfolding total_held_def by (metis (no_types, lifting) add.assoc list.simps(9) map_append sum_list.Cons sum_list_append)
  have new: "total_held (rs[i := (rs ! i)\<lparr>cr_state := Held\<rparr>]) name = total_held (take i rs) name + ?d + total_held (drop (Suc i) rs) name"
    using assms(1) by (simp add: upd_conv_take_nth_drop total_held_def held_of_def)
  show ?thesis using held_of_nonneg[OF assms(2), of name] unfolding old new by simp
qed

lemma claims_fit_exact:
  assumes "caps_inv l" "i < length (cl_requests l)" "bt_get (cr_claims (cl_requests l ! i)) name = Some c"
  shows "wrap64 (held_demand (cl_requests l) name 0 + cm_demand c) = total_held (cl_requests l) name + cm_demand c"
proof -
  let ?r = "cl_requests l ! i"
  have r: "?r \<in> set (cl_requests l)" using assms(2) by simp
  have ok: "list_all caps_record_ok (cl_requests l)" using assms(1) by (simp add: caps_inv_def caps_ledger_ok_def)
  have "total_held (cl_requests l) name \<le> cm_capacity c" "cm_capacity c \<le> CAP_LIMIT"
    using assms(1,3) r by (auto simp: caps_inv_def caps_respected_def)
  moreover have "0 < cm_demand c" "cm_demand c \<le> cm_capacity c"
    using claims_ok_get[of "cr_claims ?r" name c] ok r assms(3) by (auto simp: caps_record_ok_def list_all_iff)
  moreover have "0 \<le> total_held (cl_requests l) name" by (rule total_held_nonneg[OF ok])
  moreover from calculation have "held_demand (cl_requests l) name 0 = total_held (cl_requests l) name"
    using held_demand_exact[OF ok, of 0 name] by (simp add: CAP_LIMIT_def i64_max_def)
  ultimately show ?thesis by (simp add: wrap64_id is_i64_def i64_min_def i64_max_def CAP_LIMIT_def)
qed

lemma caps_inv_grant:
  assumes inv: "caps_inv l" and i: "i < length (cl_requests l)" and fits: "claims_fit l (cr_claims (cl_requests l ! i))"
  shows "caps_inv (caps_grant l i)"
proof -
  let ?rs = "cl_requests l" and ?r = "cl_requests l ! i"
  let ?rs' = "?rs[i := ?r\<lparr>cr_state := Held\<rparr>]"
  have r: "?r \<in> set ?rs" using i by simp
  have ok: "list_all caps_record_ok ?rs" using inv by (simp add: caps_inv_def caps_ledger_ok_def)
  have mem: "\<exists>r \<in> set ?rs. r' = r \<or> r' = r\<lparr>cr_state := Held\<rparr>" if "r' \<in> set ?rs'" for r' using granted_mem[OF that i] .
  have claims: "\<exists>r \<in> set ?rs. cr_claims r = cr_claims r'" if "r' \<in> set ?rs'" for r' using mem[OF that] by auto
  have "identities_ok (l\<lparr>cl_requests := ?rs'\<rparr>)"
  proof -
    have "map cr_request ?rs' = map cr_request ?rs" "map cr_ticket ?rs' = map cr_ticket ?rs" by (simp_all add: map_grant)
    moreover have "list_all (\<lambda>r. cr_ticket r < cl_next_ticket l) ?rs'"
      using inv mem unfolding caps_inv_def caps_ledger_ok_def identities_ok_def list_all_iff by fastforce
    ultimately show ?thesis using inv by (simp add: caps_inv_def caps_ledger_ok_def identities_ok_def)
  qed
  moreover have "list_all caps_record_ok ?rs'"
    using ok mem unfolding list_all_iff by (fastforce simp: caps_record_ok_def)
  ultimately have ledger: "caps_ledger_ok (l\<lparr>cl_requests := ?rs'\<rparr>)" using inv by (simp add: caps_inv_def caps_ledger_ok_def)
  have agree: "cm_capacity c = cm_capacity c'"
    if "x \<in> set ?rs" "y \<in> set ?rs" "bt_get (cr_claims x) name = Some c" "bt_get (cr_claims y) name = Some c'" for x y name c c'
    using inv that unfolding caps_inv_def caps_agree_def by blast
  have agree': "caps_agree ?rs'" unfolding caps_agree_def using claims agree by metis
  have respected: "caps_respected ?rs'" unfolding caps_respected_def
  proof (intro ballI allI impI)
    fix r' name c assume "r' \<in> set ?rs'" and c: "bt_get (cr_claims r') name = Some c"
    then obtain x where x: "x \<in> set ?rs" "bt_get (cr_claims x) name = Some c" using claims by metis
    have old: "total_held ?rs name \<le> cm_capacity c" using inv x unfolding caps_inv_def caps_respected_def by blast
    have step: "total_held ?rs' name \<le> total_held ?rs name + (case bt_get (cr_claims ?r) name of Some c \<Rightarrow> cm_demand c | None \<Rightarrow> 0)"
      using total_held_grant[OF i] ok r by (simp add: list_all_iff)
    show "total_held ?rs' name \<le> cm_capacity c"
    proof (cases "bt_get (cr_claims ?r) name")
      case None
      then show ?thesis using step old by simp
    next
      case (Some d)
      then have "(name, d) \<in> set (cr_claims ?r)" by (auto simp: bt_get_def dest: map_of_SomeD)
      then have "wrap64 (held_demand ?rs name 0 + cm_demand d) \<le> cm_capacity d"
        using fits by (auto simp: claims_fit_def list_all_iff)
      then have "total_held ?rs name + cm_demand d \<le> cm_capacity d" using claims_fit_exact[OF inv i Some] by simp
      then show ?thesis using step Some agree[OF x(1) r x(2) Some] by simp
    qed
  qed
  have "\<forall>r' \<in> set ?rs'. cr_request r' = own_request r'
      \<and> (\<forall>name c. bt_get (cr_claims r') name = Some c \<longrightarrow> cm_capacity c \<le> CAP_LIMIT)"
  proof
    fix r' assume "r' \<in> set ?rs'"
    then obtain x where "x \<in> set ?rs" "r' = x \<or> r' = x\<lparr>cr_state := Held\<rparr>" using mem by blast
    then show "cr_request r' = own_request r' \<and> (\<forall>name c. bt_get (cr_claims r') name = Some c \<longrightarrow> cm_capacity c \<le> CAP_LIMIT)"
      using inv by (auto simp: caps_inv_def own_request_def)
  qed
  moreover have "cl_requests (l\<lparr>cl_requests := ?rs'\<rparr>) = ?rs'" by simp
  ultimately show ?thesis using ledger agree' respected unfolding caps_inv_def caps_grant_def by (simp only: simp_thms)
qed

end
