(* ===== verification/Caps_System.thy ===== *)
theory Caps_System
  imports Caps_Ledger
begin

text \<open>
  Processes that share one state file of capacities. A state has the file system, the running processes with their
  start times, and the reservations that processes have, waiting or held. An operation holds the lock
  while it reads, decides and replaces the file, so operations do not overlap, but a process can die at
  any state of the file system in between.
\<close>

section \<open>The claims of a step\<close>

text \<open>
  The requests that a coordinator makes for the scheduler: it asks for a step with a positive demand
  (\<open>scheduler.rs\<close>), and \<open>Coordinator::new\<close> refuses empty names. That capacities are at most \<open>CAP_LIMIT\<close> is an assumption.
\<close>

definition request_ok :: "(string, int) btree_map \<Rightarrow> (string, int) btree_map \<Rightarrow> bool" where
  "request_ok demands capacities \<longleftrightarrow> bt_ok demands \<and> list_ex (\<lambda>nd. snd nd \<noteq> 0) demands
     \<and> list_all (\<lambda>nd. fst nd \<noteq> []) demands \<and> list_all (\<lambda>nc. snd nc \<le> CAP_LIMIT) capacities"

lemma claims_for_claims:
  "claims_for debug demands capacities = Inr cs \<Longrightarrow>
     map (\<lambda>nc. (fst nc, cm_demand (snd nc))) cs = filter (\<lambda>nd. snd nd \<noteq> 0) demands
     \<and> list_all (\<lambda>nc. 0 < cm_demand (snd nc) \<and> cm_demand (snd nc) \<le> cm_capacity (snd nc)
         \<and> bt_get capacities (fst nc) = Some (cm_capacity (snd nc))) cs"
  by (induction debug demands capacities arbitrary: cs rule: claims_for.induct) (auto split: if_splits option.splits sum.splits)

abbreviation claims_limited :: "claims \<Rightarrow> bool" where
  "claims_limited cs \<equiv> \<forall>name c. bt_get cs name = Some c \<longrightarrow> cm_capacity c \<le> CAP_LIMIT"

lemma claims_for_ok:
  assumes "claims_for debug demands capacities = Inr cs" "request_ok demands capacities"
  shows "claims_ok cs" "claims_limited cs"
proof -
  let ?used = "filter (\<lambda>nd. snd nd \<noteq> 0) demands"
  note cs = claims_for_claims[OF assms(1)]
  have limit: "cm_capacity (snd nc) \<le> CAP_LIMIT" if "nc \<in> set cs" for nc
  proof -
    have "bt_get capacities (fst nc) = Some (cm_capacity (snd nc))" using cs that by (simp add: list_all_iff)
    then have "(fst nc, cm_capacity (snd nc)) \<in> set capacities" by (auto simp: bt_get_def dest: map_of_SomeD)
    then show ?thesis using assms(2) by (auto simp: request_ok_def list_all_iff)
  qed
  have names: "map fst cs = map fst ?used"
    using arg_cong[OF conjunct1[OF cs], of "map fst"] by (simp add: comp_def)
  have "bt_ok ?used" using assms(2) by (simp add: request_ok_def bt_ok_filter)
  then have "bt_ok cs" by (simp add: bt_ok_def names)
  moreover have "cs \<noteq> []"
  proof
    assume "cs = []"
    then have "?used = []" using names by simp
    then show False using assms(2) by (auto simp: request_ok_def list_ex_iff filter_empty_conv)
  qed
  moreover have "claim_ok nc" if "nc \<in> set cs" for nc
  proof -
    have "fst nc \<in> fst ` set ?used" using that names by (metis image_eqI list.set_map)
    then have "fst nc \<noteq> []" using assms(2) by (auto simp: request_ok_def list_all_iff)
    then show ?thesis using cs that limit[OF that]
      by (auto simp: list_all_iff claim_ok_def is_i64_def i64_min_def i64_max_def CAP_LIMIT_def)
  qed
  ultimately show "claims_ok cs" by (simp add: claims_ok_def list_all_iff)
  show "claims_limited cs" using limit by (auto simp: bt_get_def dest!: map_of_SomeD)
qed

section \<open>Reservations and their records\<close>

type_synonym open_reservation = "nat \<times> caps_reservation"

text \<open>The ledger has a reservation of a running process: its record, held when the reservation is.\<close>

definition recorded :: "(nat \<Rightarrow> nat option) \<Rightarrow> caps_ledger \<Rightarrow> open_reservation \<Rightarrow> bool" where
  "recorded procs l pr \<longleftrightarrow> (\<exists>r \<in> set (cl_requests l). cr_request r = cv_request (snd pr) \<and> cr_claims r = cv_claims (snd pr)
     \<and> cr_pid r = fst pr \<and> procs (fst pr) = Some (cr_starttime r) \<and> (cv_held (snd pr) \<longrightarrow> cr_state r = Held))"

lemma recorded_filter:
  "recorded procs l pr \<Longrightarrow> (\<And>r. cr_request r = cv_request (snd pr) \<Longrightarrow> procs (cr_pid r) = Some (cr_starttime r) \<Longrightarrow> P r) \<Longrightarrow>
     recorded procs (l\<lparr>cl_requests := filter P (cl_requests l)\<rparr>) pr"
  by (auto simp: recorded_def)

lemma recorded_snoc: "recorded procs l pr \<Longrightarrow> recorded procs \<lparr>cl_next_ticket = n, cl_requests = cl_requests l @ [r]\<rparr> pr"
  by (auto simp: recorded_def)

lemma granted_kept:
  assumes "r \<in> set rs" "i < length rs"
  shows "\<exists>r' \<in> set (rs[i := (rs ! i)\<lparr>cr_state := Held\<rparr>]). r' = r \<or> r' = r\<lparr>cr_state := Held\<rparr>"
proof -
  obtain j where j: "j < length rs" "r = rs ! j" using assms(1) by (auto simp: in_set_conv_nth)
  then have "rs[i := (rs ! i)\<lparr>cr_state := Held\<rparr>] ! j \<in> set (rs[i := (rs ! i)\<lparr>cr_state := Held\<rparr>])" by simp
  moreover have "rs[i := (rs ! i)\<lparr>cr_state := Held\<rparr>] ! j = (if i = j then r\<lparr>cr_state := Held\<rparr> else r)" using j assms(2) by simp
  ultimately show ?thesis by (auto split: if_splits)
qed

lemma recorded_grant:
  assumes "recorded procs l pr" "i < length (cl_requests l)"
  shows "recorded procs (caps_grant l i) pr"
proof -
  obtain r where r: "r \<in> set (cl_requests l)" "cr_request r = cv_request (snd pr)" "cr_claims r = cv_claims (snd pr)"
      "cr_pid r = fst pr" "procs (fst pr) = Some (cr_starttime r)" "cv_held (snd pr) \<longrightarrow> cr_state r = Held"
    using assms(1) by (auto simp: recorded_def)
  obtain r' where r': "r' \<in> set (cl_requests (caps_grant l i))" "r' = r \<or> r' = r\<lparr>cr_state := Held\<rparr>"
    using granted_kept[OF r(1) assms(2)] by (auto simp: caps_grant_def)
  show ?thesis unfolding recorded_def by (rule bexI[OF _ r'(1)]) (use r r'(2) in auto)
qed

lemma recorded_granted:
  assumes "recorded procs l (pid, rv)" "identities_ok l" "i < length (cl_requests l)" "cr_request (cl_requests l ! i) = cv_request rv"
  shows "recorded procs (caps_grant l i) (pid, rv\<lparr>cv_held := True\<rparr>)"
proof -
  obtain r where r: "r \<in> set (cl_requests l)" "cr_request r = cv_request rv" "cr_claims r = cv_claims rv"
      "cr_pid r = pid" "procs pid = Some (cr_starttime r)"
    using assms(1) by (auto simp: recorded_def)
  have "r = cl_requests l ! i"
    using assms(2-4) r(1,2) unfolding identities_ok_def by (metis distinct_map inj_onD nth_mem)
  then have "r\<lparr>cr_state := Held\<rparr> \<in> set (cl_requests (caps_grant l i))"
    using assms(3) by (auto simp: caps_grant_def set_update_memI)
  then show ?thesis unfolding recorded_def by (rule bexI[rotated]) (use r in auto)
qed

text \<open>Distinct reservations have distinct records, so what they hold is within the recorded sum.\<close>

definition taken :: "open_reservation list \<Rightarrow> string \<Rightarrow> int" where
  "taken prs name = sum_list (map (\<lambda>pr. if cv_held (snd pr)
     then (case bt_get (cv_claims (snd pr)) name of Some c \<Rightarrow> cm_demand c | None \<Rightarrow> 0) else 0) prs)"

lemma sum_list_matched:
  fixes w :: "'a \<Rightarrow> int" and v :: "'b \<Rightarrow> int"
  assumes "distinct (map f xs)" "\<And>x. x \<in> set xs \<Longrightarrow> \<exists>y \<in> set ys. g y = f x \<and> w x \<le> v y" "\<And>y. y \<in> set ys \<Longrightarrow> 0 \<le> v y"
  shows "sum_list (map w xs) \<le> sum_list (map v ys)"
  using assms
proof (induction xs arbitrary: ys)
  case Nil
  have "0 \<le> sum_list (map v ys)" by (rule sum_list_nonneg) (use Nil.prems(3) in auto)
  then show ?case by simp
next
  case (Cons x xs)
  obtain y where y: "y \<in> set ys" "g y = f x" "w x \<le> v y" using Cons.prems(2)[of x] by auto
  have "\<exists>z \<in> set (remove1 y ys). g z = f x' \<and> w x' \<le> v z" if x': "x' \<in> set xs" for x'
  proof -
    obtain z where z: "z \<in> set ys" "g z = f x'" "w x' \<le> v z" using Cons.prems(2)[of x'] x' by auto
    have "f x' \<noteq> f x" using Cons.prems(1) x' by (metis distinct.simps(2) image_eqI list.set_map list.simps(9))
    then have "z \<noteq> y" using z(2) y(2) by auto
    then show ?thesis using z by (auto simp: in_set_remove1)
  qed
  moreover have "0 \<le> v z" if "z \<in> set (remove1 y ys)" for z
    using that Cons.prems(3) notin_set_remove1 by metis
  ultimately have "sum_list (map w xs) \<le> sum_list (map v (remove1 y ys))" using Cons.IH[of "remove1 y ys"] Cons.prems(1) by simp
  then show ?case using y(3) sum_list_map_remove1[OF y(1), of v] by simp
qed

lemma taken_within:
  assumes "list_all (recorded procs l) prs" "distinct (map (cv_request \<circ> snd) prs)" "caps_ledger_ok l"
  shows "taken prs name \<le> total_held (cl_requests l) name"
  unfolding taken_def total_held_def
proof (rule sum_list_matched[where f = "cv_request \<circ> snd" and g = cr_request])
  show "0 \<le> held_of name r" if "r \<in> set (cl_requests l)" for r
    using that assms(3) by (auto simp: caps_ledger_ok_def list_all_iff intro: held_of_nonneg)
  fix pr assume "pr \<in> set prs"
  then obtain r where r: "r \<in> set (cl_requests l)" "cr_request r = cv_request (snd pr)" "cr_claims r = cv_claims (snd pr)"
      "cv_held (snd pr) \<longrightarrow> cr_state r = Held"
    using assms(1) by (auto simp: list_all_iff recorded_def)
  have "0 \<le> held_of name r" using r(1) assms(3) by (auto simp: caps_ledger_ok_def list_all_iff intro: held_of_nonneg)
  then show "\<exists>r \<in> set (cl_requests l). cr_request r = (cv_request \<circ> snd) pr \<and>
      (if cv_held (snd pr) then (case bt_get (cv_claims (snd pr)) name of Some c \<Rightarrow> cm_demand c | None \<Rightarrow> 0) else 0) \<le> held_of name r"
    by (intro bexI[OF _ r(1)]) (use r in \<open>auto simp: held_of_def split: option.splits\<close>)
qed (use assms(2) in simp)

section \<open>The states of the operations\<close>

definition procs_ok :: "(nat \<Rightarrow> nat option) \<Rightarrow> bool" where
  "procs_ok procs \<longleftrightarrow> (\<forall>pid s. procs pid = Some s \<longrightarrow> 0 < pid \<and> pid \<le> U32_MAX \<and> 0 < s \<and> s < 18446744073709551616)"

text \<open>An operation of a running process: the process table answers truthfully, or not at all.\<close>

definition caps_runs :: "'t ledger_codec \<Rightarrow> (nat \<Rightarrow> nat option) \<Rightarrow> 't caps_env \<Rightarrow> bool" where
  "caps_runs codec procs env \<longleftrightarrow> ce_codec env = codec \<and> procs (ce_pid env) \<noteq> None
     \<and> (\<forall>pid v. ce_stat env pid = Inr v \<longrightarrow> v = procs pid)"

definition caps_good :: "'t ledger_codec \<Rightarrow> string \<Rightarrow> (nat \<Rightarrow> nat option) \<Rightarrow> open_reservation list \<Rightarrow> ledger_fs \<Rightarrow> bool" where
  "caps_good codec path procs prs fs \<longleftrightarrow>
     (\<exists>l. caps_holds codec path fs l \<and> caps_inv l \<and> list_all (recorded procs l) prs)"

lemma caps_good_cong: "fs' path = fs path \<Longrightarrow> caps_good codec path procs prs fs' \<longleftrightarrow> caps_good codec path procs prs fs"
  unfolding caps_good_def using caps_holds_cong[of fs' path fs codec] by blast

lemma caps_good_mono: "caps_good codec path procs prs fs \<Longrightarrow> set prs' \<subseteq> set prs \<Longrightarrow> caps_good codec path procs prs' fs"
  unfolding caps_good_def list_all_iff by blast

lemma caps_store_good:
  assumes "codec_ok codec" "caps_apart path" "caps_runs codec procs env" "caps_good codec path procs prs fs"
    and "caps_inv l" "list_all (recorded procs l) prs" "fs' \<in> set (fst (caps_store env path l fs))"
  shows "caps_good codec path procs prs fs'"
proof -
  have "caps_ledger_ok l" using assms(5) unfolding caps_inv_def by blast
  from caps_store_states(2)[OF _ assms(2) this prod.collapse[symmetric] assms(7)]
  have "fs' path = fs path \<or> caps_holds codec path fs' l" using assms(1,3) by (simp add: caps_runs_def)
  then show ?thesis using assms(4-6) caps_good_cong[of fs' path fs codec] by (auto simp: caps_good_def)
qed

lemma caps_stored_good:
  assumes "codec_ok codec" "caps_apart path" "caps_runs codec procs env"
    and "caps_inv l" "list_all (recorded procs l) prs" "snd (caps_store env path l fs) = Inr ()"
  shows "caps_good codec path procs prs (last (fst (caps_store env path l fs)))"
proof -
  have "caps_ledger_ok l" using assms(4) unfolding caps_inv_def by blast
  from caps_store_states(3)[OF _ assms(2) this prod.collapse[symmetric] assms(6)]
  have "caps_holds codec path (last (fst (caps_store env path l fs))) l" using assms(1,3) by (simp add: caps_runs_def)
  then show ?thesis using assms(4,5) by (auto simp: caps_good_def)
qed

lemma recorded_swept:
  assumes "caps_runs codec procs env" "caps_inv l" "recorded procs l pr" "caps_sweep (ce_stat env) l = Inr (l', changed)"
  shows "recorded procs l' pr"
proof -
  have all: "list_all (\<lambda>r. \<exists>b. caps_alive (ce_stat env) r = Inr b) (cl_requests l)"
    using assms(4) sweep_loop_total[of "caps_alive (ce_stat env)" "cl_requests l" "([], [])"]
    by (auto simp: caps_sweep_def split: sum.splits)
  obtain r where r: "r \<in> set (cl_requests l)" "cr_request r = cv_request (snd pr)" "cr_claims r = cv_claims (snd pr)"
      "cr_pid r = fst pr" "procs (fst pr) = Some (cr_starttime r)" "cv_held (snd pr) \<longrightarrow> cr_state r = Held"
    using assms(3) by (auto simp: recorded_def)
  obtain v where v: "ce_stat env (cr_pid r) = Inr v"
    using all r(1) by (cases "ce_stat env (cr_pid r)") (auto simp: list_all_iff caps_alive_def)
  then have "v = procs (cr_pid r)" using assms(1) unfolding caps_runs_def by blast
  then have "caps_alive (ce_stat env) r = Inr True" using v r(4,5) by (simp add: caps_alive_def)
  then have "r \<in> set (cl_requests l')" using caps_inv_sweep(2)[OF assms(2,4)] r(1) by simp
  then show ?thesis using r unfolding recorded_def by blast
qed

text \<open>What a run under the lock starts from: the ledger of the file without the dead requests.\<close>

lemma caps_swept_cases:
  assumes "caps_runs codec procs env" "caps_good codec path procs prs fs"
  obtains (stopped) e where "caps_swept env path fs body = ([fs], Inl e)"
  | (swept) l changed where "caps_swept env path fs body = body l changed" "caps_inv l" "list_all (recorded procs l) prs"
proof -
  obtain l where l: "caps_holds codec path fs l" "caps_inv l" "list_all (recorded procs l) prs"
    using assms(2) by (auto simp: caps_good_def)
  have codec: "ce_codec env = codec" using assms(1) by (simp add: caps_runs_def)
  have "(\<exists>e. caps_swept env path fs body = ([fs], Inl e)) \<or> (\<exists>l1 l' changed. caps_load codec (ce_read_faults env) path fs = Inr l1
      \<and> caps_sweep (ce_stat env) l1 = Inr (l', changed) \<and> caps_swept env path fs body = body l' changed)"
    unfolding caps_swept_def codec by (simp split: option.split sum.split prod.split)
  then consider e where "caps_swept env path fs body = ([fs], Inl e)"
    | l1 l' changed where "caps_load codec (ce_read_faults env) path fs = Inr l1"
      "caps_sweep (ce_stat env) l1 = Inr (l', changed)" "caps_swept env path fs body = body l' changed"
    by blast
  then show thesis
  proof cases
    case (2 l1 l' changed)
    then have sweep: "caps_sweep (ce_stat env) l = Inr (l', changed)" using l(1) caps_load_no_faults by fastforce
    have "list_all (recorded procs l') prs"
      using l(3) recorded_swept[OF assms(1) l(2) _ sweep] by (auto simp: list_all_iff)
    then show thesis using swept 2(3) caps_inv_sweep(1)[OF l(2) sweep] by blast
  qed (rule stopped)
qed

lemma and_stored_states [simp]: "fst (and_stored run res) = fst run"
  by (simp add: and_stored_def)

lemma and_stored_Inr: "snd (and_stored run res) = Inr x \<Longrightarrow> snd run = Inr () \<and> res = Inr x"
  by (cases "snd run") (auto simp: and_stored_def)

section \<open>Creating a request\<close>

definition new_request :: "'t caps_env \<Rightarrow> string \<Rightarrow> claims \<Rightarrow> nat \<Rightarrow> nat \<Rightarrow> caps_record" where
  "new_request env tag cs st ticket = \<lparr>cr_pid = ce_pid env, cr_starttime = st,
     cr_request = dec_nat (ce_pid env) @ ''-'' @ dec_nat st @ ''-'' @ dec_nat ticket, cr_tag = tag,
     cr_ticket = ticket, cr_state = Waiting, cr_claims = cs\<rparr>"

definition created_ledger :: "'t caps_env \<Rightarrow> string \<Rightarrow> claims \<Rightarrow> nat \<Rightarrow> caps_ledger \<Rightarrow> caps_ledger" where
  "created_ledger env tag cs st l = \<lparr>cl_next_ticket = cl_next_ticket l + 1,
     cl_requests = cl_requests l @ [new_request env tag cs st (cl_next_ticket l)]\<rparr>"

lemma create_in_cases:
  obtains (refused) e where "create_in env path tag cs fs l = ([fs], Inl e)"
  | (stored) st where "capacity_conflict (ce_debug env) l cs = None" "ce_stat env (ce_pid env) = Inr (Some st)"
      "cl_next_ticket l + 1 < 18446744073709551616"
      "create_in env path tag cs fs l = and_stored (caps_store env path (created_ledger env tag cs st l) fs)
        (Inr \<lparr>cv_path = path, cv_request = cr_request (new_request env tag cs st (cl_next_ticket l)), cv_claims = cs, cv_held = False, cv_released = False\<rparr>)"
proof (cases "capacity_conflict (ce_debug env) l cs")
  case None
  then show thesis using that
    by (cases "current_starttime (ce_stat env) (ce_pid env)"; cases "cl_next_ticket l + 1 < 18446744073709551616")
      (auto simp: create_in_def Let_def current_starttime_def created_ledger_def new_request_def split: option.splits sum.splits)
qed (use that(1) in \<open>simp add: create_in_def\<close>)

lemma created_inv:
  assumes "caps_inv l" "procs_ok procs" "caps_runs codec procs env" "ce_stat env (ce_pid env) = Inr (Some st)"
    and "tag \<noteq> []" "claims_ok cs" "claims_limited cs"
    and "cl_next_ticket l + 1 < 18446744073709551616" "capacity_conflict (ce_debug env) l cs = None"
  shows "caps_inv (created_ledger env tag cs st l)" "procs (ce_pid env) = Some st"
proof -
  show st: "procs (ce_pid env) = Some st" using assms(3,4) unfolding caps_runs_def by fastforce
  then have ok: "0 < ce_pid env" "ce_pid env \<le> U32_MAX" "0 < st" "st < 18446744073709551616"
    using assms(2) unfolding procs_ok_def by blast+
  show "caps_inv (created_ledger env tag cs st l)"
    unfolding created_ledger_def new_request_def
    by (rule caps_inv_create[OF assms(1) refl refl ok assms(5,6,8) _ assms(9)]) (use assms(7) in blast)
qed

lemma create_in_good:
  assumes "codec_ok codec" "caps_apart path" "procs_ok procs" "caps_runs codec procs env" "caps_good codec path procs prs fs"
    and "tag \<noteq> []" "claims_ok cs" "claims_limited cs"
    and l: "caps_inv l" "list_all (recorded procs l) prs"
  shows "fs' \<in> set (fst (create_in env path tag cs fs l)) \<Longrightarrow> caps_good codec path procs prs fs'"
    and "snd (create_in env path tag cs fs l) = Inr rv \<Longrightarrow>
      caps_good codec path procs ((ce_pid env, rv) # prs) (last (fst (create_in env path tag cs fs l)))
      \<and> cv_path rv = path \<and> (\<forall>pr \<in> set prs. cv_request (snd pr) \<noteq> cv_request rv)"
proof -
  have "(fs' \<in> set (fst (create_in env path tag cs fs l)) \<longrightarrow> caps_good codec path procs prs fs')
    \<and> (snd (create_in env path tag cs fs l) = Inr rv \<longrightarrow>
      caps_good codec path procs ((ce_pid env, rv) # prs) (last (fst (create_in env path tag cs fs l)))
      \<and> cv_path rv = path \<and> (\<forall>pr \<in> set prs. cv_request (snd pr) \<noteq> cv_request rv))"
  proof (cases rule: create_in_cases[of env path tag cs fs l])
    case (stored st)
    let ?l = "created_ledger env tag cs st l" and ?new = "new_request env tag cs st (cl_next_ticket l)"
    note inv = created_inv[OF l(1) assms(3,4) stored(2) assms(6,7) assms(8) stored(3,1)]
    have recs: "list_all (recorded procs ?l) prs" using l(2) by (auto simp: list_all_iff created_ledger_def recorded_snoc)
    have new: "recorded procs ?l (ce_pid env, rv)" if "cv_request rv = cr_request ?new" "cv_claims rv = cs" "\<not> cv_held rv" for rv
      using that inv(2) by (auto simp: recorded_def created_ledger_def new_request_def)
    have "distinct (map cr_request (cl_requests ?l))"
      using inv(1) by (simp add: caps_inv_def caps_ledger_ok_def identities_ok_def)
    then have "cr_request ?new \<notin> cr_request ` set (cl_requests l)" by (simp add: created_ledger_def)
    then have fresh: "\<forall>pr \<in> set prs. cv_request (snd pr) \<noteq> cr_request ?new"
      using l(2) unfolding list_all_iff recorded_def by (metis image_eqI)
    show ?thesis
      using caps_store_good[OF assms(1,2,4,5) inv(1) recs] fresh
        caps_stored_good[OF assms(1,2,4) inv(1), of "(ce_pid env, rv) # prs" fs] recs new[of rv]
      unfolding stored(4) by (auto dest!: and_stored_Inr)
  qed (use assms(5) in simp)
  then show "fs' \<in> set (fst (create_in env path tag cs fs l)) \<Longrightarrow> caps_good codec path procs prs fs'"
    "snd (create_in env path tag cs fs l) = Inr rv \<Longrightarrow>
      caps_good codec path procs ((ce_pid env, rv) # prs) (last (fst (create_in env path tag cs fs l)))
      \<and> cv_path rv = path \<and> (\<forall>pr \<in> set prs. cv_request (snd pr) \<noteq> cv_request rv)" by blast+
qed

lemma caps_create_good:
  assumes "codec_ok codec" "caps_apart path" "procs_ok procs" "caps_runs codec procs env" "caps_good codec path procs prs fs"
    and "tag \<noteq> []" "request_ok demands capacities" "caps_create env path tag demands capacities fs = (states, res)"
  shows "fs' \<in> set states \<Longrightarrow> caps_good codec path procs prs fs'"
    and "res = Inr rv \<Longrightarrow> caps_good codec path procs ((ce_pid env, rv) # prs) (last states)
      \<and> cv_path rv = path \<and> (\<forall>pr \<in> set prs. cv_request (snd pr) \<noteq> cv_request rv)"
proof -
  have "states = [fs] \<and> (\<exists>e. res = Inl e) \<or> (\<exists>cs l. claims_for (ce_debug env) demands capacities = Inr cs
      \<and> (states, res) = create_in env path tag cs fs l \<and> caps_inv l \<and> list_all (recorded procs l) prs)"
  proof (cases "claims_for (ce_debug env) demands capacities")
    case (Inr cs)
    let ?body = "\<lambda>l changed. create_in env path tag cs fs l"
    have "(states, res) = caps_swept env path fs ?body" using assms(8) Inr by (simp add: caps_create_def)
    then show ?thesis using Inr by (cases rule: caps_swept_cases[OF assms(4,5), of ?body]) auto
  qed (use assms(8) in \<open>auto simp: caps_create_def\<close>)
  then consider e where "states = [fs]" "res = Inl e" | cs l where "claims_for (ce_debug env) demands capacities = Inr cs"
      "create_in env path tag cs fs l = (states, res)" "caps_inv l" "list_all (recorded procs l) prs" by metis
  then have "(fs' \<in> set states \<longrightarrow> caps_good codec path procs prs fs') \<and> (res = Inr rv \<longrightarrow>
      caps_good codec path procs ((ce_pid env, rv) # prs) (last states) \<and> cv_path rv = path \<and> (\<forall>pr \<in> set prs. cv_request (snd pr) \<noteq> cv_request rv))"
  proof cases
    case (2 cs l)
    show ?thesis
      using create_in_good[OF assms(1-6) claims_for_ok[OF 2(1) assms(7)] 2(3,4)] unfolding 2(2) by simp
  qed (use assms(5) in simp)
  then show "fs' \<in> set states \<Longrightarrow> caps_good codec path procs prs fs'"
    "res = Inr rv \<Longrightarrow> caps_good codec path procs ((ce_pid env, rv) # prs) (last states)
      \<and> cv_path rv = path \<and> (\<forall>pr \<in> set prs. cv_request (snd pr) \<noteq> cv_request rv)" by blast+
qed

section \<open>Granting and releasing\<close>

lemma caps_states_nonempty: "fst (caps_store env path l fs) \<noteq> []"
  by (auto simp: caps_store_def store_value_def cleanup_def Let_def split: sum.splits option.splits prod.splits)

lemma create_states_nonempty: "fst (caps_create env path tag demands capacities fs) \<noteq> []"
  by (auto simp: caps_create_def caps_swept_def create_in_def Let_def caps_states_nonempty
      split: sum.splits option.splits prod.splits if_splits)

lemma release_states_nonempty: "fst (fst (caps_release env rv fs)) \<noteq> []"
  by (auto simp: caps_release_def caps_swept_def Let_def caps_states_nonempty split: sum.splits option.splits prod.splits if_splits)

lemma position_of_Some: "position_of request rs = Some i \<Longrightarrow> i < length rs \<and> cr_request (rs ! i) = request"
  by (induction rs arbitrary: i) (auto split: if_splits)

lemma grant_in_cases:
  obtains (unchanged) res where "grant_in env rv fs l changed = ([fs], res)" "res \<noteq> Inr True"
  | (swept) "grant_in env rv fs l changed = and_stored (caps_store env (cv_path rv) l fs) (Inr False)"
  | (granted) i where "position_of (cv_request rv) (cl_requests l) = Some i" "cr_claims (cl_requests l ! i) = cv_claims rv"
      "\<not> blocked_by_earlier l (cr_ticket (cl_requests l ! i)) (cv_claims rv)" "claims_fit l (cv_claims rv)"
      "grant_in env rv fs l changed = and_stored (caps_store env (cv_path rv) (caps_grant l i) fs) (Inr True)"
proof (cases "position_of (cv_request rv) (cl_requests l)")
  case (Some i)
  then show thesis using that
    by (cases "capacity_conflict (ce_debug env) l (cv_claims rv)"; cases "cr_claims (cl_requests l ! i) = cv_claims rv";
        cases "\<not> blocked_by_earlier l (cr_ticket (cl_requests l ! i)) (cv_claims rv) \<and> claims_fit l (cv_claims rv)"; cases changed)
      (auto simp: grant_in_def)
qed (use that(1) in \<open>simp add: grant_in_def\<close>)

lemma grant_in_good:
  assumes "codec_ok codec" "caps_apart (cv_path rv)" "caps_runs codec procs env" "caps_good codec (cv_path rv) procs prs fs"
    and l: "caps_inv l" "list_all (recorded procs l) prs"
  shows "fs' \<in> set (fst (grant_in env rv fs l changed)) \<Longrightarrow> caps_good codec (cv_path rv) procs prs fs'"
    and "snd (grant_in env rv fs l changed) = Inr True \<Longrightarrow> list_all (\<lambda>pr. pr = (pid, rv) \<or> pr \<in> set prs) prs' \<Longrightarrow> (pid, rv) \<in> set prs \<Longrightarrow>
      caps_good codec (cv_path rv) procs ((pid, rv\<lparr>cv_held := True\<rparr>) # prs') (last (fst (grant_in env rv fs l changed)))"
proof -
  have "(fs' \<in> set (fst (grant_in env rv fs l changed)) \<longrightarrow> caps_good codec (cv_path rv) procs prs fs')
    \<and> (snd (grant_in env rv fs l changed) = Inr True \<longrightarrow> list_all (\<lambda>pr. pr = (pid, rv) \<or> pr \<in> set prs) prs' \<longrightarrow> (pid, rv) \<in> set prs \<longrightarrow>
      caps_good codec (cv_path rv) procs ((pid, rv\<lparr>cv_held := True\<rparr>) # prs') (last (fst (grant_in env rv fs l changed))))"
  proof (cases rule: grant_in_cases[of env rv fs l changed])
    case swept
    show ?thesis unfolding swept using caps_store_good[OF assms(1-4) l] by (auto dest: and_stored_Inr)
  next
    case (granted i)
    have i: "i < length (cl_requests l)" "cr_request (cl_requests l ! i) = cv_request rv" using position_of_Some[OF granted(1)] by auto
    have inv: "caps_inv (caps_grant l i)" using granted(2,4) by (intro caps_inv_grant[OF l(1) i(1)]) simp
    have recs: "list_all (recorded procs (caps_grant l i)) prs" using l(2) recorded_grant i(1) by (auto simp: list_all_iff)
    have ids: "identities_ok l" using l(1) by (simp add: caps_inv_def caps_ledger_ok_def)
    have "list_all (recorded procs (caps_grant l i)) ((pid, rv\<lparr>cv_held := True\<rparr>) # prs')"
      if "list_all (\<lambda>pr. pr = (pid, rv) \<or> pr \<in> set prs) prs'" "(pid, rv) \<in> set prs"
      using that recs l(2) recorded_granted[OF _ ids i] by (auto simp: list_all_iff)
    then show ?thesis
      using caps_store_good[OF assms(1-4) inv recs] caps_stored_good[OF assms(1-3) inv, of "(pid, rv\<lparr>cv_held := True\<rparr>) # prs'" fs]
      unfolding granted(5) by (auto dest: and_stored_Inr)
  qed (use assms(4) in auto)
  then show "fs' \<in> set (fst (grant_in env rv fs l changed)) \<Longrightarrow> caps_good codec (cv_path rv) procs prs fs'"
    "snd (grant_in env rv fs l changed) = Inr True \<Longrightarrow> list_all (\<lambda>pr. pr = (pid, rv) \<or> pr \<in> set prs) prs' \<Longrightarrow> (pid, rv) \<in> set prs \<Longrightarrow>
      caps_good codec (cv_path rv) procs ((pid, rv\<lparr>cv_held := True\<rparr>) # prs') (last (fst (grant_in env rv fs l changed)))" by blast+
qed

lemma try_grant_nonempty: "fst (fst (try_grant env rv fs)) \<noteq> []"
proof -
  have "fst (grant_in env rv fs l changed) \<noteq> []" for l changed
    by (cases rule: grant_in_cases[of env rv fs l changed]) (simp_all add: caps_states_nonempty)
  then show ?thesis
    by (auto simp: try_grant_def try_grant_run_def caps_swept_def Let_def split: sum.splits option.splits prod.splits)
qed

lemma try_grant_same: "try_grant env rv fs = (run, rv') \<Longrightarrow> cv_request rv' = cv_request rv \<and> cv_path rv' = cv_path rv"
  by (auto simp: try_grant_def Let_def split: if_splits)

lemma try_grant_good:
  assumes "codec_ok codec" "caps_apart (cv_path rv)" "caps_runs codec procs env" "caps_good codec (cv_path rv) procs prs fs"
    and "(pid, rv) \<in> set prs" "try_grant env rv fs = ((states, res), rv')"
  shows "fs' \<in> set states \<Longrightarrow> caps_good codec (cv_path rv) procs prs fs'"
    and "set prs' \<subseteq> insert (pid, rv') (set prs) \<Longrightarrow> caps_good codec (cv_path rv) procs prs' (last states)"
proof -
  have "states \<noteq> [] \<and> (fs' \<in> set states \<longrightarrow> caps_good codec (cv_path rv) procs prs fs')
    \<and> (set prs' \<subseteq> insert (pid, rv') (set prs) \<longrightarrow> caps_good codec (cv_path rv) procs prs' (last states))" for fs'
  proof (cases "cv_held rv")
    case True
    then have "states = [fs]" "rv' = rv" using assms(6) by (simp_all add: try_grant_def)
    then show ?thesis using assms(4,5) by (auto intro: caps_good_mono)
  next
    case False
    then have run: "caps_swept env (cv_path rv) fs (grant_in env rv fs) = (states, res)"
      "rv' = (if res = Inr True then rv\<lparr>cv_held := True\<rparr> else rv)"
      using assms(6) by (auto simp: try_grant_def try_grant_run_def Let_def)
    from assms(3,4) show ?thesis
    proof (cases rule: caps_swept_cases[of codec procs env "cv_path rv" prs fs "grant_in env rv fs"])
      case (stopped e)
      then show ?thesis using run assms(4,5) False by (auto intro: caps_good_mono)
    next
      case (swept l changed)
      have st: "grant_in env rv fs l changed = (states, res)" using swept(1) run(1) by simp
      note good = grant_in_good[OF assms(1-4) swept(2,3), where changed = changed, unfolded st]
      have ne: "states \<noteq> []" using st
        by (cases rule: grant_in_cases[of env rv fs l changed]) (auto simp: caps_states_nonempty and_stored_def)
      show ?thesis
      proof (cases "res = Inr True")
        case True
        have "caps_good codec (cv_path rv) procs ((pid, rv') # prs) (last states)"
          using good(2)[of pid prs] True assms(5) run(2) by (simp add: list_all_iff)
        from caps_good_mono[OF this, of prs'] show ?thesis using ne good(1) True run(2) by auto
      next
        case False
        have "caps_good codec (cv_path rv) procs prs (last states)" using good(1)[of "last states"] ne by simp
        from caps_good_mono[OF this, of prs'] show ?thesis using ne good(1) False run(2) assms(5) by auto
      qed
    qed
  qed
  then show "fs' \<in> set states \<Longrightarrow> caps_good codec (cv_path rv) procs prs fs'"
    "set prs' \<subseteq> insert (pid, rv') (set prs) \<Longrightarrow> caps_good codec (cv_path rv) procs prs' (last states)" by blast+
qed

lemma caps_release_good:
  assumes "codec_ok codec" "caps_apart (cv_path rv)" "caps_runs codec procs env" "caps_good codec (cv_path rv) procs prs fs"
    and "\<forall>pr \<in> set prs. cv_request (snd pr) \<noteq> cv_request rv" "fs' \<in> set (fst (fst (caps_release env rv fs)))"
  shows "caps_good codec (cv_path rv) procs prs fs'"
proof (cases "cv_released rv")
  case False
  let ?kept = "\<lambda>l. l\<lparr>cl_requests := filter (\<lambda>r. cr_request r \<noteq> cv_request rv) (cl_requests l)\<rparr>"
  let ?body = "\<lambda>l changed. caps_store env (cv_path rv) (?kept l) fs"
  have fs': "fs' \<in> set (fst (caps_swept env (cv_path rv) fs ?body))"
    using assms(6) False by (simp add: caps_release_def Let_def)
  from assms(3,4) show ?thesis
  proof (cases rule: caps_swept_cases[of codec procs env "cv_path rv" prs fs ?body])
    case (swept l changed)
    have "list_all (recorded procs (?kept l)) prs"
      using swept(3) assms(5) by (auto simp: list_all_iff intro!: recorded_filter)
    then show ?thesis using caps_store_good[OF assms(1-4) caps_inv_filter[OF swept(2)]] fs' swept(1) by simp
  qed (use fs' assms(4) in simp)
qed (use assms(4,6) in \<open>simp add: caps_release_def\<close>)

lemma coordinator_new_good:
  assumes "codec_ok codec" "caps_apart path" "caps_runs codec procs env" "caps_good codec path procs prs fs"
    and "fs' \<in> set (fst (coordinator_new env present path capacities fs))"
  shows "caps_good codec path procs prs fs'"
proof -
  let ?res = "\<lambda>l. case capacity_conflict (ce_debug env) l (map (\<lambda>(name, capacity). (name, \<lparr>cm_demand = 0, cm_capacity = capacity\<rparr>)) capacities) of
      Some e \<Rightarrow> Inl e | None \<Rightarrow> Inr \<lparr>co_path = path, co_capacities = capacities, co_pending = []\<rparr>"
  let ?body = "\<lambda>l changed. and_stored (if changed then caps_store env path l fs else ([fs], Inr ())) (?res l)"
  consider "fs' = fs" | "fs' \<in> set (fst (caps_swept env path fs ?body))"
    using assms(5) by (auto simp: coordinator_new_def split: if_splits option.splits)
  then show ?thesis
  proof cases
    case 2
    from assms(3,4) show ?thesis
    proof (cases rule: caps_swept_cases[of codec procs env path prs fs ?body])
      case (swept l changed)
      then show ?thesis using 2 caps_store_good[OF assms(1-4) swept(2,3)] assms(4) by (cases changed) auto
    qed (use 2 assms(4) in simp)
  qed (use assms(4) in simp)
qed

section \<open>The system\<close>

record caps_world =
  cw_fs :: ledger_fs
  cw_procs :: "nat \<Rightarrow> nat option"
  cw_open :: "open_reservation list"

definition caps_start :: "'t ledger_codec \<Rightarrow> string \<Rightarrow> caps_world \<Rightarrow> bool" where
  "caps_start codec path w \<longleftrightarrow> cw_procs w = (\<lambda>_. None) \<and> cw_open w = []
     \<and> caps_holds codec path (cw_fs w) \<lparr>cl_next_ticket = 0, cl_requests = []\<rparr>"

definition exited :: "nat \<Rightarrow> caps_world \<Rightarrow> caps_world" where
  "exited pid w = w\<lparr>cw_procs := (cw_procs w)(pid := None), cw_open := filter (\<lambda>pr. fst pr \<noteq> pid) (cw_open w)\<rparr>"

text \<open>
  A reservation is owned by the process that created it. Dropping it releases it, and it is gone whether
  or not the release succeeded.
\<close>

inductive caps_step :: "'t ledger_codec \<Rightarrow> string \<Rightarrow> caps_world \<Rightarrow> caps_world \<Rightarrow> bool" for codec path where
  started: "\<lbrakk>cw_procs w pid = None; 0 < pid; pid \<le> U32_MAX; 0 < s; s < 18446744073709551616\<rbrakk>
    \<Longrightarrow> caps_step codec path w (w\<lparr>cw_procs := (cw_procs w)(pid \<mapsto> s)\<rparr>)"
| ends: "caps_step codec path w (exited pid w)"
| opened: "\<lbrakk>caps_runs codec (cw_procs w) env; fs \<in> set (fst (coordinator_new env present path capacities (cw_fs w)))\<rbrakk>
    \<Longrightarrow> caps_step codec path w (w\<lparr>cw_fs := fs\<rparr>)"
| created: "\<lbrakk>caps_runs codec (cw_procs w) env; tag \<noteq> []; request_ok demands capacities;
      caps_create env path tag demands capacities (cw_fs w) = (states, Inr rv)\<rbrakk>
    \<Longrightarrow> caps_step codec path w (w\<lparr>cw_fs := last states, cw_open := (ce_pid env, rv) # cw_open w\<rparr>)"
| not_created: "\<lbrakk>caps_runs codec (cw_procs w) env; tag \<noteq> []; request_ok demands capacities;
      caps_create env path tag demands capacities (cw_fs w) = (states, Inl e)\<rbrakk>
    \<Longrightarrow> caps_step codec path w (w\<lparr>cw_fs := last states\<rparr>)"
| died_creating: "\<lbrakk>caps_runs codec (cw_procs w) env; tag \<noteq> []; request_ok demands capacities;
      fs \<in> set (fst (caps_create env path tag demands capacities (cw_fs w)))\<rbrakk>
    \<Longrightarrow> caps_step codec path w (exited (ce_pid env) (w\<lparr>cw_fs := fs\<rparr>))"
| tried: "\<lbrakk>caps_runs codec (cw_procs w) env; cw_open w = pre @ (ce_pid env, rv) # post;
      try_grant env rv (cw_fs w) = ((states, res), rv')\<rbrakk>
    \<Longrightarrow> caps_step codec path w (w\<lparr>cw_fs := last states, cw_open := pre @ (ce_pid env, rv') # post\<rparr>)"
| died_trying: "\<lbrakk>caps_runs codec (cw_procs w) env; (ce_pid env, rv) \<in> set (cw_open w);
      fs \<in> set (fst (fst (try_grant env rv (cw_fs w))))\<rbrakk>
    \<Longrightarrow> caps_step codec path w (exited (ce_pid env) (w\<lparr>cw_fs := fs\<rparr>))"
| dropped: "\<lbrakk>caps_runs codec (cw_procs w) env; cw_open w = pre @ (ce_pid env, rv) # post\<rbrakk>
    \<Longrightarrow> caps_step codec path w (w\<lparr>cw_fs := last (fst (fst (caps_release env rv (cw_fs w)))), cw_open := pre @ post\<rparr>)"
| died_dropping: "\<lbrakk>caps_runs codec (cw_procs w) env; (ce_pid env, rv) \<in> set (cw_open w);
      fs \<in> set (fst (fst (caps_release env rv (cw_fs w))))\<rbrakk>
    \<Longrightarrow> caps_step codec path w (exited (ce_pid env) (w\<lparr>cw_fs := fs\<rparr>))"

definition caps_world_good :: "'t ledger_codec \<Rightarrow> string \<Rightarrow> caps_world \<Rightarrow> bool" where
  "caps_world_good codec path w \<longleftrightarrow> caps_good codec path (cw_procs w) (cw_open w) (cw_fs w) \<and> procs_ok (cw_procs w)
     \<and> distinct (map (cv_request \<circ> snd) (cw_open w)) \<and> list_all (\<lambda>pr. cv_path (snd pr) = path) (cw_open w)"

lemma recorded_exited: "recorded procs l pr \<Longrightarrow> fst pr \<noteq> pid \<Longrightarrow> recorded (procs(pid := None)) l pr"
  by (auto simp: recorded_def)

lemma recorded_started: "recorded procs l pr \<Longrightarrow> procs pid = None \<Longrightarrow> recorded (procs(pid \<mapsto> s)) l pr"
  by (auto simp: recorded_def)

text \<open>The reservations of the other processes are enough when a process dies.\<close>

lemma exited_good:
  assumes "caps_world_good codec path w"
    and "caps_good codec path (cw_procs w) (filter (\<lambda>pr. fst pr \<noteq> pid) (cw_open w)) fs"
  shows "caps_world_good codec path (exited pid (w\<lparr>cw_fs := fs\<rparr>))"
proof -
  have "caps_good codec path ((cw_procs w)(pid := None)) (filter (\<lambda>pr. fst pr \<noteq> pid) (cw_open w)) fs"
    using assms(2) unfolding caps_good_def list_all_iff by (auto intro!: recorded_exited)
  moreover have "procs_ok ((cw_procs w)(pid := None))" using assms(1) by (auto simp: caps_world_good_def procs_ok_def)
  ultimately show ?thesis
    using assms(1) by (auto simp: caps_world_good_def exited_def list_all_iff distinct_map_filter)
qed

lemma distinct_apart:
  assumes "distinct (map f (pre @ x # post))"
  shows "\<forall>y \<in> set (pre @ post). f y \<noteq> f x"
proof (intro ballI notI)
  fix y assume "y \<in> set (pre @ post)" "f y = f x"
  then have "f x \<in> f ` set (pre @ post)" by (metis image_eqI)
  then show False using assms by auto
qed

lemma caps_step_good:
  assumes "codec_ok codec" "caps_apart path" "caps_world_good codec path w" "caps_step codec path w w'"
  shows "caps_world_good codec path w'"
proof -
  let ?prs = "cw_open w" and ?procs = "cw_procs w"
  have w: "caps_good codec path ?procs ?prs (cw_fs w)" "procs_ok ?procs" "distinct (map (cv_request \<circ> snd) ?prs)"
      "list_all (\<lambda>pr. cv_path (snd pr) = path) ?prs"
    using assms(3) by (simp_all add: caps_world_good_def)
  have path: "cv_path rv = path" if "(pid, rv) \<in> set ?prs" for pid rv using w(4) that by (auto simp: list_all_iff)
  have kept: "caps_world_good codec path (w\<lparr>cw_fs := fs\<rparr>)" if "caps_good codec path ?procs ?prs fs" for fs
    using that w(2-4) by (simp add: caps_world_good_def)
  have died: "caps_world_good codec path (exited pid (w\<lparr>cw_fs := fs\<rparr>))" if "caps_good codec path ?procs ?prs fs" for pid fs
    by (rule exited_good[OF assms(3) caps_good_mono[OF that]]) auto
  from assms(4) show ?thesis
  proof cases
    case (started pid s)
    have "caps_good codec path (?procs(pid \<mapsto> s)) ?prs (cw_fs w)"
      using w(1) started(2) unfolding caps_good_def list_all_iff by (auto intro!: recorded_started)
    then show ?thesis using started w by (auto simp: caps_world_good_def procs_ok_def)
  next
    case (ends pid)
    then show ?thesis using died[OF w(1)] by simp
  next
    case (opened env fs present capacities)
    then show ?thesis using kept coordinator_new_good[OF assms(1,2) opened(2) w(1)] by blast
  next
    case (created env tag demands capacities states rv)
    note good = caps_create_good(2)[OF assms(1,2) w(2) created(2) w(1) created(3-5) refl]
    then show ?thesis unfolding created(1) using w(2-4) by (auto simp: caps_world_good_def)
  next
    case (not_created env tag demands capacities states e)
    note good = caps_create_good(1)[OF assms(1,2) w(2) not_created(2) w(1) not_created(3-5)]
    have "states \<noteq> []" using not_created(5) create_states_nonempty by (metis fst_conv)
    then show ?thesis unfolding not_created(1) by (intro kept good) simp
  next
    case (died_creating env tag demands capacities fs)
    then show ?thesis
      using died caps_create_good(1)[OF assms(1,2) w(2) died_creating(2) w(1) died_creating(3,4) prod.collapse[symmetric]] by blast
  next
    case (tried env pre rv post states res rv')
    have mem: "(ce_pid env, rv) \<in> set ?prs" using tried(3) by simp
    note run = try_grant_good[OF assms(1) _ tried(2) _ mem tried(4)]
    note same = try_grant_same[OF tried(4)]
    have "caps_good codec path ?procs (pre @ (ce_pid env, rv') # post) (last states)"
      using run(2)[of "pre @ (ce_pid env, rv') # post"] assms(2) w(1) path[OF mem] tried(3) by auto
    then show ?thesis unfolding tried(1) using w tried(3) same by (simp add: caps_world_good_def)
  next
    case (died_trying env rv fs)
    obtain states res rv' where run: "try_grant env rv (cw_fs w) = ((states, res), rv')" by (metis prod.collapse)
    have "caps_good codec path ?procs ?prs fs"
      using try_grant_good(1)[OF assms(1) _ died_trying(2) _ died_trying(3) run, of fs] assms(2) w(1) path[OF died_trying(3)]
        died_trying(4) run by simp
    then show ?thesis unfolding died_trying(1) by (rule died)
  next
    case (dropped env pre rv post)
    have mem: "(ce_pid env, rv) \<in> set ?prs" using dropped(3) by simp
    have others: "\<forall>pr \<in> set (pre @ post). cv_request (snd pr) \<noteq> cv_request rv" 
      using distinct_apart[OF w(3)[unfolded dropped(3)]] by auto
    have "caps_good codec path ?procs (pre @ post) (cw_fs w)" using caps_good_mono[OF w(1), of "pre @ post"] dropped(3) by auto
    from caps_release_good[OF assms(1) _ dropped(2) _ others last_in_set[OF release_states_nonempty], of "cw_fs w"] this
    have "caps_good codec path ?procs (pre @ post) (last (fst (fst (caps_release env rv (cw_fs w)))))"
      using assms(2) path[OF mem] by simp
    then show ?thesis unfolding dropped(1) using w dropped(3) by (simp add: caps_world_good_def)
  next
    case (died_dropping env rv fs)
    let ?rest = "filter (\<lambda>pr. fst pr \<noteq> ce_pid env) ?prs"
    have others: "\<forall>pr \<in> set ?rest. cv_request (snd pr) \<noteq> cv_request rv"
    proof (intro ballI notI)
      fix pr assume pr: "pr \<in> set ?rest" "cv_request (snd pr) = cv_request rv"
      have "inj_on (cv_request \<circ> snd) (set ?prs)" using w(3) by (simp add: distinct_map)
      from inj_onD[OF this, of pr "(ce_pid env, rv)"] have "pr = (ce_pid env, rv)" using died_dropping(3) pr by simp
      then show False using pr(1) by simp
    qed
    have "caps_good codec path ?procs ?rest fs"
      using caps_release_good[OF assms(1) _ died_dropping(2) _ others died_dropping(4)] assms(2) path[OF died_dropping(3)]
        caps_good_mono[OF w(1), of ?rest] by auto
    then show ?thesis unfolding died_dropping(1) by (rule exited_good[OF assms(3)])
  qed
qed

lemma caps_start_good: "caps_start codec path w \<Longrightarrow> caps_world_good codec path w"
  by (auto simp: caps_start_def caps_world_good_def caps_good_def caps_inv_def caps_ledger_ok_def identities_ok_def
      caps_agree_def caps_respected_def procs_ok_def)

lemma caps_reachable_good:
  "(caps_step codec path)\<^sup>*\<^sup>* w0 w \<Longrightarrow> caps_start codec path w0 \<Longrightarrow> codec_ok codec \<Longrightarrow> caps_apart path \<Longrightarrow> caps_world_good codec path w"
  by (induction rule: rtranclp_induct) (auto intro: caps_start_good caps_step_good)

section \<open>The coordinator\<close>

text \<open>
  What a coordinator does is a sequence of these steps: it creates a request when a step has none, and tries it.
  A reservation that it hands out is one of the process, and held.
\<close>

lemma try_grant_held: "try_grant env rv fs = ((states, Inr True), rv') \<Longrightarrow> cv_held rv'"
  by (auto simp: try_grant_def Let_def split: if_splits)

lemma try_pending_run:
  assumes "try_pending env co tag rv newly fs = ((states, res), co')"
  obtains r rv' where "try_grant env rv fs = ((states, r), rv')" "\<And>g. res = Inr (Granted g) \<Longrightarrow> g = rv' \<and> cv_held rv'"
proof -
  obtain st r rv' where run: "try_grant env rv fs = ((st, r), rv')" by (metis prod.collapse)
  then show thesis using assms that try_grant_held[of env rv fs st rv']
    by (cases r) (auto simp: try_pending_def split: if_splits)
qed

lemma try_pending_steps:
  assumes "caps_runs codec (cw_procs w) env" "(ce_pid env, rv) \<in> set (cw_open w)" "try_pending env co tag rv newly (cw_fs w) = ((states, res), co')"
  shows "\<exists>w'. caps_step codec path w w' \<and> cw_fs w' = last states \<and> (\<forall>g. res = Inr (Granted g) \<longrightarrow> (ce_pid env, g) \<in> set (cw_open w') \<and> cv_held g)"
proof -
  obtain r rv' where run: "try_grant env rv (cw_fs w) = ((states, r), rv')" "\<And>g. res = Inr (Granted g) \<Longrightarrow> g = rv' \<and> cv_held rv'"
    using try_pending_run[OF assms(3)] by metis
  obtain pre post where "cw_open w = pre @ (ce_pid env, rv) # post" using assms(2) by (meson split_list)
  from caps_step.tried[OF assms(1) this run(1)] show ?thesis using run(2) by (intro exI conjI) auto
qed

lemma try_acquire_steps:
  assumes "caps_runs codec (cw_procs w) env" "caps_runs codec (cw_procs w) env'" "ce_pid env' = ce_pid env" "co_path co = path"
    and "tag \<noteq> []" "request_ok demands (co_capacities co)" "\<forall>tr \<in> set (co_pending co). (ce_pid env, snd tr) \<in> set (cw_open w)"
    and "try_acquire env env' co tag demands (cw_fs w) = ((states, res), co')"
  shows "\<exists>w'. (caps_step codec path)\<^sup>*\<^sup>* w w' \<and> cw_fs w' = last states
    \<and> (\<forall>g. res = Inr (Granted g) \<longrightarrow> (ce_pid env, g) \<in> set (cw_open w') \<and> cv_held g)"
proof (cases "demands = [] \<or> (bt_get (co_pending co) tag = None \<and> would_wait co demands)")
  case True
  then have "states = [cw_fs w]" "\<forall>g. res \<noteq> Inr (Granted g)" using assms(8) by (auto simp: try_acquire_def split: if_splits)
  then show ?thesis by (intro exI[of _ w]) simp
next
  case False
  show ?thesis
  proof (cases "bt_get (co_pending co) tag")
    case (Some rv)
    then have run: "try_pending env' co tag rv False (cw_fs w) = ((states, res), co')" using assms(8) False by (simp add: try_acquire_def)
    have "(tag, rv) \<in> set (co_pending co)" using Some by (auto simp: bt_get_def dest: map_of_SomeD)
    then have "(ce_pid env', rv) \<in> set (cw_open w)" using assms(3,7) by auto
    from try_pending_steps[OF assms(2) this run] show ?thesis unfolding assms(3) by blast
  next
    case None
    obtain st r where c: "caps_create env path tag demands (co_capacities co) (cw_fs w) = (st, r)" by (metis prod.collapse)
    show ?thesis
    proof (cases r)
      case (Inl e)
      then have "states = st" "\<forall>g. res \<noteq> Inr (Granted g)" using assms(4,8) None False c by (auto simp: try_acquire_def)
      then show ?thesis using caps_step.not_created[OF assms(1,5,6)] c Inl by (intro exI[of _ "w\<lparr>cw_fs := last st\<rparr>"]) auto
    next
      case (Inr rv)
      let ?w = "w\<lparr>cw_fs := last st, cw_open := (ce_pid env, rv) # cw_open w\<rparr>"
      have step: "caps_step codec path w ?w" using caps_step.created[OF assms(1,5,6)] c Inr by simp
      obtain states' where run: "try_pending env' (co\<lparr>co_pending := bt_insert tag rv (co_pending co)\<rparr>) tag rv True (cw_fs ?w) = ((states', res), co')"
          "states = st @ states'"
        using assms(4,8) None False c Inr by (auto simp: try_acquire_def Let_def split: prod.splits)
      have ne: "states' \<noteq> []" using try_pending_run[OF run(1)] try_grant_nonempty by (metis fst_conv)
      obtain w' where w': "caps_step codec path ?w w'" "cw_fs w' = last states'"
          "\<forall>g. res = Inr (Granted g) \<longrightarrow> (ce_pid env', g) \<in> set (cw_open w') \<and> cv_held g"
        using try_pending_steps[of codec ?w env' rv, OF _ _ run(1), of path] assms(2,3) by auto
      have "(caps_step codec path)\<^sup>*\<^sup>* w w'" using step w'(1) by (meson r_into_rtranclp rtranclp.rtrancl_into_rtrancl)
      then show ?thesis using w'(2,3) ne run(2) unfolding assms(3) by (intro exI[of _ w']) simp
    qed
  qed
qed

end
