(* ===== verification/Caps_Properties.thy ===== *)
theory Caps_Properties
  imports Caps_System Admit_Properties
begin

text \<open>
  The properties of shared capacities: whatever processes do with the state file and wherever they die, what
  running processes hold of a resource stays within its capacity; and when a waiting request is granted.
\<close>

section \<open>Runs without faults\<close>

definition caps_calm :: "'t caps_env \<Rightarrow> string \<Rightarrow> ledger_fs \<Rightarrow> bool" where
  "caps_calm env path fs \<longleftrightarrow> ce_lock env = None \<and> ce_read_faults env = no_faults \<and> ce_faults env = no_faults
     \<and> (\<forall>v. \<exists>text. lc_print (ce_codec env) v = Inr text) \<and> (\<forall>pid. \<exists>v. ce_stat env pid = Inr v)
     \<and> fs (temp_path (caps_stem (ce_pid env)) path (ce_stamp env) 0) = None"

lemma caps_calm_store:
  assumes "caps_calm env path fs" "codec_ok (ce_codec env)" "caps_apart path" "caps_ledger_ok l"
  shows "snd (caps_store env path l fs) = Inr ()" "caps_holds (ce_codec env) path (last (fst (caps_store env path l fs))) l"
proof -
  obtain t where "lc_print (ce_codec env) (caps_value l) = Inr t" using assms(1) unfolding caps_calm_def by blast
  then show stored: "snd (caps_store env path l fs) = Inr ()"
    using store_value_no_faults(1) assms(1) unfolding caps_store_def caps_calm_def by fastforce
  show "caps_holds (ce_codec env) path (last (fst (caps_store env path l fs))) l"
    using caps_store_states(3)[OF assms(2-4) prod.collapse[symmetric] stored] by simp
qed

definition caps_live :: "proc_table \<Rightarrow> caps_ledger \<Rightarrow> caps_ledger" where
  "caps_live stat l = l\<lparr>cl_requests := filter (\<lambda>r. caps_alive stat r = Inr True) (cl_requests l)\<rparr>"

lemma caps_calm_swept:
  assumes "caps_calm env path fs" "caps_holds (ce_codec env) path fs l" "caps_inv l"
  obtains changed where "caps_swept env path fs body = body (caps_live (ce_stat env) l) changed"
    "\<not> changed \<Longrightarrow> caps_live (ce_stat env) l = l"
proof -
  have "\<exists>b. caps_alive (ce_stat env) r = Inr b" for r
  proof -
    obtain v where "ce_stat env (cr_pid r) = Inr v" using assms(1) unfolding caps_calm_def by blast
    then show ?thesis by (simp add: caps_alive_def)
  qed
  then obtain res where "sweep_loop (caps_alive (ce_stat env)) (cl_requests l) ([], []) = Inr res"
    using sweep_loop_total[of "caps_alive (ce_stat env)" "cl_requests l" "([], [])"] by (auto simp: list_all_iff)
  then obtain l' changed where sweep: "caps_sweep (ce_stat env) l = Inr (l', changed)"
    by (cases res) (simp add: caps_sweep_def)
  note facts = caps_inv_sweep[OF assms(3) sweep]
  show thesis
  proof (rule that[of changed])
    show "caps_swept env path fs body = body (caps_live (ce_stat env) l) changed"
      using assms(1,2) sweep facts(2) by (simp add: caps_swept_def caps_calm_def caps_live_def)
    show "caps_live (ce_stat env) l = l" if "\<not> changed" using facts(2,3) that by (simp add: caps_live_def)
  qed
qed

section \<open>The decision\<close>

text \<open>A request may go: no earlier request that waits shares a resource with it, and every resource has room for it.\<close>

definition may_go :: "caps_record list \<Rightarrow> caps_record \<Rightarrow> bool" where
  "may_go rs r \<longleftrightarrow>
     (\<forall>q \<in> set rs. cr_state q = Waiting \<and> cr_ticket q < cr_ticket r \<longrightarrow>
        (\<forall>name. bt_get (cr_claims q) name = None \<or> bt_get (cr_claims r) name = None))
     \<and> (\<forall>name c. bt_get (cr_claims r) name = Some c \<longrightarrow> total_held rs name + cm_demand c \<le> cm_capacity c)"

lemma bt_get_ok: "bt_ok m \<Longrightarrow> bt_get m k = Some v \<longleftrightarrow> (k, v) \<in> set m"
  by (simp add: bt_ok_def bt_get_def strict_sorted_iff)

lemma no_conflict:
  assumes "caps_inv l" "r \<in> set (cl_requests l)"
  shows "capacity_conflict debug l (cr_claims r) = None"
proof -
  have "conflict_text debug q (name, c) = None" if q: "q \<in> set (cl_requests l)" "(name, c) \<in> set (cr_claims r)" for q name c
  proof -
    have "claims_ok (cr_claims r)"
      using assms by (auto simp: caps_inv_def caps_ledger_ok_def list_all_iff caps_record_ok_def)
    then have "bt_get (cr_claims r) name = Some c" using q(2) by (simp add: claims_ok_def bt_get_ok)
    then have "cm_capacity other = cm_capacity c" if "bt_get (cr_claims q) name = Some other" for other
      using assms q(1) that unfolding caps_inv_def caps_agree_def by blast
    then show ?thesis by (cases "bt_get (cr_claims q) name") (simp_all add: conflict_text_def)
  qed
  then show ?thesis by (auto simp: capacity_conflict_def first_some_None)
qed

lemma blocked_exact:
  "blocked_by_earlier l ticket cs \<longleftrightarrow> (\<exists>q \<in> set (cl_requests l). cr_state q = Waiting \<and> cr_ticket q < ticket
     \<and> (\<exists>name. bt_get (cr_claims q) name \<noteq> None \<and> bt_get cs name \<noteq> None))"
  unfolding blocked_by_earlier_def list_ex_iff bt_has_def bt_keys_def bt_get_def map_of_eq_None_iff by auto

lemma fits_exact:
  assumes "caps_inv l" "i < length (cl_requests l)"
  shows "claims_fit l (cr_claims (cl_requests l ! i)) \<longleftrightarrow>
    (\<forall>name c. bt_get (cr_claims (cl_requests l ! i)) name = Some c \<longrightarrow> total_held (cl_requests l) name + cm_demand c \<le> cm_capacity c)"
proof -
  let ?cs = "cr_claims (cl_requests l ! i)"
  have "cl_requests l ! i \<in> set (cl_requests l)" using assms(2) by simp
  then have "bt_ok ?cs"
    using assms(1) by (auto simp: caps_inv_def caps_ledger_ok_def list_all_iff caps_record_ok_def claims_ok_def)
  then have "claims_fit l ?cs \<longleftrightarrow> (\<forall>name c. bt_get ?cs name = Some c \<longrightarrow>
      wrap64 (held_demand (cl_requests l) name 0 + cm_demand c) \<le> cm_capacity c)"
    by (auto simp: claims_fit_def list_all_iff bt_get_ok)
  also have "\<dots> \<longleftrightarrow> (\<forall>name c. bt_get ?cs name = Some c \<longrightarrow> total_held (cl_requests l) name + cm_demand c \<le> cm_capacity c)"
    using claims_fit_exact[OF assms] by auto
  finally show ?thesis .
qed

lemma position_of_mem: "r \<in> set rs \<Longrightarrow> distinct (map cr_request rs) \<Longrightarrow> \<exists>i. position_of (cr_request r) rs = Some i \<and> rs ! i = r"
proof (induction rs)
  case (Cons x rs)
  show ?case
  proof (cases "cr_request x = cr_request r")
    case True
    then have "r = x" using Cons.prems by (metis distinct.simps(2) image_eqI list.set_map list.simps(9) set_ConsD)
    then show ?thesis by simp
  qed (use Cons in auto)
qed simp

lemma granted_alone:
  assumes "distinct (map cr_request rs)" "i < length rs"
  shows "rs[i := (rs ! i)\<lparr>cr_state := Held\<rparr>] = map (\<lambda>q. if cr_request q = cr_request (rs ! i) then q\<lparr>cr_state := Held\<rparr> else q) rs"
proof (rule nth_equalityI)
  fix j assume "j < length (rs[i := (rs ! i)\<lparr>cr_state := Held\<rparr>])"
  moreover from this have "cr_request (rs ! j) = cr_request (rs ! i) \<longleftrightarrow> j = i"
    using nth_eq_iff_index_eq[OF assms(1), of j i] assms(2) by simp
  ultimately show "rs[i := (rs ! i)\<lparr>cr_state := Held\<rparr>] ! j
      = map (\<lambda>q. if cr_request q = cr_request (rs ! i) then q\<lparr>cr_state := Held\<rparr> else q) rs ! j" by (simp add: nth_list_update)
qed simp

text \<open>The ledger after an attempt: the live requests, with the request held when it may go.\<close>

definition tried_ledger :: "caps_ledger \<Rightarrow> caps_record \<Rightarrow> caps_ledger" where
  "tried_ledger l r = (if may_go (cl_requests l) r
     then l\<lparr>cl_requests := map (\<lambda>q. if cr_request q = cr_request r then q\<lparr>cr_state := Held\<rparr> else q) (cl_requests l)\<rparr> else l)"

lemma not_blocked:
  "\<not> (\<exists>q \<in> A. P q \<and> Q q \<and> (\<exists>n. f q n \<noteq> None \<and> g n \<noteq> None)) \<longleftrightarrow> (\<forall>q \<in> A. P q \<and> Q q \<longrightarrow> (\<forall>n. f q n = None \<or> g n = None))"
  by metis

lemma grant_in_exact:
  assumes "caps_inv l" "r \<in> set (cl_requests l)" "cr_request r = cv_request rv" "cr_claims r = cv_claims rv"
  shows "grant_in env rv fs l changed =
    (if may_go (cl_requests l) r \<or> changed
     then and_stored (caps_store env (cv_path rv) (tried_ledger l r) fs) (Inr (may_go (cl_requests l) r))
     else ([fs], Inr False))"
    and "caps_inv (tried_ledger l r)"
proof -
  have ids: "distinct (map cr_request (cl_requests l))"
    using assms(1) by (simp add: caps_inv_def caps_ledger_ok_def identities_ok_def)
  obtain i where i: "position_of (cv_request rv) (cl_requests l) = Some i" "cl_requests l ! i = r"
    using position_of_mem[OF assms(2) ids] assms(3) by auto
  have len: "i < length (cl_requests l)" using position_of_Some[OF i(1)] by simp
  have go: "\<not> blocked_by_earlier l (cr_ticket r) (cr_claims r) \<and> claims_fit l (cr_claims r) \<longleftrightarrow> may_go (cl_requests l) r"
    unfolding may_go_def blocked_exact fits_exact[OF assms(1) len, unfolded i(2)] 
    by (rule conj_cong[OF not_blocked refl])
  have granted: "tried_ledger l r = caps_grant l i" if "may_go (cl_requests l) r"
    using that granted_alone[OF ids len, unfolded i(2)] by (simp add: tried_ledger_def caps_grant_def i(2))
  show "grant_in env rv fs l changed = (if may_go (cl_requests l) r \<or> changed
     then and_stored (caps_store env (cv_path rv) (tried_ledger l r) fs) (Inr (may_go (cl_requests l) r))
     else ([fs], Inr False))"
    using i no_conflict[OF assms(1,2)] go granted assms(4)
    by (cases "may_go (cl_requests l) r") (auto simp: grant_in_def tried_ledger_def)
  show "caps_inv (tried_ledger l r)"
  proof (cases "may_go (cl_requests l) r")
    case True
    then show ?thesis using granted caps_inv_grant[OF assms(1) len] go i(2) by auto
  qed (use assms(1) in \<open>simp add: tried_ledger_def\<close>)
qed

lemma try_grant_calm:
  assumes "caps_calm env (cv_path rv) fs" "codec_ok (ce_codec env)" "caps_apart (cv_path rv)" "caps_holds (ce_codec env) (cv_path rv) fs l"
    and "caps_inv l" "\<not> cv_held rv" "r \<in> set (cl_requests (caps_live (ce_stat env) l))" "cr_request r = cv_request rv" "cr_claims r = cv_claims rv"
  shows "\<exists>states. try_grant env rv fs = ((states, Inr (may_go (cl_requests (caps_live (ce_stat env) l)) r)),
        rv\<lparr>cv_held := may_go (cl_requests (caps_live (ce_stat env) l)) r\<rparr>)
      \<and> caps_holds (ce_codec env) (cv_path rv) (last states) (tried_ledger (caps_live (ce_stat env) l) r)"
proof -
  let ?live = "caps_live (ce_stat env) l"
  obtain changed where run: "caps_swept env (cv_path rv) fs (grant_in env rv fs) = grant_in env rv fs ?live changed"
      "\<not> changed \<Longrightarrow> ?live = l"
    using caps_calm_swept[OF assms(1,4,5)] by metis
  have inv: "caps_inv ?live" unfolding caps_live_def by (rule caps_inv_filter[OF assms(5)])
  note exact = grant_in_exact(1)[OF inv assms(7-9), of env fs changed] grant_in_exact(2)[OF inv assms(7-9)]
  have ok: "caps_ledger_ok (tried_ledger ?live r)" using exact(2) unfolding caps_inv_def by blast
  note stored = caps_calm_store[OF assms(1-3) ok]
  have same: "rv\<lparr>cv_held := False\<rparr> = rv" using assms(6) by (cases rv) simp
  show ?thesis
  proof (cases "may_go (cl_requests ?live) r \<or> changed")
    case True
    then show ?thesis using assms(6) run(1) exact(1) stored same
      by (auto simp: try_grant_def try_grant_run_def Let_def and_stored_def)
  next
    case False
    then show ?thesis using assms(4,6) run exact(1) same
      by (auto simp: try_grant_def try_grant_run_def Let_def tried_ledger_def)
  qed
qed

section \<open>Capacities and grants\<close>

text \<open>
  C13: Requests have a tag, named resources, a demand that is not zero, and capacities of at most \<open>CAP_LIMIT\<close>,
  half of the range of \<open>i64\<close> (the scheduler asks only for steps with a positive demand, and a coordinator
  refuses empty names; beyond the limit the sum of \<open>try_grant\<close> can wrap, see \<open>huge_capacity_overgrants\<close>). In every
  state that processes can bring about with such requests from an empty state file, with any faults and with
  processes that die at any point, the state file is readable, and for every resource that a running process
  claims, what the running processes hold of it is within what the file records as held, and that is within
  the capacity.
\<close>

theorem capacity_never_exceeded:
  assumes "codec_ok codec" "caps_apart path" "caps_start codec path w0" "(caps_step codec path)\<^sup>*\<^sup>* w0 w"
  shows "\<exists>l. caps_load codec no_faults path (cw_fs w) = Inr l \<and> (\<forall>pr \<in> set (cw_open w). \<forall>name c.
    bt_get (cv_claims (snd pr)) name = Some c \<longrightarrow>
      taken (cw_open w) name \<le> total_held (cl_requests l) name \<and> total_held (cl_requests l) name \<le> cm_capacity c)"
proof -
  have good: "caps_world_good codec path w" by (rule caps_reachable_good[OF assms(4,3,1,2)])
  then obtain l where l: "caps_holds codec path (cw_fs w) l" "caps_inv l" "list_all (recorded (cw_procs w) l) (cw_open w)"
    by (auto simp: caps_world_good_def caps_good_def)
  have "total_held (cl_requests l) name \<le> cm_capacity c"
    if pr: "pr \<in> set (cw_open w)" "bt_get (cv_claims (snd pr)) name = Some c" for pr name c
  proof -
    obtain r where "r \<in> set (cl_requests l)" "cr_claims r = cv_claims (snd pr)"
      using bspec[OF l(3)[unfolded list_all_iff] pr(1)] by (auto simp: recorded_def)
    then show ?thesis using l(2) pr(2) unfolding caps_inv_def caps_respected_def by metis
  qed
  moreover have "taken (cw_open w) name \<le> total_held (cl_requests l) name" for name
    using taken_within[OF l(3)] good l(2) by (simp add: caps_world_good_def caps_inv_def)
  ultimately show ?thesis using l(1) by blast
qed

text \<open>
  C14: In every such state, an attempt without faults on a waiting reservation of a running process grants it exactly
  when no live request with an earlier ticket waits for a resource it claims and every resource has room for its
  whole demand beside what live requests hold. The file then has the live requests, with this one held
  when it was granted.
\<close>

theorem capacity_grant_exact:
  assumes "codec_ok codec" "caps_apart path" "caps_start codec path w0" "(caps_step codec path)\<^sup>*\<^sup>* w0 w"
    and "caps_runs codec (cw_procs w) env" "(ce_pid env, rv) \<in> set (cw_open w)" "\<not> cv_held rv" "caps_calm env path (cw_fs w)"
  shows "\<exists>l r states. caps_load codec no_faults path (cw_fs w) = Inr l \<and> r \<in> set (cl_requests (caps_live (ce_stat env) l))
    \<and> cr_request r = cv_request rv \<and> cr_claims r = cv_claims rv
    \<and> try_grant env rv (cw_fs w) = ((states, Inr (may_go (cl_requests (caps_live (ce_stat env) l)) r)),
        rv\<lparr>cv_held := may_go (cl_requests (caps_live (ce_stat env) l)) r\<rparr>)
    \<and> caps_load codec no_faults path (last states) = Inr (tried_ledger (caps_live (ce_stat env) l) r)"
proof -
  have good: "caps_world_good codec path w" by (rule caps_reachable_good[OF assms(4,3,1,2)])
  then obtain l where l: "caps_holds codec path (cw_fs w) l" "caps_inv l" "list_all (recorded (cw_procs w) l) (cw_open w)"
    by (auto simp: caps_world_good_def caps_good_def)
  have path: "cv_path rv = path" using good assms(6) by (auto simp: caps_world_good_def list_all_iff)
  have codec: "ce_codec env = codec" using assms(5) by (simp add: caps_runs_def)
  obtain r where r: "r \<in> set (cl_requests l)" "cr_request r = cv_request rv" "cr_claims r = cv_claims rv"
      "cr_pid r = ce_pid env" "cw_procs w (ce_pid env) = Some (cr_starttime r)"
    using l(3) assms(6) by (auto simp: list_all_iff recorded_def)
  obtain v where v: "ce_stat env (ce_pid env) = Inr v" using assms(8) unfolding caps_calm_def by blast
  then have "v = cw_procs w (ce_pid env)" using assms(5) unfolding caps_runs_def by blast
  then have "r \<in> set (cl_requests (caps_live (ce_stat env) l))" using r v by (simp add: caps_live_def caps_alive_def)
  then show ?thesis
    using try_grant_calm[of env rv "cw_fs w" l r] assms(1,2,7,8) l r(2,3) unfolding path codec by blast
qed

section \<open>A run\<close>

lemma create_calm:
  assumes "caps_calm env path fs" "codec_ok (ce_codec env)" "caps_apart path" "caps_holds (ce_codec env) path fs l" "caps_inv l"
    and "procs_ok procs" "caps_runs (ce_codec env) procs env" "procs (ce_pid env) = Some st" "tag \<noteq> []"
    and "request_ok demands capacities" "claims_for (ce_debug env) demands capacities = Inr cs"
    and "cl_next_ticket l + 1 < 18446744073709551616" "capacity_conflict (ce_debug env) (caps_live (ce_stat env) l) cs = None"
  shows "\<exists>states. caps_create env path tag demands capacities fs =
      (states, Inr \<lparr>cv_path = path, cv_request = cr_request (new_request env tag cs st (cl_next_ticket l)), cv_claims = cs, cv_held = False, cv_released = False\<rparr>)
    \<and> caps_holds (ce_codec env) path (last states) (created_ledger env tag cs st (caps_live (ce_stat env) l)) \<and> caps_calm env path (last states)"
proof -
  let ?live = "caps_live (ce_stat env) l"
  let ?new = "created_ledger env tag cs st ?live"
  obtain v where v: "ce_stat env (ce_pid env) = Inr v" using assms(1) unfolding caps_calm_def by blast
  then have stat: "ce_stat env (ce_pid env) = Inr (Some st)" using assms(7,8) unfolding caps_runs_def by (metis (no_types))
  obtain changed where run: "caps_swept env path fs (\<lambda>l changed. create_in env path tag cs fs l) = create_in env path tag cs fs ?live"
    using caps_calm_swept[OF assms(1,4,5)] by metis
  have next_ticket: "cl_next_ticket ?live = cl_next_ticket l" by (simp add: caps_live_def)
  have inv: "caps_inv ?live" unfolding caps_live_def by (rule caps_inv_filter[OF assms(5)])
  have "caps_inv ?new"
    using created_inv(1)[OF inv assms(6,7) stat assms(9) claims_for_ok[OF assms(11,10)]] assms(12,13) next_ticket by simp
  then have ok: "caps_ledger_ok ?new" unfolding caps_inv_def by blast
  note stored = caps_calm_store[OF assms(1-3) ok]
  obtain t where "lc_print (ce_codec env) (caps_value ?new) = Inr t" using assms(1) unfolding caps_calm_def by blast
  then have "last (fst (caps_store env path ?new fs)) (temp_path (caps_stem (ce_pid env)) path (ce_stamp env) 0) = None"
    using store_value_no_temp[of "ce_codec env" "caps_value ?new" t fs "caps_stem (ce_pid env)" path "ce_stamp env" "caps_texts path"] assms(1,3)
    by (simp add: caps_store_def caps_calm_def caps_apart_def)
  then have calm: "caps_calm env path (last (fst (caps_store env path ?new fs)))" using assms(1) by (simp add: caps_calm_def)
  have "caps_create env path tag demands capacities fs = and_stored (caps_store env path ?new fs)
      (Inr \<lparr>cv_path = path, cv_request = cr_request (new_request env tag cs st (cl_next_ticket l)), cv_claims = cs, cv_held = False, cv_released = False\<rparr>)"
    using run assms(11-13) stat next_ticket
    by (simp add: caps_create_def create_in_def current_starttime_def Let_def created_ledger_def new_request_def)
  then show ?thesis using stored calm by (auto simp: and_stored_def)
qed

text \<open>One process that asks for two of three units.\<close>

definition demo_caps :: "unit caps_env" where
  "demo_caps = \<lparr>ce_codec = unary_codec, ce_read_faults = no_faults, ce_faults = no_faults, ce_lock = None, ce_pid = 10, ce_stamp = 0,
     ce_stat = \<lambda>pid. Inr (if pid = 10 then Some 5 else None), ce_debug = \<lambda>s. s\<rparr>"

definition demo_caps_fs :: ledger_fs where
  "demo_caps_fs = (\<lambda>_. None)(''c.json'' \<mapsto> replicate (to_nat (caps_value \<lparr>cl_next_ticket = 0, cl_requests = []\<rparr>)) (CHR ''1''))"

definition demo_world :: caps_world where
  "demo_world = \<lparr>cw_fs = demo_caps_fs, cw_procs = \<lambda>_. None, cw_open = []\<rparr>"

definition demo_claims :: claims where
  "demo_claims = [(''b'', \<lparr>cm_demand = 2, cm_capacity = 3\<rparr>)]"

lemma demo_caps_facts [simp]:
  "ce_codec demo_caps = unary_codec" "ce_pid demo_caps = 10" "ce_stat demo_caps = (\<lambda>pid. Inr (if pid = 10 then Some 5 else None))"
  "ce_debug demo_caps = (\<lambda>s. s)"
  by (simp_all add: demo_caps_def)

lemma demo_apart: "caps_apart ''c.json''"
  unfolding caps_apart_def using ledger_apart_json[of "''c.json''"] by (simp add: suffix_def)

lemma unary_ok: "codec_ok unary_codec"
  by (simp add: codec_ok_def unary_codec_def is_number_def)

lemma empty_inv: "caps_inv \<lparr>cl_next_ticket = 0, cl_requests = []\<rparr>"
  by (simp add: caps_inv_def caps_ledger_ok_def identities_ok_def caps_agree_def caps_respected_def)

lemma demo_caps_holds: "caps_holds unary_codec ''c.json'' demo_caps_fs \<lparr>cl_next_ticket = 0, cl_requests = []\<rparr>"
  using empty_inv by (intro caps_holds_printed[OF unary_ok, of _ "replicate (to_nat (caps_value \<lparr>cl_next_ticket = 0, cl_requests = []\<rparr>)) (CHR ''1'')"])
    (simp_all add: caps_inv_def demo_caps_fs_def unary_codec_def)

lemma demo_caps_start: "caps_start unary_codec ''c.json'' demo_world"
  using demo_caps_holds by (simp add: caps_start_def demo_world_def)

lemma demo_caps_calm: "caps_calm demo_caps ''c.json'' demo_caps_fs"
proof -
  have "temp_path (caps_stem 10) ''c.json'' 0 0 \<noteq> ''c.json''"
    using demo_apart unfolding caps_apart_def ledger_apart_def by blast
  then show ?thesis by (simp add: caps_calm_def demo_caps_def demo_caps_fs_def unary_codec_def)
qed

lemma demo_created:
  "\<exists>states. caps_create demo_caps ''c.json'' ''t'' [(''b'', 2)] [(''b'', 3)] demo_caps_fs =
      (states, Inr \<lparr>cv_path = ''c.json'', cv_request = cr_request (new_request demo_caps ''t'' demo_claims 5 0), cv_claims = demo_claims,
        cv_held = False, cv_released = False\<rparr>)
    \<and> caps_holds unary_codec ''c.json'' (last states) (created_ledger demo_caps ''t'' demo_claims 5 \<lparr>cl_next_ticket = 0, cl_requests = []\<rparr>)
    \<and> caps_calm demo_caps ''c.json'' (last states)"
proof -
  have live: "caps_live (ce_stat demo_caps) \<lparr>cl_next_ticket = 0, cl_requests = []\<rparr> = \<lparr>cl_next_ticket = 0, cl_requests = []\<rparr>"
    by (simp add: caps_live_def)
  have procs: "procs_ok ((\<lambda>_. None)(10 \<mapsto> 5))" "caps_runs unary_codec ((\<lambda>_. None)(10 \<mapsto> 5)) demo_caps"
    by (auto simp: procs_ok_def caps_runs_def U32_MAX_def)
  have req: "request_ok [(''b'', 2)] [(''b'', 3)]" "claims_for (ce_debug demo_caps) [(''b'', 2)] [(''b'', 3)] = Inr demo_claims"
    by (simp_all add: request_ok_def bt_ok_def CAP_LIMIT_def demo_claims_def bt_get_def)
  show ?thesis
    using create_calm[of demo_caps "''c.json''" demo_caps_fs "\<lparr>cl_next_ticket = 0, cl_requests = []\<rparr>" "(\<lambda>_. None)(10 \<mapsto> 5)" 5 "''t''"
        "[(''b'', 2)]" "[(''b'', 3)]" demo_claims]
      demo_caps_calm unary_ok demo_apart demo_caps_holds empty_inv procs req live
    by (simp add: capacity_conflict_def)
qed

text \<open>The world in which the process waits for its units, and the attempt that gives them to it.\<close>

abbreviation demo_rv :: caps_reservation where
  "demo_rv \<equiv> \<lparr>cv_path = ''c.json'', cv_request = cr_request (new_request demo_caps ''t'' demo_claims 5 0), cv_claims = demo_claims,
     cv_held = False, cv_released = False\<rparr>"

abbreviation demo_waiting :: "ledger_fs \<Rightarrow> caps_world" where
  "demo_waiting fs \<equiv> \<lparr>cw_fs = fs, cw_procs = (\<lambda>_. None)(10 \<mapsto> 5), cw_open = [(10, demo_rv)]\<rparr>"

lemma demo_runs: "caps_runs unary_codec ((\<lambda>_. None)(10 \<mapsto> 5)) demo_caps"
  by (auto simp: caps_runs_def)

lemma demo_reached:
  obtains fs where "(caps_step unary_codec ''c.json'')\<^sup>*\<^sup>* demo_world (demo_waiting fs)"
    "caps_holds unary_codec ''c.json'' fs (created_ledger demo_caps ''t'' demo_claims 5 \<lparr>cl_next_ticket = 0, cl_requests = []\<rparr>)"
    "caps_calm demo_caps ''c.json'' fs"
proof -
  let ?step = "caps_step unary_codec ''c.json''"
  obtain states where c: "caps_create demo_caps ''c.json'' ''t'' [(''b'', 2)] [(''b'', 3)] demo_caps_fs = (states, Inr demo_rv)"
      "caps_holds unary_codec ''c.json'' (last states) (created_ledger demo_caps ''t'' demo_claims 5 \<lparr>cl_next_ticket = 0, cl_requests = []\<rparr>)"
      "caps_calm demo_caps ''c.json'' (last states)"
    using demo_created by blast
  have "?step demo_world (demo_world\<lparr>cw_procs := (cw_procs demo_world)(10 \<mapsto> 5)\<rparr>)"
    by (rule caps_step.started) (simp_all add: demo_world_def U32_MAX_def)
  then have 1: "?step demo_world \<lparr>cw_fs = demo_caps_fs, cw_procs = (\<lambda>_. None)(10 \<mapsto> 5), cw_open = []\<rparr>"
    by (simp add: demo_world_def)
  have "request_ok [(''b'', 2)] [(''b'', 3)]" by (simp add: request_ok_def bt_ok_def CAP_LIMIT_def)
  then have 2: "?step \<lparr>cw_fs = demo_caps_fs, cw_procs = (\<lambda>_. None)(10 \<mapsto> 5), cw_open = []\<rparr> (demo_waiting (last states))"
    using caps_step.created[of unary_codec "\<lparr>cw_fs = demo_caps_fs, cw_procs = (\<lambda>_. None)(10 \<mapsto> 5), cw_open = []\<rparr>" demo_caps "''t''"
        "[(''b'', 2)]" "[(''b'', 3)]" "''c.json''" states demo_rv] demo_runs c(1) by simp
  have "?step\<^sup>*\<^sup>* demo_world \<lparr>cw_fs = demo_caps_fs, cw_procs = (\<lambda>_. None)(10 \<mapsto> 5), cw_open = []\<rparr>"
    by (rule r_into_rtranclp) (rule 1)
  from this 2 have "?step\<^sup>*\<^sup>* demo_world (demo_waiting (last states))" by (rule rtranclp.rtrancl_into_rtrancl)
  then show thesis using c(2,3) by (rule that)
qed

lemma demo_goes:
  "cl_requests (caps_live (ce_stat demo_caps) (created_ledger demo_caps ''t'' demo_claims 5 \<lparr>cl_next_ticket = 0, cl_requests = []\<rparr>))
     = [new_request demo_caps ''t'' demo_claims 5 0]"
  "may_go [new_request demo_caps ''t'' demo_claims 5 0] (new_request demo_caps ''t'' demo_claims 5 0)"
  by (auto simp: caps_live_def created_ledger_def caps_alive_def new_request_def may_go_def demo_claims_def bt_get_def total_held_def
      held_of_def split: if_splits)

theorem capacity_grant_exact_witness:
  "\<exists>w states. (caps_step unary_codec ''c.json'')\<^sup>*\<^sup>* demo_world w \<and> cw_open w = [(10, demo_rv)]
     \<and> try_grant demo_caps demo_rv (cw_fs w) = ((states, Inr True), demo_rv\<lparr>cv_held := True\<rparr>)"
proof -
  obtain fs where fs: "(caps_step unary_codec ''c.json'')\<^sup>*\<^sup>* demo_world (demo_waiting fs)"
      "caps_holds unary_codec ''c.json'' fs (created_ledger demo_caps ''t'' demo_claims 5 \<lparr>cl_next_ticket = 0, cl_requests = []\<rparr>)"
      "caps_calm demo_caps ''c.json'' fs"
    by (rule demo_reached)
  obtain l r states where l: "caps_holds unary_codec ''c.json'' fs l" "r \<in> set (cl_requests (caps_live (ce_stat demo_caps) l))"
      "try_grant demo_caps demo_rv fs = ((states, Inr (may_go (cl_requests (caps_live (ce_stat demo_caps) l)) r)),
        demo_rv\<lparr>cv_held := may_go (cl_requests (caps_live (ce_stat demo_caps) l)) r\<rparr>)"
    using capacity_grant_exact[OF unary_ok demo_apart demo_caps_start fs(1), of demo_caps demo_rv] demo_runs fs(3) by auto
  have l_eq: "l = created_ledger demo_caps ''t'' demo_claims 5 \<lparr>cl_next_ticket = 0, cl_requests = []\<rparr>" using l(1) fs(2) by simp
  have "r = new_request demo_caps ''t'' demo_claims 5 0" using l(2) unfolding l_eq demo_goes(1) by simp
  then have "may_go (cl_requests (caps_live (ce_stat demo_caps) l)) r" unfolding l_eq demo_goes(1) using demo_goes(2) by simp
  then show ?thesis using fs(1) l(3) by (intro exI[of _ "demo_waiting fs"] exI[of _ states]) simp
qed

theorem capacity_never_exceeded_witness:
  "\<exists>w l. (caps_step unary_codec ''c.json'')\<^sup>*\<^sup>* demo_world w \<and> taken (cw_open w) ''b'' = 2
     \<and> caps_load unary_codec no_faults ''c.json'' (cw_fs w) = Inr l \<and> 2 \<le> total_held (cl_requests l) ''b'' \<and> total_held (cl_requests l) ''b'' \<le> 3"
proof -
  obtain fs where fs: "(caps_step unary_codec ''c.json'')\<^sup>*\<^sup>* demo_world (demo_waiting fs)"
      "caps_holds unary_codec ''c.json'' fs (created_ledger demo_caps ''t'' demo_claims 5 \<lparr>cl_next_ticket = 0, cl_requests = []\<rparr>)"
      "caps_calm demo_caps ''c.json'' fs"
    by (rule demo_reached)
  let ?l = "created_ledger demo_caps ''t'' demo_claims 5 \<lparr>cl_next_ticket = 0, cl_requests = []\<rparr>"
  have inv: "caps_inv ?l"
    using caps_reachable_good[OF fs(1) demo_caps_start unary_ok demo_apart] fs(2) by (auto simp: caps_world_good_def caps_good_def)
  obtain states where t: "try_grant demo_caps demo_rv fs = ((states, Inr True), demo_rv\<lparr>cv_held := True\<rparr>)"
    using try_grant_calm[of demo_caps demo_rv fs ?l "new_request demo_caps ''t'' demo_claims 5 0"] fs(2,3) inv unary_ok demo_apart demo_goes
    by (auto simp: new_request_def)
  let ?w = "\<lparr>cw_fs = last states, cw_procs = (\<lambda>_. None)(10 \<mapsto> 5), cw_open = [(10, demo_rv\<lparr>cv_held := True\<rparr>)]\<rparr>"
  have "caps_step unary_codec ''c.json'' (demo_waiting fs) ?w"
    using caps_step.tried[of unary_codec "demo_waiting fs" demo_caps "[]" demo_rv "[]" states "Inr True" "demo_rv\<lparr>cv_held := True\<rparr>" "''c.json''"]
      demo_runs t by simp
  with fs(1) have run: "(caps_step unary_codec ''c.json'')\<^sup>*\<^sup>* demo_world ?w" by (rule rtranclp.rtrancl_into_rtrancl)
  have taken: "taken (cw_open ?w) ''b'' = 2" by (simp add: taken_def demo_claims_def bt_get_def)
  have claim: "bt_get (cv_claims (snd (10, demo_rv\<lparr>cv_held := True\<rparr>))) ''b'' = Some \<lparr>cm_demand = 2, cm_capacity = 3\<rparr>"
    by (simp add: demo_claims_def bt_get_def)
  show ?thesis
    using capacity_never_exceeded[OF unary_ok demo_apart demo_caps_start run] run taken claim by fastforce
qed

section \<open>Beyond the limit\<close>

text \<open>
  Without the limit on capacities the sum wraps: when a resource of the largest capacity is held
  completely, one more unit counts as fitting.
\<close>

lemma huge_capacity_overgrants:
  fixes r :: caps_record
  assumes "cr_state r = Held" "cr_claims r = [(''b'', \<lparr>cm_demand = i64_max, cm_capacity = i64_max\<rparr>)]"
  shows "claims_fit \<lparr>cl_next_ticket = n, cl_requests = [r]\<rparr> [(''b'', \<lparr>cm_demand = 1, cm_capacity = i64_max\<rparr>)]"
    and "i64_max < total_held [r] ''b'' + 1"
  using assms by (simp_all add: claims_fit_def bt_get_def total_held_def held_of_def wrap64_def i64_max_def)

end
