(* ===== verification/Spec2Isabelle.thy ===== *)
theory Spec2Isabelle
  imports Planner_Classify_Spec Planner_Priority Tick_Properties Tick_Config_Spec
    Queue_Wait Queue_Plan_Properties Queue_Front Queue_Render Queue_Rewrite
    Classifier_Properties Reserve_Properties Admit_Properties Caps_Properties
begin

text \<open>
  A verification development for the decision-making crates of the repository: \<open>pr-landing-planner\<close>,
  \<open>tick-hub\<close>, \<open>merge-queue\<close> and \<open>change-classifier\<close>, and the reservations of \<open>dagrun\<close>. All paths below
  are under \<open>src/rs/\<close>.

  \<^bold>\<open>The program and its parts.\<close> The repository holds command-line tools for hosts on which many agents
  work on one code base. The parts that decide something are libraries over data that other
  parts collect:

  \<^item> \<open>pr-landing-planner\<close> takes a snapshot of pull requests and their CI checks, builds a graph of
    dependencies and conflicts, and says which pull requests may land now and in which order.
  \<^item> \<open>tick-hub\<close> reads a configuration of reminders, runs the gates of those that are due, prints what
    they have to say, and stores when each one last fired. A tick is one process; the stored state
    connects it with the next one.
  \<^item> \<open>merge-queue\<close> orders the queued changes into batches that can be validated together, judges test
    results, and recomputes the generated counts that merged changes share.
  \<^item> \<open>change-classifier\<close> maps the paths of a change to the test nodes it needs, by a policy file.
  \<^item> \<open>dagrun\<close> reserves processor cores, memory and units of named resources for processes through three
    ledger files on disk. A reservation belongs to a process, which is identified by its number and
    start time from \<open>/proc\<close>.

  \<^bold>\<open>Shared theories.\<close> \<open>Prelude\<close> has 64-bit signed arithmetic (\<open>wrap64\<close>, \<open>sat64\<close>), the containers \<open>BTreeMap\<close>,
  \<open>BTreeSet\<close> and the insertion-ordered map, and the interfaces of the library as locales: \<open>keyed_map\<close>,
  \<open>ordered_map\<close>, \<open>ordered_set\<close>, and \<open>closure_loop\<close> for the loops that add what follows from what is there
  until nothing changes. \<open>closure_loop\<close> is interpreted for the propagation of holds, the blocking of
  landings, connected components, the front of the queue, undetermined reminders and the groups of a
  policy. \<open>Rust_Text\<close> has the string operations of Rust on bytes, \<open>Json\<close> the values of \<open>serde_json\<close>.

  \<^bold>\<open>pr-landing-planner.\<close> \<open>Planner_Model\<close> is \<open>model.rs\<close> without the records of the collectors; \<open>Planner_Mechanism\<close> is \<open>mechanism.rs\<close> and its edges;
  \<open>Planner_Graph\<close>, \<open>Planner_Hold\<close> and \<open>Planner_Schedule\<close> are \<open>graph.rs\<close>: edges and their transitive reduction,
  hold reasons, layering and clusters; \<open>Planner_Plan\<close> is \<open>plan.rs\<close>; \<open>Planner_Classify\<close> is \<open>classify.rs\<close> with its
  guarantees in \<open>Planner_Classify_Spec\<close>; \<open>Planner_Priority\<close> is \<open>priority.rs\<close>. The lemmas show what lands now,
  that the order is topological, that holds are the closure of the direct ones along
  dependencies, that the reduction keeps reachability, and that nothing lands on missing or
  contrary CI evidence.

  \<^bold>\<open>tick-hub.\<close> \<open>Tick_Text\<close> is \<open>text.rs\<close> and \<open>emit.rs\<close>; \<open>Tick_Model\<close> is \<open>model.rs\<close> and \<open>protocols.rs\<close>; \<open>Tick_Cadence\<close> is
  \<open>cadence.rs\<close> with the state file; \<open>Tick_State\<close> is \<open>state.rs\<close>; \<open>Tick_Render\<close> and \<open>Tick_Engine\<close> are \<open>engine.rs\<close>;
  \<open>Tick_Config\<close> is \<open>io.rs\<close>. \<open>Tick_Spec\<close> specifies a tick without threads, \<open>Tick_Refine\<close> proves that the
  engine with its bounded pool of gate threads and its streaming does exactly that, and
  \<open>Tick_Properties\<close> draws the consequences. \<open>Tick_Config_Spec\<close> shows which configurations are accepted,
  that their dependency graphs are acyclic, and the round trip of writing and reading. This theory
  composes configuration, tick, persisting and loading.

  \<^bold>\<open>merge-queue.\<close> \<open>Queue_Tests\<close> is \<open>tests.rs\<close>; \<open>Queue_Model\<close> is \<open>model.rs\<close> and \<open>Queue_Wait\<close> what its \<open>waiting_on\<close>
  reports; \<open>Queue_Plan\<close> is the planner of \<open>plan.rs\<close> with the patterns and priorities of \<open>state.rs\<close>,
  \<open>Queue_Plan_Spec\<close> its specification over the inputs, \<open>Queue_Plan_Properties\<close>, \<open>Queue_Front\<close> and \<open>Queue_Render\<close> what
  follows, and the rendering; \<open>Queue_Recount\<close> is \<open>recount.rs\<close>, with its guarantees in \<open>Queue_Recount_Spec\<close> and
  the rewriting of the pin file in \<open>Queue_Rewrite\<close>.

  \<^bold>\<open>change-classifier.\<close> \<open>Classifier\<close> is \<open>lib.rs\<close> and the commands of \<open>main.rs\<close>; \<open>Classifier_Expand\<close> treats the
  expansion of groups, \<open>Classifier_Glob\<close> the meaning of globs, \<open>Classifier_Spec\<close> the meaning of a
  classification, and \<open>Classifier_Properties\<close> proves the command safe and the verdict exact.

  \<^bold>\<open>dagrun.\<close> \<open>Proc_Stat\<close> is \<open>procstat.rs\<close>; \<open>Ledger\<close> is what \<open>reservation.rs\<close> and \<open>admission.rs\<close> have in common: reading
  a ledger, replacing it, and sweeping dead holders. \<open>Reserve\<close> is \<open>reservation.rs\<close> with the choice of cores of
  \<open>cgroup.rs\<close>; \<open>Reserve_Ledger\<close> treats its records, the choice (locale \<open>core_picker\<close>) and the sweep;
  \<open>Reserve_System\<close> is a step relation of processes that start, die at any point of an operation, and
  reserve, release, reclaim and ask; \<open>Reserve_Properties\<close> proves that live reservations are disjoint
  in every reachable state, when a reservation succeeds and what it gets. \<open>Admit\<close> is \<open>admission.rs\<close>, and
  \<open>Admit_Properties\<close> shows the exact decision, that the live reservations in the ledger stay within the
  budget at every state of a request, and what goes wrong when two reservations have equal records.
  \<open>Caps\<close> is \<open>resource_caps.rs\<close> with the requests, the state file and the coordinator of a run; \<open>Caps_Ledger\<close> has the
  round trip of the state file and the invariant of a ledger; \<open>Caps_System\<close> is a step relation of processes
  that create, try and drop requests and die at any point, with the proof that every step keeps
  the records of running processes, and that a coordinator only makes such steps; \<open>Caps_Properties\<close> proves
  that capacities are never exceeded and when a request is granted. Capacities are assumed to be at most
  \<open>CAP_LIMIT\<close>, half of the range of \<open>i64\<close>, so that a held sum and a demand add up without wrap-around.

  \<^bold>\<open>How the code is translated.\<close> A struct is a record, an enum a datatype, a function a function with
  the same guards in the same order. A failure is a value: the left side of a sum with the message
  of the code, or an error constructor where the text carries nothing else. A \<open>HashMap\<close> whose order
  is not observed is an ordered map. Writing a file is a list of the states that the file system
  goes through, so that a crash is a prefix of it, with faults injected at every call.

  \<^bold>\<open>Termination and bounds.\<close> Every loop of the code but one is a structural recursion or a function
  with a measure, so its definition is total; the closure loops end because each round adds an
  element of a finite set, and the search for dependency cycles because the set of visited
  names grows. The exception is \<open>stack_loop\<close> of \<open>Planner_Schedule\<close>, which has fuel, one unit per member of
  the stack; \<open>stack_order_total\<close> shows that this is enough whenever the members are in the map of nodes (otherwise
  the code panics, and the result is \<open>None\<close>). (\<open>read_pairs\<close> of \<open>Tick_Text\<close>, a reader that
  the code does not have, uses fuel to state that action lines can be read back.)
  The worker pool of a tick is a recursion over the gates still to be joined. Epochs,
  cadences and counts that can overflow are integers with the range of \<open>i64\<close> and its wrapping or
  saturation written out; \<open>u64\<close> counters that the code only compares are natural numbers.

  \<^bold>\<open>Parameters.\<close> Code outside these crates is an argument of the definitions that use it: the regular
  expressions, the text codecs of JSON and YAML, gates and commands with their outcomes (a panic
  included), file contents, the process table and the sampled counters, git, clocks, the debug
  format of strings, and \<open>f64\<close> conversions and quotients. What a property needs of one is a hypothesis
  of it, with a witness that instantiates the parameter by a concrete function.

  \<^bold>\<open>Not modelled.\<close> The collectors, command lines and probes of the modelled crates, which run
  subprocesses and pass their results to the functions modelled here; the running, serving and caching
  parts of \<open>merge-queue\<close>; the scheduler and the cgroup control of \<open>dagrun\<close>, with the parsers of
  \<open>/proc/interrupts\<close> and of the counters of \<open>/proc/stat\<close>; the golden vectors of \<open>change-classifier\<close>; and the
  supervision, terminal, chat, voice, usage and pacing tools (\<open>agentctl\<close>, \<open>wrkslotsd\<close>, \<open>wrkviz\<close>, \<open>herdr-run\<close>,
  \<open>term-backend\<close>, \<open>agent-harness\<close>, \<open>agent-teams\<close>, \<open>chat-subscription\<close>, \<open>vibe-talk\<close>, \<open>agent-usage\<close>, \<open>agent-queue\<close>,
  \<open>gh-paced\<close>): these are mostly orchestration of processes, terminals, sockets and network services,
  whose behaviour is in code that is not in the repository.
\<close>

section \<open>From a configuration file to the next tick\<close>

definition sample_phased_reminder :: reminder where
  "sample_phased_reminder = (reminder_new ''a'' (emit_note ''look''))\<lparr>rm_cadence_secs := 3600, rm_cadence_offset_secs := Some 60\<rparr>"

definition sample_phased :: tick_config where
  "sample_phased = \<lparr>tc_reminders = [sample_phased_reminder], tc_health_checks = [], tc_description = []\<rparr>"

text \<open>
  C7: A phased reminder of an accepted configuration, whose name does not start with a number sign, fires
  once per period, across restarts. When a tick that returned has dealt with it and its fired state was
  persisted, the state that the next process loads makes it not due at any later time before the
  next instant of its phase, whatever the other entries are; from that instant on it is due again
  (inside its window, when it has one). The clock is not negative and does not go back. (A name that starts
  with a number sign is accepted too, but its entry is lost when the state is loaded.)
\<close>

theorem tick_once_per_period:
  assumes config: "config_from_value v = Inr config" "r \<in> set (tc_reminders config)"
      "rm_cadence_offset_secs r = Some off" "\<not> starts_with (rm_name r) ''#''"
    and tick: "sane run cb" "run_tick_inner run probe config state now fired ctm pend cb sink = Done (res, sink')"
      "bt_ok fired"
    and dealt: "os_enabled state" "reminder_due now fired r" "list_all (flag_truthy (os_flags state)) (rm_requires_flags r)"
      "settled (tick_undetermined run config state now fired pend) r (eval_gate run (rm_gate r))"
    and persist: "persist_fired_state faults path (tr_fired res) fs = (states, Inr ())"
      "\<And>kv. kv \<in> set (tr_fired res) \<Longrightarrow> is_i64 (snd kv)"
    and clock: "0 \<le> now" "now \<le> now'" "is_i64 now'"
  shows "reminder_due now' (load_fired_state (last states path)) r \<longleftrightarrow>
    scheduled_instant (rm_cadence_secs r) off now + rm_cadence_secs r \<le> now'
    \<and> (case rm_cadence_window_secs r of None \<Rightarrow> True
       | Some w \<Rightarrow> now' - scheduled_instant (rm_cadence_secs r) off now' < w)"
proof -
  note eff = tick_Done_effect[OF tick(1,2)]
  have ok: "config_ok config" by (rule config_from_value_wf[OF config(1)])
  then have rok: "cadence_ok r" "name_ok (rm_name r)" and dist: "distinct (map rm_name (tc_reminders config))"
    using config(2) by (auto simp: config_ok_def list_all_iff reminder_ok_def)
  have get: "bt_get (tr_fired res) (rm_name r) = Some now"
    using tick_effect_fired[OF eff tick(3) dist config(2)] rok(2) dealt config(2)
    by (simp add: name_ok_def Runnable_planned)
  have "load_fired_state (last states path) = filter (\<lambda>kv. \<not> starts_with (fst kv) ''#'') (tr_fired res)"
    unfolding persisted(1)[OF persist(1)]
    using persisted(2)[OF persist(1)] persist(2) by (intro load_written tick_effect_ok[OF eff tick(3)]) blast
  also have "bt_get \<dots> (rm_name r) = Some now"
    using get config(4) bt_get_retain[of "\<lambda>k. \<not> starts_with k ''#''" "tr_fired res" "rm_name r"]
    by (simp add: bt_retain_def case_prod_unfold)
  finally have loaded: "bt_get (load_fired_state (last states path)) (rm_name r) = Some now" .
  have "is_i64 now" using clock by (auto simp: i64_defs)
  then show ?thesis
    using phased_due_iff[OF _ _ _ _ loaded clock(1) _ clock(2,3), of "rm_cadence_secs r" off] rok(1) config(3)
    by (auto simp: reminder_due_def cadence_ok_def)
qed

theorem tick_once_per_period_witness:
  "\<exists>res states.
     run_tick_inner sample_runner (\<lambda>_ _. None) sample_phased ops_state_default 100 [] None False
       (None :: (unit, unit) emit_line) () = Done (res, ())
     \<and> persist_fired_state \<lparr>fault_mkdir = False, fault_write = None, fault_rename = False, fault_remove = False\<rparr>
         ''state'' (tr_fired res) Map.empty = (states, Inr ())
     \<and> \<not> reminder_due 3659 (load_fired_state (last states ''state'')) sample_phased_reminder
     \<and> reminder_due 3660 (load_fired_state (last states ''state'')) sample_phased_reminder"
proof -
  let ?faults = "\<lparr>fault_mkdir = False, fault_write = None, fault_rename = False, fault_remove = False\<rparr>"
  obtain res where res: "run_tick_inner sample_runner (\<lambda>_ _. None) sample_phased ops_state_default 100 [] None False
      (None :: (unit, unit) emit_line) () = Done (res, ())" by (rule sample_tick_returns)
  have "map_option (\<lambda>eff. fst (snd eff))
      (tick_effect sample_runner (\<lambda>_ _. None) sample_phased ops_state_default 100 [] None False) = Some [(''a'', 100)]"
    by code_simp
  then have fired: "tr_fired res = [(''a'', 100)]" using tick_Done_effect[OF sane_no_callback res] by simp
  have valid: "valid_fired_entry (''a'', 100)" by code_simp
  obtain states where persist: "persist_fired_state ?faults ''state'' (tr_fired res) Map.empty = (states, Inr ())"
    using valid by (simp add: fired persist_fired_state_def Let_def)
  have accepted: "config_from_value (config_to_value sample_phased) = Inr sample_phased" by code_simp
  have r: "sample_phased_reminder \<in> set (tc_reminders sample_phased)" by (simp add: sample_phased_def)
  have facts: "rm_cadence_offset_secs sample_phased_reminder = Some 60" "\<not> starts_with (rm_name sample_phased_reminder) ''#''"
      "os_enabled ops_state_default" "reminder_due 100 [] sample_phased_reminder"
      "list_all (flag_truthy (os_flags ops_state_default)) (rm_requires_flags sample_phased_reminder)"
      "rm_gate sample_phased_reminder = None" "rm_cadence_window_secs sample_phased_reminder = None"
      "scheduled_instant (rm_cadence_secs sample_phased_reminder) 60 100 + rm_cadence_secs sample_phased_reminder = 3660"
    by code_simp+
  have "render_emit (rm_emit sample_phased_reminder) [] = Inr ''NOTE: look''" by code_simp
  then have settled: "settled U sample_phased_reminder (eval_gate sample_runner (rm_gate sample_phased_reminder))" for U
    by (simp add: facts settled_def eval_gate_def)
  note due = tick_once_per_period[OF accepted r facts(1,2) sane_no_callback res bt_ok_Nil facts(3-5) settled persist]
  show ?thesis
    using res persist due[of 3659] due[of 3660] facts(7,8) by (auto simp: fired i64_defs)
qed

end
